(* ===== verification/Prelude.thy ===== *)
theory Prelude
  imports Main "HOL-Library.Word"
begin

text \<open>
  Shared vocabulary of the development: the machine integers of the C sources, byte-addressed
  memories with little-endian access, C strings, and the generic lemmas on them that the
  component theories use through the collections \<open>mem_simps\<close> (reading after writing) and
  \<open>word_bounds\<close> (moving word arithmetic to \<open>nat\<close> where it does not wrap).
\<close>

unbundle bit_operations_syntax

named_theorems mem_simps \<open>reads of a byte memory after writes to it\<close>
named_theorems word_bounds \<open>\<open>unat\<close> of word expressions that do not wrap\<close>

section \<open>Machine integers and memories\<close>

type_synonym u8 = "8 word"
type_synonym u16 = "16 word"
type_synonym u32 = "32 word"
type_synonym u64 = "64 word"
type_synonym bytes = "u8 list"

text \<open>A byte-addressed memory: a disk image, a RAM, or a buffer seen through \<open>nth\<close>.\<close>

type_synonym mem = "nat \<Rightarrow> u8"

text \<open>x86-64 is little-endian: an \<open>n\<close>-byte scalar at address \<open>a\<close>, read and written.\<close>

primrec get_le :: "nat \<Rightarrow> mem \<Rightarrow> nat \<Rightarrow> 'a::len word" where
  "get_le 0 m a = 0"
| "get_le (Suc n) m a = ucast (m a) OR push_bit 8 (get_le n m (a + 1))"

primrec put_le :: "nat \<Rightarrow> mem \<Rightarrow> nat \<Rightarrow> 'a::len word \<Rightarrow> mem" where
  "put_le 0 m a v = m"
| "put_le (Suc n) m a v = (put_le n m (a + 1) (drop_bit 8 v))(a := ucast v)"

abbreviation get16 :: "mem \<Rightarrow> nat \<Rightarrow> u16" where "get16 \<equiv> get_le 2"
abbreviation get32 :: "mem \<Rightarrow> nat \<Rightarrow> u32" where "get32 \<equiv> get_le 4"
abbreviation get64 :: "mem \<Rightarrow> nat \<Rightarrow> u64" where "get64 \<equiv> get_le 8"
abbreviation put16 :: "mem \<Rightarrow> nat \<Rightarrow> u16 \<Rightarrow> mem" where "put16 \<equiv> put_le 2"
abbreviation put32 :: "mem \<Rightarrow> nat \<Rightarrow> u32 \<Rightarrow> mem" where "put32 \<equiv> put_le 4"
abbreviation put64 :: "mem \<Rightarrow> nat \<Rightarrow> u64 \<Rightarrow> mem" where "put64 \<equiv> put_le 8"

text \<open>Copying a list of bytes into a memory, and the bytes of a range.\<close>

definition put_bytes :: "mem \<Rightarrow> nat \<Rightarrow> bytes \<Rightarrow> mem" where
  "put_bytes m a bs = (\<lambda>i. if a \<le> i \<and> i < a + length bs then bs ! (i - a) else m i)"

definition get_bytes :: "mem \<Rightarrow> nat \<Rightarrow> nat \<Rightarrow> bytes" where
  "get_bytes m a n = map (\<lambda>i. m (a + i)) [0..<n]"

section \<open>C strings\<close>

text \<open>
  A C string argument is the list of its bytes before the terminating NUL; \<open>cstr_at\<close> reads
  \<open>s[k]\<close>, the NUL included. \<open>of_string\<close> gives the bytes of a string literal, and
  \<open>is_cstr\<close> says that a list is such a string (no NUL inside).
\<close>

definition cstr_at :: "bytes \<Rightarrow> nat \<Rightarrow> u8" where
  "cstr_at s k = (if k < length s then s ! k else 0)"

definition is_cstr :: "bytes \<Rightarrow> bool" where
  "is_cstr s \<longleftrightarrow> 0 \<notin> set s"

definition of_string :: "string \<Rightarrow> bytes" where
  "of_string s = map of_char s"

section \<open>Reading after writing\<close>

lemma get_le_cong:
  "(\<And>i. i < n \<Longrightarrow> m (a + i) = m' (b + i)) \<Longrightarrow> get_le n m a = get_le n m' b"
proof (induction n arbitrary: a b)
  case (Suc n)
  have step: "m (a + 1 + i) = m' (b + 1 + i)" if "i < n" for i
    using Suc.prems [of "Suc i"] that by simp
  have "m a = m' b" using Suc.prems [of 0] by simp
  with Suc.IH [OF step] show ?case by simp
qed simp

lemma put_le_other [mem_simps]: "i < a \<or> a + n \<le> i \<Longrightarrow> put_le n m a v i = m i"
  by (induction n arbitrary: a v) auto

lemma get_le_fun_upd [mem_simps]: "b < a \<or> a + n \<le> b \<Longrightarrow> get_le n (m(b := x)) a = get_le n m a"
  by (rule get_le_cong) auto

lemma get_le_put_other [mem_simps]:
  "a + n \<le> b \<or> b + k \<le> a \<Longrightarrow> get_le n (put_le k m b v) a = get_le n m a"
  by (rule get_le_cong) (auto simp: put_le_other)

lemma ucast_byte_eq: "ucast (ucast v :: u8) = take_bit 8 (v :: 'a::len word)"
  by (rule bit_word_eqI) (auto simp: bit_simps)

lemma get_le_put_le: "get_le n (put_le n m a v) a = take_bit (8 * n) v"
proof (induction n arbitrary: a v)
  case (Suc n)
  have "get_le n (put_le n m (a + 1) (drop_bit 8 v)) (a + 1) = take_bit (8 * n) (drop_bit 8 v)"
    by (rule Suc.IH)
  then have "get_le (Suc n) (put_le (Suc n) m a v) a =
      take_bit 8 v OR push_bit 8 (take_bit (8 * n) (drop_bit 8 v))"
    by (simp add: mem_simps ucast_byte_eq)
  also have "\<dots> = take_bit (8 * Suc n) v"
    by (rule bit_word_eqI) (auto simp: bit_simps)
  finally show ?case .
qed simp

lemma get16_put16 [mem_simps]: "get16 (put16 m a v) a = v"
  and get32_put32 [mem_simps]: "get32 (put32 m a w) a = w"
  and get64_put64 [mem_simps]: "get64 (put64 m a x) a = x"
  by (simp_all add: get_le_put_le take_bit_word_eq_self)

lemma get_le_zeros: "(\<And>i. i < n \<Longrightarrow> m (a + i) = 0) \<Longrightarrow> get_le n m a = 0"
proof (induction n arbitrary: a)
  case (Suc n)
  have "m (a + 1 + i) = 0" if "i < n" for i
    using Suc.prems [of "Suc i"] that by simp
  from Suc.IH [OF this] Suc.prems [of 0] show ?case by simp
qed simp

lemma put_bytes_in: "a \<le> i \<Longrightarrow> i < a + length bs \<Longrightarrow> put_bytes m a bs i = bs ! (i - a)"
  by (simp add: put_bytes_def)

lemma put_bytes_other [mem_simps]: "i < a \<or> a + length bs \<le> i \<Longrightarrow> put_bytes m a bs i = m i"
  by (auto simp: put_bytes_def)

lemma get_le_put_bytes_other [mem_simps]:
  "a + n \<le> b \<or> b + length bs \<le> a \<Longrightarrow> get_le n (put_bytes m b bs) a = get_le n m a"
  by (rule get_le_cong) (auto simp: put_bytes_other)

lemma length_get_bytes [simp]: "length (get_bytes m a n) = n"
  by (simp add: get_bytes_def)

lemma nth_get_bytes [simp]: "i < n \<Longrightarrow> get_bytes m a n ! i = m (a + i)"
  by (simp add: get_bytes_def)

lemma get_bytes_cong:
  "(\<And>i. i < n \<Longrightarrow> m (a + i) = m' (b + i)) \<Longrightarrow> get_bytes m a n = get_bytes m' b n"
  by (simp add: get_bytes_def)

lemma get_bytes_put_bytes [mem_simps]: "length bs = n \<Longrightarrow> get_bytes (put_bytes m a bs) a n = bs"
  by (rule nth_equalityI) (auto simp: put_bytes_in)

lemma get_le_get_bytes:
  "off + k \<le> n \<Longrightarrow> get_le k ((!) (get_bytes m a n)) off = get_le k m (a + off)"
  by (rule get_le_cong) (simp add: add.assoc)

lemma cstr_at_nonzero: "cstr_at s k \<noteq> 0 \<Longrightarrow> k < length s"
  by (auto simp: cstr_at_def split: if_splits)

lemma is_cstr_at: "is_cstr s \<Longrightarrow> cstr_at s k = 0 \<longleftrightarrow> length s \<le> k"
  by (auto simp: is_cstr_def cstr_at_def dest: nth_mem)

section \<open>Words\<close>

lemma unat_add_no_wrap [word_bounds]:
  "unat (a :: 'a::len word) + unat b < 2 ^ LENGTH('a) \<Longrightarrow> unat (a + b) = unat a + unat b"
  by (simp add: unat_word_ariths)

lemma unat_mult_no_wrap [word_bounds]:
  "unat (a :: 'a::len word) * unat b < 2 ^ LENGTH('a) \<Longrightarrow> unat (a * b) = unat a * unat b"
  by (simp add: unat_word_ariths)

lemma unat_diff_no_wrap [word_bounds]:
  "b \<le> a \<Longrightarrow> unat (a - b) = unat a - unat (b :: 'a::len word)"
  by (simp add: unat_sub)

lemma unat_less_power: "unat (w :: 'a::len word) < 2 ^ LENGTH('a)"
  by (rule unsigned_less)

lemma unat_u8_less: "unat (b :: u8) < 256"
  using unat_less_power [of b] by simp

lemma unat_u32_less: "unat (b :: u32) < 4294967296"
  using unat_less_power [of b] by simp

lemma unat_drop_bit: "unat (drop_bit k (w :: 'a::len word)) = unat w div 2 ^ k"
  unfolding unat_drop_bit_eq by (simp add: drop_bit_eq_div)

lemma u8_eqI:
  assumes "bit a 0 = bit b 0" "bit a 1 = bit b 1" "bit a 2 = bit b 2" "bit a 3 = bit b 3"
    and "bit a 4 = bit b 4" "bit a 5 = bit b 5" "bit a 6 = bit b 6" "bit a 7 = bit b 7"
  shows "a = (b :: u8)"
proof (rule bit_word_eqI)
  fix n assume "n < LENGTH(8)"
  then have "n = 0 \<or> n = 1 \<or> n = 2 \<or> n = 3 \<or> n = 4 \<or> n = 5 \<or> n = 6 \<or> n = 7" by auto
  with assms show "bit a n = bit b n" by metis
qed

text \<open>Adjacent bit fields of one word, put together.\<close>

lemma glue_fields:
  "take_bit n x OR push_bit n (take_bit k (drop_bit n x)) = take_bit (n + k) (x :: 'a::len word)"
  by (rule bit_word_eqI) (auto simp: bit_simps)

lemma glue_fields_assoc:
  "take_bit n x OR push_bit n (take_bit k (drop_bit n x)) OR r = take_bit (n + k) (x :: 'a::len word) OR r"
  by (simp add: glue_fields [symmetric] or.assoc)

end
