(* ===== verification/Heap.thy ===== *)
theory Heap
  imports Prelude
begin

text \<open>
  The kernel heap, \<^verbatim>\<open>src/kernel/memory.c\<close>: a bump allocator over a static 16 MB array.
  The state is the static variable \<open>heap_offset\<close>; a pointer \<open>&heap[off]\<close> is \<open>Some off\<close>
  and the null pointer is \<open>None\<close>. All arithmetic is that of \<open>uint32_t\<close>, so the two
  wrap-arounds of the code (rounding the size up, and adding it to the offset) are in the model.
\<close>

unbundle bit_operations_syntax

section \<open>Model\<close>

definition HEAP_SIZE :: u32 where
  "HEAP_SIZE = 16 * 1024 * 1024"

record heap_state =
  heap_offset :: u32

definition memory_init :: "heap_state \<Rightarrow> heap_state" where
  "memory_init h = h\<lparr>heap_offset := 0\<rparr>"

definition align8 :: "u32 \<Rightarrow> u32" where
  "align8 sz = (sz + 7) AND NOT 7"

definition kmalloc :: "u32 \<Rightarrow> heap_state \<Rightarrow> u32 option \<times> heap_state" where
  "kmalloc sz h =
     (let sz' = align8 sz in
      if heap_offset h + sz' > HEAP_SIZE then (None, h)
      else (Some (heap_offset h), h\<lparr>heap_offset := heap_offset h + sz'\<rparr>))"

definition kfree :: "u32 option \<Rightarrow> heap_state \<Rightarrow> heap_state" where
  "kfree ptr h = h"

text \<open>
  A client of the heap issues calls to \<open>kmalloc\<close> and \<open>kfree\<close>; \<open>heap_run\<close> lists the blocks
  granted by a sequence of calls, each with the size asked for.
\<close>

datatype heap_call = Malloc u32 | Free "u32 option"

fun heap_step :: "heap_call \<Rightarrow> heap_state \<Rightarrow> u32 option \<times> heap_state" where
  "heap_step (Malloc sz) h = kmalloc sz h"
| "heap_step (Free ptr) h = (None, kfree ptr h)"

fun grants :: "('n \<Rightarrow> 's \<Rightarrow> 'p option \<times> 's) \<Rightarrow> 'n list \<Rightarrow> 's \<Rightarrow> ('p \<times> 'n) list" where
  "grants alloc [] s = []"
| "grants alloc (n # ns) s = (case alloc n s of
      (None, s') \<Rightarrow> grants alloc ns s'
    | (Some p, s') \<Rightarrow> (p, n) # grants alloc ns s')"

section \<open>The interface of an arena allocator\<close>

text \<open>
  What a client of an arena relies on: a granted request is a block starting at the old top and
  ending at or before the new one, inside the capacity; a call that grants nothing changes
  nothing. From this the blocks granted by any sequence of calls are pairwise disjoint.
\<close>

locale arena =
  fixes alloc :: "'n \<Rightarrow> 's \<Rightarrow> 'p option \<times> 's"
    and top :: "'s \<Rightarrow> nat"
    and start :: "'p \<Rightarrow> nat"
    and len :: "'n \<Rightarrow> nat"
    and cap :: nat
    and ok :: "'n \<Rightarrow> bool"
    and inv :: "'s \<Rightarrow> bool"
  assumes alloc_inv: "inv s \<Longrightarrow> ok n \<Longrightarrow> inv (snd (alloc n s))"
    and alloc_Some: "inv s \<Longrightarrow> ok n \<Longrightarrow> alloc n s = (Some p, s') \<Longrightarrow>
      start p = top s \<and> top s + len n \<le> top s' \<and> top s' \<le> cap"
    and alloc_None: "inv s \<Longrightarrow> ok n \<Longrightarrow> alloc n s = (None, s') \<Longrightarrow> s' = s"
begin

lemma grants_above:
  "inv s \<Longrightarrow> \<forall>n \<in> set ns. ok n \<Longrightarrow> (p, n) \<in> set (grants alloc ns s) \<Longrightarrow>
   top s \<le> start p \<and> start p + len n \<le> cap"
proof (induction ns arbitrary: s)
  case (Cons m ns)
  obtain q s' where al: "alloc m s = (q, s')" by fastforce
  with Cons.prems have inv': "inv s'" using alloc_inv [of s m] by simp
  show ?case
  proof (cases q)
    case None
    with al Cons.prems have "s' = s" using alloc_None [of s m] by simp
    with None al Cons show ?thesis by simp
  next
    case (Some r)
    with al Cons.prems have r: "start r = top s" "top s + len m \<le> top s'" "top s' \<le> cap"
      using alloc_Some [of s m r s'] by simp_all
    from Some al Cons.prems consider "p = r" "n = m" | "(p, n) \<in> set (grants alloc ns s')"
      by auto
    then show ?thesis
    proof cases
      case 1
      with r show ?thesis by simp
    next
      case 2
      with Cons.IH [OF inv'] Cons.prems r show ?thesis by fastforce
    qed
  qed
qed simp

lemma grants_disjoint:
  "inv s \<Longrightarrow> \<forall>n \<in> set ns. ok n \<Longrightarrow>
   sorted_wrt (\<lambda>(p, n) (q, m). start p + len n \<le> start q) (grants alloc ns s)"
proof (induction ns arbitrary: s)
  case (Cons m ns)
  obtain q s' where al: "alloc m s = (q, s')" by fastforce
  with Cons.prems have inv': "inv s'" using alloc_inv [of s m] by simp
  have rest: "sorted_wrt (\<lambda>(p, n) (q, m). start p + len n \<le> start q) (grants alloc ns s')"
    using Cons inv' by simp
  show ?case
  proof (cases q)
    case None
    with al rest show ?thesis by simp
  next
    case (Some r)
    with al Cons.prems have r: "start r = top s" "top s + len m \<le> top s'"
      using alloc_Some [of s m r s'] by simp_all
    have "start r + len m \<le> start p" if "(p, n) \<in> set (grants alloc ns s')" for p n
      using grants_above [OF inv' _ that] Cons.prems r by simp
    with Some al rest show ?thesis by auto
  qed
qed simp

lemma grants_origin:
  "inv s \<Longrightarrow> \<forall>n \<in> set ns. ok n \<Longrightarrow> (p, n) \<in> set (grants alloc ns s) \<Longrightarrow>
   \<exists>s'. inv s' \<and> start p = top s'"
proof (induction ns arbitrary: s)
  case (Cons m ns)
  obtain q s' where al: "alloc m s = (q, s')" by fastforce
  with Cons.prems have inv': "inv s'" using alloc_inv [of s m] by simp
  show ?case
  proof (cases "(p, n) \<in> set (grants alloc ns s')")
    case True
    with Cons inv' show ?thesis by simp
  next
    case False
    with al Cons.prems have "alloc m s = (Some p, s')" by (auto split: option.splits)
    with Cons.prems show ?thesis using alloc_Some [of s m p s'] by auto
  qed
qed simp

end

section \<open>The kernel's allocator is an arena\<close>

definition heap_ok :: "heap_state \<Rightarrow> bool" where
  "heap_ok h \<longleftrightarrow> heap_offset h \<le> HEAP_SIZE \<and> 8 dvd unat (heap_offset h)"

text \<open>Requests of at most the heap's size: for these nothing wraps.\<close>

fun call_ok :: "heap_call \<Rightarrow> bool" where
  "call_ok (Malloc sz) = (sz \<le> HEAP_SIZE)"
| "call_ok (Free ptr) = True"

fun call_size :: "heap_call \<Rightarrow> nat" where
  "call_size (Malloc sz) = unat sz"
| "call_size (Free ptr) = 0"

lemma unat_HEAP_SIZE [simp]: "unat HEAP_SIZE = 16777216"
  by (simp add: HEAP_SIZE_def)

lemma and_not7: "(w :: u32) AND NOT 7 = push_bit 3 (drop_bit 3 w)"
proof (rule bit_word_eqI)
  have m: "(7 :: u32) = mask 3" by (simp add: mask_eq_exp_minus_1)
  show "bit (w AND NOT 7) n = bit (push_bit 3 (drop_bit 3 w)) n" if "n < LENGTH(32)" for n
    unfolding m using that by (auto simp: bit_simps)
qed

lemma unat_and_not7: "unat ((w :: u32) AND NOT 7) = 8 * (unat w div 8)"
proof -
  have "unat (drop_bit 3 w) = unat w div 8"
    unfolding unat_drop_bit_eq by (simp add: drop_bit_eq_div)
  moreover have "8 * (unat w div 8) < 2 ^ 32"
    using unat_u32_less [of w] by simp
  ultimately show ?thesis
    unfolding and_not7 push_bit_eq_mult by (simp add: unat_word_ariths mult.commute)
qed

lemma unat_align8:
  assumes "unat sz < 2 ^ 32 - 7"
  shows "unat (align8 sz) = 8 * ((unat sz + 7) div 8)"
proof -
  have "unat (sz + 7) = unat sz + 7" using assms by (simp add: unat_word_ariths)
  then show ?thesis unfolding align8_def unat_and_not7 by simp
qed

lemma kmalloc_cases:
  assumes "heap_ok h" and "sz \<le> HEAP_SIZE"
  shows "kmalloc sz h =
    (if unat (heap_offset h) + 8 * ((unat sz + 7) div 8) > 16777216 then (None, h)
     else (Some (heap_offset h), h\<lparr>heap_offset := heap_offset h + align8 sz\<rparr>))"
    and "unat (heap_offset h + align8 sz) = unat (heap_offset h) + 8 * ((unat sz + 7) div 8)"
proof -
  have sz: "unat sz \<le> 16777216" and off: "unat (heap_offset h) \<le> 16777216"
    using assms by (simp_all add: heap_ok_def word_le_nat_alt)
  have al: "unat (align8 sz) = 8 * ((unat sz + 7) div 8)" using sz by (simp add: unat_align8)
  show sum: "unat (heap_offset h + align8 sz) = unat (heap_offset h) + 8 * ((unat sz + 7) div 8)"
    using sz off by (simp add: unat_word_ariths al)
  show "kmalloc sz h =
    (if unat (heap_offset h) + 8 * ((unat sz + 7) div 8) > 16777216 then (None, h)
     else (Some (heap_offset h), h\<lparr>heap_offset := heap_offset h + align8 sz\<rparr>))"
    by (simp add: kmalloc_def Let_def word_less_nat_alt sum)
qed

lemma heap_ok_init: "heap_ok (memory_init h)"
  by (simp add: heap_ok_def memory_init_def)

lemma heap_ok_kmalloc: "heap_ok h \<Longrightarrow> sz \<le> HEAP_SIZE \<Longrightarrow> heap_ok (snd (kmalloc sz h))"
  using kmalloc_cases [of h sz] by (auto simp: heap_ok_def word_le_nat_alt)

lemma kmalloc_Some:
  assumes "heap_ok h" "sz \<le> HEAP_SIZE" "kmalloc sz h = (Some p, h')"
  shows "p = heap_offset h" "unat (heap_offset h) + unat sz \<le> unat (heap_offset h')"
    "unat (heap_offset h') \<le> 16777216"
  using kmalloc_cases [OF assms(1,2)] assms(3) by (auto split: if_splits)

lemma kmalloc_None: "kmalloc sz h = (None, h') \<Longrightarrow> h' = h"
  by (auto simp: kmalloc_def Let_def split: if_splits)

interpretation heap: arena heap_step "\<lambda>h. unat (heap_offset h)" unat call_size 16777216
  call_ok heap_ok
proof
  fix h n p h'
  assume "heap_ok h" "call_ok n"
  then show "heap_ok (snd (heap_step n h))"
    by (cases n) (auto simp: heap_ok_kmalloc kfree_def)
  show "unat p = unat (heap_offset h) \<and>
      unat (heap_offset h) + call_size n \<le> unat (heap_offset h') \<and>
      unat (heap_offset h') \<le> 16777216" if "heap_step n h = (Some p, h')"
    using that \<open>heap_ok h\<close> \<open>call_ok n\<close> kmalloc_Some [of h _ p h'] by (cases n) auto
  show "h' = h" if "heap_step n h = (None, h')"
    using that by (cases n) (auto simp: kfree_def dest: kmalloc_None)
qed


section \<open>Properties\<close>

text \<open>C19: blocks granted by any sequence of kmalloc and kfree calls after memory_init, with requests of
  at most the heap's size, lie inside the 16 MB heap, start at 8-byte boundaries and are pairwise
  disjoint: each ends before every later one starts.\<close>

theorem heap_blocks_disjoint:
  assumes "\<forall>c \<in> set calls. call_ok c"
  shows "sorted_wrt (\<lambda>(p, c) (q, d). unat p + call_size c \<le> unat q)
           (grants heap_step calls (memory_init h)) \<and>
         (\<forall>(p, c) \<in> set (grants heap_step calls (memory_init h)).
           8 dvd unat p \<and> unat p + call_size c \<le> unat HEAP_SIZE)"
proof -
  have "8 dvd unat p \<and> unat p + call_size c \<le> unat HEAP_SIZE"
    if "(p, c) \<in> set (grants heap_step calls (memory_init h))" for p c
    using heap.grants_above [OF heap_ok_init assms that]
      heap.grants_origin [OF heap_ok_init assms that] by (auto simp: heap_ok_def)
  with heap.grants_disjoint [OF heap_ok_init assms] show ?thesis by auto
qed

theorem heap_blocks_disjoint_witness:
  "grants heap_step [Malloc 13, Free None, Malloc 16777216, Malloc 5] (memory_init \<lparr>heap_offset = 3\<rparr>) =
     [(0, Malloc 13), (16, Malloc 5)] \<and>
   sorted_wrt (\<lambda>(p, c) (q, d). unat p + call_size c \<le> unat q)
     [(0, Malloc 13), (16 :: u32, Malloc 5)]"
proof -
  let ?cs = "[Malloc 13, Free None, Malloc 16777216, Malloc 5]"
  have g: "grants heap_step ?cs (memory_init \<lparr>heap_offset = 3\<rparr>) = [(0, Malloc 13), (16, Malloc 5)]"
    by (simp add: kmalloc_def memory_init_def kfree_def align8_def HEAP_SIZE_def)
  have "\<forall>c \<in> set ?cs. call_ok c" by (simp add: HEAP_SIZE_def)
  from heap_blocks_disjoint [OF this, of "\<lparr>heap_offset = 3\<rparr>"] g show ?thesis by simp
qed

text \<open>A request within 7 bytes of 4 GB wraps to a small size, so kmalloc grants it and moves the
  heap offset backwards by 8 bytes: the block it returns and the last 8 bytes granted before it
  are handed out again by the next request.\<close>

theorem kmalloc_wraps_backwards:
  assumes "8 \<le> heap_offset h" and "heap_offset h \<le> HEAP_SIZE"
  shows "kmalloc 0xFFFFFFF8 h = (Some (heap_offset h), h\<lparr>heap_offset := heap_offset h - 8\<rparr>)"
proof -
  have "align8 0xFFFFFFF8 = - 8" by (simp add: align8_def)
  moreover have "heap_offset h - 8 \<le> heap_offset h"
    using assms(1) by (simp add: word_le_nat_alt unat_diff_no_wrap)
  ultimately show ?thesis
    using assms by (auto simp: kmalloc_def Let_def not_less)
qed

theorem kmalloc_wraps_backwards_witness:
  "kmalloc 0xFFFFFFF8 \<lparr>heap_offset = 64\<rparr> = (Some 64, \<lparr>heap_offset = 56\<rparr>)"
  using kmalloc_wraps_backwards [of "\<lparr>heap_offset = 64\<rparr>"] by (simp add: HEAP_SIZE_def)

end
