(* ===== verification/Hardware.thy ===== *)
theory Hardware
  imports Prelude
begin

text \<open>
  The hardware the kernel talks to is not code of the repository. It is a parameter: a record of
  the primitive accesses the C code makes (the inline assembly \<^verbatim>\<open>outl\<close>, \<^verbatim>\<open>inl\<close>, \<^verbatim>\<open>inb\<close>,
  and volatile 32-bit loads and stores of device registers), each acting on a world of type
  \<open>'w\<close>, and the RAM part of that world. A device may change the RAM at any access (DMA).
\<close>

record 'w hw =
  outl_op :: "u16 \<Rightarrow> u32 \<Rightarrow> 'w \<Rightarrow> 'w"
  inl_op :: "u16 \<Rightarrow> 'w \<Rightarrow> u32 \<times> 'w"
  inb_op :: "u16 \<Rightarrow> 'w \<Rightarrow> u8 \<times> 'w"
  ld32_op :: "u64 \<Rightarrow> 'w \<Rightarrow> u32 \<times> 'w"
  st32_op :: "u64 \<Rightarrow> u32 \<Rightarrow> 'w \<Rightarrow> 'w"
  ram_op :: "'w \<Rightarrow> mem"
  set_ram_op :: "mem \<Rightarrow> 'w \<Rightarrow> 'w"

end
