(* ===== verification/Pci.thy ===== *)
theory Pci
  imports Hardware
begin

text \<open>
  PCI configuration access and the search for the AHCI controller,
  \<^verbatim>\<open>src/kernel/pci.c\<close>. Every access goes through the two I/O ports 0xCF8 and 0xCFC of the
  hardware parameter. The laws of that mechanism are the locale \<open>pci_config\<close>.
\<close>

unbundle bit_operations_syntax

section \<open>Model\<close>

definition PCI_CONFIG_ADDRESS :: u16 where "PCI_CONFIG_ADDRESS = 0xCF8"
definition PCI_CONFIG_DATA :: u16 where "PCI_CONFIG_DATA = 0xCFC"

definition outl :: "'w hw \<Rightarrow> u16 \<Rightarrow> u32 \<Rightarrow> 'w \<Rightarrow> 'w" where
  "outl hw port value w = outl_op hw port value w"

definition inl :: "'w hw \<Rightarrow> u16 \<Rightarrow> 'w \<Rightarrow> u32 \<times> 'w" where
  "inl hw port w = inl_op hw port w"

definition pci_address :: "u8 \<Rightarrow> u8 \<Rightarrow> u8 \<Rightarrow> u8 \<Rightarrow> u32" where
  "pci_address bus slot func offset =
     push_bit 16 (ucast bus) OR push_bit 11 (ucast slot) OR
     push_bit 8 (ucast func) OR ucast (offset AND 0xFC) OR 0x80000000"

definition pci_read :: "'w hw \<Rightarrow> u8 \<Rightarrow> u8 \<Rightarrow> u8 \<Rightarrow> u8 \<Rightarrow> 'w \<Rightarrow> u32 \<times> 'w" where
  "pci_read hw bus slot func offset w =
     (let address = pci_address bus slot func offset;
          w1 = outl hw PCI_CONFIG_ADDRESS address w
      in inl hw PCI_CONFIG_DATA w1)"

text \<open>
  The body of the inner loop: \<open>None\<close> is \<^verbatim>\<open>continue\<close> or the end of the body, \<open>Some\<close> the
  early return. The loops run over the lists of the values their counters take; the counter
  \<^verbatim>\<open>uint16_t bus\<close> is narrowed to \<^verbatim>\<open>uint8_t\<close> by the call.
\<close>

definition pci_probe :: "'w hw \<Rightarrow> u16 \<Rightarrow> u8 \<Rightarrow> 'w \<Rightarrow> u64 option \<times> 'w" where
  "pci_probe hw bus slot w =
     (let (vendor, w1) = pci_read hw (ucast bus) slot 0 0 w in
      if vendor AND 0xFFFF = 0xFFFF then (None, w1)
      else
        (let (cls, w2) = pci_read hw (ucast bus) slot 0 8 w1;
             class_code = (ucast (drop_bit 24 cls AND 0xFF) :: u8);
             subclass = (ucast (drop_bit 16 cls AND 0xFF) :: u8)
         in if class_code = 0x01 \<and> subclass = 0x06 then
              (let (bar5, w3) = pci_read hw (ucast bus) slot 0 0x24 w2
               in (Some (ucast (bar5 AND 0xFFFFFFF0)), w3))
            else (None, w2)))"

fun pci_scan_slots :: "'w hw \<Rightarrow> u16 \<Rightarrow> u8 list \<Rightarrow> 'w \<Rightarrow> u64 option \<times> 'w" where
  "pci_scan_slots hw bus [] w = (None, w)"
| "pci_scan_slots hw bus (slot # slots) w =
     (case pci_probe hw bus slot w of
        (Some r, w') \<Rightarrow> (Some r, w')
      | (None, w') \<Rightarrow> pci_scan_slots hw bus slots w')"

fun pci_scan_buses :: "'w hw \<Rightarrow> u16 list \<Rightarrow> 'w \<Rightarrow> u64 option \<times> 'w" where
  "pci_scan_buses hw [] w = (None, w)"
| "pci_scan_buses hw (bus # buses) w =
     (case pci_scan_slots hw bus (map of_nat [0..<32]) w of
        (Some r, w') \<Rightarrow> (Some r, w')
      | (None, w') \<Rightarrow> pci_scan_buses hw buses w')"

definition pci_find_ahci :: "'w hw \<Rightarrow> 'w \<Rightarrow> u64 \<times> 'w" where
  "pci_find_ahci hw w =
     (case pci_scan_buses hw (map of_nat [0..<256]) w of
        (Some r, w') \<Rightarrow> (r, w')
      | (None, w') \<Rightarrow> (0, w'))"

section \<open>The specification of the search\<close>

text \<open>
  Over a configuration space \<open>cfg\<close> (the 32-bit register at each address): the controller is
  function 0 of the first device, in the order of (bus, slot), that is present and has class 1
  (mass storage) and subclass 6 (SATA).
\<close>

definition present :: "(u32 \<Rightarrow> u32) \<Rightarrow> u8 \<Rightarrow> u8 \<Rightarrow> bool" where
  "present cfg bus slot \<longleftrightarrow> take_bit 16 (cfg (pci_address bus slot 0 0)) \<noteq> 0xFFFF"

definition is_ahci :: "(u32 \<Rightarrow> u32) \<Rightarrow> u8 \<times> u8 \<Rightarrow> bool" where
  "is_ahci cfg = (\<lambda>(bus, slot). present cfg bus slot \<and>
     drop_bit 16 (cfg (pci_address bus slot 0 8)) = 0x0106)"

definition ahci_bar :: "(u32 \<Rightarrow> u32) \<Rightarrow> u8 \<times> u8 \<Rightarrow> u64" where
  "ahci_bar cfg = (\<lambda>(bus, slot). ucast (cfg (pci_address bus slot 0 0x24) AND 0xFFFFFFF0))"

definition pci_slots :: "(u8 \<times> u8) list" where
  "pci_slots = List.product (map of_nat [0..<256]) (map of_nat [0..<32])"

definition pci_ahci_spec :: "(u32 \<Rightarrow> u32) \<Rightarrow> u64" where
  "pci_ahci_spec cfg = (case find (is_ahci cfg) pci_slots of None \<Rightarrow> 0 | Some bs \<Rightarrow> ahci_bar cfg bs)"

lemma ff_mask: "(0xFF :: u32) = mask 8"
  by (simp add: mask_eq_exp_minus_1)

lemma class_match:
  "(ucast (drop_bit 24 c AND 0xFF) :: u8) = 1 \<and> (ucast (drop_bit 16 c AND 0xFF) :: u8) = 6 \<longleftrightarrow>
   drop_bit 16 (c :: u32) = 0x0106"
proof -
  have byte: "unat (ucast (drop_bit k c AND 0xFF) :: u8) = unat c div 2 ^ k mod 256" for k
  proof -
    have "ucast (drop_bit k c AND 0xFF) = (ucast (drop_bit k c) :: u8)"
      by (rule bit_word_eqI) (auto simp: bit_simps ff_mask)
    then show ?thesis
      by (simp add: unsigned_ucast_eq unat_drop_bit take_bit_eq_mod)
  qed
  have 2: "unat c < 4294967296" by (rule unat_u32_less)
  have "(ucast (drop_bit 24 c AND 0xFF) :: u8) = 1 \<longleftrightarrow> unat c div 2 ^ 24 mod 256 = 1"
    "(ucast (drop_bit 16 c AND 0xFF) :: u8) = 6 \<longleftrightarrow> unat c div 2 ^ 16 mod 256 = 6"
    "drop_bit 16 c = 0x0106 \<longleftrightarrow> unat c div 2 ^ 16 = 262"
    using byte [of 24] byte [of 16] unat_drop_bit [of 16 c] by (auto simp: word_unat_eq_iff)
  moreover have "unat c div 2 ^ 24 = unat c div 2 ^ 16 div 256"
    by (simp add: div_mult2_eq [symmetric])
  moreover have "unat c div 2 ^ 16 < 65536" using 2 by simp
  moreover have "(x div 256 mod 256 = 1 \<and> x mod 256 = 6) = (x = 262)" if "x < 65536" for x :: nat
  proof -
    have lt: "x div 256 < 256" using that by simp
    show ?thesis
    proof
      assume "x div 256 mod 256 = 1 \<and> x mod 256 = 6"
      with lt have "x div 256 = 1" "x mod 256 = 6" by simp_all
      moreover have "x = x div 256 * 256 + x mod 256" by simp
      ultimately show "x = 262" by linarith
    qed simp
  qed
  ultimately show ?thesis by simp
qed

lemma low16: "(v :: u32) AND 0xFFFF = take_bit 16 v"
  by (simp add: take_bit_eq_mask mask_eq_exp_minus_1)

lemma find_append: "find P (xs @ ys) = (case find P xs of Some x \<Rightarrow> Some x | None \<Rightarrow> find P ys)"
  by (induction xs) auto

lemma narrow_buses: "map ucast (map of_nat [0..<256] :: u16 list) = (map of_nat [0..<256] :: u8 list)"
  by (auto intro!: bit_word_eqI simp: bit_simps simp del: upt_rec_numeral)

section \<open>The laws of the configuration mechanism and what follows from them\<close>

text \<open>
  PCI configuration mechanism 1: after an address is latched in port 0xCF8, port 0xCFC reads the
  register of the configuration space at that address.
\<close>

locale pci_config =
  fixes hw :: "'w hw"
    and cfg :: "'w \<Rightarrow> u32 \<Rightarrow> u32"
    and ok :: "'w \<Rightarrow> bool"
  assumes config_data: "ok w \<Longrightarrow> inl_op hw 0xCFC (outl_op hw 0xCF8 a w) = (v, w') \<Longrightarrow> v = cfg w a"
    and config_keeps: "ok w \<Longrightarrow> inl_op hw 0xCFC (outl_op hw 0xCF8 a w) = (v, w') \<Longrightarrow>
      ok w' \<and> cfg w' = cfg w"
begin

lemma pci_read_cfg:
  assumes "ok w" "pci_read hw b s f off w = (v, w')"
  shows "v = cfg w (pci_address b s f off)" "ok w'" "cfg w' = cfg w"
  using assms config_data config_keeps
  by (auto simp: pci_read_def outl_def inl_def PCI_CONFIG_ADDRESS_def PCI_CONFIG_DATA_def Let_def)

lemma probe_cfg:
  assumes "ok w" "pci_probe hw bus slot w = (r, w')"
  shows "r = (if is_ahci (cfg w) (ucast bus, slot) then Some (ahci_bar (cfg w) (ucast bus, slot))
     else None)" "ok w'" "cfg w' = cfg w"
proof -
  obtain v w1 where 1: "pci_read hw (ucast bus) slot 0 0 w = (v, w1)" by fastforce
  note r1 = pci_read_cfg [OF assms(1) 1]
  obtain c w2 where 2: "pci_read hw (ucast bus) slot 0 8 w1 = (c, w2)" by fastforce
  note r2 = pci_read_cfg [OF r1(2) 2]
  obtain b w3 where 3: "pci_read hw (ucast bus) slot 0 0x24 w2 = (b, w3)" by fastforce
  note r3 = pci_read_cfg [OF r2(2) 3]
  note defs = pci_probe_def is_ahci_def ahci_bar_def present_def Let_def 1 2 3 class_match low16
  show "r = (if is_ahci (cfg w) (ucast bus, slot) then Some (ahci_bar (cfg w) (ucast bus, slot))
     else None)" "ok w'" "cfg w' = cfg w"
    using assms(2) r1 r2 r3 by (auto simp: defs split: if_splits)
qed

lemma scan_slots_cfg:
  "ok w \<Longrightarrow> pci_scan_slots hw bus slots w = (r, w') \<Longrightarrow>
   r = map_option (ahci_bar (cfg w)) (find (is_ahci (cfg w)) (map (Pair (ucast bus)) slots)) \<and>
   ok w' \<and> cfg w' = cfg w"
proof (induction slots arbitrary: w)
  case (Cons slot slots)
  obtain q w1 where p: "pci_probe hw bus slot w = (q, w1)" by fastforce
  from probe_cfg [OF Cons.prems(1) p] Cons.prems(2) Cons.IH [of w1] p show ?case
    by (auto split: if_splits)
qed auto

lemma scan_buses_cfg:
  "ok w \<Longrightarrow> pci_scan_buses hw buses w = (r, w') \<Longrightarrow>
   r = map_option (ahci_bar (cfg w))
     (find (is_ahci (cfg w)) (List.product (map ucast buses) (map of_nat [0..<32]))) \<and>
   ok w' \<and> cfg w' = cfg w"
proof (induction buses arbitrary: w)
  case (Cons bus buses)
  obtain q w1 where p: "pci_scan_slots hw bus (map of_nat [0..<32]) w = (q, w1)" by fastforce
  from scan_slots_cfg [OF Cons.prems(1) p] Cons.prems(2) Cons.IH [of w1] p show ?case
    by (auto simp: find_append split: option.splits)
qed auto

lemma find_ahci_cfg:
  assumes "ok w"
  shows "fst (pci_find_ahci hw w) = pci_ahci_spec (cfg w)"
    and "ok (snd (pci_find_ahci hw w))" and "cfg (snd (pci_find_ahci hw w)) = cfg w"
proof -
  obtain r w' where s: "pci_scan_buses hw (map of_nat [0..<256]) w = (r, w')" by fastforce
  note c = scan_buses_cfg [OF assms s, unfolded narrow_buses]
  show "fst (pci_find_ahci hw w) = pci_ahci_spec (cfg w)"
    "ok (snd (pci_find_ahci hw w))" "cfg (snd (pci_find_ahci hw w)) = cfg w"
    using c by (auto simp: pci_find_ahci_def s pci_ahci_spec_def pci_slots_def
        simp del: upt_rec_numeral split: option.splits)
qed

end

end
