(* ===== verification/Ahci.thy ===== *)
theory Ahci
  imports Pci
begin

text \<open>
  The AHCI driver: \<^verbatim>\<open>src/kernel/ahci.c\<close> with the register map of \<^verbatim>\<open>src/kernel/ahci.h\<close> and the
  in-memory structures of \<^verbatim>\<open>src/kernel/ahci_structs.h\<close>. Registers are read and written through
  the hardware parameter; the command header, the command table and the FIS are bytes of the RAM,
  written at the offsets their packed C declarations give. A busy-wait that has no bound in the
  code is a \<^theory_text>\<open>partial_function\<close> whose value is \<open>None\<close> when it never ends.
\<close>

unbundle bit_operations_syntax

section \<open>Registers\<close>

definition PORT_CLB :: u32 where "PORT_CLB = 0x00"
definition PORT_CLBU :: u32 where "PORT_CLBU = 0x04"
definition PORT_FB :: u32 where "PORT_FB = 0x08"
definition PORT_FBU :: u32 where "PORT_FBU = 0x0C"
definition PORT_IS :: u32 where "PORT_IS = 0x10"
definition PORT_CMD :: u32 where "PORT_CMD = 0x18"
definition PORT_SIG :: u32 where "PORT_SIG = 0x24"
definition PORT_SSTS :: u32 where "PORT_SSTS = 0x28"
definition PORT_SERR :: u32 where "PORT_SERR = 0x30"
definition PORT_CI :: u32 where "PORT_CI = 0x38"
definition SATA_SIG_ATA :: u32 where "SATA_SIG_ATA = 0x00000101"

lemmas port_regs = PORT_CLB_def PORT_CLBU_def PORT_FB_def PORT_FBU_def PORT_IS_def PORT_CMD_def
  PORT_SIG_def PORT_SSTS_def PORT_SERR_def PORT_CI_def

text \<open>
  \<open>HBA_MEM\<close>: the generic registers \<open>ghc\<close> and \<open>pi\<close> at their packed offsets, and the array of
  \<open>HBA_PORT\<close> blocks, 0x80 bytes each, from offset 0x100.
\<close>

definition hba_ghc :: "u64 \<Rightarrow> u64" where "hba_ghc base = base + 0x04"
definition hba_pi :: "u64 \<Rightarrow> u64" where "hba_pi base = base + 0x0C"

definition hba_port :: "u64 \<Rightarrow> nat \<Rightarrow> u64" where
  "hba_port base port = base + 0x100 + of_nat port * 0x80"

text \<open>The static variables \<open>hba\<close> (NULL is 0) and \<open>active_port\<close> (-1 for none).\<close>

record ahci_state =
  hba :: u64
  active_port :: int

definition ahci_boot :: ahci_state where
  "ahci_boot = \<lparr>hba = 0, active_port = -1\<rparr>"

definition port_read :: "'w hw \<Rightarrow> u64 \<Rightarrow> nat \<Rightarrow> u32 \<Rightarrow> 'w \<Rightarrow> u32 \<times> 'w" where
  "port_read hw base port offset w = ld32_op hw (hba_port base port + ucast offset) w"

definition port_write :: "'w hw \<Rightarrow> u64 \<Rightarrow> nat \<Rightarrow> u32 \<Rightarrow> u32 \<Rightarrow> 'w \<Rightarrow> 'w" where
  "port_write hw base port offset value w = st32_op hw (hba_port base port + ucast offset) value w"

section \<open>Start-up\<close>

definition clb_addr :: "nat \<Rightarrow> u32" where "clb_addr port = 0x100000 + of_nat port * 0x400"
definition fb_addr :: "nat \<Rightarrow> u32" where "fb_addr port = 0x108000 + of_nat port * 0x100"
definition ctba_addr :: "nat \<Rightarrow> u32" where "ctba_addr port = 0x110000 + of_nat port * 0x100"

text \<open>\<^verbatim>\<open>while (port_read(port, PORT_CMD) & mask) {}\<close>, the two unbounded waits of \<open>port_rebase\<close>.\<close>

partial_function (option) port_wait :: "'w hw \<Rightarrow> u64 \<Rightarrow> nat \<Rightarrow> u32 \<Rightarrow> 'w \<Rightarrow> 'w option" where
  "port_wait hw base port msk w =
     (case port_read hw base port PORT_CMD w of (v, w') \<Rightarrow>
        if v AND msk \<noteq> 0 then port_wait hw base port msk w' else Some w')"

definition port_rebase :: "'w hw \<Rightarrow> u64 \<Rightarrow> nat \<Rightarrow> 'w \<Rightarrow> 'w option" where
  "port_rebase hw base port w =
     (let (cmd, w) = port_read hw base port PORT_CMD w;
          cmd = cmd AND NOT 0x01;
          cmd = cmd AND NOT 0x10;
          w = port_write hw base port PORT_CMD cmd w
      in case port_wait hw base port 0xC000 w of None \<Rightarrow> None | Some w \<Rightarrow>
     (let w = port_write hw base port PORT_CLB (clb_addr port) w;
          w = port_write hw base port PORT_CLBU 0 w;
          w = port_write hw base port PORT_FB (fb_addr port) w;
          w = port_write hw base port PORT_FBU 0 w;
          w = port_write hw base port PORT_SERR 0xFFFFFFFF w;
          w = port_write hw base port PORT_IS 0xFFFFFFFF w
      in case port_wait hw base port 0x8000 w of None \<Rightarrow> None | Some w \<Rightarrow>
     (let (cmd, w) = port_read hw base port PORT_CMD w;
          cmd = cmd OR 0x10;
          cmd = cmd OR 0x01
      in Some (port_write hw base port PORT_CMD cmd w))))"

text \<open>
  The probe loop of \<open>ahci_init\<close>: a port that is implemented, with a device detected
  (\<open>det = 3\<close>) and active (\<open>ipm = 1\<close>) whose signature is ATA, becomes the active port; a later
  one replaces an earlier one.
\<close>

definition probe_port :: "'w hw \<Rightarrow> u64 \<Rightarrow> u32 \<Rightarrow> nat \<Rightarrow> int \<Rightarrow> 'w \<Rightarrow> int \<times> 'w" where
  "probe_port hw base pi i active w =
     (if pi AND push_bit i 1 = 0 then (active, w)
      else
        (let (ssts, w) = port_read hw base i PORT_SSTS w;
             det = ssts AND 0x0F;
             ipm = drop_bit 8 ssts AND 0x0F
         in if det = 3 \<and> ipm = 1 then
              (let (sig, w) = port_read hw base i PORT_SIG w
               in if sig = SATA_SIG_ATA then (int i, w) else (active, w))
            else (active, w)))"

fun probe_ports :: "'w hw \<Rightarrow> u64 \<Rightarrow> u32 \<Rightarrow> nat list \<Rightarrow> int \<Rightarrow> 'w \<Rightarrow> int \<times> 'w" where
  "probe_ports hw base pi [] active w = (active, w)"
| "probe_ports hw base pi (i # is) active w =
     (let (active, w) = probe_port hw base pi i active w
      in probe_ports hw base pi is active w)"

definition ahci_init :: "'w hw \<Rightarrow> ahci_state \<Rightarrow> 'w \<Rightarrow> (int \<times> ahci_state \<times> 'w) option" where
  "ahci_init hw st w =
     (let (ahci_base, w) = pci_find_ahci hw w in
      if ahci_base = 0 then Some (-1, st, w)
      else
        (let st = st\<lparr>hba := ahci_base\<rparr>;
             (ghc, w) = ld32_op hw (hba_ghc ahci_base) w;
             w = st32_op hw (hba_ghc ahci_base) (ghc OR push_bit 31 1) w;
             (pi, w) = ld32_op hw (hba_pi ahci_base) w;
             (active, w) = probe_ports hw ahci_base pi [0..<32] (active_port st) w;
             st = st\<lparr>active_port := active\<rparr>
         in if active = -1 then Some (-1, st, w)
            else (case port_rebase hw ahci_base (nat active) w of
                    None \<Rightarrow> None
                  | Some w \<Rightarrow> Some (0, st, w))))"

section \<open>Building a read command in memory\<close>

text \<open>
  \<open>HBA_CMD_HEADER\<close>: byte 0 holds the bit-fields \<open>cfl:5\<close>, \<open>a:1\<close>, \<open>w:1\<close>, \<open>p:1\<close>; \<open>prdtl\<close> is at 2,
  \<open>prdbc\<close> at 4, \<open>ctba\<close> at 8, \<open>ctbau\<close> at 12. Assigning \<open>cfl\<close> and \<open>w\<close> leaves the other bits of
  byte 0, and all of byte 1, as they were.
\<close>

definition sizeof_FIS_REG_H2D :: nat where "sizeof_FIS_REG_H2D = 20"
definition sizeof_HBA_CMD_TBL :: nat where "sizeof_HBA_CMD_TBL = 144"

definition set_cfl :: "u8 \<Rightarrow> u8 \<Rightarrow> u8" where
  "set_cfl v b = (b AND NOT 0x1F) OR (v AND 0x1F)"

definition clear_w :: "u8 \<Rightarrow> u8" where
  "clear_w b = b AND NOT 0x40"

definition write_cmd_header :: "nat \<Rightarrow> u32 \<Rightarrow> mem \<Rightarrow> mem" where
  "write_cmd_header h ctba m =
     (let m = m(h := set_cfl (of_nat (sizeof_FIS_REG_H2D div 4)) (m h));
          m = m(h := clear_w (m h));
          m = put16 m (h + 2) 1;
          m = put32 m (h + 8) ctba;
          m = put32 m (h + 12) 0;
          m = put32 m (h + 4) 0
      in m)"

text \<open>
  \<open>HBA_CMD_TBL\<close>: zeroed, then its one \<open>HBA_PRDT_ENTRY\<close> at offset 128: \<open>dba\<close>, \<open>dbau\<close>, a reserved
  word, and a word with the bit-fields \<open>dbc:22\<close>, \<open>reserved1:9\<close>, \<open>i:1\<close>.
\<close>

definition set_dbc :: "u32 \<Rightarrow> u32 \<Rightarrow> u32" where
  "set_dbc v d = (d AND NOT 0x3FFFFF) OR (v AND 0x3FFFFF)"

definition set_i :: "u32 \<Rightarrow> u32" where
  "set_i d = d OR 0x80000000"

definition write_cmd_table :: "nat \<Rightarrow> u32 \<Rightarrow> u64 \<Rightarrow> mem \<Rightarrow> mem" where
  "write_cmd_table t count buffer m =
     (let m = put_bytes m t (replicate sizeof_HBA_CMD_TBL 0);
          m = put32 m (t + 128) (ucast buffer);
          m = put32 m (t + 132) 0;
          m = put32 m (t + 140) (set_dbc (count * 512 - 1) (get32 m (t + 140)));
          m = put32 m (t + 140) (set_i (get32 m (t + 140)))
      in m)"

text \<open>
  \<open>FIS_REG_H2D\<close> at the start of the table: type, flags (\<open>c\<close> is bit 7 of byte 1), command,
  device, the six LBA bytes around it and the 16-bit sector count at 12.
\<close>

definition write_fis :: "nat \<Rightarrow> u64 \<Rightarrow> u32 \<Rightarrow> mem \<Rightarrow> mem" where
  "write_fis f lba count m =
     (let m = m(f := 0x27);
          m = m(f + 1 := m (f + 1) OR 0x80);
          m = m(f + 2 := 0x25);
          m = m(f + 7 := push_bit 6 1);
          m = m(f + 4 := ucast lba);
          m = m(f + 5 := ucast (drop_bit 8 lba));
          m = m(f + 6 := ucast (drop_bit 16 lba));
          m = m(f + 8 := ucast (drop_bit 24 lba));
          m = m(f + 9 := ucast (drop_bit 32 lba));
          m = m(f + 10 := ucast (drop_bit 40 lba));
          m = put16 m (f + 12) (ucast count)
      in m)"

definition build_read :: "nat \<Rightarrow> u64 \<Rightarrow> u32 \<Rightarrow> u64 \<Rightarrow> mem \<Rightarrow> mem" where
  "build_read port lba count buffer m =
     (let h = unat (clb_addr port);
          t = unat (ctba_addr port);
          m = write_cmd_header h (ctba_addr port) m;
          m = write_cmd_table t count buffer m;
          m = write_fis t lba count m
      in m)"

section \<open>Reading sectors\<close>

text \<open>
  The bounded polling loop: \<open>True\<close> when the task-file error bit 30 of the interrupt status was
  seen before the command's bit in \<open>PORT_CI\<close> cleared.
\<close>

fun ahci_poll :: "nat \<Rightarrow> 'w hw \<Rightarrow> u64 \<Rightarrow> nat \<Rightarrow> 'w \<Rightarrow> bool \<times> 'w" where
  "ahci_poll 0 hw base port w = (False, w)"
| "ahci_poll (Suc n) hw base port w =
     (let (ci, w) = port_read hw base port PORT_CI w in
      if ci AND 1 = 0 then (False, w)
      else
        (let (is, w) = port_read hw base port PORT_IS w in
         if is AND push_bit 30 1 \<noteq> 0 then (True, w)
         else ahci_poll n hw base port w))"

definition ahci_timeout :: nat where "ahci_timeout = 1000000"

definition ahci_read ::
    "'w hw \<Rightarrow> ahci_state \<Rightarrow> u64 \<Rightarrow> u32 \<Rightarrow> u64 \<Rightarrow> 'w \<Rightarrow> int \<times> 'w" where
  "ahci_read hw st lba count buffer w =
     (if active_port st = -1 then (-1, w)
      else
        (let base = hba st;
             port = nat (active_port st);
             w = set_ram_op hw (build_read port lba count buffer (ram_op hw w)) w;
             w = port_write hw base port PORT_IS 0xFFFFFFFF w;
             w = port_write hw base port PORT_CI 1 w;
             (failed, w) = ahci_poll ahci_timeout hw base port w
         in if failed then (-1, w)
            else (let (ci, w) = port_read hw base port PORT_CI w
                  in if ci AND 1 \<noteq> 0 then (-2, w) else (0, w))))"

section \<open>What a device reads back\<close>

text \<open>
  The other side of the interface, from the AHCI and ATA command layout: the command in slot 0 of
  the list at \<open>clb\<close>, if it is a READ DMA EXT in LBA mode with one PRDT entry, as (LBA, sectors,
  destination, bytes of the entry).
\<close>

definition fis_lba :: "mem \<Rightarrow> nat \<Rightarrow> u64" where
  "fis_lba m f = ucast (m (f + 4)) OR push_bit 8 (ucast (m (f + 5))) OR
     push_bit 16 (ucast (m (f + 6))) OR push_bit 24 (ucast (m (f + 8))) OR
     push_bit 32 (ucast (m (f + 9))) OR push_bit 40 (ucast (m (f + 10)))"

definition header_is_ata_read :: "mem \<Rightarrow> nat \<Rightarrow> bool" where
  "header_is_ata_read m h \<longleftrightarrow> m h AND 0x1F = 5 \<and> \<not> bit (m h) 5 \<and> \<not> bit (m h) 6 \<and> get16 m (h + 2) = 1"

definition fis_is_read :: "mem \<Rightarrow> nat \<Rightarrow> bool" where
  "fis_is_read m f \<longleftrightarrow> m f = 0x27 \<and> bit (m (f + 1)) 7 \<and> m (f + 2) = 0x25 \<and> bit (m (f + 7)) 6"

definition decode_read :: "mem \<Rightarrow> nat \<Rightarrow> (nat \<times> nat \<times> nat \<times> nat) option" where
  "decode_read m h =
     (let t = unat (get32 m (h + 8)) + unat (get32 m (h + 12)) * 2 ^ 32 in
      if header_is_ata_read m h \<and> fis_is_read m t then
        Some (unat (fis_lba m t),
              unat (get16 m (t + 12)),
              unat (get32 m (t + 128)) + unat (get32 m (t + 132)) * 2 ^ 32,
              unat (get32 m (t + 140) AND 0x3FFFFF) + 1)
      else None)"

lemma unat_regions:
  assumes "port < 32"
  shows "unat (clb_addr port) = 0x100000 + port * 0x400"
    and "unat (fb_addr port) = 0x108000 + port * 0x100"
    and "unat (ctba_addr port) = 0x110000 + port * 0x100"
  using assms by (auto simp: clb_addr_def fb_addr_def ctba_addr_def unat_word_ariths unat_of_nat)

lemma cfl_bits:
  "clear_w (set_cfl 5 b) AND 0x1F = 5"
  "bit (clear_w (set_cfl 5 b)) 6 = False"
  "bit (clear_w (set_cfl 5 b)) 5 = bit b 5"
  by (rule u8_eqI) (simp_all add: clear_w_def set_cfl_def bit_simps)

lemma dbc_bits:
  assumes "0 < unat count" "unat count \<le> 8192"
  shows "unat (set_i (set_dbc (count * 512 - 1) 0) AND 0x3FFFFF) = unat count * 512 - 1"
proof -
  have m: "(0x3FFFFF :: u32) = mask 22" by (simp add: mask_eq_exp_minus_1)
  have i: "bit (0x80000000 :: int) n \<longleftrightarrow> n = 31" for n
    using bit_exp_iff [of 31 n, where ?'a = int] by simp
  have "set_i (set_dbc (count * 512 - 1) 0) AND 0x3FFFFF = take_bit 22 (count * 512 - 1)"
    unfolding set_i_def set_dbc_def m
    by (rule bit_word_eqI) (auto simp: bit_simps i)
  moreover have "unat (count * 512 - 1) = unat count * 512 - 1"
    using assms by (simp add: unat_diff_no_wrap word_le_nat_alt unat_word_ariths)
  ultimately show ?thesis
    using assms by (simp add: unsigned_take_bit_eq take_bit_nat_eq_self_iff)
qed

lemma fis_lba_bits:
  "ucast (ucast lba :: u8) OR push_bit 8 (ucast (ucast (drop_bit 8 lba) :: u8)) OR
   push_bit 16 (ucast (ucast (drop_bit 16 lba) :: u8)) OR
   push_bit 24 (ucast (ucast (drop_bit 24 lba) :: u8)) OR
   push_bit 32 (ucast (ucast (drop_bit 32 lba) :: u8)) OR
   push_bit 40 (ucast (ucast (drop_bit 40 lba) :: u8)) = take_bit 48 (lba :: u64)"
  by (simp add: ucast_byte_eq glue_fields glue_fields_assoc)

lemma write_cmd_header_reads:
  fixes m :: mem and h :: nat and ctba :: u32
  defines "m' \<equiv> write_cmd_header h ctba m"
  shows "m' h = clear_w (set_cfl 5 (m h))" "get16 m' (h + 2) = 1"
    "get32 m' (h + 8) = ctba" "get32 m' (h + 12) = 0"
  by (simp_all add: m'_def write_cmd_header_def Let_def mem_simps sizeof_FIS_REG_H2D_def
      del: put_le.simps get_le.simps)

lemma write_cmd_header_other: "i < h \<or> h + 16 \<le> i \<Longrightarrow> write_cmd_header h ctba m i = m i"
  by (auto simp: write_cmd_header_def Let_def mem_simps simp del: put_le.simps)

lemma write_cmd_table_reads:
  fixes m :: mem and t :: nat and count :: u32 and buffer :: u64
  defines "m' \<equiv> write_cmd_table t count buffer m"
  shows "get32 m' (t + 128) = ucast buffer" "get32 m' (t + 132) = 0"
    "get32 m' (t + 140) = set_i (set_dbc (count * 512 - 1) 0)"
  by (simp_all add: m'_def write_cmd_table_def Let_def mem_simps get_le_zeros put_bytes_in
      sizeof_HBA_CMD_TBL_def del: put_le.simps get_le.simps)

lemma write_cmd_table_other: "i < t \<or> t + 144 \<le> i \<Longrightarrow> write_cmd_table t count buffer m i = m i"
  by (auto simp: write_cmd_table_def Let_def mem_simps sizeof_HBA_CMD_TBL_def simp del: put_le.simps)

lemma write_fis_reads:
  fixes m :: mem and f :: nat and lba :: u64 and count :: u32
  defines "m' \<equiv> write_fis f lba count m"
  shows "fis_is_read m' f" "fis_lba m' f = take_bit 48 lba" "get16 m' (f + 12) = ucast count"
proof -
  show "fis_is_read m' f"
    by (simp add: m'_def fis_is_read_def write_fis_def Let_def mem_simps bit_simps del: put_le.simps)
  have "fis_lba m' f = ucast (ucast lba :: u8) OR push_bit 8 (ucast (ucast (drop_bit 8 lba) :: u8)) OR
     push_bit 16 (ucast (ucast (drop_bit 16 lba) :: u8)) OR
     push_bit 24 (ucast (ucast (drop_bit 24 lba) :: u8)) OR
     push_bit 32 (ucast (ucast (drop_bit 32 lba) :: u8)) OR
     push_bit 40 (ucast (ucast (drop_bit 40 lba) :: u8))"
    by (simp add: m'_def fis_lba_def write_fis_def Let_def mem_simps del: put_le.simps)
  then show "fis_lba m' f = take_bit 48 lba" by (simp add: fis_lba_bits)
  show "get16 m' (f + 12) = ucast count"
    by (simp add: m'_def write_fis_def Let_def mem_simps del: put_le.simps get_le.simps)
qed

lemma write_fis_other: "i < f \<or> f + 14 \<le> i \<Longrightarrow> write_fis f lba count m i = m i"
  by (auto simp: write_fis_def Let_def mem_simps simp del: put_le.simps)

lemma build_read_other:
  assumes "port < 32" "i < unat (clb_addr port) \<or> unat (clb_addr port) + 16 \<le> i"
    "i < unat (ctba_addr port) \<or> unat (ctba_addr port) + 144 \<le> i"
  shows "build_read port lba count buffer m i = m i"
  using assms by (auto simp: build_read_def Let_def write_fis_other write_cmd_table_other
      write_cmd_header_other)

lemma decode_build_read:
  assumes port: "port < 32" and lba: "unat lba < 2 ^ 48"
    and count: "0 < unat count" "unat count \<le> 8192" and buf: "unat buffer < 2 ^ 32"
    and stale: "\<not> bit (m (unat (clb_addr port))) 5"
  shows "decode_read (build_read port lba count buffer m) (unat (clb_addr port)) =
    Some (unat lba, unat count, unat buffer, unat count * 512)"
proof -
  define h where "h = unat (clb_addr port)"
  define t where "t = unat (ctba_addr port)"
  define m1 where "m1 = write_cmd_header h (ctba_addr port) m"
  define m2 where "m2 = write_cmd_table t count buffer m1"
  define m3 where "m3 = write_fis t lba count m2"
  have m3: "build_read port lba count buffer m = m3"
    by (simp add: build_read_def Let_def h_def t_def m1_def m2_def m3_def)
  have ht: "h + 16 \<le> t" using port by (simp add: h_def t_def unat_regions)
  have low: "m3 i = m1 i" if "i < t" for i
    using that by (simp add: m3_def m2_def write_fis_other write_cmd_table_other)
  have high: "m3 i = m2 i" if "t + 14 \<le> i" for i
    using that by (simp add: m3_def write_fis_other)
  have hd: "get_le n m3 a = get_le n m1 a" if "a + n \<le> t" for a n
    by (rule get_le_cong) (use that low in auto)
  have tb: "get_le n m3 a = get_le n m2 a" if "t + 14 \<le> a" for a n
    by (rule get_le_cong) (use that high in auto)
  have hd': "get16 m3 (h + 2) = get16 m1 (h + 2)" "get32 m3 (h + 8) = get32 m1 (h + 8)"
    "get32 m3 (h + 12) = get32 m1 (h + 12)"
    using ht by (auto intro!: hd simp del: get_le.simps)
  have "header_is_ata_read m3 h"
    using ht low [of h] stale hd' write_cmd_header_reads [of h "ctba_addr port" m]
    by (simp add: header_is_ata_read_def m1_def [symmetric] h_def [symmetric] cfl_bits
        del: get_le.simps)
  moreover have "unat (get32 m3 (h + 8)) + unat (get32 m3 (h + 12)) * 2 ^ 32 = t"
    using hd' write_cmd_header_reads [of h "ctba_addr port" m]
    by (simp add: m1_def [symmetric] t_def [symmetric] del: get_le.simps)
  moreover have "fis_is_read m3 t" "fis_lba m3 t = take_bit 48 lba" "get16 m3 (t + 12) = ucast count"
    using write_fis_reads [of t lba count m2] by (simp_all add: m3_def del: get_le.simps)
  moreover have "get32 m3 (t + 128) = ucast buffer" "get32 m3 (t + 132) = 0"
    "get32 m3 (t + 140) = set_i (set_dbc (count * 512 - 1) 0)"
    using write_cmd_table_reads [of t count buffer m1]
    by (simp_all add: tb m2_def [symmetric] del: get_le.simps)
  ultimately show ?thesis
    using lba count buf unfolding m3 h_def [symmetric]
    by (simp add: decode_read_def Let_def dbc_bits unsigned_take_bit_eq take_bit_nat_eq_self_iff
        unsigned_ucast_eq take_bit_nat_eq_self del: get_le.simps)
qed



section \<open>Where the structures live\<close>

text \<open>
  The three areas of a port: its command list (1 KB), received-FIS area (256 bytes) and command
  table (here with one PRDT entry), as half-open address ranges.
\<close>

definition port_areas :: "nat \<Rightarrow> (nat \<times> nat) list" where
  "port_areas port =
     [(unat (clb_addr port), unat (clb_addr port) + 0x400),
      (unat (fb_addr port), unat (fb_addr port) + 0x100),
      (unat (ctba_addr port), unat (ctba_addr port) + sizeof_HBA_CMD_TBL)]"

definition disjoint_areas :: "nat \<times> nat \<Rightarrow> nat \<times> nat \<Rightarrow> bool" where
  "disjoint_areas a b \<longleftrightarrow> snd a \<le> fst b \<or> snd b \<le> fst a"

text \<open>The command lists, FIS areas and command tables of the 32 ports are pairwise disjoint and have
  the alignments AHCI asks for (1 KB, 256 and 128 bytes).\<close>

theorem port_areas_disjoint:
  assumes "p < 32" "q < 32" "i < 3" "j < 3" "(p, i) \<noteq> (q, j)"
  shows "disjoint_areas (port_areas p ! i) (port_areas q ! j) \<and>
    1024 dvd fst (port_areas p ! 0) \<and> 256 dvd fst (port_areas p ! 1) \<and> 128 dvd fst (port_areas p ! 2)"
proof -
  have "i = 0 \<or> i = 1 \<or> i = 2" "j = 0 \<or> j = 1 \<or> j = 2" using assms by auto
  moreover have "p < q \<or> p = q \<or> q < p" by linarith
  ultimately have "disjoint_areas (port_areas p ! i) (port_areas q ! j)"
    using assms by (auto simp: disjoint_areas_def port_areas_def unat_regions sizeof_HBA_CMD_TBL_def)
  moreover have "1024 dvd (0x100000 + p * 0x400 :: nat)" "256 dvd (0x108000 + p * 0x100 :: nat)"
    "128 dvd (0x110000 + p * 0x100 :: nat)" by (rule dvd_add; simp)+
  ultimately show ?thesis using assms(1) by (simp add: port_areas_def unat_regions)
qed

theorem port_areas_disjoint_witness:
  "disjoint_areas (port_areas 0 ! 0) (port_areas 1 ! 0) \<and> 1024 dvd fst (port_areas 0 ! 0) \<and>
   256 dvd fst (port_areas 0 ! 1) \<and> 128 dvd fst (port_areas 0 ! 2)"
  by (rule port_areas_disjoint) simp_all

section \<open>The polling loop\<close>

text \<open>
  \<open>busy_polls n\<close>: the state after \<open>n\<close> rounds in which the command was still outstanding and no
  error was flagged.
\<close>

fun busy_polls :: "nat \<Rightarrow> 'w hw \<Rightarrow> u64 \<Rightarrow> nat \<Rightarrow> 'w \<Rightarrow> 'w option" where
  "busy_polls 0 hw base port w = Some w"
| "busy_polls (Suc n) hw base port w =
     (let (ci, w) = port_read hw base port PORT_CI w in
      if ci AND 1 = 0 then None
      else
        (let (is, w) = port_read hw base port PORT_IS w in
         if is AND push_bit 30 1 \<noteq> 0 then None
         else busy_polls n hw base port w))"

lemma ahci_poll_busy:
  "busy_polls n hw base port w = Some w' \<Longrightarrow>
   ahci_poll (n + k) hw base port w = ahci_poll k hw base port w'"
  by (induction n arbitrary: w) (auto simp: Let_def split: prod.splits if_splits)

lemma ahci_poll_done:
  assumes "busy_polls n hw base port w = Some w1" "n < N"
    and "port_read hw base port PORT_CI w1 = (ci, w2)" "ci AND 1 = 0"
  shows "ahci_poll N hw base port w = (False, w2)"
proof -
  obtain k where N: "N = Suc (n + k)" using assms(2) by (auto simp: less_iff_Suc_add)
  have "ahci_poll N hw base port w = ahci_poll (Suc k) hw base port w1"
    using ahci_poll_busy [OF assms(1), of "Suc k"] unfolding N by (simp only: add_Suc_right)
  with assms(3,4) show ?thesis by (simp add: Let_def)
qed

lemma ahci_poll_error:
  assumes "busy_polls n hw base port w = Some w1" "n < N"
    and "port_read hw base port PORT_CI w1 = (ci, w2)" "ci AND 1 \<noteq> 0"
    and "port_read hw base port PORT_IS w2 = (is, w3)" "is AND push_bit 30 1 \<noteq> 0"
  shows "ahci_poll N hw base port w = (True, w3)"
proof -
  obtain k where N: "N = Suc (n + k)" using assms(2) by (auto simp: less_iff_Suc_add)
  have "ahci_poll N hw base port w = ahci_poll (Suc k) hw base port w1"
    using ahci_poll_busy [OF assms(1), of "Suc k"] unfolding N by (simp only: add_Suc_right)
  with assms(3-6) show ?thesis by (simp add: Let_def)
qed

lemma ahci_poll_timeout: "busy_polls N hw base port w = Some w1 \<Longrightarrow> ahci_poll N hw base port w = (False, w1)"
  using ahci_poll_busy [of N hw base port w w1 0] by simp

end
