(* ===== verification/Block_Device.thy ===== *)
theory Block_Device
  imports Ahci
begin

text \<open>
  The interface between the file system (\<^verbatim>\<open>src/kernel/fsso.c\<close>) and the driver: the one external
  function it calls, \<open>ahci_read(lba, count, buffer)\<close>. The locale \<open>block_dev\<close> states what the file
  system relies on; the locale \<open>ahci_device\<close> states what the driver relies on of the controller,
  and a \<^theory_text>\<open>sublocale\<close> shows that the driver turns the second contract into the first.
\<close>

unbundle bit_operations_syntax

section \<open>What the file system relies on\<close>

text \<open>
  A call is modelled with the array argument passed in and out: \<open>rd lba count buf s\<close> gives the
  return code, the new contents of the buffer and the new state. \<open>content s\<close> is the disk, byte by
  byte, \<open>sectors\<close> its size in 512-byte sectors.
\<close>

type_synonym 's bdev = "u64 \<Rightarrow> u32 \<Rightarrow> bytes \<Rightarrow> 's \<Rightarrow> int \<times> bytes \<times> 's"

locale block_dev =
  fixes rd :: "'s bdev"
    and content :: "'s \<Rightarrow> mem"
    and sectors :: nat
    and ok :: "'s \<Rightarrow> bool"
  assumes rd_block: "ok s \<Longrightarrow> length buf = 1024 \<Longrightarrow> unat lba + 2 \<le> sectors \<Longrightarrow>
      rd lba 2 buf s = (rc, buf', s') \<Longrightarrow>
      rc = 0 \<and> buf' = get_bytes (content s) (unat lba * 512) 1024 \<and>
      ok s' \<and> content s' = content s"

section \<open>What the driver relies on\<close>

text \<open>
  In C the array argument is an address: \<open>ahci_bdev\<close> is the driver's \<open>ahci_read\<close> on a buffer at
  the RAM address \<open>addr\<close> of the caller's stack frame.
\<close>

definition ahci_bdev :: "'w hw \<Rightarrow> ahci_state \<Rightarrow> u64 \<Rightarrow> 'w bdev" where
  "ahci_bdev hw st addr lba count buf w =
     (let w = set_ram_op hw (put_bytes (ram_op hw w) (unat addr) buf) w;
          (rc, w) = ahci_read hw st lba count addr w
      in (rc, get_bytes (ram_op hw w) (unat addr) (length buf), w))"

text \<open>
  What a controller posts in memory besides the data: the received-FIS area of the port, since
  \<open>port_rebase\<close> enables FIS reception (the register FIS at the end of a command goes to its offset
  0x40), and the byte count PRDBC in the second word of the command header.
\<close>

definition posted :: "nat \<Rightarrow> nat set" where
  "posted port = {unat (clb_addr port) + 4 ..< unat (clb_addr port) + 8} \<union>
     {unat (fb_addr port) ..< unat (fb_addr port) + 0x100}"

text \<open>
  The controller, set up on port \<open>active_port st\<close> by \<open>port_rebase\<close> (this is \<open>ok\<close>): setting the RAM
  and acknowledging interrupts do not disturb it; when a READ DMA EXT command inside the disk is
  decoded from slot 0 and issued, it completes after fewer than 1000000 polls, without an error,
  with the sectors in memory and, at the \<open>posted\<close> addresses, whatever it likes; no other byte changes.
  The driver is \<open>ready\<close> when moreover the ATAPI bit of the command header, which it never writes, is
  clear in the RAM. The RAM is that of the data structures: that the code of the kernel is not
  overwritten by these transfers is not expressed here (see \<open>ahci_areas_in_kernel_image\<close>).
\<close>

locale ahci_device =
  fixes hw :: "'w hw"
    and st :: ahci_state
    and addr :: u64
    and content :: "'w \<Rightarrow> mem"
    and sectors :: nat
    and ok :: "'w \<Rightarrow> bool"
  assumes port: "0 \<le> active_port st" "active_port st < 32"
    and sectors_48: "sectors \<le> 2 ^ 48"
    and addr_low: "0x112000 \<le> unat addr" "unat addr + 1024 \<le> 2 ^ 32"
    and ram_set: "ram_op hw (set_ram_op hw m w) = m"
    and ok_set: "ok w \<Longrightarrow> ok (set_ram_op hw m w)"
    and content_set: "content (set_ram_op hw m w) = content w"
    and ack: "ok w \<Longrightarrow> w' = port_write hw (hba st) (nat (active_port st)) PORT_IS 0xFFFFFFFF w \<Longrightarrow>
        ok w' \<and> ram_op hw w' = ram_op hw w \<and> content w' = content w"
    and issue: "ok w \<Longrightarrow>
        decode_read (ram_op hw w) (unat (clb_addr (nat (active_port st)))) =
          Some (lba, count, dst, count * 512) \<Longrightarrow>
        lba + count \<le> sectors \<Longrightarrow>
        \<exists>n w1 ci w2 ci' w3. n < ahci_timeout \<and>
          busy_polls n hw (hba st) (nat (active_port st))
            (port_write hw (hba st) (nat (active_port st)) PORT_CI 1 w) = Some w1 \<and>
          port_read hw (hba st) (nat (active_port st)) PORT_CI w1 = (ci, w2) \<and> ci AND 1 = 0 \<and>
          port_read hw (hba st) (nat (active_port st)) PORT_CI w2 = (ci', w3) \<and> ci' AND 1 = 0 \<and>
          (\<forall>a. a \<notin> posted (nat (active_port st)) \<longrightarrow> ram_op hw w3 a =
             put_bytes (ram_op hw w) dst (get_bytes (content w) (lba * 512) (count * 512)) a) \<and>
          content w3 = content w \<and> ok w3"
begin

abbreviation prt :: nat where "prt \<equiv> nat (active_port st)"

abbreviation ready :: "'w \<Rightarrow> bool" where
  "ready w \<equiv> ok w \<and> \<not> bit (ram_op hw w (unat (clb_addr prt))) 5"

lemma prt_less: "prt < 32"
  using port by simp

lemma header_below_addr: "unat (clb_addr prt) + 16 \<le> unat addr" "unat (ctba_addr prt) + 144 \<le> unat addr"
  using unat_regions [OF prt_less] prt_less addr_low by auto

lemma posted_below: "a \<in> posted prt \<Longrightarrow> a < 0x112000" "unat (clb_addr prt) \<notin> posted prt"
  using unat_regions [OF prt_less] prt_less by (auto simp: posted_def)

lemma buffer_not_posted: "unat addr \<le> a \<Longrightarrow> a \<notin> posted prt"
  using posted_below(1) [of a] addr_low(1) by auto

lemma build_read_bit5: "bit (build_read prt lba count buf m (unat (clb_addr prt))) 5 =
    bit (m (unat (clb_addr prt))) 5"
proof -
  have "unat (clb_addr prt) < unat (ctba_addr prt)"
    using unat_regions [OF prt_less] prt_less by auto
  then show ?thesis
    using write_cmd_header_reads(1) [of "unat (clb_addr prt)" "ctba_addr prt" m]
    by (simp add: build_read_def Let_def write_fis_other write_cmd_table_other cfl_bits)
qed

lemma ahci_read_transfers:
  assumes ready: "ready w" and count: "0 < unat count" "unat count \<le> 8192"
    and lba: "unat lba + unat count \<le> sectors" and buf: "unat buffer < 2 ^ 32"
  defines "built \<equiv> build_read prt lba count buffer (ram_op hw w)"
    and "data \<equiv> get_bytes (content w) (unat lba * 512) (unat count * 512)"
  shows "\<exists>w'. ahci_read hw st lba count buffer w = (0, w') \<and> ok w' \<and> content w' = content w \<and>
    (\<forall>a. a \<notin> posted prt \<longrightarrow> ram_op hw w' a = put_bytes built (unat buffer) data a)"
proof -
  let ?h = "unat (clb_addr prt)"
  define w2 where "w2 = set_ram_op hw built w"
  define w3 where "w3 = port_write hw (hba st) prt PORT_IS 0xFFFFFFFF w2"
  have ok2: "ok w2" using ready by (simp add: w2_def ok_set)
  note w3 = ack [OF ok2 w3_def]
  have ram3: "ram_op hw w3 = built" using w3 by (simp add: w2_def ram_set)
  have con3: "content w3 = content w" using w3 by (simp add: w2_def content_set)
  have "unat lba < 2 ^ 48" using lba count(1) sectors_48 by simp
  then have "decode_read built ?h = Some (unat lba, unat count, unat buffer, unat count * 512)"
    using decode_build_read [OF prt_less _ count buf] ready by (simp add: built_def)
  then have dec: "decode_read (ram_op hw w3) ?h = Some (unat lba, unat count, unat buffer, unat count * 512)"
    using ram3 by simp
  obtain n v1 ci v2 ci' v3 where run: "n < ahci_timeout"
      "busy_polls n hw (hba st) prt (port_write hw (hba st) prt PORT_CI 1 w3) = Some v1"
      "port_read hw (hba st) prt PORT_CI v1 = (ci, v2)" "ci AND 1 = 0"
      "port_read hw (hba st) prt PORT_CI v2 = (ci', v3)" "ci' AND 1 = 0"
      and res: "\<forall>a. a \<notin> posted prt \<longrightarrow> ram_op hw v3 a = put_bytes built (unat buffer) data a"
        "content v3 = content w" "ok v3"
    using issue [OF conjunct1 [OF w3] dec lba] unfolding ram3 con3 data_def by blast
  have poll: "ahci_poll ahci_timeout hw (hba st) prt (port_write hw (hba st) prt PORT_CI 1 w3) = (False, v2)"
    using ahci_poll_done [OF run(2,1,3,4)] .
  have "ahci_read hw st lba count buffer w = (0, v3)"
    using port poll run(5,6) unfolding ahci_read_def
    by (simp add: Let_def w2_def built_def w3_def)
  with res show ?thesis by blast
qed

lemma driver_read:
  assumes ready: "ready w" and len: "length buf = 1024" and lba: "unat lba + 2 \<le> sectors"
    and rd: "ahci_bdev hw st addr lba 2 buf w = (rc, buf', w')"
  shows "rc = 0 \<and> buf' = get_bytes (content w) (unat lba * 512) 1024 \<and> ready w' \<and> content w' = content w"
proof -
  let ?h = "unat (clb_addr prt)"
  define m where "m = put_bytes (ram_op hw w) (unat addr) buf"
  define v where "v = set_ram_op hw m w"
  have bit5: "bit (m ?h) 5 = bit (ram_op hw w ?h) 5"
    using header_below_addr by (simp add: m_def put_bytes_other)
  have v: "ready v" "content v = content w"
    using ready bit5 by (simp_all add: v_def ok_set ram_set content_set)
  have two: "unat (2 :: u32) = 2" by simp
  obtain v3 where r: "ahci_read hw st lba 2 addr v = (0, v3)" "ok v3" "content v3 = content w"
    "\<And>a. a \<notin> posted prt \<Longrightarrow> ram_op hw v3 a =
       put_bytes (build_read prt lba 2 addr m) (unat addr) (get_bytes (content w) (unat lba * 512) 1024) a"
    using ahci_read_transfers [OF v(1), of 2 lba addr] lba addr_low v(2)
    unfolding two by (auto simp: v_def ram_set)
  then have res: "rc = 0" "w' = v3" "buf' = get_bytes (ram_op hw v3) (unat addr) 1024"
    using rd by (auto simp: ahci_bdev_def m_def v_def Let_def len)
  have "bit (ram_op hw v3 ?h) 5 = bit (m ?h) 5"
    using header_below_addr posted_below(2) by (simp add: r(4) put_bytes_other build_read_bit5)
  moreover have "get_bytes (ram_op hw v3) (unat addr) 1024 =
      get_bytes (put_bytes (build_read prt lba 2 addr m) (unat addr) (get_bytes (content w) (unat lba * 512) 1024))
        (unat addr) 1024"
    by (rule get_bytes_cong) (simp add: r(4) buffer_not_posted)
  ultimately show ?thesis using res r bit5 ready by (simp add: get_bytes_put_bytes)
qed

end

sublocale ahci_device \<subseteq> drv: block_dev "ahci_bdev hw st addr" content sectors ready
  by unfold_locales (rule driver_read)

end
