(* ===== verification/Platform.thy ===== *)
theory Platform
  imports Block_Device
begin

text \<open>
  A concrete machine on which the hardware contracts hold, so that they are known to be
  satisfiable and the theorems that rest on them can be applied: configuration mechanism 1 over
  any configuration space, an AHCI controller with one disk on one port that takes \<open>pc_latency\<close>
  polls for each command and \<open>pc_stop\<close> reads of its command register to stop, a PS/2 keyboard with a
  queue of scancodes, and a flat RAM. The controller posts the register FIS and the byte count as
  AHCI describes. It is a model written for this purpose, shaped after the devices that
  \<^verbatim>\<open>src/run.sh\<close> asks QEMU for, not QEMU itself: its RAM holds the data structures and buffers,
  not the code of the kernel, so a transfer cannot damage the program. It is not code of the
  repository and carries no entry in the map.
\<close>

unbundle bit_operations_syntax

record pc =
  pc_ram :: mem
  pc_latch :: u32
  pc_cfg :: "u32 \<Rightarrow> u32"
  pc_base :: u64
  pc_port :: nat
  pc_regs :: "u64 \<Rightarrow> u32"
  pc_disk :: mem
  pc_sectors :: nat
  pc_busy :: nat
  pc_stop :: nat
  pc_latency :: nat
  pc_keys :: bytes

definition pc_reg :: "pc \<Rightarrow> u32 \<Rightarrow> u64" where
  "pc_reg w off = hba_port (pc_base w) (pc_port w) + ucast off"

text \<open>
  Loads: the CI register counts down the command in progress; CMD shows the bits FR (14) and CR (15)
  while the corresponding engine is enabled, and for \<open>pc_stop\<close> more reads; every other register reads
  as last written.
\<close>

definition pc_cmd :: "pc \<Rightarrow> u32" where
  "pc_cmd w =
     (let c = pc_regs w (pc_reg w PORT_CMD);
          fr = (if bit c 4 \<or> 0 < pc_stop w then 0x4000 else 0);
          cr = (if bit c 0 \<or> 0 < pc_stop w then 0x8000 else 0)
      in (c AND NOT 0xC000) OR fr OR cr)"

definition pc_ld32 :: "u64 \<Rightarrow> pc \<Rightarrow> u32 \<times> pc" where
  "pc_ld32 a w =
     (if a = pc_reg w PORT_CI then
        (if pc_busy w = 0 then (0, w) else (1, w\<lparr>pc_busy := pc_busy w - 1\<rparr>))
      else if a = pc_reg w PORT_CMD then (pc_cmd w, w\<lparr>pc_stop := pc_stop w - 1\<rparr>)
      else (pc_regs w a, w))"

text \<open>
  A register FIS from the device goes to offset 0x40 of the received-FIS area, when FRE is set: its
  type 0x34, the interrupt bit, the status 0x50, and the rest 0.
\<close>

definition pc_fis :: "pc \<Rightarrow> mem \<Rightarrow> mem" where
  "pc_fis w m =
     (if bit (pc_regs w (pc_reg w PORT_CMD)) 4 then
        put_bytes m (unat (pc_regs w (pc_reg w PORT_FB)) + 0x40) ([0x34, 0x40, 0x50] @ replicate 17 0)
      else m)"

text \<open>
  Stores: IS is write-one-to-clear; setting bit 0 of CI runs the command in slot 0, or flags a
  task-file error when it is not a read inside the disk; enabling FRE posts the FIS with the device's
  signature. At the end of a command PRDBC is set, the FIS posted and bit 0 (DHRS) of IS set.
\<close>

definition pc_command :: "pc \<Rightarrow> pc" where
  "pc_command w =
     (let h = unat (pc_regs w (pc_reg w PORT_CLB));
          irq = (\<lambda>b. (pc_regs w)(pc_reg w PORT_IS := pc_regs w (pc_reg w PORT_IS) OR b))
      in case decode_read (pc_ram w) h of
        Some (lba, count, dst, len) \<Rightarrow>
          if len = count * 512 \<and> lba + count \<le> pc_sectors w then
            w\<lparr>pc_ram := pc_fis w (put32 (put_bytes (pc_ram w) dst (get_bytes (pc_disk w) (lba * 512) (count * 512)))
                (h + 4) (of_nat len)),
              pc_busy := pc_latency w, pc_regs := irq 1\<rparr>
          else w\<lparr>pc_busy := 1, pc_regs := irq 0x40000000\<rparr>
      | None \<Rightarrow> w\<lparr>pc_busy := 1, pc_regs := irq 0x40000000\<rparr>)"

definition pc_st32 :: "u64 \<Rightarrow> u32 \<Rightarrow> pc \<Rightarrow> pc" where
  "pc_st32 a v w =
     (if a = pc_reg w PORT_CI then (if bit v 0 then pc_command w else w)
      else if a = pc_reg w PORT_IS then w\<lparr>pc_regs := (pc_regs w)(a := pc_regs w a AND NOT v)\<rparr>
      else if a = pc_reg w PORT_SERR then w\<lparr>pc_regs := (pc_regs w)(a := pc_regs w a AND NOT v)\<rparr>
      else if a = pc_reg w PORT_CMD then
        (let w = w\<lparr>pc_regs := (pc_regs w)(a := v)\<rparr> in w\<lparr>pc_ram := pc_fis w (pc_ram w)\<rparr>)
      else w\<lparr>pc_regs := (pc_regs w)(a := v)\<rparr>)"

definition pc_inb :: "u16 \<Rightarrow> pc \<Rightarrow> u8 \<times> pc" where
  "pc_inb port w =
     (if port = 0x64 then (if pc_keys w = [] then 0 else 1, w)
      else if port = 0x60 then
        (case pc_keys w of [] \<Rightarrow> (0, w) | k # ks \<Rightarrow> (k, w\<lparr>pc_keys := ks\<rparr>))
      else (0, w))"

definition pc_hw :: "pc hw" where
  "pc_hw = \<lparr>
     outl_op = (\<lambda>p v w. if p = 0xCF8 then w\<lparr>pc_latch := v\<rparr> else w),
     inl_op = (\<lambda>p w. if p = 0xCFC then (pc_cfg w (pc_latch w), w) else (0, w)),
     inb_op = pc_inb,
     ld32_op = pc_ld32,
     st32_op = pc_st32,
     ram_op = pc_ram,
     set_ram_op = (\<lambda>m w. w\<lparr>pc_ram := m\<rparr>)\<rparr>"

lemma pc_hw_simps [simp]:
  "outl_op pc_hw p v w = (if p = 0xCF8 then w\<lparr>pc_latch := v\<rparr> else w)"
  "inl_op pc_hw p w = (if p = 0xCFC then (pc_cfg w (pc_latch w), w) else (0, w))"
  "inb_op pc_hw = pc_inb" "ld32_op pc_hw = pc_ld32" "st32_op pc_hw = pc_st32"
  "ram_op pc_hw = pc_ram" "set_ram_op pc_hw m w = w\<lparr>pc_ram := m\<rparr>"
  by (simp_all add: pc_hw_def)

interpretation pc_pci: pci_config pc_hw pc_cfg "\<lambda>w. True"
  by unfold_locales auto

section \<open>The controller keeps the driver's contract\<close>

text \<open>The controller as \<open>ahci_init\<close> leaves it for the port the disk is on.\<close>

definition pc_ready :: "ahci_state \<Rightarrow> pc \<Rightarrow> bool" where
  "pc_ready st w \<longleftrightarrow> pc_base w = hba st \<and> pc_port w = nat (active_port st) \<and>
     pc_regs w (pc_reg w PORT_CLB) = clb_addr (nat (active_port st)) \<and>
     pc_regs w (pc_reg w PORT_FB) = fb_addr (nat (active_port st)) \<and>
     \<not> bit (pc_regs w (pc_reg w PORT_IS)) 30 \<and>
     pc_latency w < ahci_timeout \<and> pc_sectors w = 8192"

lemma pc_reg_distinct:
  "pc_reg w PORT_IS \<noteq> pc_reg w PORT_CI" "pc_reg w PORT_CLB \<noteq> pc_reg w PORT_CI"
  "pc_reg w PORT_IS \<noteq> pc_reg w PORT_CLB" "pc_reg w PORT_CMD \<noteq> pc_reg w PORT_CI"
  "pc_reg w PORT_CMD \<noteq> pc_reg w PORT_IS" "pc_reg w PORT_CLB \<noteq> pc_reg w PORT_CMD"
  "pc_reg w PORT_IS \<noteq> pc_reg w PORT_FB" "pc_reg w PORT_SERR \<noteq> pc_reg w PORT_CI"
  "pc_reg w PORT_SERR \<noteq> pc_reg w PORT_IS" "pc_reg w PORT_FB \<noteq> pc_reg w PORT_CI"
  "pc_reg w PORT_SERR \<noteq> pc_reg w PORT_CMD"
  by (simp_all add: pc_reg_def port_regs)

lemma and_not_ones: "(x :: u32) AND NOT 0xFFFFFFFF = 0"
proof -
  have "(0xFFFFFFFF :: u32) = -1" by simp
  then show ?thesis by (simp only: bit.compl_one and_zero_eq)
qed

lemma bit30: "v AND push_bit 30 1 = 0 \<longleftrightarrow> \<not> bit (v :: u32) 30"
  by (simp only: bit_iff_and_push_bit_not_eq_0 not_not)

lemma pc_busy_polls:
  assumes "pc_ready st w"
  shows "busy_polls (pc_busy w) pc_hw (hba st) (nat (active_port st)) w = Some (w\<lparr>pc_busy := 0\<rparr>)"
  using assms
proof (induction "pc_busy w" arbitrary: w)
  case (Suc n)
  define w' where "w' = w\<lparr>pc_busy := n\<rparr>"
  have regs: "hba_port (hba st) (nat (active_port st)) + ucast off = pc_reg w off" for off
    using Suc.prems by (simp add: pc_ready_def pc_reg_def)
  have busy: "pc_busy w = Suc n" using Suc.hyps(2) by simp
  have "pc_ready st w'" using Suc.prems by (auto simp: w'_def pc_ready_def pc_reg_def)
  then have "busy_polls n pc_hw (hba st) (nat (active_port st)) w' = Some (w'\<lparr>pc_busy := 0\<rparr>)"
    using Suc.hyps(1) [of w'] by (simp add: w'_def)
  moreover have "pc_ld32 (pc_reg w PORT_CI) w = (1, w')"
    using busy by (simp add: pc_ld32_def w'_def)
  moreover obtain v where "pc_ld32 (pc_reg w PORT_IS) w' = (v, w')" "\<not> bit v 30"
    using Suc.prems pc_reg_distinct [of w]
    by (auto simp: pc_ld32_def w'_def pc_ready_def pc_reg_def)
  ultimately show ?case
    by (simp add: busy Let_def port_read_def regs w'_def bit30 del: push_bit_of_1)
qed simp

lemma pc_fis_other: "a < fb \<or> fb + 0x100 \<le> a \<Longrightarrow> unat (pc_regs w (pc_reg w PORT_FB)) = fb \<Longrightarrow> pc_fis w m a = m a"
  by (auto simp: pc_fis_def put_bytes_other)

lemma pc_command_read:
  assumes "pc_ready st w" and "decode_read (pc_ram w) (unat (clb_addr (nat (active_port st)))) =
      Some (lba, count, dst, count * 512)" and "lba + count \<le> 8192"
  obtains m R where "pc_command w = w\<lparr>pc_ram := m, pc_busy := pc_latency w, pc_regs := R\<rparr>"
    "\<And>a. a \<notin> posted (nat (active_port st)) \<Longrightarrow>
       m a = put_bytes (pc_ram w) dst (get_bytes (pc_disk w) (lba * 512) (count * 512)) a"
    "pc_ready st (w\<lparr>pc_ram := m, pc_busy := pc_latency w, pc_regs := R\<rparr>)"
proof -
  let ?h = "unat (clb_addr (nat (active_port st)))"
  define data where "data = put_bytes (pc_ram w) dst (get_bytes (pc_disk w) (lba * 512) (count * 512))"
  define m where "m = pc_fis w (put32 data (?h + 4) (of_nat (count * 512)))"
  define R where "R = (pc_regs w)(pc_reg w PORT_IS := pc_regs w (pc_reg w PORT_IS) OR 1)"
  note r = assms(1) [unfolded pc_ready_def]
  show thesis
  proof (rule that)
    show "pc_command w = w\<lparr>pc_ram := m, pc_busy := pc_latency w, pc_regs := R\<rparr>"
      using assms(2,3) r by (simp add: pc_command_def m_def R_def data_def Let_def del: put_le.simps)
    show "m a = put_bytes (pc_ram w) dst (get_bytes (pc_disk w) (lba * 512) (count * 512)) a"
      if "a \<notin> posted (nat (active_port st))" for a
    proof -
      have a: "a < ?h + 4 \<or> ?h + 8 \<le> a"
        "a < unat (fb_addr (nat (active_port st))) \<or> unat (fb_addr (nat (active_port st))) + 0x100 \<le> a"
        using that by (auto simp: posted_def)
      then have "m a = put32 data (?h + 4) (of_nat (count * 512)) a"
        unfolding m_def using r by (intro pc_fis_other) simp_all
      also have "\<dots> = data a" using a(1) by (intro put_le_other) auto
      finally show ?thesis by (simp add: data_def)
    qed
    show "pc_ready st (w\<lparr>pc_ram := m, pc_busy := pc_latency w, pc_regs := R\<rparr>)"
      using r pc_reg_distinct [of w] by (auto simp: pc_ready_def pc_reg_def R_def bit_simps)
  qed
qed

lemma pc_ahci_device_keys:
  assumes "0 \<le> active_port st" "active_port st < 32" "0x112000 \<le> unat addr" "unat addr + 1024 \<le> 2 ^ 32"
  shows "ahci_device pc_hw st addr pc_disk 8192 (\<lambda>w. pc_ready st w \<and> Q (pc_keys w))"
proof
  fix w :: pc and m :: mem
  assume "pc_ready st w \<and> Q (pc_keys w)"
  then show "pc_ready st (set_ram_op pc_hw m w) \<and> Q (pc_keys (set_ram_op pc_hw m w))" by (auto simp: pc_ready_def pc_reg_def)
next
  fix w w' :: pc
  assume ok: "pc_ready st w \<and> Q (pc_keys w)"
    and w': "w' = port_write pc_hw (hba st) (nat (active_port st)) PORT_IS 0xFFFFFFFF w"
  then have w: "pc_ready st w" by simp
  have a: "hba_port (hba st) (nat (active_port st)) + ucast PORT_IS = pc_reg w PORT_IS"
    using w by (simp add: pc_ready_def pc_reg_def)
  have "w' = w\<lparr>pc_regs := (pc_regs w)(pc_reg w PORT_IS := 0)\<rparr>"
    using pc_reg_distinct [of w] by (simp only: w' port_write_def a pc_st32_def pc_hw_simps and_not_ones) simp
  with ok pc_reg_distinct [of w] show "(pc_ready st w' \<and> Q (pc_keys w')) \<and> ram_op pc_hw w' = ram_op pc_hw w \<and> pc_disk w' = pc_disk w"
    by (auto simp: pc_ready_def pc_reg_def)
next
  fix w :: pc and lba count dst :: nat
  let ?prt = "nat (active_port st)"
  assume ok: "pc_ready st w \<and> Q (pc_keys w)"
    and dec: "decode_read (ram_op pc_hw w) (unat (clb_addr ?prt)) = Some (lba, count, dst, count * 512)"
    and lba: "lba + count \<le> 8192"
  then have w: "pc_ready st w" by simp
  obtain m R where c: "pc_command w = w\<lparr>pc_ram := m, pc_busy := pc_latency w, pc_regs := R\<rparr>"
    and m: "\<And>a. a \<notin> posted ?prt \<Longrightarrow> m a = put_bytes (pc_ram w) dst (get_bytes (pc_disk w) (lba * 512) (count * 512)) a"
    and ok1': "pc_ready st (w\<lparr>pc_ram := m, pc_busy := pc_latency w, pc_regs := R\<rparr>)"
    using pc_command_read [OF w dec [simplified] lba] by metis
  define w1 where "w1 = w\<lparr>pc_ram := m, pc_busy := pc_latency w, pc_regs := R\<rparr>"
  have ok1: "pc_ready st w1" using ok1' by (simp add: w1_def)
  have reg: "hba_port (hba st) ?prt + ucast PORT_CI = pc_reg v PORT_CI" if "pc_ready st v" for v
    using that by (simp add: pc_ready_def pc_reg_def)
  define w2 where "w2 = w1\<lparr>pc_busy := 0\<rparr>"
  have ok2: "pc_ready st w2" using ok1 by (auto simp: w2_def pc_ready_def pc_reg_def)
  have okQ: "Q (pc_keys w2)" using ok by (simp add: w2_def w1_def)
  have "port_write pc_hw (hba st) ?prt PORT_CI 1 w = w1"
    by (simp add: port_write_def reg [OF w] pc_st32_def w1_def c)
  moreover have "busy_polls (pc_latency w) pc_hw (hba st) ?prt w1 = Some w2"
    using pc_busy_polls [OF ok1] by (simp add: w1_def w2_def)
  moreover have "port_read pc_hw (hba st) ?prt PORT_CI w2 = (0, w2)"
    by (simp add: port_read_def reg [OF ok2] pc_ld32_def) (simp add: w2_def)
  moreover have "pc_latency w < ahci_timeout" using w by (simp add: pc_ready_def)
  moreover have "\<forall>a. a \<notin> posted ?prt \<longrightarrow> ram_op pc_hw w2 a =
      put_bytes (ram_op pc_hw w) dst (get_bytes (pc_disk w) (lba * 512) (count * 512)) a"
    "pc_disk w2 = pc_disk w" by (simp_all add: w2_def w1_def m)
  moreover have "(0 :: u32) AND 1 = 0" by simp
  ultimately show "\<exists>n w1 ci w2 ci' w3. n < ahci_timeout \<and>
      busy_polls n pc_hw (hba st) ?prt (port_write pc_hw (hba st) ?prt PORT_CI 1 w) = Some w1 \<and>
      port_read pc_hw (hba st) ?prt PORT_CI w1 = (ci, w2) \<and> ci AND 1 = 0 \<and>
      port_read pc_hw (hba st) ?prt PORT_CI w2 = (ci', w3) \<and> ci' AND 1 = 0 \<and>
      (\<forall>a. a \<notin> posted ?prt \<longrightarrow> ram_op pc_hw w3 a =
         put_bytes (ram_op pc_hw w) dst (get_bytes (pc_disk w) (lba * 512) (count * 512)) a) \<and>
      pc_disk w3 = pc_disk w \<and> (pc_ready st w3 \<and> Q (pc_keys w3))"
    using ok2 okQ by metis
qed (use assms in simp_all)

lemma pc_ahci_device:
  assumes "0 \<le> active_port st" "active_port st < 32" "0x112000 \<le> unat addr" "unat addr + 1024 \<le> 2 ^ 32"
  shows "ahci_device pc_hw st addr pc_disk 8192 (pc_ready st)"
  using pc_ahci_device_keys [OF assms, of "\<lambda>_. True"] by simp

definition qemu_ahci :: ahci_state where
  "qemu_ahci = \<lparr>hba = 0xFEBF1000, active_port = 1\<rparr>"

interpretation qemu: ahci_device pc_hw qemu_ahci "0x2000000" pc_disk 8192 "pc_ready qemu_ahci"
  by (rule pc_ahci_device) (simp_all add: qemu_ahci_def)

end
