(* ===== verification/Drivers.thy ===== *)
theory Drivers
  imports Platform
begin

text \<open>
  The properties of the two hardware drivers, \<^verbatim>\<open>src/kernel/pci.c\<close> and \<^verbatim>\<open>src/kernel/ahci.c\<close>:
  configuration addresses, the search for the controller and the outcomes of a read. Each has a
  witness on the machine of \<open>Platform\<close>.
\<close>

unbundle bit_operations_syntax

section \<open>PCI\<close>

lemma not_bit_above:
  assumes "unat w < 2 ^ k" "k \<le> i" shows "\<not> bit (w :: 'a::len word) i"
proof -
  have "w = take_bit k w"
    using assms(1) by (simp add: word_unat_eq_iff unsigned_take_bit_eq take_bit_nat_eq_self)
  with assms(2) show ?thesis by (metis bit_take_bit_iff not_le)
qed

text \<open>The address pci_read puts in port 0xCF8 holds the enable bit, the bus, the slot and the function
  in their fields and the offset rounded down to a multiple of four, for a slot below 32 and a
  function below 8.\<close>

theorem pci_address_fields:
  assumes "slot < 32" "func < 8"
  shows "bit (pci_address bus slot func offset) 31 \<and>
    drop_bit 16 (pci_address bus slot func offset) AND 0xFF = ucast bus \<and>
    drop_bit 11 (pci_address bus slot func offset) AND 0x1F = ucast slot \<and>
    drop_bit 8 (pci_address bus slot func offset) AND 0x7 = ucast func \<and>
    pci_address bus slot func offset AND 0xFF = ucast (offset AND 0xFC)"
proof -
  have s: "\<not> bit slot i" if "5 \<le> i" for i using not_bit_above [of slot 5 i] assms(1) that by (simp add: word_less_nat_alt)
  have f: "\<not> bit func i" if "3 \<le> i" for i using not_bit_above [of func 3 i] assms(2) that by (simp add: word_less_nat_alt)
  have u: "\<not> bit b i" if "8 \<le> i" for b :: u8 and i
    using that bit_imp_le_length [of b i] by auto
  have e: "bit (0x80000000 :: int) i \<longleftrightarrow> i = 31" for i
    using bit_exp_iff [of 31 i, where ?'a = int] by simp
  have m: "(0xFF :: u32) = mask 8" "(0x1F :: u32) = mask 5" "(0x7 :: u32) = mask 3"
    by (simp_all add: mask_eq_exp_minus_1)
  have l: "i < 8" if "bit b i" for b :: u8 and i using bit_imp_le_length [OF that] by simp
  define reg where "reg = offset AND 0xFC"
  have a: "bit (pci_address bus slot func offset) i \<longleftrightarrow> i < 32 \<and>
      (16 \<le> i \<and> bit bus (i - 16) \<or> 11 \<le> i \<and> bit slot (i - 11) \<or> 8 \<le> i \<and> bit func (i - 8) \<or>
      bit reg i \<or> i = 31)" for i
    unfolding pci_address_def reg_def [symmetric]
    by (auto simp: bit_or_iff bit_push_bit_iff bit_ucast_iff e dest: l)
  have low: "\<not> bit reg i" "\<not> bit bus i" if "8 \<le> i" for i using l that by fastforce+
  note b = bit_and_iff bit_drop_bit_eq bit_mask_iff bit_ucast_iff a s f low
  show ?thesis
    unfolding m reg_def [symmetric]
  proof (intro conjI)
    show "bit (pci_address bus slot func offset) 31" by (subst a) simp
    show "drop_bit 16 (pci_address bus slot func offset) AND mask 8 = ucast bus"
      by (rule bit_word_eqI) (auto simp: b dest: l)
    show "drop_bit 11 (pci_address bus slot func offset) AND mask 5 = ucast slot"
      by (rule bit_word_eqI) (auto simp: b intro: ccontr dest: l)
    show "drop_bit 8 (pci_address bus slot func offset) AND mask 3 = ucast func"
      by (rule bit_word_eqI) (auto simp: b intro: ccontr dest: l)
    show "pci_address bus slot func offset AND mask 8 = ucast reg"
      by (rule bit_word_eqI) (auto simp: b dest: l)
  qed
qed

theorem pci_address_fields_witness:
  "pci_address 0 31 0 0x27 = 0x8000F824 \<and> drop_bit 11 (pci_address 0 31 0 0x27) AND 0x1F = (31 :: u32)"
proof -
  have "drop_bit 11 (pci_address 0 31 0 0x27) AND 0x1F = (ucast (31 :: u8) :: u32)"
    using pci_address_fields [of 31 0 0 "0x27"] by simp
  moreover have "pci_address 0 31 0 0x27 = 0x8000F824" by (simp add: pci_address_def)
  ultimately show ?thesis by simp
qed

text \<open>C18: on hardware with configuration mechanism 1, pci_find_ahci returns the base address (BAR 5, its
  low four bits cleared) of the first function-0 device, by bus and then slot, that is present and
  has class 1 and subclass 6, and 0 when there is none; it changes no configuration register.\<close>

theorem pci_find_ahci_correct:
  assumes "pci_config hw cfg ok" "ok w"
  shows "fst (pci_find_ahci hw w) = pci_ahci_spec (cfg w) \<and>
    ok (snd (pci_find_ahci hw w)) \<and> cfg (snd (pci_find_ahci hw w)) = cfg w"
  using pci_config.find_ahci_cfg [OF assms] by blast

text \<open>A configuration space with a controller at bus 0, slot 3.\<close>

definition qemu_cfg :: "u32 \<Rightarrow> u32" where
  "qemu_cfg a =
     (if a = pci_address 0 3 0 0 then 0x29228086
      else if a = pci_address 0 3 0 8 then 0x01060102
      else if a = pci_address 0 3 0 0x24 then 0xFEBF1000
      else 0xFFFFFFFF)"

lemma qemu_slots: "\<exists>rest. pci_slots = (0, 0) # (0, 1) # (0, 2) # (0, 3) # rest"
proof -
  have "[0..<256 :: nat] = 0 # [1..<256]" by (simp add: upt_conv_Cons del: upt_rec_numeral)
  moreover have "[0..<32 :: nat] = 0 # 1 # 2 # 3 # [4..<32]" by (simp add: upt_conv_Cons)
  ultimately show ?thesis unfolding pci_slots_def by (simp del: upt_rec_numeral)
qed

lemma qemu_pci: "pci_ahci_spec qemu_cfg = 0xFEBF1000"
proof -
  obtain rest where slots: "pci_slots = (0, 0) # (0, 1) # (0, 2) # (0, 3) # rest" using qemu_slots by blast
  have "\<not> is_ahci qemu_cfg (0, 0)" "\<not> is_ahci qemu_cfg (0, 1)" "\<not> is_ahci qemu_cfg (0, 2)"
    "is_ahci qemu_cfg (0, 3)"
    by (simp_all add: is_ahci_def present_def qemu_cfg_def pci_address_def)
  moreover have "ahci_bar qemu_cfg (0, 3) = 0xFEBF1000"
    by (simp add: ahci_bar_def qemu_cfg_def pci_address_def)
  ultimately show ?thesis unfolding pci_ahci_spec_def slots by simp
qed

text \<open>
  The model of such a machine when the kernel starts: two ATA disks on ports 0 and 1 of the
  controller; the second one, with the FSSO image \<open>d\<close>, is the one the model keeps.
\<close>

definition qemu_regs :: "u64 \<Rightarrow> u32" where
  "qemu_regs a =
     (if a = hba_pi 0xFEBF1000 then 3
      else if a = hba_port 0xFEBF1000 0 + ucast PORT_SSTS then 0x113
      else if a = hba_port 0xFEBF1000 1 + ucast PORT_SSTS then 0x113
      else if a = hba_port 0xFEBF1000 0 + ucast PORT_SIG then 0x101
      else if a = hba_port 0xFEBF1000 1 + ucast PORT_SIG then 0x101
      else 0)"

definition qemu_pc :: "mem \<Rightarrow> bytes \<Rightarrow> pc" where
  "qemu_pc d keys = \<lparr>pc_ram = (\<lambda>_. 0), pc_latch = 0, pc_cfg = qemu_cfg, pc_base = 0xFEBF1000, pc_port = 1,
     pc_regs = qemu_regs, pc_disk = d, pc_sectors = 8192, pc_busy = 0, pc_stop = 2, pc_latency = 3, pc_keys = keys\<rparr>"

theorem pci_find_ahci_correct_witness: "fst (pci_find_ahci pc_hw (qemu_pc (\<lambda>_. 0) [])) = 0xFEBF1000"
  using pci_find_ahci_correct [OF pc_pci.pci_config_axioms TrueI, of "qemu_pc (\<lambda>_. 0) []"] qemu_pci
  by (simp add: qemu_pc_def)

section \<open>The outcomes of ahci_read\<close>

text \<open>The state once the command is built, old interrupts are acknowledged and slot 0 is issued.\<close>

definition issued :: "'w hw \<Rightarrow> ahci_state \<Rightarrow> u64 \<Rightarrow> u32 \<Rightarrow> u64 \<Rightarrow> 'w \<Rightarrow> 'w" where
  "issued hw st lba count buffer w =
     port_write hw (hba st) (nat (active_port st)) PORT_CI 1
       (port_write hw (hba st) (nat (active_port st)) PORT_IS 0xFFFFFFFF
         (set_ram_op hw (build_read (nat (active_port st)) lba count buffer (ram_op hw w)) w))"

definition poll_error :: "nat \<Rightarrow> 'w hw \<Rightarrow> u64 \<Rightarrow> nat \<Rightarrow> 'w \<Rightarrow> bool" where
  "poll_error n hw base port w \<longleftrightarrow>
     (\<exists>w1 ci w2 ir w3. busy_polls n hw base port w = Some w1 \<and>
       port_read hw base port PORT_CI w1 = (ci, w2) \<and> ci AND 1 \<noteq> 0 \<and>
       port_read hw base port PORT_IS w2 = (ir, w3) \<and> ir AND push_bit 30 1 \<noteq> 0)"

lemma ahci_poll_error_iff:
  "fst (ahci_poll N hw base port w) \<longleftrightarrow> (\<exists>n < N. poll_error n hw base port w)"
proof (induction N arbitrary: w)
  case (Suc N)
  obtain ci w1 where ci: "port_read hw base port PORT_CI w = (ci, w1)" by fastforce
  obtain ir w2 where ir: "port_read hw base port PORT_IS w1 = (ir, w2)" by fastforce
  have ex: "(\<exists>n < Suc N. P n) \<longleftrightarrow> P 0 \<or> (\<exists>n < N. P (Suc n))" for P :: "nat \<Rightarrow> bool"
    using less_Suc_eq_0_disj by auto
  have zero: "poll_error 0 hw base port w \<longleftrightarrow> ci AND 1 \<noteq> 0 \<and> ir AND push_bit 30 1 \<noteq> 0"
    by (auto simp: poll_error_def ci ir)
  have suc: "poll_error (Suc n) hw base port w \<longleftrightarrow>
      ci AND 1 \<noteq> 0 \<and> ir AND push_bit 30 1 = 0 \<and> poll_error n hw base port w2" for n
    by (simp add: poll_error_def ci ir)
  show ?case
    unfolding ex zero suc using Suc.IH [of w2] by (auto simp: ci ir Let_def)
qed simp

text \<open>With a port active, ahci_read returns 0, -1 or -2 after at most a million polls: -1 exactly when
  the task-file error bit shows while the command is outstanding, and 0 only when the last read of
  the command register shows slot 0 clear.\<close>

theorem ahci_read_outcomes:
  assumes "active_port st \<noteq> -1" "ahci_read hw st lba count buffer w = (rc, w')"
  shows "rc \<in> {0, -1, -2} \<and>
    (rc = -1 \<longleftrightarrow> (\<exists>n < 1000000. poll_error n hw (hba st) (nat (active_port st)) (issued hw st lba count buffer w))) \<and>
    (\<exists>w1 ci. rc = -1 \<or> port_read hw (hba st) (nat (active_port st)) PORT_CI w1 = (ci, w') \<and>
       (rc = 0 \<longleftrightarrow> ci AND 1 = 0))"
proof -
  let ?p = "nat (active_port st)"
  obtain failed v where poll: "ahci_poll 1000000 hw (hba st) ?p (issued hw st lba count buffer w) = (failed, v)"
    by fastforce
  have err: "failed \<longleftrightarrow> (\<exists>n < 1000000. poll_error n hw (hba st) ?p (issued hw st lba count buffer w))"
    using ahci_poll_error_iff [of 1000000 hw "hba st" ?p "issued hw st lba count buffer w"] by (simp add: poll)
  obtain ci v' where ci: "port_read hw (hba st) ?p PORT_CI v = (ci, v')" by fastforce
  have "(rc, w') = (if failed then (-1, v) else if ci AND 1 \<noteq> 0 then (-2, v') else (0, v'))"
    using assms poll ci by (auto simp: ahci_read_def Let_def issued_def ahci_timeout_def split: if_splits)
  then show ?thesis using err ci by (auto split: if_splits)
qed

theorem ahci_read_outcomes_witness:
  "fst (ahci_read pc_hw qemu_ahci 0 2 0x2000000 (qemu_pc (\<lambda>_. 0) [])) \<in> {0, -1, -2}"
proof -
  obtain rc w' where r: "ahci_read pc_hw qemu_ahci 0 2 0x2000000 (qemu_pc (\<lambda>_. 0) []) = (rc, w')" by fastforce
  have "active_port qemu_ahci \<noteq> -1" by (simp add: qemu_ahci_def)
  from ahci_read_outcomes [OF this r] have "rc \<in> {0, -1, -2}" by (rule conjunct1)
  then show ?thesis by (simp add: r)
qed


definition qemu_running :: "mem \<Rightarrow> pc" where
  "qemu_running d = (qemu_pc d [])\<lparr>pc_regs := qemu_regs(hba_port 0xFEBF1000 1 + ucast PORT_CLB := clb_addr 1,
     hba_port 0xFEBF1000 1 + ucast PORT_FB := fb_addr 1, hba_port 0xFEBF1000 1 + ucast PORT_CMD := 0x11)\<rparr>"

lemma qemu_running_ready: "pc_ready qemu_ahci (qemu_running d)"
  by (simp add: qemu_running_def pc_ready_def qemu_pc_def qemu_ahci_def pc_reg_def ahci_timeout_def port_regs
      qemu_regs_def hba_pi_def hba_port_def)


end
