(* ===== verification/Ahci_Port.thy ===== *)
theory Ahci_Port
  imports Drivers
begin

text \<open>
  \<open>port_rebase\<close> of \<^verbatim>\<open>src/kernel/ahci.c\<close>: it stops a port, gives it its memory areas and starts it
  again, with two waits that have no bound. The locale \<open>ahci_port\<close> states what the AHCI
  specification says of the port registers it touches; under these laws it is shown when
  \<open>port_rebase\<close> returns and how it leaves the port.
\<close>

unbundle bit_operations_syntax

section \<open>The waits\<close>

text \<open>The state after \<open>n\<close> reads of PORT_CMD that all showed a bit of the mask.\<close>

fun cmd_polls :: "nat \<Rightarrow> 'w hw \<Rightarrow> u64 \<Rightarrow> nat \<Rightarrow> u32 \<Rightarrow> 'w \<Rightarrow> 'w option" where
  "cmd_polls 0 hw base port msk w = Some w"
| "cmd_polls (Suc n) hw base port msk w =
     (case port_read hw base port PORT_CMD w of (v, w') \<Rightarrow>
        if v AND msk \<noteq> 0 then cmd_polls n hw base port msk w' else None)"

lemma port_wait_polls:
  assumes "port_wait hw base port msk w = Some w'"
  shows "\<exists>n w1 v. cmd_polls n hw base port msk w = Some w1 \<and>
     port_read hw base port PORT_CMD w1 = (v, w') \<and> v AND msk = 0"
proof (rule port_wait.raw_induct [OF _ assms, where P = "\<lambda>hw base port msk w w'.
    \<exists>n w1 v. cmd_polls n hw base port msk w = Some w1 \<and>
     port_read hw base port PORT_CMD w1 = (v, w') \<and> v AND msk = 0"])
  fix self :: "'a hw \<Rightarrow> u64 \<Rightarrow> nat \<Rightarrow> u32 \<Rightarrow> 'a \<Rightarrow> 'a option" and hw :: "'a hw" and base port msk w w'
  assume 1: "\<And>hw base port msk w w'. self hw base port msk w = Some w' \<Longrightarrow>
      \<exists>n w1 v. cmd_polls n hw base port msk w = Some w1 \<and>
       port_read hw base port PORT_CMD w1 = (v, w') \<and> v AND msk = 0"
    "(case port_read hw base port PORT_CMD w of (v, w') \<Rightarrow>
        if v AND msk \<noteq> 0 then self hw base port msk w' else Some w') = Some w'"
  obtain v w1 where r: "port_read hw base port PORT_CMD w = (v, w1)" by fastforce
  show "\<exists>n w1 v. cmd_polls n hw base port msk w = Some w1 \<and>
     port_read hw base port PORT_CMD w1 = (v, w') \<and> v AND msk = 0"
  proof (cases "v AND msk = 0")
    case True
    with 1(2) r have "w1 = w'" by simp
    with True r have "cmd_polls 0 hw base port msk w = Some w \<and>
      port_read hw base port PORT_CMD w = (v, w') \<and> v AND msk = 0" by simp
    then show ?thesis by blast
  next
    case False
    with 1(2) r have "self hw base port msk w1 = Some w'" by simp
    from 1(1) [OF this] obtain n w2 v2 where
      "cmd_polls n hw base port msk w1 = Some w2" "port_read hw base port PORT_CMD w2 = (v2, w')" "v2 AND msk = 0"
      by blast
    with False r have "cmd_polls (Suc n) hw base port msk w = Some w2 \<and>
      port_read hw base port PORT_CMD w2 = (v2, w') \<and> v2 AND msk = 0" by simp
    then show ?thesis by blast
  qed
qed

lemma polls_port_wait:
  "cmd_polls n hw base port msk w = Some w1 \<Longrightarrow> port_read hw base port PORT_CMD w1 = (v, w') \<Longrightarrow>
   v AND msk = 0 \<Longrightarrow> port_wait hw base port msk w = Some w'"
proof (induction n arbitrary: w)
  case 0
  then show ?case by (simp add: port_wait.simps)
next
  case (Suc n)
  then show ?case
    by (subst port_wait.simps) (auto split: prod.splits if_splits)
qed

text \<open>The port with its areas set, and with both engines enabled too.\<close>

definition areas_set :: "('w \<Rightarrow> u32 \<Rightarrow> u32) \<Rightarrow> nat \<Rightarrow> 'w \<Rightarrow> bool" where
  "areas_set reg port w \<longleftrightarrow>
     reg w PORT_CLB = clb_addr port \<and> reg w PORT_CLBU = 0 \<and> reg w PORT_FB = fb_addr port \<and> reg w PORT_FBU = 0"

definition port_started :: "('w \<Rightarrow> u32 \<Rightarrow> u32) \<Rightarrow> nat \<Rightarrow> 'w \<Rightarrow> bool" where
  "port_started reg port w \<longleftrightarrow> areas_set reg port w \<and> bit (reg w PORT_CMD) 0 \<and> bit (reg w PORT_CMD) 4 \<and>
     \<not> bit (reg w PORT_IS) 30"

lemma bits_listed:
  assumes "list_all (\<lambda>n. bit c n = List.member S n) [0..<32]" "list_all (\<lambda>n. n < 32) S"
  shows "bit (c :: u32) n \<longleftrightarrow> n \<in> set S"
proof (cases "n < 32")
  case True
  with assms(1) show ?thesis by (simp add: list_all_iff)
next
  case False
  with assms(2) bit_imp_le_length [of c n] show ?thesis by (auto simp: list_all_iff)
qed

lemma mask_bits:
  "bit (0x01 :: u32) n \<longleftrightarrow> n \<in> set [0]" "bit (0x10 :: u32) n \<longleftrightarrow> n \<in> set [4]" "bit (0x11 :: u32) n \<longleftrightarrow> n \<in> set [0, 4]"
  "bit (0xC000 :: u32) n \<longleftrightarrow> n \<in> set [14, 15]" "bit (0xC011 :: u32) n \<longleftrightarrow> n \<in> set [0, 4, 14, 15]"
  by (rule bits_listed; code_simp)+

lemma wait_bits:
  "(v :: u32) AND 0xC000 = 0 \<longleftrightarrow> \<not> bit v 14 \<and> \<not> bit v 15"
  "(v :: u32) AND 0x8000 = 0 \<longleftrightarrow> \<not> bit v 15"
proof -
  have "(0x8000 :: u32) = push_bit 15 1" by simp
  then show "v AND 0x8000 = 0 \<longleftrightarrow> \<not> bit v 15" by (simp only: bit_iff_and_push_bit_not_eq_0 not_not)
  show "v AND 0xC000 = 0 \<longleftrightarrow> \<not> bit v 14 \<and> \<not> bit v 15"
    unfolding bit_eq_iff [where ?'a = "32 word"] bit_and_iff mask_bits by (auto dest: spec [of _ 14] spec [of _ 15])
qed

lemma cmd_bits:
  "((cmd :: u32) AND NOT 0x01) AND NOT 0x10 = cmd AND NOT 0x11" "(cmd OR 0x10) OR 0x01 = cmd OR 0x11"
  "(cmd AND NOT 0x11) AND NOT 0xC011 = cmd AND NOT 0xC011" "(cmd OR 0x11) AND NOT 0xC011 = cmd AND NOT 0xC011"
  "x AND NOT 0xC000 = cmd AND NOT 0xC000 \<Longrightarrow> x AND NOT 0xC011 = cmd AND NOT 0xC011"
  unfolding bit_eq_iff [where ?'a = "32 word"] bit_and_iff bit_or_iff bit_not_iff mask_bits by auto

lemma cmd_engines: "((cmd :: u32) AND NOT 0x11) AND 0x11 = 0" "(cmd OR 0x11) AND 0x11 = 0x11"
  unfolding bit_eq_iff [where ?'a = "32 word"] bit_and_iff bit_or_iff bit_not_iff mask_bits bit_0_eq by auto

lemma cmd_started: "x AND NOT 0xC000 = ((cmd :: u32) OR 0x11) AND NOT 0xC000 \<Longrightarrow> bit x 0 \<and> bit x 4"
  unfolding bit_eq_iff [where ?'a = "32 word"] bit_and_iff bit_or_iff bit_not_iff mask_bits
  by (auto dest: spec [of _ 0] spec [of _ 4])

section \<open>The laws of a port\<close>

text \<open>
  \<open>reg w off\<close> is the setting of a port register; \<open>fr w\<close> and \<open>cr w\<close> say for how many more reads of PxCMD
  its bits 14 (FR, FIS reception running) and 15 (CR, command list running) show, None for ever.
  A read shows the settings and the two bits. PxCMD takes a value that differs from the one read in
  ST (bit 0), FRE (bit 4) and the two read-only bits alone: cleared, to stop the engines, at any
  time; set, to start them, when they are idle and the four addresses are those of the port, and
  then the addresses stay and no task-file error appears. The addresses may be set only with both
  engines idle; SERR and then IS are cleared by writing ones. Nothing is said of the memory, which
  a starting port may post in.
\<close>

locale ahci_port =
  fixes hw :: "'w hw"
    and base :: u64
    and port :: nat
    and ok :: "'w \<Rightarrow> bool"
    and reg :: "'w \<Rightarrow> u32 \<Rightarrow> u32"
    and fr :: "'w \<Rightarrow> nat option"
    and cr :: "'w \<Rightarrow> nat option"
  assumes port_less: "port < 32"
    and cmd_read: "ok w \<Longrightarrow> port_read hw base port PORT_CMD w = (v, w') \<Longrightarrow>
        v AND NOT 0xC000 = reg w PORT_CMD AND NOT 0xC000 \<and>
        (bit v 14 \<longleftrightarrow> fr w \<noteq> Some 0) \<and> (bit v 15 \<longleftrightarrow> cr w \<noteq> Some 0) \<and>
        ok w' \<and> reg w' = reg w \<and> fr w' = map_option (\<lambda>n. n - 1) (fr w) \<and> cr w' = map_option (\<lambda>n. n - 1) (cr w)"
    and cmd_stop: "ok w \<Longrightarrow> v AND NOT 0xC011 = reg w PORT_CMD AND NOT 0xC011 \<Longrightarrow> v AND 0x11 = 0 \<Longrightarrow>
        w' = port_write hw base port PORT_CMD v w \<Longrightarrow>
        ok w' \<and> reg w' PORT_CMD AND NOT 0xC000 = v AND NOT 0xC000"
    and cmd_start: "ok w \<Longrightarrow> v AND NOT 0xC011 = reg w PORT_CMD AND NOT 0xC011 \<Longrightarrow> v AND 0x11 = 0x11 \<Longrightarrow>
        fr w = Some 0 \<Longrightarrow> cr w = Some 0 \<Longrightarrow> areas_set reg port w \<Longrightarrow>
        w' = port_write hw base port PORT_CMD v w \<Longrightarrow>
        ok w' \<and> reg w' PORT_CMD AND NOT 0xC000 = v AND NOT 0xC000 \<and> areas_set reg port w' \<and>
        (bit (reg w' PORT_IS) 30 \<longrightarrow> bit (reg w PORT_IS) 30)"
    and addr_write: "ok w \<Longrightarrow> fr w = Some 0 \<Longrightarrow> cr w = Some 0 \<Longrightarrow>
        (off, v) \<in> {(PORT_CLB, clb_addr port), (PORT_CLBU, 0), (PORT_FB, fb_addr port), (PORT_FBU, 0)} \<Longrightarrow>
        w' = port_write hw base port off v w \<Longrightarrow>
        ok w' \<and> reg w' = (reg w)(off := v) \<and> fr w' = Some 0 \<and> cr w' = Some 0"
    and serr_write: "ok w \<Longrightarrow> w' = port_write hw base port PORT_SERR 0xFFFFFFFF w \<Longrightarrow>
        ok w' \<and> reg w' = (reg w)(PORT_SERR := 0) \<and> fr w' = fr w \<and> cr w' = cr w"
    and is_write: "ok w \<Longrightarrow> reg w PORT_SERR = 0 \<Longrightarrow> w' = port_write hw base port PORT_IS 0xFFFFFFFF w \<Longrightarrow>
        ok w' \<and> reg w' = (reg w)(PORT_IS := 0) \<and> fr w' = fr w \<and> cr w' = cr w"
begin

lemma polls_keep:
  "cmd_polls n hw base port msk w = Some w1 \<Longrightarrow> ok w \<Longrightarrow>
   ok w1 \<and> (fr w = None \<longrightarrow> fr w1 = None) \<and> (cr w = None \<longrightarrow> cr w1 = None)"
proof (induction n arbitrary: w)
  case (Suc n)
  obtain v w' where r: "port_read hw base port PORT_CMD w = (v, w')" by fastforce
  have "cmd_polls n hw base port msk w' = Some w1" using Suc.prems(1) r by (simp split: if_splits)
  with Suc.IH [of w'] cmd_read [OF Suc.prems(2) r] show ?case by simp
qed simp

lemma wait_never:
  assumes "ok w" "msk = 0xC000 \<and> fr w = None \<or> cr w = None" "msk = 0xC000 \<or> msk = 0x8000"
  shows "port_wait hw base port msk w = None"
proof (rule ccontr)
  assume "port_wait hw base port msk w \<noteq> None"
  then obtain w' where "port_wait hw base port msk w = Some w'" by auto
  from port_wait_polls [OF this] obtain n w1 v where p: "cmd_polls n hw base port msk w = Some w1"
    "port_read hw base port PORT_CMD w1 = (v, w')" "v AND msk = 0" by blast
  note k = polls_keep [OF p(1) assms(1)]
  from cmd_read [OF conjunct1 [OF k] p(2)] k p(3) assms(2,3) show False
    by (auto simp: wait_bits)
qed

lemma wait_ends:
  "ok w \<Longrightarrow> fr w = Some i \<Longrightarrow> cr w = Some j \<Longrightarrow> msk = 0xC000 \<or> msk = 0x8000 \<Longrightarrow>
   \<exists>w'. port_wait hw base port msk w = Some w' \<and> ok w' \<and> reg w' = reg w \<and>
     (msk = 0xC000 \<or> i = 0 \<longrightarrow> fr w' = Some 0) \<and> cr w' = Some 0"
proof (induction "i + j" arbitrary: w i j rule: less_induct)
  case less
  obtain v w1 where r: "port_read hw base port PORT_CMD w = (v, w1)" by fastforce
  note c = cmd_read [OF less.prems(1) r]
  have f: "fr w1 = Some (i - 1)" "cr w1 = Some (j - 1)"
    using c less.prems(2,3) by simp_all
  show ?case
  proof (cases "v AND msk = 0")
    case True
    then have "port_wait hw base port msk w = Some w1" by (simp add: port_wait.simps r)
    with c True less.prems f show ?thesis by (auto simp: wait_bits)
  next
    case False
    then have w: "port_wait hw base port msk w = port_wait hw base port msk w1"
      by (subst port_wait.simps) (simp add: r)
    have "i - 1 + (j - 1) < i + j" using False c less.prems by (auto simp: wait_bits)
    from less.hyps [OF this conjunct1 [OF conjunct2 [OF conjunct2 [OF conjunct2 [OF c]]]] f less.prems(4)]
    show ?thesis using c unfolding w by auto
  qed
qed

lemma rebase_port:
  assumes "ok w" "port_read hw base port PORT_CMD w = (cmd, w0)"
    and w1: "w1 = port_write hw base port PORT_CMD (cmd AND NOT 0x11) w0"
  shows "if fr w1 = None \<or> cr w1 = None then port_rebase hw base port w = None
    else (\<exists>c v w'. ok v \<and> fr v = Some 0 \<and> cr v = Some 0 \<and> reg v PORT_SERR = 0 \<and> reg v PORT_IS = 0 \<and>
      w' = port_write hw base port PORT_CMD c v \<and> port_rebase hw base port w = Some w' \<and>
      ok w' \<and> port_started reg port w' \<and> reg w' PORT_CMD AND NOT 0xC011 = cmd AND NOT 0xC011)"
proof -
  note r = cmd_read [OF assms(1,2)]
  have e: "cmd AND NOT 0xC011 = reg w0 PORT_CMD AND NOT 0xC011" using r by (intro cmd_bits(5)) simp
  have "(cmd AND NOT 0x11) AND NOT 0xC011 = reg w0 PORT_CMD AND NOT 0xC011"
    unfolding cmd_bits(3) by (rule e)
  from cmd_stop [OF _ this cmd_engines(1) w1] r
  have k1: "ok w1" "reg w1 PORT_CMD AND NOT 0xC000 = (cmd AND NOT 0x11) AND NOT 0xC000" by auto
  then have c1: "reg w1 PORT_CMD AND NOT 0xC011 = cmd AND NOT 0xC011"
    using cmd_bits(5) [OF k1(2)] cmd_bits(3) by simp
  show ?thesis
  proof (cases "fr w1 = None \<or> cr w1 = None")
    case True
    with wait_never [OF k1(1)] have n: "port_wait hw base port 0xC000 w1 = None" by simp
    have "port_rebase hw base port w = None"
      by (simp only: port_rebase_def assms(2) prod.case Let_def cmd_bits(1) w1 [symmetric] n option.case)
    with True show ?thesis by simp
  next
    case False
    then obtain i j where ij: "fr w1 = Some i" "cr w1 = Some j" by auto
    obtain w2 where w2: "port_wait hw base port 0xC000 w1 = Some w2" "ok w2" "reg w2 = reg w1" "fr w2 = Some 0" "cr w2 = Some 0"
      using wait_ends [OF k1(1) ij, where msk = "0xC000"] by auto
    define w3 where "w3 = port_write hw base port PORT_CLB (clb_addr port) w2"
    define w4 where "w4 = port_write hw base port PORT_CLBU 0 w3"
    define w5 where "w5 = port_write hw base port PORT_FB (fb_addr port) w4"
    define w6 where "w6 = port_write hw base port PORT_FBU 0 w5"
    define w7 where "w7 = port_write hw base port PORT_SERR 0xFFFFFFFF w6"
    define w8 where "w8 = port_write hw base port PORT_IS 0xFFFFFFFF w7"
    have k3: "ok w3" "reg w3 = (reg w1)(PORT_CLB := clb_addr port)" "fr w3 = Some 0" "cr w3 = Some 0"
      using addr_write [OF w2(2,4,5) _ w3_def] w2(3) by simp_all
    have k4: "ok w4" "reg w4 = (reg w3)(PORT_CLBU := 0)" "fr w4 = Some 0" "cr w4 = Some 0"
      using addr_write [OF k3(1,3,4) _ w4_def] by simp_all
    have k5: "ok w5" "reg w5 = (reg w4)(PORT_FB := fb_addr port)" "fr w5 = Some 0" "cr w5 = Some 0"
      using addr_write [OF k4(1,3,4) _ w5_def] by simp_all
    have k6: "ok w6" "reg w6 = (reg w5)(PORT_FBU := 0)" "fr w6 = Some 0" "cr w6 = Some 0"
      using addr_write [OF k5(1,3,4) _ w6_def] by simp_all
    have k7: "ok w7" "reg w7 = (reg w6)(PORT_SERR := 0)" "fr w7 = Some 0" "cr w7 = Some 0"
      using serr_write [OF k6(1) w7_def] k6(3,4) by simp_all
    have k8: "ok w8" "reg w8 = (reg w7)(PORT_IS := 0)" "fr w8 = Some 0" "cr w8 = Some 0"
      using is_write [OF k7(1) _ w8_def] k7 by simp_all
    have z: "fr w8 = Some 0" "cr w8 = Some 0" using k8 by (simp_all add:)
    obtain w9 where w9: "port_wait hw base port 0x8000 w8 = Some w9" "ok w9" "reg w9 = reg w8" "fr w9 = Some 0" "cr w9 = Some 0"
      using wait_ends [OF k8(1) z, where msk = "0x8000"] by auto
    obtain c v where c: "port_read hw base port PORT_CMD w9 = (c, v)" by fastforce
    note kv = cmd_read [OF w9(2) c]
    have idle: "ok v" "fr v = Some 0" "cr v = Some 0" using kv w9(4,5) by simp_all
    have regs: "areas_set reg port v" "reg v PORT_SERR = 0" "reg v PORT_IS = 0" "reg v PORT_CMD = reg w1 PORT_CMD"
      using kv w9(3) k8(2) k7(2) k6(2) k5(2) k4(2) k3(2) by (simp_all add: areas_set_def port_regs)
    have "c AND NOT 0xC011 = reg v PORT_CMD AND NOT 0xC011" using kv by (intro cmd_bits(5)) simp
    then have c2: "(c OR 0x11) AND NOT 0xC011 = reg v PORT_CMD AND NOT 0xC011"
      unfolding cmd_bits(4) .
    define w' where "w' = port_write hw base port PORT_CMD (c OR 0x11) v"
    note k = cmd_start [OF idle(1) c2 cmd_engines(2) idle(2,3) regs(1) w'_def]
    then have s: "reg w' PORT_CMD AND NOT 0xC000 = (c OR 0x11) AND NOT 0xC000" by simp
    have "port_started reg port w' \<and> reg w' PORT_CMD AND NOT 0xC011 = cmd AND NOT 0xC011"
      using k cmd_started [OF s] cmd_bits(5) [OF s] c2 c1 regs(3,4) by (simp add: port_started_def)
    moreover have "port_rebase hw base port w = Some w'"
      by (simp only: port_rebase_def assms(2) prod.case cmd_bits(1,2) w1 [symmetric] w2(1) option.case w3_def [symmetric] w4_def [symmetric]
          w5_def [symmetric] w6_def [symmetric] w7_def [symmetric] w8_def [symmetric] w9(1) c w'_def Let_def)
    ultimately show ?thesis using False regs(2,3) k idle w'_def by auto
  qed
qed

end

text \<open>C25: On a port that keeps its laws, port_rebase first clears ST and FRE. When one of the two
  engines then never stops it never returns; otherwise it returns, with the command list and
  received-FIS areas of the port set while both engines were idle, error and interrupt status
  cleared before the port was started, and at the end ST and FRE set, the other settings of PxCMD as
  they were and no task-file error pending.\<close>

theorem port_rebase_sets_up:
  assumes "ahci_port hw base port ok reg fr cr" "ok w"
    and "port_read hw base port PORT_CMD w = (cmd, w0)"
    and "w1 = port_write hw base port PORT_CMD (cmd AND NOT 0x11) w0"
  shows "if fr w1 = None \<or> cr w1 = None then port_rebase hw base port w = None
    else (\<exists>c v w'. ok v \<and> fr v = Some 0 \<and> cr v = Some 0 \<and> reg v PORT_SERR = 0 \<and> reg v PORT_IS = 0 \<and>
      w' = port_write hw base port PORT_CMD c v \<and> port_rebase hw base port w = Some w' \<and>
      ok w' \<and> port_started reg port w' \<and> reg w' PORT_CMD AND NOT 0xC011 = cmd AND NOT 0xC011)"
  by (rule ahci_port.rebase_port [OF assms])

end
