(* ===== verification/Ahci_Start.thy ===== *)
theory Ahci_Start
  imports Ahci_Port
begin

text \<open>
  Start-up of the AHCI driver, \<open>ahci_init\<close> of \<^verbatim>\<open>src/kernel/ahci.c\<close>: which port it picks and how
  it can fail. The locale \<open>ahci_probe\<close> says what it relies on while probing: the controller's
  registers read the same each time, and enabling AHCI mode changes no other register. On the
  machine of \<open>Platform\<close> start-up is followed to the end, where the driver's contract holds.
\<close>

unbundle bit_operations_syntax

section \<open>Probing\<close>

definition probed :: "u64 \<Rightarrow> u64 \<Rightarrow> bool" where
  "probed base a \<longleftrightarrow> a = hba_ghc base \<or> a = hba_pi base \<or>
     (\<exists>i < 32. a = hba_port base i + ucast PORT_SSTS \<or> a = hba_port base i + ucast PORT_SIG)"

text \<open>A port with an active ATA device, and the list of those that are implemented.\<close>

definition ata_port :: "(u64 \<Rightarrow> u32) \<Rightarrow> u64 \<Rightarrow> nat \<Rightarrow> bool" where
  "ata_port regs base i \<longleftrightarrow>
     regs (hba_port base i + ucast PORT_SSTS) AND 0x0F = 3 \<and>
     drop_bit 8 (regs (hba_port base i + ucast PORT_SSTS)) AND 0x0F = 1 \<and>
     regs (hba_port base i + ucast PORT_SIG) = SATA_SIG_ATA"

definition ata_ports :: "(u64 \<Rightarrow> u32) \<Rightarrow> u64 \<Rightarrow> nat list \<Rightarrow> nat list" where
  "ata_ports regs base is = filter (\<lambda>i. bit (regs (hba_pi base)) i \<and> ata_port regs base i) is"

locale ahci_probe = pci_config hw cfg ok
  for hw :: "'w hw" and cfg ok +
  fixes regs :: "'w \<Rightarrow> u64 \<Rightarrow> u32"
  assumes pci_regs: "ok w \<Longrightarrow> inl_op hw 0xCFC (outl_op hw 0xCF8 a w) = (v, w') \<Longrightarrow> regs w' = regs w"
    and ld_reg: "ok w \<Longrightarrow> probed (pci_ahci_spec (cfg w)) x \<Longrightarrow> ld32_op hw x w = (v, w') \<Longrightarrow>
      v = regs w x \<and> ok w' \<and> cfg w' = cfg w \<and> regs w' = regs w"
    and enable: "ok w \<Longrightarrow> base = pci_ahci_spec (cfg w) \<Longrightarrow> w' = st32_op hw (hba_ghc base) v w \<Longrightarrow>
      ok w' \<and> cfg w' = cfg w \<and> (\<forall>x. x \<noteq> hba_ghc base \<longrightarrow> regs w' x = regs w x)"
begin

lemma find_ahci_regs:
  assumes "ok w" "pci_find_ahci hw w = (b, w')"
  shows "b = pci_ahci_spec (cfg w)" "ok w'" "cfg w' = cfg w" "regs w' = regs w"
proof -
  have "pci_config hw cfg (\<lambda>v. ok v \<and> regs v = regs w)"
  proof
    fix v v' :: 'w and a x :: u32
    assume v: "ok v \<and> regs v = regs w" and r: "inl_op hw 0xCFC (outl_op hw 0xCF8 a v) = (x, v')"
    show "x = cfg v a" using config_data [OF conjunct1 [OF v] r] .
    show "(ok v' \<and> regs v' = regs w) \<and> cfg v' = cfg v"
      using config_keeps [OF conjunct1 [OF v] r] pci_regs [OF conjunct1 [OF v] r] v by simp
  qed
  from pci_config.find_ahci_cfg [OF this, of w] assms
  show "b = pci_ahci_spec (cfg w)" "ok w'" "cfg w' = cfg w" "regs w' = regs w" by simp_all
qed

lemma probe_port_regs:
  assumes "ok w" "base = pci_ahci_spec (cfg w)" "i < 32" "probe_port hw base pi i active w = (r, w')"
  shows "r = (if bit pi i \<and> ata_port (regs w) base i then int i else active)"
    "ok w'" "cfg w' = cfg w" "regs w' = regs w"
proof -
  have p: "probed base (hba_port base i + ucast PORT_SSTS)" "probed base (hba_port base i + ucast PORT_SIG)"
    using assms(3) by (auto simp: probed_def)
  have b: "pi AND push_bit i 1 = 0 \<longleftrightarrow> \<not> bit pi i" by (simp add: bit_iff_and_push_bit_not_eq_0)
  obtain v w1 where 1: "port_read hw base i PORT_SSTS w = (v, w1)" by fastforce
  obtain u w2 where 2: "port_read hw base i PORT_SIG w1 = (u, w2)" by fastforce
  have r1: "v = regs w (hba_port base i + ucast PORT_SSTS)" "ok w1" "cfg w1 = cfg w" "regs w1 = regs w"
    using ld_reg [OF assms(1) p(1) [unfolded assms(2)]] 1 assms(2) by (auto simp: port_read_def)
  have "probed (pci_ahci_spec (cfg w1)) (hba_port base i + ucast PORT_SIG)"
    using p(2) assms(2) r1(3) by simp
  from ld_reg [OF r1(2) this] 2
  have r2: "u = regs w (hba_port base i + ucast PORT_SIG)" "ok w2" "cfg w2 = cfg w" "regs w2 = regs w"
    using r1 by (auto simp: port_read_def)
  have "(r, w') =
    (if \<not> bit pi i then (active, w)
     else if v AND 0x0F = 3 \<and> drop_bit 8 v AND 0x0F = 1 then
       (if u = SATA_SIG_ATA then (int i, w2) else (active, w2))
     else (active, w1))"
    using assms(4) unfolding probe_port_def b 1 2 by (auto simp: 2 split: if_splits)
  then show "r = (if bit pi i \<and> ata_port (regs w) base i then int i else active)"
    "ok w'" "cfg w' = cfg w" "regs w' = regs w"
    using assms(1) r1 r2 by (auto simp: ata_port_def split: if_splits)
qed

lemma probe_ports_regs:
  "ok w \<Longrightarrow> base = pci_ahci_spec (cfg w) \<Longrightarrow> pi = regs w (hba_pi base) \<Longrightarrow> \<forall>i \<in> set is. i < 32 \<Longrightarrow>
   probe_ports hw base pi is active w = (r, w') \<Longrightarrow>
   r = (if ata_ports (regs w) base is = [] then active else int (last (ata_ports (regs w) base is))) \<and>
   ok w' \<and> cfg w' = cfg w \<and> regs w' = regs w"
proof (induction "is" arbitrary: active w)
  case (Cons i js)
  obtain a w1 where p: "probe_port hw base pi i active w = (a, w1)" by fastforce
  note r = probe_port_regs [OF Cons.prems(1,2) _ p]
  have i: "i < 32" using Cons.prems by simp
  have rest: "probe_ports hw base pi js a w1 = (r, w')" using Cons.prems(5) p by simp
  have "r = (if ata_ports (regs w1) base js = [] then a else int (last (ata_ports (regs w1) base js))) \<and>
      ok w' \<and> cfg w' = cfg w1 \<and> regs w' = regs w1"
    using Cons.prems r [OF i] by (intro Cons.IH rest) simp_all
  then show ?case
    using r [OF i] Cons.prems(3) by (auto simp: ata_ports_def)
qed (simp add: ata_ports_def)

end

text \<open>The probed registers are all different from the global control register.\<close>

lemma hba_port_off:
  "hba_port base i + ucast off = base + (0x100 + of_nat i * 0x80 + ucast off)"
  by (simp add: hba_port_def algebra_simps)

lemma unat_port_off:
  assumes "i < 32" "unat off < 0x80"
  shows "unat (0x100 + of_nat i * 0x80 + ucast (off :: u32) :: u64) = 0x100 + 0x80 * i + unat off"
proof -
  have "unat (ucast off :: u64) = unat off"
    using assms(2) by (simp add: unsigned_ucast_eq take_bit_nat_eq_self)
  with assms show ?thesis by (simp add: unat_word_ariths unat_of_nat)
qed

lemma port_off_eq:
  assumes "i < 32" "j < 32" "unat off < 0x80" "unat off' < 0x80"
  shows "hba_port base i + ucast (off :: u32) = hba_port base j + ucast (off' :: u32) \<longleftrightarrow> i = j \<and> off = off'"
proof -
  have "hba_port base i + ucast off = hba_port base j + ucast off' \<longleftrightarrow>
      0x100 + 0x80 * i + unat off = 0x100 + 0x80 * j + unat off'"
    unfolding hba_port_off add_left_cancel
    unfolding word_unat_eq_iff unat_port_off [OF assms(1,3)] unat_port_off [OF assms(2,4)] ..
  also have "\<dots> \<longleftrightarrow> i = j \<and> unat off = unat off'"
    using assms(3,4) by (cases i j rule: linorder_cases) auto
  finally show ?thesis by (simp add: word_unat_eq_iff)
qed

lemma port_off_global:
  assumes "i < 32" "unat off < 0x80"
  shows "hba_port base i + ucast (off :: u32) \<noteq> hba_ghc base" "hba_port base i + ucast off \<noteq> hba_pi base"
  unfolding hba_port_off hba_ghc_def hba_pi_def add_left_cancel
  unfolding word_unat_eq_iff unat_port_off [OF assms] by simp_all

lemma port_regs_small:
  "unat PORT_CLB < 0x80" "unat PORT_CLBU < 0x80" "unat PORT_FB < 0x80" "unat PORT_FBU < 0x80"
  "unat PORT_IS < 0x80" "unat PORT_CMD < 0x80" "unat PORT_SIG < 0x80" "unat PORT_SSTS < 0x80"
  "unat PORT_SERR < 0x80" "unat PORT_CI < 0x80"
  by (simp_all add: port_regs)

lemma ata_ports_cong:
  assumes "\<And>x. x \<noteq> hba_ghc base \<Longrightarrow> R x = S x" "\<forall>i \<in> set is. i < 32"
  shows "ata_ports R base is = ata_ports S base is"
proof -
  have "hba_pi base \<noteq> hba_ghc base" by (simp add: hba_pi_def hba_ghc_def)
  then have "R (hba_pi base) = S (hba_pi base)" by (rule assms(1))
  then show ?thesis
    unfolding ata_ports_def ata_port_def using assms port_off_global(1) port_regs_small
    by (intro filter_cong) auto
qed

section \<open>The port that ahci_init picks\<close>

context ahci_probe
begin

lemma ahci_init_probe:
  assumes "ok w"
  defines "base \<equiv> pci_ahci_spec (cfg w)"
  defines "ports \<equiv> ata_ports (regs w) base [0..<32]"
  shows "\<exists>w'. ok w' \<and> ahci_init hw ahci_boot w =
    (if base = 0 then Some (-1, ahci_boot, w')
     else if ports = [] then Some (-1, \<lparr>hba = base, active_port = -1\<rparr>, w')
     else map_option (\<lambda>v. (0, \<lparr>hba = base, active_port = int (last ports)\<rparr>, v))
       (port_rebase hw base (last ports) w'))"
proof -
  obtain b w1 where 1: "pci_find_ahci hw w = (b, w1)" by fastforce
  note r1 = find_ahci_regs [OF assms(1) 1]
  have base: "b = base" "base = pci_ahci_spec (cfg w1)" using r1 by (simp_all add: base_def)
  show ?thesis
  proof (cases "base = 0")
    case True
    then show ?thesis using r1(2) by (auto simp: ahci_init_def 1 base(1))
  next
    case False
    obtain g w2 where 2: "ld32_op hw (hba_ghc base) w1 = (g, w2)" by fastforce
    have "probed (pci_ahci_spec (cfg w1)) (hba_ghc base)" by (simp add: probed_def base(2))
    from ld_reg [OF r1(2) this 2] have r2: "ok w2" "cfg w2 = cfg w1" "regs w2 = regs w1" by simp_all
    define w3 where "w3 = st32_op hw (hba_ghc base) (g OR push_bit 31 1) w2"
    have b2: "base = pci_ahci_spec (cfg w2)" using base(2) r2(2) by simp
    note r3 = enable [OF r2(1) b2 w3_def]
    have b3: "base = pci_ahci_spec (cfg w3)" using b2 r3 by simp
    obtain pi w4 where 4: "ld32_op hw (hba_pi base) w3 = (pi, w4)" by fastforce
    have "probed (pci_ahci_spec (cfg w3)) (hba_pi base)" by (simp add: probed_def b3)
    from ld_reg [OF conjunct1 [OF r3] this 4]
    have r4: "pi = regs w3 (hba_pi base)" "ok w4" "cfg w4 = cfg w3" "regs w4 = regs w3" by simp_all
    obtain a w5 where 5: "probe_ports hw base pi [0..<32] (-1) w4 = (a, w5)" by fastforce
    have b4: "base = pci_ahci_spec (cfg w4)" "pi = regs w4 (hba_pi base)" using b3 r4 by simp_all
    have "ata_ports (regs w4) base [0..<32] = ports"
      unfolding ports_def using r1(4) r2(3) r3 r4(4) by (intro ata_ports_cong) auto
    with probe_ports_regs [OF r4(2) b4 _ 5]
    have r5: "a = (if ports = [] then -1 else int (last ports))" "ok w5" by simp_all
    have "ahci_init hw ahci_boot w =
      (if a = -1 then Some (-1, \<lparr>hba = base, active_port = -1\<rparr>, w5)
       else (case port_rebase hw base (nat a) w5 of None \<Rightarrow> None
             | Some v \<Rightarrow> Some (0, \<lparr>hba = base, active_port = a\<rparr>, v)))"
      using False 5
      by (simp add: ahci_init_def 1 base(1) 2 w3_def [symmetric, simplified] 4 ahci_boot_def Let_def
          del: upt_rec_numeral split: option.splits)
    then show ?thesis
      using False r5 by (auto simp: option.map_sel split: option.splits intro!: exI [of _ w5])
  qed
qed

end

text \<open>C16: on a controller whose registers read stably while probing, ahci_init fails with -1 when no
  controller is found or no implemented port has an active ATA device; otherwise it returns 0 with
  the highest-numbered such port active, once port_rebase of that port returns, and it never
  returns when that start-up never ends.\<close>

theorem ahci_init_picks_last_port:
  assumes "ahci_probe hw cfg ok regs" "ok w"
  shows "\<exists>w'. ok w' \<and> ahci_init hw ahci_boot w =
    (let base = pci_ahci_spec (cfg w); ports = ata_ports (regs w) base [0..<32] in
     if base = 0 then Some (-1, ahci_boot, w')
     else if ports = [] then Some (-1, \<lparr>hba = base, active_port = -1\<rparr>, w')
     else map_option (\<lambda>v. (0, \<lparr>hba = base, active_port = int (last ports)\<rparr>, v))
       (port_rebase hw base (last ports) w'))"
  using ahci_probe.ahci_init_probe [OF assms] by (simp only: Let_def)

section \<open>Start-up on the machine\<close>

definition pc_powered :: "pc \<Rightarrow> bool" where
  "pc_powered w \<longleftrightarrow> pci_ahci_spec (pc_cfg w) = pc_base w \<and> pc_port w < 32"

lemma probed_other:
  assumes "probed (pc_base w) x" "pc_port w < 32"
  shows "x \<noteq> pc_reg w PORT_CI" "x \<noteq> pc_reg w PORT_CMD"
proof -
  have "PORT_SSTS \<noteq> PORT_CI" "PORT_SSTS \<noteq> PORT_CMD" "PORT_SIG \<noteq> PORT_CI" "PORT_SIG \<noteq> PORT_CMD"
    by (simp_all add: port_regs)
  moreover note e = port_off_eq [OF _ assms(2) port_regs_small(8) port_regs_small(10)]
    port_off_eq [OF _ assms(2) port_regs_small(8) port_regs_small(6)]
    port_off_eq [OF _ assms(2) port_regs_small(7) port_regs_small(10)]
    port_off_eq [OF _ assms(2) port_regs_small(7) port_regs_small(6)]
  moreover note g = port_off_global [OF assms(2) port_regs_small(10), of "pc_base w"]
    port_off_global [OF assms(2) port_regs_small(6), of "pc_base w"]
  ultimately show "x \<noteq> pc_reg w PORT_CI" "x \<noteq> pc_reg w PORT_CMD"
    using assms(1) unfolding probed_def pc_reg_def by metis+
qed

text \<open>What start-up leaves alone on the machine: all but the registers and the posted parts of the RAM.\<close>

definition pc_frame :: "pc \<Rightarrow> bool \<times> mem \<times> bytes \<times> u64 \<times> nat \<times> nat \<times> nat" where
  "pc_frame w = (bit (pc_ram w (unat (clb_addr (pc_port w)))) 5, pc_disk w, pc_keys w, pc_base w, pc_port w,
     pc_latency w, pc_sectors w)"

lemma pc_probe_frame: "ahci_probe pc_hw pc_cfg (\<lambda>v. pc_powered v \<and> Q (pc_frame v)) pc_regs"
proof
  fix w w' :: pc and a v :: u32
  assume w: "pc_powered w \<and> Q (pc_frame w)" and r: "inl_op pc_hw 0xCFC (outl_op pc_hw 0xCF8 a w) = (v, w')"
  then have e: "v = pc_cfg w a" "w' = w\<lparr>pc_latch := a\<rparr>" by auto
  show "v = pc_cfg w a" by (rule e)
  show "(pc_powered w' \<and> Q (pc_frame w')) \<and> pc_cfg w' = pc_cfg w"
    using w by (simp add: e pc_powered_def pc_frame_def)
  show "pc_regs w' = pc_regs w" by (simp add: e)
next
  fix w w' :: pc and x :: u64 and v :: u32
  assume w: "pc_powered w \<and> Q (pc_frame w)" and x: "probed (pci_ahci_spec (pc_cfg w)) x"
    and r: "ld32_op pc_hw x w = (v, w')"
  have "probed (pc_base w) x" "pc_port w < 32" using w x by (simp_all add: pc_powered_def)
  from probed_other [OF this] r w
  show "v = pc_regs w x \<and> (pc_powered w' \<and> Q (pc_frame w')) \<and> pc_cfg w' = pc_cfg w \<and> pc_regs w' = pc_regs w"
    by (auto simp: pc_ld32_def)
next
  fix w w' :: pc and base :: u64 and v :: u32
  assume w: "pc_powered w \<and> Q (pc_frame w)" and b: "base = pci_ahci_spec (pc_cfg w)"
    and w': "w' = st32_op pc_hw (hba_ghc base) v w"
  have p: "pc_port w < 32" and base: "base = pc_base w" using w b by (simp_all add: pc_powered_def)
  have "hba_ghc base \<noteq> pc_reg w off" if "unat off < 0x80" for off
    using port_off_global(1) [OF p that, of base] by (simp add: pc_reg_def base)
  then have "hba_ghc base \<noteq> pc_reg w PORT_CI" "hba_ghc base \<noteq> pc_reg w PORT_IS"
    "hba_ghc base \<noteq> pc_reg w PORT_SERR" "hba_ghc base \<noteq> pc_reg w PORT_CMD"
    using port_regs_small by blast+
  then have "w' = w\<lparr>pc_regs := (pc_regs w)(hba_ghc base := v)\<rparr>" by (simp add: w' pc_st32_def)
  with w show "(pc_powered w' \<and> Q (pc_frame w')) \<and> pc_cfg w' = pc_cfg w \<and>
      (\<forall>x. x \<noteq> hba_ghc base \<longrightarrow> pc_regs w' x = pc_regs w x)"
    by (simp add: pc_powered_def pc_frame_def)
qed

interpretation pc_probe: ahci_probe pc_hw pc_cfg pc_powered pc_regs
  using pc_probe_frame [of "\<lambda>_. True"] by simp

text \<open>The register file of the port, and the reads for which its engines still show.\<close>

abbreviation pc_port_reg :: "pc \<Rightarrow> u32 \<Rightarrow> u32" where
  "pc_port_reg w off \<equiv> pc_regs w (pc_reg w off)"

definition pc_engine :: "nat \<Rightarrow> pc \<Rightarrow> nat option" where
  "pc_engine b w = (if bit (pc_port_reg w PORT_CMD) b then None else Some (pc_stop w))"

lemma pc_reg_eq: "pc_reg w off = pc_reg w off' \<longleftrightarrow> off = off'"
proof -
  have "unat (ucast x :: u64) = unat x" for x :: u32
    using unsigned_less [of x, where ?'a = nat] by (simp add: unsigned_ucast_eq take_bit_nat_eq_self)
  then have "off = off'" if "(ucast off :: u64) = ucast off'"
    using that by (metis word_unat_eq_iff)
  then show ?thesis by (auto simp: pc_reg_def)
qed

lemma pc_cmd_bits:
  "pc_cmd w AND NOT 0xC000 = pc_port_reg w PORT_CMD AND NOT 0xC000"
  "bit (pc_cmd w) 14 \<longleftrightarrow> pc_engine 4 w \<noteq> Some 0" "bit (pc_cmd w) 15 \<longleftrightarrow> pc_engine 0 w \<noteq> Some 0"
proof -
  have m: "bit (0x4000 :: u32) n \<longleftrightarrow> n \<in> set [14]" "bit (0x8000 :: u32) n \<longleftrightarrow> n \<in> set [15]" for n
    by (rule bits_listed; code_simp)+
  have f: "bit (if P then 0x4000 else 0 :: u32) n \<longleftrightarrow> P \<and> n \<in> set [14]"
    "bit (if P then 0x8000 else 0 :: u32) n \<longleftrightarrow> P \<and> n \<in> set [15]" for P n
    using m by (cases P; simp only: if_True if_False bit_0_eq bot_fun_def bot_bool_def simp_thms)+
  have b: "bit (pc_cmd w) n \<longleftrightarrow> n < 32 \<and>
      (if n = 14 then pc_engine 4 w \<noteq> Some 0 else if n = 15 then pc_engine 0 w \<noteq> Some 0
       else bit (pc_port_reg w PORT_CMD) n)" for n
    unfolding pc_cmd_def Let_def pc_engine_def bit_or_iff bit_and_iff bit_not_iff mask_bits f
    by (auto dest: bit_imp_le_length)
  show "bit (pc_cmd w) 14 \<longleftrightarrow> pc_engine 4 w \<noteq> Some 0" "bit (pc_cmd w) 15 \<longleftrightarrow> pc_engine 0 w \<noteq> Some 0"
    unfolding b by simp_all
  show "pc_cmd w AND NOT 0xC000 = pc_port_reg w PORT_CMD AND NOT 0xC000"
    unfolding bit_eq_iff [where ?'a = "32 word"] bit_and_iff bit_not_iff mask_bits b by auto
qed

lemma pc_reg_updates [simp]:
  "pc_reg (w\<lparr>pc_regs := R\<rparr>) off = pc_reg w off" "pc_reg (w\<lparr>pc_ram := m\<rparr>) off = pc_reg w off"
  "pc_reg (w\<lparr>pc_stop := n\<rparr>) off = pc_reg w off"
  by (simp_all add: pc_reg_def)

lemma pc_port_access:
  assumes "pc_base w = base" "pc_port w = port"
  shows "port_read pc_hw base port PORT_CMD w = (pc_cmd w, w\<lparr>pc_stop := pc_stop w - 1\<rparr>)"
    and "port_write pc_hw base port PORT_CMD v w =
      (let w = w\<lparr>pc_regs := (pc_regs w)(pc_reg w PORT_CMD := v)\<rparr> in w\<lparr>pc_ram := pc_fis w (pc_ram w)\<rparr>)"
    and "off \<in> {PORT_CLB, PORT_CLBU, PORT_FB, PORT_FBU} \<Longrightarrow>
      port_write pc_hw base port off v w = w\<lparr>pc_regs := (pc_regs w)(pc_reg w off := v)\<rparr>"
    and "off \<in> {PORT_SERR, PORT_IS} \<Longrightarrow>
      port_write pc_hw base port off 0xFFFFFFFF w = w\<lparr>pc_regs := (pc_regs w)(pc_reg w off := 0)\<rparr>"
proof -
  have a: "hba_port base port + ucast off = pc_reg w off" for off
    using assms by (simp add: pc_reg_def)
  have d: "PORT_CMD \<noteq> PORT_CI" "PORT_CMD \<noteq> PORT_IS" "PORT_CMD \<noteq> PORT_SERR" "PORT_SERR \<noteq> PORT_CI"
    "PORT_SERR \<noteq> PORT_IS" "PORT_IS \<noteq> PORT_CI"
    by (simp_all add: port_regs)
  show "port_read pc_hw base port PORT_CMD w = (pc_cmd w, w\<lparr>pc_stop := pc_stop w - 1\<rparr>)"
    "port_write pc_hw base port PORT_CMD v w =
      (let w = w\<lparr>pc_regs := (pc_regs w)(pc_reg w PORT_CMD := v)\<rparr> in w\<lparr>pc_ram := pc_fis w (pc_ram w)\<rparr>)"
    using d by (simp_all add: port_read_def port_write_def a pc_ld32_def pc_st32_def pc_reg_eq)
  show "port_write pc_hw base port off v w = w\<lparr>pc_regs := (pc_regs w)(pc_reg w off := v)\<rparr>"
    if "off \<in> {PORT_CLB, PORT_CLBU, PORT_FB, PORT_FBU}"
  proof -
    have "off \<noteq> PORT_CI" "off \<noteq> PORT_IS" "off \<noteq> PORT_SERR" "off \<noteq> PORT_CMD" using that by (auto simp: port_regs)
    then show ?thesis by (simp add: port_write_def a pc_st32_def pc_reg_eq)
  qed
  show "port_write pc_hw base port off 0xFFFFFFFF w = w\<lparr>pc_regs := (pc_regs w)(pc_reg w off := 0)\<rparr>"
    if "off \<in> {PORT_SERR, PORT_IS}"
    using that d by (auto simp only: port_write_def pc_hw_simps a pc_st32_def pc_reg_eq and_not_ones
        if_True if_False insert_iff empty_iff simp_thms)
qed

text \<open>The machine on one port, with what start-up leaves alone.\<close>

definition pc_idle :: "(bool \<times> mem \<times> bytes \<times> u64 \<times> nat \<times> nat \<times> nat \<Rightarrow> bool) \<Rightarrow> u64 \<Rightarrow> nat \<Rightarrow> pc \<Rightarrow> bool" where
  "pc_idle Q base port w \<longleftrightarrow> pc_powered w \<and> Q (pc_frame w) \<and> pc_base w = base \<and> pc_port w = port"

lemma pc_idle_updates:
  "pc_idle Q base port (w\<lparr>pc_stop := n\<rparr>) = pc_idle Q base port w"
  "pc_idle Q base port (w\<lparr>pc_regs := R\<rparr>) = pc_idle Q base port w"
  "bit (m (unat (clb_addr (pc_port w)))) 5 = bit (pc_ram w (unat (clb_addr (pc_port w)))) 5 \<Longrightarrow>
    pc_idle Q base port (w\<lparr>pc_ram := m\<rparr>) = pc_idle Q base port w"
  by (simp_all add: pc_idle_def pc_powered_def pc_frame_def)

lemma pc_ahci_port:
  assumes "port < 32"
  shows "ahci_port pc_hw base port (pc_idle Q base port) pc_port_reg (pc_engine 4) (pc_engine 0)"
proof
  fix w w' :: pc and v :: u32
  assume w: "pc_idle Q base port w" and r: "port_read pc_hw base port PORT_CMD w = (v, w')"
  have e: "v = pc_cmd w" "w' = w\<lparr>pc_stop := pc_stop w - 1\<rparr>"
    using pc_port_access(1) [of w base port] w r by (simp_all add: pc_idle_def)
  show "v AND NOT 0xC000 = pc_port_reg w PORT_CMD AND NOT 0xC000 \<and>
      bit v 14 = (pc_engine 4 w \<noteq> Some 0) \<and> bit v 15 = (pc_engine 0 w \<noteq> Some 0) \<and>
      pc_idle Q base port w' \<and> pc_port_reg w' = pc_port_reg w \<and>
      pc_engine 4 w' = map_option (\<lambda>n. n - 1) (pc_engine 4 w) \<and>
      pc_engine 0 w' = map_option (\<lambda>n. n - 1) (pc_engine 0 w)"
    unfolding e pc_cmd_bits using w by (simp add: pc_idle_updates) (simp add: pc_engine_def)
next
  fix w w' :: pc and v :: u32
  assume w: "pc_idle Q base port w" and v: "v AND 0x11 = 0"
    and w': "w' = port_write pc_hw base port PORT_CMD v w"
  have "\<not> bit v 4"
  proof
    assume "bit v 4"
    then have "bit (v AND 0x11) 4" unfolding bit_and_iff mask_bits by simp
    then show False unfolding v by simp
  qed
  then have "w' = w\<lparr>pc_regs := (pc_regs w)(pc_reg w PORT_CMD := v)\<rparr>"
    using pc_port_access(2) [of w base port v] w w' by (simp add: pc_idle_def pc_fis_def Let_def)
  then show "pc_idle Q base port w' \<and> pc_port_reg w' PORT_CMD AND NOT 0xC000 = v AND NOT 0xC000"
    using w by (simp add: pc_idle_updates)
next
  fix w w' :: pc and v :: u32
  assume w: "pc_idle Q base port w" and a: "areas_set pc_port_reg port w"
    and w': "w' = port_write pc_hw base port PORT_CMD v w"
  define u where "u = w\<lparr>pc_regs := (pc_regs w)(pc_reg w PORT_CMD := v)\<rparr>"
  have e: "w' = u\<lparr>pc_ram := pc_fis u (pc_ram w)\<rparr>"
    using pc_port_access(2) [of w base port v] w w' by (simp add: pc_idle_def u_def Let_def)
  have d: "PORT_CMD \<noteq> PORT_FB" "PORT_CMD \<noteq> PORT_CLB" "PORT_CMD \<noteq> PORT_CLBU" "PORT_CMD \<noteq> PORT_FBU" "PORT_CMD \<noteq> PORT_IS"
    by (simp_all add: port_regs)
  have "pc_port_reg u PORT_FB = fb_addr port" using a d by (simp add: u_def areas_set_def pc_reg_eq)
  then have "pc_fis u (pc_ram w) (unat (clb_addr port)) = pc_ram w (unat (clb_addr port))"
    using unat_regions [OF assms] assms by (intro pc_fis_other [of _ "unat (fb_addr port)"]) auto
  moreover have "pc_idle Q base port u" "pc_ram u = pc_ram w" "pc_port u = port"
    using w by (simp_all add: u_def pc_idle_updates) (simp add: pc_idle_def)
  ultimately have "pc_idle Q base port w'" by (simp add: e pc_idle_updates)
  moreover have "pc_port_reg w' off = (if off = PORT_CMD then v else pc_port_reg w off)" for off
    by (simp add: e u_def pc_reg_eq)
  ultimately show "pc_idle Q base port w' \<and> pc_port_reg w' PORT_CMD AND NOT 0xC000 = v AND NOT 0xC000 \<and>
      areas_set pc_port_reg port w' \<and> (bit (pc_port_reg w' PORT_IS) 30 \<longrightarrow> bit (pc_port_reg w PORT_IS) 30)"
    using a d by (simp add: areas_set_def)
next
  fix w w' :: pc and off v :: u32
  assume w: "pc_idle Q base port w" "pc_engine 4 w = Some 0" "pc_engine 0 w = Some 0"
    and off: "(off, v) \<in> {(PORT_CLB, clb_addr port), (PORT_CLBU, 0), (PORT_FB, fb_addr port), (PORT_FBU, 0)}"
    and w': "w' = port_write pc_hw base port off v w"
  have "off \<noteq> PORT_CMD" and "off \<in> {PORT_CLB, PORT_CLBU, PORT_FB, PORT_FBU}" using off by (auto simp: port_regs)
  with w pc_port_access(3) [of w base port off v] w'
  show "pc_idle Q base port w' \<and> pc_port_reg w' = (pc_port_reg w)(off := v) \<and>
      pc_engine 4 w' = Some 0 \<and> pc_engine 0 w' = Some 0"
    by (auto simp: pc_idle_updates pc_idle_def pc_engine_def pc_reg_eq fun_eq_iff pc_powered_def pc_frame_def
        split: if_splits)
next
  fix w w' :: pc
  have d: "PORT_CMD \<noteq> PORT_SERR" "PORT_CMD \<noteq> PORT_IS" by (simp_all add: port_regs)
  note upd = pc_idle_updates pc_engine_def pc_reg_eq fun_eq_iff d
  assume w: "pc_idle Q base port w"
  then have b: "pc_base w = base" "pc_port w = port" by (simp_all add: pc_idle_def)
  show "pc_idle Q base port w' \<and> pc_port_reg w' = (pc_port_reg w)(PORT_SERR := 0) \<and>
      pc_engine 4 w' = pc_engine 4 w \<and> pc_engine 0 w' = pc_engine 0 w"
    if "w' = port_write pc_hw base port PORT_SERR 0xFFFFFFFF w"
    using that w pc_port_access(4) [OF b, of PORT_SERR] by (simp add: upd)
  show "pc_idle Q base port w' \<and> pc_port_reg w' = (pc_port_reg w)(PORT_IS := 0) \<and>
      pc_engine 4 w' = pc_engine 4 w \<and> pc_engine 0 w' = pc_engine 0 w"
    if "w' = port_write pc_hw base port PORT_IS 0xFFFFFFFF w"
    using that w pc_port_access(4) [OF b, of PORT_IS] by (simp add: upd)
qed (rule assms)

interpretation qemu_port: ahci_port pc_hw "0xFEBF1000" 1 "pc_idle (\<lambda>_. True) 0xFEBF1000 1" pc_port_reg "pc_engine 4" "pc_engine 0"
  by (rule pc_ahci_port) simp

lemma pc_engines_stop:
  assumes "pc_idle Q base port w" "port_read pc_hw base port PORT_CMD w = (cmd, w0)"
    and "w1 = port_write pc_hw base port PORT_CMD (cmd AND NOT 0x11) w0"
  shows "pc_engine 4 w1 \<noteq> None" "pc_engine 0 w1 \<noteq> None"
proof -
  have b: "pc_base w0 = base" "pc_port w0 = port"
    using assms(1,2) pc_port_access(1) [of w base port] by (auto simp: pc_idle_def)
  have "pc_port_reg w1 PORT_CMD = cmd AND NOT 0x11"
    using pc_port_access(2) [OF b] by (simp add: assms(3) Let_def)
  moreover have "\<not> bit (cmd AND NOT 0x11) n" if "n = 0 \<or> n = 4" for n
    unfolding bit_and_iff bit_not_iff mask_bits using that by auto
  ultimately show "pc_engine 4 w1 \<noteq> None" "pc_engine 0 w1 \<noteq> None"
    unfolding pc_engine_def by simp_all
qed

lemma pc_rebase:
  assumes "pc_idle Q base port w" "port < 32"
  obtains w' where "port_rebase pc_hw base port w = Some w'" "pc_idle Q base port w'" "port_started pc_port_reg port w'"
proof -
  obtain cmd w0 where r: "port_read pc_hw base port PORT_CMD w = (cmd, w0)" by fastforce
  note s = pc_engines_stop [OF assms(1) r refl]
  from ahci_port.rebase_port [OF pc_ahci_port [OF assms(2)] assms(1) r refl] s that show thesis by auto
qed

lemma pc_boot:
  assumes "pc_powered w" "pc_base w \<noteq> 0"
    and "ata_ports (pc_regs w) (pc_base w) [0..<32] \<noteq> []"
    and "pc_port w = last (ata_ports (pc_regs w) (pc_base w) [0..<32])"
    and "pc_latency w < ahci_timeout" "pc_sectors w = 8192"
  obtains w' where
    "ahci_init pc_hw ahci_boot w = Some (0, \<lparr>hba = pc_base w, active_port = int (pc_port w)\<rparr>, w')"
    "pc_ready \<lparr>hba = pc_base w, active_port = int (pc_port w)\<rparr> w'" "pc_frame w' = pc_frame w"
proof -
  have spec: "pci_ahci_spec (pc_cfg w) = pc_base w" and p: "pc_port w < 32"
    using assms(1) by (simp_all add: pc_powered_def)
  obtain v where v: "pc_powered v" "pc_frame v = pc_frame w" and
    i: "ahci_init pc_hw ahci_boot w = map_option (\<lambda>v. (0, \<lparr>hba = pc_base w, active_port = int (pc_port w)\<rparr>, v))
       (port_rebase pc_hw (pc_base w) (pc_port w) v)"
    using ahci_probe.ahci_init_probe [OF pc_probe_frame [of "\<lambda>F. F = pc_frame w"], of w] assms
    unfolding spec Let_def by auto
  then have idle: "pc_idle (\<lambda>F. F = pc_frame w) (pc_base w) (pc_port w) v"
    by (simp add: pc_idle_def) (simp add: pc_frame_def)
  obtain w' where w': "port_rebase pc_hw (pc_base w) (pc_port w) v = Some w'"
    "pc_idle (\<lambda>F. F = pc_frame w) (pc_base w) (pc_port w) w'" "port_started pc_port_reg (pc_port w) w'"
    by (rule pc_rebase [OF idle p])
  show thesis
  proof (rule that)
    show "ahci_init pc_hw ahci_boot w = Some (0, \<lparr>hba = pc_base w, active_port = int (pc_port w)\<rparr>, w')"
      using i w'(1) by simp
    show f: "pc_frame w' = pc_frame w" using w'(2) by (simp add: pc_idle_def)
    show "pc_ready \<lparr>hba = pc_base w, active_port = int (pc_port w)\<rparr> w'"
      using f w'(3) assms(5,6) by (simp add: pc_ready_def port_started_def areas_set_def) (simp add: pc_frame_def)
  qed
qed

section \<open>A machine with two disks\<close>

lemma qemu_pc_fields [simp]:
  "pc_cfg (qemu_pc d ks) = qemu_cfg" "pc_base (qemu_pc d ks) = 0xFEBF1000" "pc_port (qemu_pc d ks) = 1"
  "pc_regs (qemu_pc d ks) = qemu_regs" "pc_disk (qemu_pc d ks) = d" "pc_sectors (qemu_pc d ks) = 8192"
  "pc_stop (qemu_pc d ks) = 2" "pc_latency (qemu_pc d ks) = 3" "pc_keys (qemu_pc d ks) = ks" "pc_ram (qemu_pc d ks) = (\<lambda>_. 0)"
  by (simp_all add: qemu_pc_def)

lemma qemu_powered: "pc_powered (qemu_pc d ks)"
  by (simp add: pc_powered_def qemu_pci)

lemma qemu_ata_ports: "ata_ports qemu_regs 0xFEBF1000 [0..<32] = [0, 1]"
proof -
  have pi: "qemu_regs (hba_pi 0xFEBF1000) = 3" by (simp add: qemu_regs_def)
  have b: "bit (3 :: u32) i \<longleftrightarrow> i < 2" for i
  proof -
    have "(3 :: u32) = mask 2" by (simp add: mask_eq_exp_minus_1)
    then show ?thesis by (simp only: bit_mask_iff) auto
  qed
  have "ata_port qemu_regs 0xFEBF1000 i" if "i < 2" for i
    using that by (auto simp: less_2_cases_iff ata_port_def qemu_regs_def hba_port_def hba_pi_def port_regs SATA_SIG_ATA_def)
  then have "ata_ports qemu_regs 0xFEBF1000 [0..<32] = filter (\<lambda>i. i < 2) [0..<32]"
    unfolding ata_ports_def pi b by (intro filter_cong) auto
  also have "\<dots> = [0, 1]" by (simp add: upt_conv_Cons)
  finally show ?thesis .
qed

theorem ahci_init_picks_last_port_witness:
  "\<exists>w'. ahci_init pc_hw ahci_boot (qemu_pc (\<lambda>_. 0) []) = Some (0, qemu_ahci, w')"
proof -
  let ?w = "qemu_pc (\<lambda>_. 0) []"
  obtain v where v: "pc_powered v" "pc_frame v = pc_frame ?w" and
    i: "ahci_init pc_hw ahci_boot ?w = map_option (\<lambda>v. (0, \<lparr>hba = 0xFEBF1000, active_port = 1\<rparr>, v))
       (port_rebase pc_hw 0xFEBF1000 1 v)"
    using ahci_init_picks_last_port [OF pc_probe_frame [of "\<lambda>F. F = pc_frame ?w"], of ?w] qemu_powered [of "\<lambda>_. 0" "[]"]
    by (auto simp: Let_def qemu_pci qemu_ata_ports simp del: upt_rec_numeral)
  then have "pc_idle (\<lambda>_. True) 0xFEBF1000 1 v" by (simp add: pc_idle_def pc_frame_def)
  moreover have "(1 :: nat) < 32" by simp
  ultimately obtain u where "port_rebase pc_hw 0xFEBF1000 1 v = Some u" by (rule pc_rebase)
  with i show ?thesis by (simp add: qemu_ahci_def)
qed

theorem port_rebase_sets_up_witness:
  "\<exists>w'. port_rebase pc_hw 0xFEBF1000 1 (qemu_pc (\<lambda>_. 0) []) = Some w' \<and> port_started pc_port_reg 1 w'"
proof -
  let ?w = "qemu_pc (\<lambda>_. 0) []"
  have w: "pc_idle (\<lambda>_. True) 0xFEBF1000 1 ?w" by (simp add: pc_idle_def qemu_powered)
  obtain cmd w0 where r: "port_read pc_hw 0xFEBF1000 1 PORT_CMD ?w = (cmd, w0)" by fastforce
  from port_rebase_sets_up [OF qemu_port.ahci_port_axioms w r refl] pc_engines_stop [OF w r refl]
  show ?thesis by auto
qed

end
