(* ===== verification/Console.thy ===== *)
theory Console
  imports Hardware
begin

text \<open>
  Keyboard and screen of \<^verbatim>\<open>src/kernel/kernel.c\<close>: the two scancode tables, \<open>read_key\<close> with its
  unbounded poll of the controller, the font of \<^verbatim>\<open>src/kernel/font.h\<close>, and \<open>draw_char\<close> and
  \<open>draw_string\<close> over a framebuffer that is indexed with \<open>uint32_t\<close> arithmetic. A character code
  from 128 on indexes the font past its end: the bytes found there are the parameter \<open>past\<close>.
\<close>

unbundle bit_operations_syntax

section \<open>Keyboard\<close>

definition inb :: "'w hw \<Rightarrow> u16 \<Rightarrow> 'w \<Rightarrow> u8 \<times> 'w" where
  "inb hw port w = inb_op hw port w"

definition scancode_map :: bytes where
  "scancode_map = [0, 0] @ of_string ''1234567890-='' @ [8] @
     [0] @ of_string ''qwertyuiop[]'' @ [10] @
     [0] @ of_string ''asdfghjkl;'' @ [39, 96] @
     [0, 92] @ of_string ''zxcvbnm,./'' @ [0] @
     of_string ''*'' @ [0] @ of_string '' '' @ replicate 70 0"

definition scancode_map_shift :: bytes where
  "scancode_map_shift = [0, 0] @ of_string ''!@#$%^&*()_+'' @ [8] @
     [0] @ of_string ''QWERTYUIOP{}'' @ [10] @
     [0] @ of_string ''ASDFGHJKL:'' @ [34] @ of_string ''~'' @
     [0] @ of_string ''|ZXCVBNM<>?'' @ [0] @
     of_string ''*'' @ [0] @ of_string '' '' @ replicate 70 0"

text \<open>\<^verbatim>\<open>do status = inb(0x64); while ((status & 1) == 0)\<close>: \<open>None\<close> when no key is ever ready.\<close>

partial_function (option) kbd_wait :: "'w hw \<Rightarrow> 'w \<Rightarrow> 'w option" where
  "kbd_wait hw w = (case inb hw 0x64 w of (status, w') \<Rightarrow>
     if status AND 0x01 = 0 then kbd_wait hw w' else Some w')"

text \<open>What a scancode does: the character returned (0 for none) and \<open>shift_pressed\<close> afterwards.\<close>

definition decode_key :: "bool \<Rightarrow> u8 \<Rightarrow> u8 \<times> bool" where
  "decode_key shift scancode =
     (if scancode = 0x2A \<or> scancode = 0x36 then (0, True)
      else if scancode = 0xAA \<or> scancode = 0xB6 then (0, False)
      else if scancode AND 0x80 \<noteq> 0 then (0, shift)
      else if scancode < 128 then
        (if shift then scancode_map_shift ! unat scancode else scancode_map ! unat scancode, shift)
      else (0, shift))"

definition read_key :: "'w hw \<Rightarrow> bool \<Rightarrow> 'w \<Rightarrow> (u8 \<times> bool \<times> 'w) option" where
  "read_key hw shift w =
     (case kbd_wait hw w of None \<Rightarrow> None
      | Some w \<Rightarrow> (let (scancode, w) = inb hw 0x60 w; (c, shift) = decode_key shift scancode
                   in Some (c, shift, w)))"

section \<open>Screen\<close>

definition font_rows :: "(nat \<times> bytes) list" where
  "font_rows = [
    (0, [0x00, 0x00, 0x00, 0x00, 0x00, 0x00, 0x00, 0x00]),
    (32, [0x00, 0x00, 0x00, 0x00, 0x00, 0x00, 0x00, 0x00]),
    (33, [0x18, 0x18, 0x18, 0x18, 0x00, 0x18, 0x00, 0x00]),
    (34, [0x6C, 0x6C, 0x00, 0x00, 0x00, 0x00, 0x00, 0x00]),
    (35, [0x6C, 0x6C, 0xFE, 0x6C, 0xFE, 0x6C, 0x6C, 0x00]),
    (36, [0x18, 0x3E, 0x60, 0x3C, 0x06, 0x7C, 0x18, 0x00]),
    (37, [0x00, 0x66, 0xAC, 0xD8, 0x36, 0x6A, 0xCC, 0x00]),
    (38, [0x38, 0x6C, 0x68, 0x76, 0xDC, 0xCC, 0x76, 0x00]),
    (39, [0x18, 0x18, 0x30, 0x00, 0x00, 0x00, 0x00, 0x00]),
    (40, [0x0C, 0x18, 0x30, 0x30, 0x30, 0x18, 0x0C, 0x00]),
    (41, [0x30, 0x18, 0x0C, 0x0C, 0x0C, 0x18, 0x30, 0x00]),
    (42, [0x00, 0x66, 0x3C, 0xFF, 0x3C, 0x66, 0x00, 0x00]),
    (43, [0x00, 0x18, 0x18, 0x7E, 0x18, 0x18, 0x00, 0x00]),
    (44, [0x00, 0x00, 0x00, 0x00, 0x18, 0x18, 0x30, 0x00]),
    (45, [0x00, 0x00, 0x00, 0x7E, 0x00, 0x00, 0x00, 0x00]),
    (46, [0x00, 0x00, 0x00, 0x00, 0x00, 0x18, 0x00, 0x00]),
    (47, [0x06, 0x0C, 0x18, 0x30, 0x60, 0xC0, 0x00, 0x00]),
    (48, [0x3C, 0x66, 0x6E, 0x76, 0x66, 0x3C, 0x00, 0x00]),
    (49, [0x18, 0x38, 0x18, 0x18, 0x18, 0x7E, 0x00, 0x00]),
    (50, [0x3C, 0x66, 0x06, 0x1C, 0x30, 0x7E, 0x00, 0x00]),
    (51, [0x3C, 0x66, 0x06, 0x1C, 0x06, 0x66, 0x3C, 0x00]),
    (52, [0x0C, 0x1C, 0x3C, 0x6C, 0x7E, 0x0C, 0x00, 0x00]),
    (53, [0x7E, 0x60, 0x7C, 0x06, 0x06, 0x66, 0x3C, 0x00]),
    (54, [0x1C, 0x30, 0x60, 0x7C, 0x66, 0x66, 0x3C, 0x00]),
    (55, [0x7E, 0x06, 0x0C, 0x18, 0x30, 0x30, 0x00, 0x00]),
    (56, [0x3C, 0x66, 0x66, 0x3C, 0x66, 0x66, 0x3C, 0x00]),
    (57, [0x3C, 0x66, 0x66, 0x3E, 0x06, 0x0C, 0x38, 0x00]),
    (58, [0x00, 0x18, 0x00, 0x00, 0x18, 0x00, 0x00, 0x00]),
    (59, [0x00, 0x18, 0x00, 0x00, 0x18, 0x18, 0x30, 0x00]),
    (60, [0x0C, 0x18, 0x30, 0x60, 0x30, 0x18, 0x0C, 0x00]),
    (61, [0x00, 0x00, 0x7E, 0x00, 0x7E, 0x00, 0x00, 0x00]),
    (62, [0x30, 0x18, 0x0C, 0x06, 0x0C, 0x18, 0x30, 0x00]),
    (63, [0x3C, 0x66, 0x06, 0x1C, 0x18, 0x00, 0x18, 0x00]),
    (64, [0x3C, 0x66, 0x6E, 0x6E, 0x60, 0x62, 0x3C, 0x00]),
    (65, [0x18, 0x3C, 0x66, 0x7E, 0x66, 0x66, 0x00, 0x00]),
    (66, [0x7C, 0x66, 0x66, 0x7C, 0x66, 0x7C, 0x00, 0x00]),
    (67, [0x3C, 0x66, 0x60, 0x60, 0x66, 0x3C, 0x00, 0x00]),
    (68, [0x78, 0x6C, 0x66, 0x66, 0x6C, 0x78, 0x00, 0x00]),
    (69, [0x7E, 0x60, 0x60, 0x78, 0x60, 0x7E, 0x00, 0x00]),
    (70, [0x7E, 0x60, 0x60, 0x78, 0x60, 0x60, 0x00, 0x00]),
    (71, [0x3C, 0x66, 0x60, 0x6E, 0x66, 0x3C, 0x00, 0x00]),
    (72, [0x66, 0x66, 0x66, 0x7E, 0x66, 0x66, 0x00, 0x00]),
    (73, [0x7E, 0x18, 0x18, 0x18, 0x18, 0x7E, 0x00, 0x00]),
    (74, [0x06, 0x06, 0x06, 0x06, 0x66, 0x3C, 0x00, 0x00]),
    (75, [0x66, 0x6C, 0x78, 0x70, 0x78, 0x6C, 0x66, 0x00]),
    (76, [0x60, 0x60, 0x60, 0x60, 0x60, 0x7E, 0x00, 0x00]),
    (77, [0x63, 0x77, 0x7F, 0x6B, 0x63, 0x63, 0x00, 0x00]),
    (78, [0x66, 0x76, 0x7E, 0x7E, 0x6E, 0x66, 0x00, 0x00]),
    (79, [0x3C, 0x66, 0x66, 0x66, 0x66, 0x3C, 0x00, 0x00]),
    (80, [0x7C, 0x66, 0x66, 0x7C, 0x60, 0x60, 0x00, 0x00]),
    (81, [0x3C, 0x66, 0x66, 0x66, 0x6C, 0x36, 0x00, 0x00]),
    (82, [0x7C, 0x66, 0x66, 0x7C, 0x6C, 0x66, 0x00, 0x00]),
    (83, [0x3C, 0x66, 0x60, 0x3C, 0x06, 0x66, 0x3C, 0x00]),
    (84, [0x7E, 0x18, 0x18, 0x18, 0x18, 0x18, 0x00, 0x00]),
    (85, [0x66, 0x66, 0x66, 0x66, 0x66, 0x3C, 0x00, 0x00]),
    (86, [0x66, 0x66, 0x66, 0x66, 0x3C, 0x18, 0x00, 0x00]),
    (87, [0x63, 0x63, 0x6B, 0x7F, 0x77, 0x63, 0x00, 0x00]),
    (88, [0x66, 0x66, 0x3C, 0x18, 0x3C, 0x66, 0x66, 0x00]),
    (89, [0x66, 0x66, 0x3C, 0x18, 0x18, 0x18, 0x00, 0x00]),
    (90, [0x7E, 0x06, 0x0C, 0x18, 0x30, 0x7E, 0x00, 0x00]),
    (91, [0x3C, 0x30, 0x30, 0x30, 0x30, 0x3C, 0x00, 0x00]),
    (92, [0xC0, 0x60, 0x30, 0x18, 0x0C, 0x06, 0x00, 0x00]),
    (93, [0x3C, 0x0C, 0x0C, 0x0C, 0x0C, 0x3C, 0x00, 0x00]),
    (94, [0x18, 0x3C, 0x66, 0x00, 0x00, 0x00, 0x00, 0x00]),
    (95, [0x00, 0x00, 0x00, 0x00, 0x00, 0x00, 0xFF, 0x00]),
    (96, [0x18, 0x18, 0x0C, 0x00, 0x00, 0x00, 0x00, 0x00]),
    (97, [0x00, 0x3C, 0x06, 0x3E, 0x66, 0x3E, 0x00, 0x00]),
    (98, [0x60, 0x60, 0x7C, 0x66, 0x66, 0x7C, 0x00, 0x00]),
    (99, [0x00, 0x3C, 0x60, 0x60, 0x60, 0x3C, 0x00, 0x00]),
    (100, [0x06, 0x06, 0x3E, 0x66, 0x66, 0x3E, 0x00, 0x00]),
    (101, [0x00, 0x3C, 0x66, 0x7E, 0x60, 0x3C, 0x00, 0x00]),
    (102, [0x1C, 0x30, 0x7C, 0x30, 0x30, 0x30, 0x00, 0x00]),
    (103, [0x00, 0x3E, 0x66, 0x66, 0x3E, 0x06, 0x3C, 0x00]),
    (104, [0x60, 0x60, 0x7C, 0x66, 0x66, 0x66, 0x00, 0x00]),
    (105, [0x18, 0x00, 0x38, 0x18, 0x18, 0x3C, 0x00, 0x00]),
    (106, [0x06, 0x00, 0x06, 0x06, 0x06, 0x06, 0x3C, 0x00]),
    (107, [0x60, 0x60, 0x66, 0x6C, 0x78, 0x6C, 0x66, 0x00]),
    (108, [0x38, 0x18, 0x18, 0x18, 0x18, 0x3C, 0x00, 0x00]),
    (109, [0x00, 0x66, 0x7F, 0x7F, 0x6B, 0x63, 0x00, 0x00]),
    (110, [0x00, 0x7C, 0x66, 0x66, 0x66, 0x66, 0x00, 0x00]),
    (111, [0x00, 0x3C, 0x66, 0x66, 0x66, 0x3C, 0x00, 0x00]),
    (112, [0x00, 0x7C, 0x66, 0x66, 0x7C, 0x60, 0x60, 0x00]),
    (113, [0x00, 0x3E, 0x66, 0x66, 0x3E, 0x06, 0x06, 0x00]),
    (114, [0x00, 0x7C, 0x66, 0x60, 0x60, 0x60, 0x00, 0x00]),
    (115, [0x00, 0x3C, 0x60, 0x3C, 0x06, 0x3C, 0x00, 0x00]),
    (116, [0x30, 0x30, 0x7C, 0x30, 0x30, 0x1C, 0x00, 0x00]),
    (117, [0x00, 0x66, 0x66, 0x66, 0x66, 0x3C, 0x00, 0x00]),
    (118, [0x00, 0x66, 0x66, 0x66, 0x3C, 0x18, 0x00, 0x00]),
    (119, [0x00, 0x63, 0x6B, 0x7F, 0x3E, 0x36, 0x00, 0x00]),
    (120, [0x00, 0x66, 0x3C, 0x18, 0x3C, 0x66, 0x00, 0x00]),
    (121, [0x00, 0x66, 0x66, 0x3E, 0x06, 0x3C, 0x00, 0x00]),
    (122, [0x00, 0x7E, 0x0C, 0x18, 0x30, 0x7E, 0x00, 0x00]),
    (123, [0x0E, 0x18, 0x18, 0x70, 0x18, 0x18, 0x0E, 0x00]),
    (124, [0x18, 0x18, 0x18, 0x00, 0x18, 0x18, 0x18, 0x00]),
    (125, [0x70, 0x18, 0x18, 0x0E, 0x18, 0x18, 0x70, 0x00]),
    (126, [0x76, 0xDC, 0x00, 0x00, 0x00, 0x00, 0x00, 0x00]),
    (127, [0xFF, 0xFF, 0xFF, 0xFF, 0xFF, 0xFF, 0xFF, 0xFF])]"

text \<open>Entries without an initialiser are zero.\<close>

definition font :: "(u8 \<Rightarrow> bytes) \<Rightarrow> u8 \<Rightarrow> bytes" where
  "font past c =
     (if unat c < 128 then (case map_of font_rows (unat c) of Some g \<Rightarrow> g | None \<Rightarrow> replicate 8 0)
      else past c)"

type_synonym pixels = "u32 \<Rightarrow> u32"

definition pixel_index :: "u32 \<Rightarrow> int \<Rightarrow> int \<Rightarrow> u32" where
  "pixel_index pps x y = of_int y * pps + of_int x"

definition draw_char :: "(u8 \<Rightarrow> bytes) \<Rightarrow> u32 \<Rightarrow> int \<Rightarrow> int \<Rightarrow> u8 \<Rightarrow> u32 \<Rightarrow> pixels \<Rightarrow> pixels" where
  "draw_char past pps x y c color fb =
     (let glyph = font past c in
      fold (\<lambda>row. fold (\<lambda>col fb.
          if (glyph ! row) AND drop_bit col 0x80 \<noteq> 0
          then fb(pixel_index pps (x + int col) (y + int row) := color) else fb) [0..<8]) [0..<8] fb)"

fun draw_string_from :: "nat \<Rightarrow> (u8 \<Rightarrow> bytes) \<Rightarrow> u32 \<Rightarrow> int \<Rightarrow> int \<Rightarrow> bytes \<Rightarrow> u32 \<Rightarrow> pixels \<Rightarrow> pixels" where
  "draw_string_from i past pps x y [] color fb = fb"
| "draw_string_from i past pps x y (c # str) color fb =
     draw_string_from (Suc i) past pps x y str color (draw_char past pps (x + int i * 9) y c color fb)"

definition draw_string :: "(u8 \<Rightarrow> bytes) \<Rightarrow> u32 \<Rightarrow> int \<Rightarrow> int \<Rightarrow> bytes \<Rightarrow> u32 \<Rightarrow> pixels \<Rightarrow> pixels" where
  "draw_string past pps x y str color fb = draw_string_from 0 past pps x y str color fb"

end
