(* ===== verification/Fsso_Layout.thy ===== *)
theory Fsso_Layout
  imports Prelude
begin

text \<open>
  The on-disk format of the FSSO file system, \<^verbatim>\<open>src/kernel/fsso.h\<close>: the packed C structures as
  records, and the casts \<open>(FSSO_X *)p\<close> as functions that read a structure from a byte memory at an
  address. Both the kernel (which reads) and \<^verbatim>\<open>src/tools/mkfsso.c\<close> (which writes) use them.
\<close>

section \<open>Constants\<close>

definition FSSO_MAGIC :: u64 where "FSSO_MAGIC = 0x4653534F5F5631"
definition FSSO_BLOCK_SIZE :: nat where "FSSO_BLOCK_SIZE = 1024"
definition FSSO_MAX_FILENAME :: nat where "FSSO_MAX_FILENAME = 255"
definition FSSO_FIRST_DATA_BLOCK :: nat where "FSSO_FIRST_DATA_BLOCK = 11"
definition FSSO_DIRECT_BLOCKS :: nat where "FSSO_DIRECT_BLOCKS = 12"
definition FSSO_TYPE_FILE :: u8 where "FSSO_TYPE_FILE = 1"
definition FSSO_TYPE_DIR :: u8 where "FSSO_TYPE_DIR = 2"

lemmas fsso_consts [simp] = FSSO_BLOCK_SIZE_def FSSO_MAX_FILENAME_def FSSO_FIRST_DATA_BLOCK_def
  FSSO_DIRECT_BLOCKS_def

section \<open>Structures\<close>

record FSSO_Superblock =
  sb_magic :: u64
  sb_block_size :: u32
  sb_total_blocks :: u32
  sb_total_inodes :: u32
  sb_free_blocks :: u32
  sb_free_inodes :: u32
  sb_first_data_blockl :: u32
  sb_fs_name :: bytes
  sb_version :: u32
  sb_reserved :: "u32 list"

record FSSO_Inode =
  i_size :: u32
  i_created :: u32
  i_modified :: u32
  i_type :: u8
  i_reserved :: bytes
  i_direct :: "u32 list"
  i_indirect :: u32
  i_double_indirect :: u32
  i_triple_indirect :: u32

record FSSO_DirEntry =
  de_inode :: u32
  de_name :: bytes

record FSSO_Filesystem =
  superblock :: FSSO_Superblock
  disk_start_block :: u32

definition sizeof_Superblock :: nat where "sizeof_Superblock = 92"
definition sizeof_Inode :: nat where "sizeof_Inode = 76"
definition sizeof_DirEntry :: nat where "sizeof_DirEntry = 260"

lemmas fsso_sizes [simp] = sizeof_Superblock_def sizeof_Inode_def sizeof_DirEntry_def

text \<open>Offsets of the fields that are accessed one by one.\<close>

definition off_i_size :: nat where "off_i_size = 0"
definition off_i_created :: nat where "off_i_created = 4"
definition off_i_modified :: nat where "off_i_modified = 8"
definition off_i_type :: nat where "off_i_type = 12"
definition off_i_direct :: "nat \<Rightarrow> nat" where "off_i_direct i = 16 + 4 * i"
definition off_de_name :: nat where "off_de_name = 4"

lemmas fsso_offsets [simp] = off_i_size_def off_i_created_def off_i_modified_def off_i_type_def
  off_i_direct_def off_de_name_def

section \<open>Casts\<close>

definition get_superblock :: "mem \<Rightarrow> nat \<Rightarrow> FSSO_Superblock" where
  "get_superblock m a =
     \<lparr>sb_magic = get64 m a,
      sb_block_size = get32 m (a + 8),
      sb_total_blocks = get32 m (a + 12),
      sb_total_inodes = get32 m (a + 16),
      sb_free_blocks = get32 m (a + 20),
      sb_free_inodes = get32 m (a + 24),
      sb_first_data_blockl = get32 m (a + 28),
      sb_fs_name = get_bytes m (a + 32) 8,
      sb_version = get32 m (a + 40),
      sb_reserved = map (\<lambda>i. get32 m (a + 44 + 4 * i)) [0..<12]\<rparr>"

definition get_inode :: "mem \<Rightarrow> nat \<Rightarrow> FSSO_Inode" where
  "get_inode m a =
     \<lparr>i_size = get32 m (a + off_i_size),
      i_created = get32 m (a + off_i_created),
      i_modified = get32 m (a + off_i_modified),
      i_type = m (a + off_i_type),
      i_reserved = get_bytes m (a + 13) 3,
      i_direct = map (\<lambda>i. get32 m (a + off_i_direct i)) [0..<FSSO_DIRECT_BLOCKS],
      i_indirect = get32 m (a + 64),
      i_double_indirect = get32 m (a + 68),
      i_triple_indirect = get32 m (a + 72)\<rparr>"

definition get_direntry :: "mem \<Rightarrow> nat \<Rightarrow> FSSO_DirEntry" where
  "get_direntry m a = \<lparr>de_inode = get32 m a, de_name = get_bytes m (a + off_de_name) 256\<rparr>"

text \<open>A structure read depends on its own bytes only.\<close>

lemma get_superblock_cong:
  assumes "\<And>i. i < sizeof_Superblock \<Longrightarrow> m (a + i) = m' (b + i)"
  shows "get_superblock m a = get_superblock m' b"
proof -
  have le: "get_le n m (a + k) = (get_le n m' (b + k) :: 'w::len word)" if "k + n \<le> 92" for n k
    by (rule get_le_cong) (use assms [of "k + i" for i] that in \<open>simp add: add.assoc\<close>)
  have "get_bytes m (a + 32) 8 = get_bytes m' (b + 32) 8"
    by (rule get_bytes_cong) (use assms [of "32 + i" for i] in \<open>simp add: add.assoc\<close>)
  moreover have "get32 m (a + 44 + 4 * i) = get32 m' (b + 44 + 4 * i)" if "i < 12" for i
    using le [of "44 + 4 * i" 4] that by (simp add: add.assoc del: get_le.simps)
  ultimately show ?thesis
    using le [of 0 8] by (simp add: get_superblock_def le del: get_le.simps)
qed

lemma get_inode_cong:
  assumes "\<And>i. i < sizeof_Inode \<Longrightarrow> m (a + i) = m' (b + i)"
  shows "get_inode m a = get_inode m' b"
proof -
  have le: "get_le n m (a + k) = (get_le n m' (b + k) :: 'w::len word)" if "k + n \<le> 76" for n k
    by (rule get_le_cong) (use assms [of "k + i" for i] that in \<open>simp add: add.assoc\<close>)
  have "get_bytes m (a + 13) 3 = get_bytes m' (b + 13) 3"
    by (rule get_bytes_cong) (use assms [of "13 + i" for i] in \<open>simp add: add.assoc\<close>)
  moreover have "get32 m (a + (16 + 4 * i)) = get32 m' (b + (16 + 4 * i))" if "i < 12" for i
    using le [of "16 + 4 * i" 4] that by (simp add: add.assoc del: get_le.simps)
  ultimately show ?thesis
    using assms [of 12] le [of 0 4] by (simp add: get_inode_def le del: get_le.simps)
qed

end
