(* ===== verification/Fsso.thy ===== *)
theory Fsso
  imports Fsso_Layout Block_Device
begin

text \<open>
  The kernel's read-only file system driver, \<^verbatim>\<open>src/kernel/fsso.c\<close>. Its functions take the block
  device they read through (\<open>ahci_read\<close>) and what an uninitialised 1 KB local array holds
  (\<open>io_stack\<close>, any bytes), since \<open>read_block\<close> ignores the return code of the device and the code
  goes on with whatever the buffer holds. Out parameters are passed in and returned.
\<close>

unbundle bit_operations_syntax

section \<open>Model\<close>

record 's disk_io =
  io_read :: "'s bdev"
  io_stack :: "'s \<Rightarrow> bytes"

definition read_block :: "'s disk_io \<Rightarrow> u32 \<Rightarrow> bytes \<Rightarrow> 's \<Rightarrow> bytes \<times> 's" where
  "read_block io block_num buffer s =
     (let lba = (ucast block_num :: u64) * 2;
          (rc, buffer, s) = io_read io lba 2 buffer s
      in (buffer, s))"

definition fsso_mount :: "'s disk_io \<Rightarrow> FSSO_Filesystem \<Rightarrow> 's \<Rightarrow> int \<times> FSSO_Filesystem \<times> 's" where
  "fsso_mount io fs s =
     (let (buffer, s) = read_block io 0 (io_stack io s) s;
          sb = get_superblock ((!) buffer) 0
      in if sb_magic sb \<noteq> FSSO_MAGIC then (-1, fs, s)
         else (0, fs\<lparr>superblock := sb, disk_start_block := 0\<rparr>, s))"

definition fsso_read_inode ::
    "'s disk_io \<Rightarrow> FSSO_Filesystem \<Rightarrow> u32 \<Rightarrow> FSSO_Inode \<Rightarrow> 's \<Rightarrow> int \<times> FSSO_Inode \<times> 's" where
  "fsso_read_inode io fs inode_num out s =
     (if inode_num \<ge> sb_total_inodes (superblock fs) then (-1, out, s)
      else
        (let inodes_per_block = of_nat (FSSO_BLOCK_SIZE div sizeof_Inode);
             block_num = 3 + inode_num div inodes_per_block;
             offset = inode_num mod inodes_per_block;
             (buffer, s) = read_block io block_num (io_stack io s) s
         in (0, get_inode ((!) buffer) (sizeof_Inode * unat offset), s)))"

text \<open>
  The name comparison \<^verbatim>\<open>for (k = 0; e[k] || name[k]; k++)\<close>: \<open>True\<close> when it ends with
  \<open>match\<close> still 1.
\<close>

function name_match :: "mem \<Rightarrow> bytes \<Rightarrow> nat \<Rightarrow> bool" where
  "name_match e name k =
     (if e k \<noteq> 0 \<or> cstr_at name k \<noteq> 0 then
        (if e k \<noteq> cstr_at name k then False else name_match e name (Suc k))
      else True)"
  by pat_completeness auto
termination
  by (relation "measure (\<lambda>(e, name, k). length name - k)")
    (auto dest: cstr_at_nonzero intro: diff_less_mono2 simp: Suc_diff_Suc)

declare name_match.simps [simp del]

definition entries_per_block :: nat where
  "entries_per_block = FSSO_BLOCK_SIZE div sizeof_DirEntry"

fun find_entries :: "bytes \<Rightarrow> bytes \<Rightarrow> nat list \<Rightarrow> u32 option" where
  "find_entries buffer name [] = None"
| "find_entries buffer name (j # js) =
     (let ino = get32 ((!) buffer) (sizeof_DirEntry * j) in
      if ino = 0 then find_entries buffer name js
      else if name_match (\<lambda>k. buffer ! (sizeof_DirEntry * j + off_de_name + k)) name 0 then Some ino
      else find_entries buffer name js)"

fun find_blocks :: "'s disk_io \<Rightarrow> bytes \<Rightarrow> u32 list \<Rightarrow> bytes \<Rightarrow> 's \<Rightarrow> u32 option \<times> 's" where
  "find_blocks io name [] buffer s = (None, s)"
| "find_blocks io name (b # bs) buffer s =
     (if b = 0 then (None, s)
      else
        (let (buffer, s) = read_block io b buffer s in
         case find_entries buffer name [0..<entries_per_block] of
           Some ino \<Rightarrow> (Some ino, s)
         | None \<Rightarrow> find_blocks io name bs buffer s))"

text \<open>A local \<open>FSSO_Inode\<close> before its initialisation: any bytes.\<close>

definition stack_inode :: "'s disk_io \<Rightarrow> 's \<Rightarrow> FSSO_Inode" where
  "stack_inode io s = get_inode ((!) (io_stack io s)) 0"

definition fsso_find_in_dir ::
    "'s disk_io \<Rightarrow> FSSO_Filesystem \<Rightarrow> u32 \<Rightarrow> bytes \<Rightarrow> u32 \<Rightarrow> 's \<Rightarrow> int \<times> u32 \<times> 's" where
  "fsso_find_in_dir io fs dir_inode name out s =
     (let (rc, inode, s) = fsso_read_inode io fs dir_inode (stack_inode io s) s in
      if rc \<noteq> 0 then (-1, out, s)
      else if i_type inode \<noteq> FSSO_TYPE_DIR then (-2, out, s)
      else
        (case find_blocks io name (i_direct inode) (io_stack io s) s of
           (Some ino, s) \<Rightarrow> (0, ino, s)
         | (None, s) \<Rightarrow> (-3, out, s)))"

text \<open>
  The inner loop of \<open>fsso_resolve_path\<close>: the next component, cut at 255 bytes, and the rest of the
  path from the separator \<^verbatim>\<open>.\<close> on.
\<close>

definition dot :: u8 where "dot = 0x2E"

fun scan_component :: "bytes \<Rightarrow> bytes \<Rightarrow> bytes \<times> bytes" where
  "scan_component [] component = (component, [])"
| "scan_component (c # p) component =
     (if c \<noteq> dot then
        scan_component p (if length component < FSSO_MAX_FILENAME then component @ [c] else component)
      else (component, c # p))"

lemma scan_component_shorter:
  "scan_component p acc = (acc', p') \<Longrightarrow> length p' \<le> length p"
  by (induction p arbitrary: acc) (auto split: if_splits simp: le_Suc_eq)

lemma scan_component_progress:
  "p \<noteq> [] \<Longrightarrow> scan_component p acc = (acc', p') \<Longrightarrow> length p' < length p \<or> hd p' = dot \<and> p' = p"
  by (cases p) (auto split: if_splits dest: scan_component_shorter)

definition skip_dot :: "bytes \<Rightarrow> bytes" where
  "skip_dot p = (case p of [] \<Rightarrow> [] | c # r \<Rightarrow> if c = dot then r else p)"

function resolve_loop ::
    "'s disk_io \<Rightarrow> FSSO_Filesystem \<Rightarrow> bytes \<Rightarrow> u32 \<Rightarrow> u32 \<Rightarrow> 's \<Rightarrow> int \<times> u32 \<times> 's" where
  "resolve_loop io fs p current out s =
     (if p = [] then (0, current, s)
      else
        (case scan_component p [] of (component, p1) \<Rightarrow>
         (if component = [] then resolve_loop io fs (skip_dot p1) current out s
          else
            (case fsso_find_in_dir io fs current component 0 s of (rc, next, s) \<Rightarrow>
             (if rc \<noteq> 0 then (-1, out, s)
              else resolve_loop io fs (skip_dot p1) next out s)))))"
  by pat_completeness auto

lemma skip_dot_shorter: "length (skip_dot p) \<le> length p"
  by (auto simp: skip_dot_def split: list.splits)

lemma scan_skip_shorter:
  assumes "p \<noteq> []" "scan_component p [] = (component, p1)"
  shows "length (skip_dot p1) < length p"
  using scan_component_progress [OF assms] skip_dot_shorter [of p1] assms(1)
  by (auto simp: skip_dot_def split: list.splits)

termination resolve_loop
  by (relation "measure (\<lambda>(io, fs, p, current, out, s). length p)")
    (auto simp: scan_skip_shorter dest: sym)

declare resolve_loop.simps [simp del]

definition fsso_resolve_path ::
    "'s disk_io \<Rightarrow> FSSO_Filesystem \<Rightarrow> bytes \<Rightarrow> u32 \<Rightarrow> 's \<Rightarrow> int \<times> u32 \<times> 's" where
  "fsso_resolve_path io fs path out s = resolve_loop io fs path 0 out s"

text \<open>The copy loop \<^verbatim>\<open>for (j = 0; j < to_copy; j++) out_buffer[bytes_read + j] = block_buffer[j]\<close>.\<close>

definition copy_loop :: "bytes \<Rightarrow> nat \<Rightarrow> bytes \<Rightarrow> nat \<Rightarrow> bytes" where
  "copy_loop out off block n = fold (\<lambda>j out. out[off + j := block ! j]) [0..<n] out"

fun read_blocks ::
    "'s disk_io \<Rightarrow> u32 list \<Rightarrow> u32 \<Rightarrow> bytes \<Rightarrow> u32 \<Rightarrow> bytes \<Rightarrow> 's \<Rightarrow> u32 \<times> bytes \<times> 's" where
  "read_blocks io [] bytes_read out max_size block s = (bytes_read, out, s)"
| "read_blocks io (b # bs) bytes_read out max_size block s =
     (if b = 0 then (bytes_read, out, s)
      else if bytes_read \<ge> max_size then (bytes_read, out, s)
      else
        (let (block, s) = read_block io b block s;
             to_copy = of_nat FSSO_BLOCK_SIZE;
             to_copy = (if bytes_read + to_copy > max_size then max_size - bytes_read else to_copy);
             out = copy_loop out (unat bytes_read) block (unat to_copy)
         in read_blocks io bs (bytes_read + to_copy) out max_size block s))"

definition fsso_read_file ::
    "'s disk_io \<Rightarrow> FSSO_Filesystem \<Rightarrow> u32 \<Rightarrow> bytes \<Rightarrow> u32 \<Rightarrow> 's \<Rightarrow> int \<times> bytes \<times> 's" where
  "fsso_read_file io fs inode_num out_buffer max_size s =
     (let (rc, inode, s) = fsso_read_inode io fs inode_num (stack_inode io s) s in
      if rc \<noteq> 0 then (-1, out_buffer, s)
      else if i_type inode \<noteq> FSSO_TYPE_FILE then (-2, out_buffer, s)
      else
        (let (bytes_read, out_buffer, s) =
               read_blocks io (i_direct inode) 0 out_buffer max_size (io_stack io s) s
         in (sint bytes_read, out_buffer, s)))"

end
