(* ===== verification/Shell.thy ===== *)
theory Shell
  imports Console Fsso
begin

text \<open>
  The interactive shell, \<^verbatim>\<open>src/kernel/shell.c\<close>. \<open>ShellContext\<close> holds the framebuffer, the cursor
  (the C code keeps pointers to the two coordinates) and the mounted file system. What the C code
  reads without having written it is a parameter in \<open>env\<close>: the bytes after the font table, the stack
  bytes above the block buffer of \<open>cmd_ls\<close> (a name without a terminating NUL runs into them) and
  the 4 KB buffer of \<open>cmd_cat\<close>. A pointer into the input line is its offset; a command gets its
  arguments as the C strings found there.
\<close>

unbundle bit_operations_syntax

section \<open>State\<close>

definition SHELL_MAX_INPUT :: nat where "SHELL_MAX_INPUT = 256"
definition SHELL_MAX_ARGS :: nat where "SHELL_MAX_ARGS = 16"

lemmas shell_consts [simp] = SHELL_MAX_INPUT_def SHELL_MAX_ARGS_def

record ShellContext =
  sc_fb :: pixels
  sc_pps :: u32
  cursor_x :: int
  cursor_y :: int
  sc_fs :: FSSO_Filesystem

record 'w env =
  e_hw :: "'w hw"
  e_io :: "'w disk_io"
  e_past :: "u8 \<Rightarrow> bytes"
  e_above :: bytes
  e_file_buf :: bytes

text \<open>The C string at an offset of a byte buffer.\<close>

definition cstr :: "bytes \<Rightarrow> nat \<Rightarrow> bytes" where
  "cstr buf k = takeWhile (\<lambda>c. c \<noteq> 0) (drop k buf)"

section \<open>Output\<close>

definition shell_putchar :: "(u8 \<Rightarrow> bytes) \<Rightarrow> u8 \<Rightarrow> ShellContext \<Rightarrow> ShellContext" where
  "shell_putchar past c ctx =
     (if c = 10 then ctx\<lparr>cursor_x := 0, cursor_y := cursor_y ctx + 10\<rparr>
      else
        (let ctx = ctx\<lparr>sc_fb := draw_char past (sc_pps ctx) (cursor_x ctx * 9) (cursor_y ctx) c 0xFFFFFF (sc_fb ctx)\<rparr>;
             ctx = ctx\<lparr>cursor_x := cursor_x ctx + 1\<rparr>
         in if cursor_x ctx > 80 then ctx\<lparr>cursor_x := 0, cursor_y := cursor_y ctx + 10\<rparr> else ctx))"

fun shell_print :: "(u8 \<Rightarrow> bytes) \<Rightarrow> bytes \<Rightarrow> ShellContext \<Rightarrow> ShellContext" where
  "shell_print past [] ctx = ctx"
| "shell_print past (c # str) ctx = shell_print past str (shell_putchar past c ctx)"

text \<open>The loop that blacks out the character at the cursor.\<close>

definition erase_cell :: "ShellContext \<Rightarrow> ShellContext" where
  "erase_cell ctx =
     ctx\<lparr>sc_fb := fold (\<lambda>row. fold (\<lambda>col fb.
        fb(pixel_index (sc_pps ctx) (cursor_x ctx * 9 + int col) (cursor_y ctx + int row) := 0)) [0..<8]) [0..<8] (sc_fb ctx)\<rparr>"

section \<open>Input\<close>

text \<open>The loop of \<open>shell_readline\<close>; \<open>None\<close> when it never sees a newline.\<close>

partial_function (option) readline_loop ::
    "'w env \<Rightarrow> nat \<Rightarrow> nat \<Rightarrow> bytes \<Rightarrow> ShellContext \<Rightarrow> bool \<Rightarrow> 'w \<Rightarrow>
     (nat \<times> bytes \<times> ShellContext \<times> bool \<times> 'w) option" where
  "readline_loop env max_len len buffer ctx shift w =
     (case read_key (e_hw env) shift w of None \<Rightarrow> None
      | Some (c, shift, w) \<Rightarrow>
        if c = 0 then readline_loop env max_len len buffer ctx shift w
        else if c = 10 then
          Some (len, buffer[len := 0], shell_putchar (e_past env) 10 ctx, shift, w)
        else if c = 8 then
          (if 0 < len then
             readline_loop env max_len (len - 1) buffer
               (erase_cell (ctx\<lparr>cursor_x := cursor_x ctx - 1\<rparr>)) shift w
           else readline_loop env max_len len buffer ctx shift w)
        else if len < max_len - 1 then
          readline_loop env max_len (len + 1) (buffer[len := c]) (shell_putchar (e_past env) c ctx) shift w
        else readline_loop env max_len len buffer ctx shift w)"

definition shell_readline ::
    "'w env \<Rightarrow> bytes \<Rightarrow> nat \<Rightarrow> ShellContext \<Rightarrow> bool \<Rightarrow> 'w \<Rightarrow>
     (nat \<times> bytes \<times> ShellContext \<times> bool \<times> 'w) option" where
  "shell_readline env buffer max_len ctx shift w = readline_loop env max_len 0 buffer ctx shift w"

section \<open>Parsing\<close>

function skip_spaces :: "bytes \<Rightarrow> nat \<Rightarrow> nat" where
  "skip_spaces input p = (if cstr_at input p = 0x20 then skip_spaces input (p + 1) else p)"
  by pat_completeness auto
termination
  by (relation "measure (\<lambda>(input, p). length input - p)")
    (auto intro!: diff_less_mono2 cstr_at_nonzero)

function token_end :: "bytes \<Rightarrow> nat \<Rightarrow> nat" where
  "token_end input p =
     (if cstr_at input p \<noteq> 0 \<and> cstr_at input p \<noteq> 0x20 then token_end input (p + 1) else p)"
  by pat_completeness auto
termination
  by (relation "measure (\<lambda>(input, p). length input - p)")
    (auto intro!: diff_less_mono2 cstr_at_nonzero)

declare skip_spaces.simps [simp del] token_end.simps [simp del]

function parse_loop :: "bytes \<Rightarrow> nat list \<Rightarrow> nat \<Rightarrow> nat \<Rightarrow> bytes \<times> nat list" where
  "parse_loop input argv max_args p =
     (if cstr_at input p \<noteq> 0 \<and> length argv < max_args then
        (let p = skip_spaces input p in
         if cstr_at input p = 0 then (input, argv)
         else
           (let argv = argv @ [p]; p = token_end input p in
            if cstr_at input p = 0x20 then parse_loop (input[p := 0]) argv max_args (p + 1)
            else parse_loop input argv max_args p))
      else (input, argv))"
  by pat_completeness auto
termination
  by (relation "measure (\<lambda>(input, argv, max_args, p). max_args - length argv)") auto

declare parse_loop.simps [simp del]

definition shell_parse :: "bytes \<Rightarrow> nat \<Rightarrow> bytes \<times> nat list" where
  "shell_parse input max_args = parse_loop input [] max_args 0"

text \<open>\<open>str_eq\<close> on two C strings, the terminating NUL seen by \<open>cstr_at\<close>.\<close>

function str_eq_from :: "bytes \<Rightarrow> bytes \<Rightarrow> nat \<Rightarrow> bool" where
  "str_eq_from a b k =
     (if cstr_at a k \<noteq> 0 \<and> cstr_at a k = cstr_at b k then str_eq_from a b (k + 1)
      else cstr_at a k = cstr_at b k)"
  by pat_completeness auto
termination
  by (relation "measure (\<lambda>(a, b, k). length a - k)") (auto intro!: diff_less_mono2 cstr_at_nonzero)

declare str_eq_from.simps [simp del]

definition str_eq :: "bytes \<Rightarrow> bytes \<Rightarrow> bool" where
  "str_eq a b = str_eq_from a b 0"

section \<open>Commands\<close>

fun echo_args :: "(u8 \<Rightarrow> bytes) \<Rightarrow> bytes list \<Rightarrow> ShellContext \<Rightarrow> ShellContext" where
  "echo_args past [] ctx = ctx"
| "echo_args past (a # as) ctx =
     echo_args past as
       (let ctx = shell_print past a ctx in if as \<noteq> [] then shell_putchar past 0x20 ctx else ctx)"

definition cmd_echo :: "'w env \<Rightarrow> bytes list \<Rightarrow> ShellContext \<Rightarrow> ShellContext" where
  "cmd_echo env argv ctx =
     shell_putchar (e_past env) 10 (echo_args (e_past env) (drop 1 argv) ctx)"

text \<open>The loop bound \<^verbatim>\<open>768 * ctx->pps\<close> is a \<open>uint32_t\<close> product.\<close>

definition cmd_clear :: "ShellContext \<Rightarrow> ShellContext" where
  "cmd_clear ctx =
     ctx\<lparr>sc_fb := (\<lambda>i. if i < 768 * sc_pps ctx then 0 else sc_fb ctx i), cursor_x := 0, cursor_y := 0\<rparr>"

fun ls_entries :: "'w env \<Rightarrow> bytes \<Rightarrow> nat list \<Rightarrow> ShellContext \<Rightarrow> ShellContext" where
  "ls_entries env buffer [] ctx = ctx"
| "ls_entries env buffer (j # js) ctx =
     (if (get32 ((!) buffer) (sizeof_DirEntry * j)) = 0 then ls_entries env buffer js ctx
      else ls_entries env buffer js
        (shell_putchar (e_past env) 10
          (shell_print (e_past env) (cstr (buffer @ e_above env) (sizeof_DirEntry * j + off_de_name)) ctx)))"

fun ls_blocks :: "'w env \<Rightarrow> u32 list \<Rightarrow> bytes \<Rightarrow> ShellContext \<Rightarrow> 'w \<Rightarrow> ShellContext \<times> 'w" where
  "ls_blocks env [] buffer ctx w = (ctx, w)"
| "ls_blocks env (b # bs) buffer ctx w =
     (if b = 0 then (ctx, w)
      else
        (let (buffer, w) = read_block (e_io env) b buffer w in
         ls_blocks env bs buffer (ls_entries env buffer [0..<entries_per_block] ctx) w))"

definition cmd_ls :: "'w env \<Rightarrow> ShellContext \<Rightarrow> 'w \<Rightarrow> ShellContext \<times> 'w" where
  "cmd_ls env ctx w =
     (let (rc, root, w) = fsso_read_inode (e_io env) (sc_fs ctx) 0 (stack_inode (e_io env) w) w
      in ls_blocks env (i_direct root) (io_stack (e_io env) w) ctx w)"

definition cmd_cat :: "'w env \<Rightarrow> bytes list \<Rightarrow> ShellContext \<Rightarrow> 'w \<Rightarrow> ShellContext \<times> 'w" where
  "cmd_cat env argv ctx w =
     (let print = shell_print (e_past env); putchar = shell_putchar (e_past env) in
      if length argv < 2 then (print (of_string ''Usage: cat <filename>'' @ [10]) ctx, w)
      else
        (let (rc, inode_num, w) = fsso_find_in_dir (e_io env) (sc_fs ctx) 0 (argv ! 1) 0 w in
         if rc \<noteq> 0 then
           (putchar 10 (print (argv ! 1) (print (of_string ''File not found: '') ctx)), w)
         else
           (let (bytes, file_buf, w) = fsso_read_file (e_io env) (sc_fs ctx) inode_num (e_file_buf env) 4096 w in
            if bytes < 0 then (print (of_string ''Error reading file'' @ [10]) ctx, w)
            else (putchar 10 (fold putchar (take (nat bytes) file_buf) ctx), w))))"

definition cmd_help :: "'w env \<Rightarrow> ShellContext \<Rightarrow> ShellContext" where
  "cmd_help env ctx =
     fold (\<lambda>line. shell_print (e_past env) (of_string line @ [10]))
       [''SimplrOS commands:'',
        ''  echo <text>     - print text'',
        ''  clear           - clear screen'',
        ''  ls              - list files'',
        ''  cat <file>      - read file'',
        ''  help            - this message''] ctx"

section \<open>The command loop\<close>

text \<open>The dispatch on the first word of a line that has one.\<close>

definition shell_command :: "'w env \<Rightarrow> bytes list \<Rightarrow> ShellContext \<Rightarrow> 'w \<Rightarrow> ShellContext \<times> 'w" where
  "shell_command env argv ctx w =
     (let is = (\<lambda>s. str_eq (argv ! 0) (of_string s)) in
      if is ''echo'' then (cmd_echo env argv ctx, w)
      else if is ''clear'' then (cmd_clear ctx, w)
      else if is ''ls'' then cmd_ls env ctx w
      else if is ''cat'' then cmd_cat env argv ctx w
      else if is ''help'' then (cmd_help env ctx, w)
      else (shell_putchar (e_past env) 10 (shell_print (e_past env) (argv ! 0)
             (shell_print (e_past env) (of_string ''Unknown command: '') ctx)), w))"

text \<open>
  One turn of the loop of \<open>shell_run\<close>, which never ends: the state is the context, the input array,
  \<open>shift_pressed\<close> and the world; \<open>None\<close> when \<open>shell_readline\<close> waits for ever.
\<close>

record 'w shell =
  sh_ctx :: ShellContext
  sh_input :: bytes
  sh_shift :: bool
  sh_world :: 'w

definition shell_turn :: "'w env \<Rightarrow> 'w shell \<Rightarrow> 'w shell option" where
  "shell_turn env sh =
     (let ctx = shell_print (e_past env) (of_string ''SimplrOS> '') (sh_ctx sh) in
      case shell_readline env (sh_input sh) SHELL_MAX_INPUT ctx (sh_shift sh) (sh_world sh) of
        None \<Rightarrow> None
      | Some (len, input, ctx, shift, w) \<Rightarrow>
          if cstr_at input 0 = 0 then
            Some (sh\<lparr>sh_ctx := ctx, sh_input := input, sh_shift := shift, sh_world := w\<rparr>)
          else
            (let (input, argv) = shell_parse input SHELL_MAX_ARGS in
             if argv = [] then
               Some (sh\<lparr>sh_ctx := ctx, sh_input := input, sh_shift := shift, sh_world := w\<rparr>)
             else
               (let (ctx, w) = shell_command env (map (cstr input) argv) ctx w in
                Some (sh\<lparr>sh_ctx := ctx, sh_input := input, sh_shift := shift, sh_world := w\<rparr>))))"

inductive shell_run :: "'w env \<Rightarrow> 'w shell \<Rightarrow> 'w shell \<Rightarrow> bool" for env where
  start: "shell_run env sh sh"
| turn: "shell_run env sh sh' \<Longrightarrow> shell_turn env sh' = Some sh'' \<Longrightarrow> shell_run env sh sh''"

inductive_cases shell_runE: "shell_run env sh sh'"

end
