(* ===== verification/Screen.thy ===== *)
theory Screen
  imports Console
begin

text \<open>
  The screen side of \<^verbatim>\<open>src/kernel/kernel.c\<close>: what \<open>draw_char\<close> and \<open>draw_string\<close> do to the
  framebuffer. \<open>lit\<close> abstracts a framebuffer to the set of coordinates that are not black; on it
  drawing is a union with the pixels of the glyphs, as long as the box drawn lies inside a line
  and the 32-bit index does not wrap.
\<close>

unbundle bit_operations_syntax

section \<open>Single pixels\<close>

lemma fold_upd_if:
  "fold (\<lambda>r fb. if P r then fb(f r := v) else fb) xs fb a = (if \<exists>r \<in> set xs. P r \<and> a = f r then v else fb a)"
  by (induction xs arbitrary: fb) auto

lemma fold_fold_upd_if:
  "fold (\<lambda>r. fold (\<lambda>c fb. if P r c then fb(f r c := v) else fb) ys) xs fb a =
     (if \<exists>r \<in> set xs. \<exists>c \<in> set ys. P r c \<and> a = f r c then v else fb a)"
  by (induction xs arbitrary: fb) (auto simp: fold_upd_if)

lemma glyph_mask:
  assumes "col < 8"
  shows "b AND drop_bit col 0x80 \<noteq> 0 \<longleftrightarrow> bit (b :: u8) (7 - col)"
proof -
  have "col = 0 \<or> col = 1 \<or> col = 2 \<or> col = 3 \<or> col = 4 \<or> col = 5 \<or> col = 6 \<or> col = 7"
    using assms by auto
  then have "drop_bit col (0x80 :: u8) = push_bit (7 - col) 1" by (elim disjE) simp_all
  then show ?thesis by (simp add: bit_iff_and_push_bit_not_eq_0)
qed

text \<open>The pixels of a character drawn with its upper left corner at \<open>(x, y)\<close>.\<close>

definition glyph_pixels :: "(u8 \<Rightarrow> bytes) \<Rightarrow> u8 \<Rightarrow> int \<Rightarrow> int \<Rightarrow> (int \<times> int) set" where
  "glyph_pixels past c x y =
     {(px, py). x \<le> px \<and> px < x + 8 \<and> y \<le> py \<and> py < y + 8 \<and> bit (font past c ! nat (py - y)) (nat (7 - (px - x)))}"

lemma draw_char_at:
  "draw_char past pps x y c color fb a =
     (if \<exists>(px, py) \<in> glyph_pixels past c x y. a = pixel_index pps px py then color else fb a)"
proof -
  let ?P = "\<lambda>row col. (font past c ! row) AND drop_bit col 0x80 \<noteq> 0"
  let ?f = "\<lambda>row col. pixel_index pps (x + int col) (y + int row)"
  have "(\<exists>row \<in> set [0..<8]. \<exists>col \<in> set [0..<8]. ?P row col \<and> a = ?f row col) \<longleftrightarrow>
      (\<exists>(px, py) \<in> glyph_pixels past c x y. a = pixel_index pps px py)" (is "?L \<longleftrightarrow> ?R")
  proof
    assume ?L
    then obtain row col where "row < 8" "col < 8" "?P row col" "a = ?f row col" by auto
    then have "(x + int col, y + int row) \<in> glyph_pixels past c x y"
      by (simp add: glyph_pixels_def glyph_mask nat_diff_distrib)
    with \<open>a = ?f row col\<close> show ?R by blast
  next
    assume ?R
    then obtain px py where p: "(px, py) \<in> glyph_pixels past c x y" "a = pixel_index pps px py" by auto
    define row col where "row = nat (py - y)" and "col = nat (px - x)"
    have "row < 8" "col < 8" "px = x + int col" "py = y + int row" "nat (7 - (px - x)) = 7 - col"
      using p(1) by (auto simp: glyph_pixels_def row_def col_def)
    moreover have "bit (font past c ! row) (7 - col)"
      using p(1) calculation(5) by (simp add: glyph_pixels_def row_def)
    ultimately have "row < 8 \<and> col < 8 \<and> ?P row col \<and> a = ?f row col"
      using p(2) by (simp add: glyph_mask)
    then show ?L by (intro bexI [of _ row] bexI [of _ col]) auto
  qed
  then show ?thesis
    unfolding draw_char_def Let_def fold_fold_upd_if by simp
qed

section \<open>Coordinates\<close>

text \<open>The coordinates whose index is below 2^32: their index is the row-major one.\<close>

definition on_screen :: "u32 \<Rightarrow> int \<times> int \<Rightarrow> bool" where
  "on_screen pps = (\<lambda>(px, py). 0 \<le> px \<and> px < uint pps \<and> 0 \<le> py \<and> py * uint pps + px < 2 ^ 32)"

lemma uint_pixel_index:
  assumes "on_screen pps (px, py)"
  shows "uint (pixel_index pps px py) = py * uint pps + px"
proof -
  have "pixel_index pps px py = word_of_int (py * uint pps + px)"
    by (simp add: pixel_index_def)
  moreover have "0 \<le> py * uint pps" using assms by (simp add: on_screen_def)
  then have "0 \<le> py * uint pps + px \<and> py * uint pps + px < 2 ^ 32"
    using assms unfolding on_screen_def prod.case by linarith
  moreover have "uint (word_of_int k :: u32) = k" if "0 \<le> k \<and> k < 2 ^ 32" for k
    using that by (simp add: uint_word_of_int_eq take_bit_int_eq_self)
  ultimately show ?thesis by metis
qed

lemma pixel_index_inj:
  assumes "on_screen pps (px, py)" "on_screen pps (qx, qy)" "pixel_index pps px py = pixel_index pps qx qy"
  shows "px = qx \<and> py = qy"
proof -
  have e: "py * uint pps + px = qy * uint pps + qx"
    using assms(3) uint_pixel_index [OF assms(1)] uint_pixel_index [OF assms(2)] by simp
  have b: "0 \<le> px" "px < uint pps" "0 \<le> qx" "qx < uint pps"
    using assms(1,2) by (auto simp: on_screen_def)
  then have "(py * uint pps + px) div uint pps = py" "(qy * uint pps + qx) div uint pps = qy"
    by (simp_all add: div_add1_eq)
  with e show ?thesis by simp
qed

definition lit :: "u32 \<Rightarrow> pixels \<Rightarrow> (int \<times> int) set" where
  "lit pps fb = {p. on_screen pps p \<and> fb (pixel_index pps (fst p) (snd p)) \<noteq> 0}"

text \<open>The box of a character, or of a run of \<open>n\<close> characters, fits the screen.\<close>

definition fits :: "u32 \<Rightarrow> int \<Rightarrow> int \<Rightarrow> int \<Rightarrow> bool" where
  "fits pps w x y \<longleftrightarrow> 0 \<le> x \<and> x + w \<le> uint pps \<and> 0 \<le> y \<and> (y + 8) * uint pps \<le> 2 ^ 32"

lemma fits_on_screen:
  assumes "fits pps w x y" "x \<le> px" "px < x + w" "y \<le> py" "py < y + 8"
  shows "on_screen pps (px, py)"
proof -
  have "(py + 1) * uint pps \<le> (y + 8) * uint pps"
    using assms(5) by (intro mult_right_mono) auto
  then have "py * uint pps + uint pps \<le> 2 ^ 32"
    using assms(1) by (simp add: fits_def algebra_simps)
  then show ?thesis using assms by (auto simp: on_screen_def fits_def)
qed

lemma glyph_pixels_on_screen:
  "fits pps 8 x y \<Longrightarrow> p \<in> glyph_pixels past c x y \<Longrightarrow> on_screen pps p"
  by (cases p) (auto simp: glyph_pixels_def intro: fits_on_screen)

lemma draw_char_pixel:
  assumes "fits pps 8 x y" "on_screen pps p"
  shows "draw_char past pps x y c color fb (pixel_index pps (fst p) (snd p)) =
     (if p \<in> glyph_pixels past c x y then color else fb (pixel_index pps (fst p) (snd p)))"
proof -
  have "(\<exists>(px, py) \<in> glyph_pixels past c x y. pixel_index pps (fst p) (snd p) = pixel_index pps px py) \<longleftrightarrow>
      p \<in> glyph_pixels past c x y"
  proof
    assume "\<exists>(px, py) \<in> glyph_pixels past c x y. pixel_index pps (fst p) (snd p) = pixel_index pps px py"
    then obtain px py where q: "(px, py) \<in> glyph_pixels past c x y"
      "pixel_index pps (fst p) (snd p) = pixel_index pps px py" by auto
    with pixel_index_inj [of pps "fst p" "snd p" px py] assms glyph_pixels_on_screen [OF assms(1) q(1)]
    show "p \<in> glyph_pixels past c x y" by (cases p) simp
  qed (auto split: prod.splits)
  then show ?thesis by (simp add: draw_char_at)
qed

lemma lit_draw_char:
  assumes "fits pps 8 x y" "color \<noteq> 0"
  shows "lit pps (draw_char past pps x y c color fb) = lit pps fb \<union> glyph_pixels past c x y"
proof (rule set_eqI)
  fix p
  show "p \<in> lit pps (draw_char past pps x y c color fb) \<longleftrightarrow> p \<in> lit pps fb \<union> glyph_pixels past c x y"
    using assms(2) glyph_pixels_on_screen [OF assms(1), of p past c]
      draw_char_pixel [OF assms(1), of p past c color fb]
    by (auto simp: lit_def split: if_splits)
qed

text \<open>Where the 8 by 8 box fits the screen, draw_char sets exactly the pixels of the box whose bit in
  the glyph is set (row by row, the most significant bit on the left) and no other pixel of the
  framebuffer changes.\<close>

theorem draw_char_paints:
  assumes "fits pps 8 x y" "on_screen pps (px, py)"
  shows "draw_char past pps x y c color fb (pixel_index pps px py) =
     (if x \<le> px \<and> px < x + 8 \<and> y \<le> py \<and> py < y + 8 \<and> bit (font past c ! nat (py - y)) (nat (7 - (px - x)))
      then color else fb (pixel_index pps px py))"
  using draw_char_pixel [OF assms] by (simp add: glyph_pixels_def)

theorem draw_char_paints_witness:
  "draw_char (\<lambda>_. []) 640 630 70 (of_char CHR ''A'') 7 (\<lambda>_. 0) (pixel_index 640 634 70) = 7 \<and>
   draw_char (\<lambda>_. []) 640 630 70 (of_char CHR ''A'') 7 (\<lambda>_. 0) (pixel_index 640 635 70) = 0"
proof -
  have f: "fits 640 8 630 70" "on_screen 640 (634, 70)" "on_screen 640 (635, 70)"
    by (simp_all add: fits_def on_screen_def)
  have A: "font (\<lambda>_. []) 65 ! 0 = 0x18" by (simp add: font_def font_rows_def)
  show ?thesis
    using draw_char_paints [OF f(1,2), of "\<lambda>_. []" "of_char CHR ''A''" 7 "\<lambda>_. 0"]
      draw_char_paints [OF f(1,3), of "\<lambda>_. []" "of_char CHR ''A''" 7 "\<lambda>_. 0"]
    by (simp add: A)
qed

section \<open>Strings\<close>

definition string_pixels :: "(u8 \<Rightarrow> bytes) \<Rightarrow> bytes \<Rightarrow> int \<Rightarrow> int \<Rightarrow> (int \<times> int) set" where
  "string_pixels past s x y = (\<Union>i < length s. glyph_pixels past (s ! i) (x + int i * 9) y)"

lemma UN_shift: "(\<Union>k < Suc n. F k) = F 0 \<union> (\<Union>k < n. F (Suc k))"
  by (simp add: lessThan_Suc_eq_insert_0)

lemma lit_draw_string_from:
  assumes "fits pps (9 * int (i + length s)) x y" "color \<noteq> 0"
  shows "lit pps (draw_string_from i past pps x y s color fb) =
     lit pps fb \<union> (\<Union>k < length s. glyph_pixels past (s ! k) (x + int (i + k) * 9) y)"
  using assms
proof (induction i past pps x y s color fb rule: draw_string_from.induct)
  case (2 i past pps x y c str color fb)
  have f: "fits pps 8 (x + int i * 9) y" using 2(2) by (simp add: fits_def)
  have "lit pps (draw_string_from (Suc i) past pps x y str color (draw_char past pps (x + int i * 9) y c color fb)) =
      lit pps fb \<union> glyph_pixels past c (x + int i * 9) y \<union>
      (\<Union>k < length str. glyph_pixels past (str ! k) (x + int (Suc i + k) * 9) y)"
    using 2(1) 2(2,3) lit_draw_char [OF f 2(3)] by simp
  also have "(\<Union>k < length str. glyph_pixels past (str ! k) (x + int (Suc i + k) * 9) y) =
      (\<Union>k < length str. glyph_pixels past ((c # str) ! Suc k) (x + int (i + Suc k) * 9) y)"
    by simp
  finally show ?case
    by (simp only: draw_string_from.simps UN_shift list.size(4) Un_assoc nth_Cons_0 add_0_right One_nat_def add_Suc_right)
qed simp

lemma lit_draw_string:
  "fits pps (9 * int (length s)) x y \<Longrightarrow> color \<noteq> 0 \<Longrightarrow>
   lit pps (draw_string past pps x y s color fb) = lit pps fb \<union> string_pixels past s x y"
  using lit_draw_string_from [of pps 0 s x y color past fb]
  by (simp add: draw_string_def string_pixels_def)

section \<open>Legibility\<close>

text \<open>The characters with a glyph of their own.\<close>

definition printable :: "u8 \<Rightarrow> bool" where
  "printable c \<longleftrightarrow> 32 \<le> unat c \<and> unat c < 127"

text \<open>A glyph as one number, to compare the 96 glyphs with each other.\<close>

definition glyph_number :: "bytes \<Rightarrow> int" where
  "glyph_number = foldl (\<lambda>n b. n * 256 + uint b) 0"

lemma glyph_numbers: "map (glyph_number \<circ> snd) (tl font_rows) =
    [0, 1736164147711180800, 7812619453580967936, 7812899197659409408, 1746939516389431296,
     28900492250369024, 4065739423328531968, 1736190432909459456, 871499511419636736,
     3465533159143649280, 28777514552131584, 6782329290227712, 404238336, 541165879296, 1572864,
     435749860008787968, 4352287544700567552, 1745171347375259648, 4352172808042577920,
     4352172807336377344, 872638864471883776, 9106414811862154240, 2031229519354280960,
     9080958996666384384, 4352278499502210048, 4352278506475632640, 6755399843708928,
     6755399845294080, 871499717578066944, 138540579028992, 3465533133373845504,
     4352172807631673344, 4352287510242671616, 1746383448582782976, 8963964792808931328,
     4352272057048498176, 8677423172128604160, 9106384516674355200, 9106384516672389120,
     4352272117178040320, 7378697732563009536, 9086038739989168128, 434041038642610176,
     7380406313805440512, 6944656592457302016, 7167337431189094400, 7383227720603664384,
     4352278679888068608, 8963964792706433024, 4352278679988338688, 8963964792908152832,
     4352271900821830656, 9086038739982483456, 7378697629481041920, 7378697628774039552,
     7161686027657216000, 7378651114283361792, 7378651113674244096, 9080958996671496192,
     4337019424683589632, 13862132532885454848, 4326846587880603648, 1746382905698942976, 65280,
     1736150850490859520, 16895363675717632, 6944687404653215744, 16994465650311168,
     434103023610757120, 17001191569096704, 2031259978352820224, 17564037869353984,
     6944687404651773952, 1729443933047226368, 432352187168209920, 6944663241468175872,
     4042007157329887232, 28850632863711232, 35015487102779392, 17001088590544896,
     35015487471509504, 17564037869340160, 35015461231919104, 16994309521539072,
     3472411859110068224, 28823037612392448, 28823036905390080, 27984216943099904,
     28776522414686208, 28822864203087872, 35479145097854976, 1015588585691680256,
     1736164045034625024, 8077232380501848064, 8564720591351840768, 18446744073709551615]"
  by code_simp

lemma glyphs_distinct: "distinct (map snd (tl font_rows))"
proof -
  have "distinct (map (glyph_number \<circ> snd) (tl font_rows))"
    unfolding glyph_numbers by code_simp
  then show ?thesis by (simp add: distinct_map inj_on_def)
qed

lemma font_table:
  "list_all (\<lambda>(_, g). length g = 8) font_rows" "length (tl font_rows) = 96"
  "map fst font_rows = 0 # [32..<128]"
  by code_simp+

lemma font_printable:
  assumes "printable c"
  shows "unat c - 32 < 96" "font past c = snd (tl font_rows ! (unat c - 32))" "length (font past c) = 8"
proof -
  let ?i = "unat c - 32"
  show i: "?i < 96" using assms unfolding printable_def by linarith
  have "map fst (tl font_rows) = [32..<128]" by (simp add: map_tl font_table(3) del: upt_rec_numeral)
  then have "map fst (tl font_rows) ! ?i = 32 + ?i" using i by (simp del: upt_rec_numeral)
  then have "fst (tl font_rows ! ?i) = unat c"
    using i assms font_table(2) by (simp add: printable_def)
  moreover have mem: "tl font_rows ! ?i \<in> set font_rows"
    using i font_table(2) by (metis nth_mem list.set_sel(2) tl_Nil list.size(3) not_less_zero)
  ultimately have "(unat c, snd (tl font_rows ! ?i)) \<in> set font_rows" by (metis prod.collapse)
  moreover have "distinct (map fst font_rows)" unfolding font_table(3) by (simp del: upt_rec_numeral)
  ultimately have "map_of font_rows (unat c) = Some (snd (tl font_rows ! ?i))" by simp
  then show f: "font past c = snd (tl font_rows ! ?i)"
    using assms by (simp add: font_def printable_def)
  show "length (font past c) = 8"
    using font_table(1) mem unfolding f list_all_iff by (cases "tl font_rows ! ?i") fastforce
qed

lemma font_inj:
  assumes "printable c" "printable d" "font past c = font past d"
  shows "c = d"
proof -
  have "map snd (tl font_rows) ! (unat c - 32) = map snd (tl font_rows) ! (unat d - 32)"
    using assms(3) font_printable(1,2) [OF assms(1)] font_printable(1,2) [OF assms(2)] font_table(2)
    by simp
  then have "unat c - 32 = unat d - 32"
    using glyphs_distinct font_table(2) font_printable(1) [OF assms(1)] font_printable(1) [OF assms(2)]
    by (simp add: nth_eq_iff_index_eq del: nth_map)
  then show ?thesis using assms(1,2) unfolding printable_def word_unat_eq_iff by linarith
qed

lemma glyph_pixels_inj:
  assumes "printable c" "printable d" "glyph_pixels past c x y = glyph_pixels past d x y"
  shows "c = d"
proof -
  have "bit (font past c ! row) b = bit (font past d ! row) b" if "row < 8" "b < 8" for row b
  proof -
    have "(x + int (7 - b), y + int row) \<in> glyph_pixels past e x y \<longleftrightarrow> bit (font past e ! row) b" for e
      using that by (simp add: glyph_pixels_def of_nat_diff)
    with assms(3) show ?thesis by blast
  qed
  then have "font past c ! row = font past d ! row" if "row < 8" for row
    using that by (intro bit_word_eqI) simp
  then have "font past c = font past d"
    by (intro nth_equalityI) (simp_all add: font_printable(3) [OF assms(1)] font_printable(3) [OF assms(2)])
  with font_inj [OF assms(1,2)] show ?thesis .
qed

lemma string_pixels_cell:
  assumes "i < length s"
  shows "string_pixels past s x y \<inter> {(px, py). x + int i * 9 \<le> px \<and> px < x + int i * 9 + 8} =
     glyph_pixels past (s ! i) (x + int i * 9) y"
proof -
  have "k = i" if "x + int i * 9 \<le> px" "px < x + int i * 9 + 8" "x + int k * 9 \<le> px" "px < x + int k * 9 + 8" for k px
    using that by linarith
  with assms show ?thesis
    unfolding string_pixels_def glyph_pixels_def by fastforce
qed

text \<open>What draw_string writes on a black screen can be read back: two strings of printable characters of
  one length that leave the same pixels lit are equal, so no two characters share a glyph and
  neighbouring cells never overlap.\<close>

theorem draw_string_legible:
  assumes "fits pps (9 * int (length s)) x y" "color \<noteq> 0" "length s = length t"
    and "\<forall>c \<in> set s \<union> set t. printable c"
    and "lit pps (draw_string past pps x y s color (\<lambda>_. 0)) = lit pps (draw_string past pps x y t color (\<lambda>_. 0))"
  shows "s = t"
proof (rule nth_equalityI [OF assms(3)])
  fix i assume i: "i < length s"
  have "string_pixels past s x y = string_pixels past t x y"
    using assms(1,2,3,5) by (simp add: lit_draw_string) (simp add: lit_def)
  then have "glyph_pixels past (s ! i) (x + int i * 9) y = glyph_pixels past (t ! i) (x + int i * 9) y"
    using i assms(3) string_pixels_cell [of i s past x y] string_pixels_cell [of i t past x y] by simp
  then show "s ! i = t ! i" using assms(3,4) i by (auto intro: glyph_pixels_inj)
qed

theorem draw_string_legible_witness:
  "lit 640 (draw_string (\<lambda>_. []) 640 0 10 (of_string ''AHCI: OK'') 0xFF00 (\<lambda>_. 0)) \<noteq>
   lit 640 (draw_string (\<lambda>_. []) 640 0 10 (of_string ''AHCI: KO'') 0xFF00 (\<lambda>_. 0))"
proof
  assume e: "lit 640 (draw_string (\<lambda>_. []) 640 0 10 (of_string ''AHCI: OK'') 0xFF00 (\<lambda>_. 0)) =
    lit 640 (draw_string (\<lambda>_. []) 640 0 10 (of_string ''AHCI: KO'') 0xFF00 (\<lambda>_. 0))"
  have "of_string ''AHCI: OK'' = of_string ''AHCI: KO''"
    by (rule draw_string_legible [OF _ _ _ _ e]) (auto simp: of_string_def fits_def printable_def)
  then show False by (simp add: of_string_def)
qed

end
