(* ===== verification/Shell_Text.thy ===== *)
theory Shell_Text
  imports Shell Screen
begin

text \<open>
  The parts of \<^verbatim>\<open>src/kernel/shell.c\<close> that touch neither keyboard nor disk. Printing is followed
  on an abstract terminal (a cursor in character cells and the set of lit pixels); the parser, which
  cuts the input line in place, returns the first 16 words of the line; every command's output is
  the printing of one text.
\<close>

unbundle bit_operations_syntax

section \<open>C strings in buffers\<close>

lemma cstr_unfold:
  "cstr buf k = (if cstr_at buf k = 0 then [] else cstr_at buf k # cstr buf (Suc k))"
proof (cases "k < length buf")
  case True
  then have "drop k buf = buf ! k # drop (Suc k) buf" by (rule Cons_nth_drop_Suc [symmetric])
  with True show ?thesis by (simp add: cstr_def cstr_at_def)
qed (simp add: cstr_def cstr_at_def)

lemma is_cstr_cstr: "is_cstr (cstr buf k)"
  unfolding is_cstr_def cstr_def by (auto dest: set_takeWhileD)

lemma cstr_at_update: "cstr_at (buf[q := v]) k = (if k = q \<and> q < length buf then v else cstr_at buf k)"
  by (simp add: cstr_at_def nth_list_update)

lemma cstr_update_before: "q < k \<Longrightarrow> cstr (buf[q := v]) k = cstr buf k"
  by (simp add: cstr_def)

text \<open>A C string depends on the buffer up to its NUL only.\<close>

lemma cstr_cong:
  assumes "\<And>i. k \<le> i \<Longrightarrow> i \<le> k + length (cstr buf k) \<Longrightarrow> cstr_at buf' i = cstr_at buf i"
  shows "cstr buf' k = cstr buf k"
  using assms
proof (induction "length (cstr buf k)" arbitrary: k)
  case 0
  then have "cstr_at buf k = 0" using cstr_unfold [of buf k] by (simp split: if_splits)
  with 0 have "cstr_at buf' k = 0" by simp
  then show ?case using \<open>cstr_at buf k = 0\<close> by (simp add: cstr_unfold [of _ k])
next
  case (Suc n)
  then have nz: "cstr_at buf k \<noteq> 0" using cstr_unfold [of buf k] by (simp split: if_splits)
  then have len: "length (cstr buf k) = Suc (length (cstr buf (Suc k)))"
    using cstr_unfold [of buf k] by simp
  then have "cstr buf' (Suc k) = cstr buf (Suc k)"
    using Suc.hyps(2) by (intro Suc.hyps(1) Suc.prems) simp_all
  moreover have "cstr_at buf' k = cstr_at buf k" using Suc.prems [of k] by simp
  ultimately show ?case using nz by (simp add: cstr_unfold [of _ k])
qed

lemma str_eq_from_iff:
  "is_cstr a \<Longrightarrow> is_cstr b \<Longrightarrow> k \<le> length a \<Longrightarrow> k \<le> length b \<Longrightarrow>
   str_eq_from a b k \<longleftrightarrow> drop k a = drop k b"
proof (induction a b k rule: str_eq_from.induct)
  case (1 a b k)
  note at = is_cstr_at [OF "1.prems"(1), of k] is_cstr_at [OF "1.prems"(2), of k]
  consider "k = length a" | "k = length b" | "k < length a" "k < length b" using "1.prems" by linarith
  then show ?case
  proof cases
    assume k: "k < length a" "k < length b"
    then have "drop k a = cstr_at a k # drop (Suc k) a" "drop k b = cstr_at b k # drop (Suc k) b"
      by (simp_all add: cstr_at_def Cons_nth_drop_Suc)
    with "1.IH" "1.prems" at k show ?thesis
      by (subst str_eq_from.simps) auto
  qed (use at "1.prems" in \<open>subst str_eq_from.simps; auto\<close>)+
qed

lemma str_eq_iff: "is_cstr a \<Longrightarrow> is_cstr b \<Longrightarrow> str_eq a b \<longleftrightarrow> a = b"
  by (simp add: str_eq_def str_eq_from_iff)

section \<open>Words of a line\<close>

abbreviation sp :: u8 where "sp \<equiv> 0x20"

function words :: "bytes \<Rightarrow> bytes list" where
  "words s =
     (let t = dropWhile (\<lambda>c. c = sp) s in
      if t = [] then [] else takeWhile (\<lambda>c. c \<noteq> sp) t # words (dropWhile (\<lambda>c. c \<noteq> sp) t))"
  by pat_completeness auto

lemma words_shorter:
  assumes "dropWhile (\<lambda>c. c = sp) s \<noteq> []"
  shows "length (dropWhile (\<lambda>c. c \<noteq> sp) (dropWhile (\<lambda>c. c = sp) s)) < length s"
proof -
  obtain c t where t: "dropWhile (\<lambda>c. c = sp) s = c # t" using assms by (cases "dropWhile (\<lambda>c. c = sp) s") auto
  then have "c \<noteq> sp" using hd_dropWhile [of "\<lambda>c. c = sp" s] by simp
  moreover have "length (c # t) \<le> length s" unfolding t [symmetric] by (rule length_dropWhile_le)
  ultimately show ?thesis
    using length_dropWhile_le [of "\<lambda>c. c \<noteq> sp" t] by (simp add: t)
qed

termination words
  by (relation "measure length") (simp_all add: words_shorter)

declare words.simps [simp del]

lemma words_Nil [simp]: "words [] = []"
  by (simp add: words.simps)

lemma words_space [simp]: "words (sp # s) = words s"
  by (subst (1 2) words.simps) simp

section \<open>The parser\<close>

lemma skip_spaces_cstr:
  "cstr input (skip_spaces input p) = dropWhile (\<lambda>c. c = sp) (cstr input p) \<and> p \<le> skip_spaces input p"
proof (induction input p rule: skip_spaces.induct)
  case (1 input p)
  then show ?case
    by (cases "cstr_at input p = 0"; cases "cstr_at input p = sp")
      (auto simp: skip_spaces.simps [of input p] cstr_unfold [of input p])
qed

lemma token_end_cstr:
  "cstr input (token_end input p) = dropWhile (\<lambda>c. c \<noteq> sp) (cstr input p) \<and>
   token_end input p = p + length (takeWhile (\<lambda>c. c \<noteq> sp) (cstr input p))"
proof (induction input p rule: token_end.induct)
  case (1 input p)
  then show ?case
    by (cases "cstr_at input p = 0 \<or> cstr_at input p = sp")
      (auto simp: token_end.simps [of input p] cstr_unfold [of input p])
qed

lemma cstr_at_hd: "cstr_at input p = (case cstr input p of [] \<Rightarrow> 0 | c # _ \<Rightarrow> c)"
  by (simp add: cstr_unfold [of input p])

lemma cstr_at_cstr: "i < length (cstr input p) \<Longrightarrow> cstr_at input (p + i) = cstr input p ! i"
proof (induction i arbitrary: p)
  case 0
  then show ?case using cstr_unfold [of input p] by (simp split: if_splits)
next
  case (Suc i)
  then show ?case using cstr_unfold [of input p] Suc.IH [of "Suc p"] by (simp split: if_splits)
qed

lemma cstr_cut:
  assumes "n < length (cstr input p)"
  shows "cstr (input[p + n := 0]) p = take n (cstr input p)"
  using assms
proof (induction n arbitrary: p)
  case 0
  then have "cstr_at input p \<noteq> 0" using cstr_unfold [of input p] by (simp split: if_splits)
  then have "p < length input" by (rule cstr_at_nonzero)
  then show ?case by (simp add: cstr_unfold [of "input[p := 0]"] cstr_at_update)
next
  case (Suc n)
  then have nz: "cstr_at input p \<noteq> 0" using cstr_unfold [of input p] by (simp split: if_splits)
  with Suc.prems have "n < length (cstr input (Suc p))" by (simp add: cstr_unfold [of input p])
  from Suc.IH [OF this] nz show ?case
    by (simp add: cstr_unfold [of _ p] cstr_at_update)
qed

text \<open>The four ways one turn of the loop goes.\<close>

lemma parse_loop_turn:
  "cstr_at input p = 0 \<or> \<not> length argv < m \<Longrightarrow> parse_loop input argv m p = (input, argv)"
  "cstr_at input p \<noteq> 0 \<and> length argv < m \<Longrightarrow> cstr_at input (skip_spaces input p) = 0 \<Longrightarrow>
   parse_loop input argv m p = (input, argv)"
  "cstr_at input p \<noteq> 0 \<and> length argv < m \<Longrightarrow> q = skip_spaces input p \<Longrightarrow> cstr_at input q \<noteq> 0 \<Longrightarrow>
   r = token_end input q \<Longrightarrow> cstr_at input r = sp \<Longrightarrow>
   parse_loop input argv m p = parse_loop (input[r := 0]) (argv @ [q]) m (r + 1)"
  "cstr_at input p \<noteq> 0 \<and> length argv < m \<Longrightarrow> q = skip_spaces input p \<Longrightarrow> cstr_at input q \<noteq> 0 \<Longrightarrow>
   r = token_end input q \<Longrightarrow> cstr_at input r \<noteq> sp \<Longrightarrow>
   parse_loop input argv m p = parse_loop input (argv @ [q]) m r"
  by (subst parse_loop.simps, force simp: Let_def)+

lemma parse_loop_words:
  "parse_loop input argv m p = (input', argv') \<Longrightarrow>
   \<exists>ns. argv' = argv @ ns \<and> (\<forall>i < p. cstr_at input' i = cstr_at input i) \<and>
     length input' = length input \<and>
     map (cstr input') ns = take (m - length argv) (words (cstr input p))"
proof (induction input argv m p arbitrary: input' argv' rule: parse_loop.induct)
  case (1 input argv m p)
  define q where "q = skip_spaces input p"
  define r where "r = token_end input q"
  define t where "t = cstr input q"
  note q = skip_spaces_cstr [of input p, folded q_def, folded t_def]
  note r = token_end_cstr [of input q, folded r_def, folded t_def]
  show ?case
  proof (cases "cstr_at input p \<noteq> 0 \<and> length argv < m")
    case False
    then have "input' = input \<and> argv' = argv" using 1(3) parse_loop_turn(1) [of input p argv m] by auto
    moreover have "take (m - length argv) (words (cstr input p)) = []"
      using False by (cases "length argv < m") (auto simp: cstr_unfold [of input p])
    ultimately show ?thesis by simp
  next
    case go: True
    show ?thesis
    proof (cases "t = []")
      case True
      then have "cstr_at input q = 0" using cstr_at_hd [of input q] by (simp add: t_def)
      with 1(3) have "input' = input \<and> argv' = argv"
        by (simp add: parse_loop_turn(2) [OF go] q_def)
      with True q show ?thesis by (simp add: words.simps [of "cstr input p"])
    next
      case False
      then have nz: "cstr_at input q \<noteq> 0"
        using is_cstr_cstr [of input q] cstr_at_hd [of input q]
        by (auto simp: t_def is_cstr_def split: list.splits)
      have w: "words (cstr input p) = takeWhile (\<lambda>c. c \<noteq> sp) t # words (cstr input r)"
      proof -
        have "dropWhile (\<lambda>c. c = sp) (cstr input p) = t" "dropWhile (\<lambda>c. c \<noteq> sp) t = cstr input r"
          by (rule conjunct1 [OF q, symmetric]) (rule conjunct1 [OF r, symmetric])
        with False show ?thesis unfolding words.simps [of "cstr input p"] Let_def by simp
      qed
      show ?thesis
      proof (cases "cstr_at input r = sp")
        case True
        have rest: "parse_loop (input[r := 0]) (argv @ [q]) m (r + 1) = (input', argv')"
          using 1(3) parse_loop_turn(3) [OF go q_def nz r_def True] by simp
        have "r < length input" using True by (intro cstr_at_nonzero) simp
        obtain ns where ns: "argv' = (argv @ [q]) @ ns" "length input' = length input"
          "\<forall>i < r + 1. cstr_at input' i = cstr_at (input[r := 0]) i"
          "map (cstr input') ns = take (m - length (argv @ [q])) (words (cstr (input[r := 0]) (r + 1)))"
          using 1(1) [OF go q_def nz refl r_def True rest] by auto
        have "cstr input r = sp # cstr input (r + 1)" using True by (simp add: cstr_unfold [of input r])
        then have tail: "words (cstr (input[r := 0]) (r + 1)) = words (cstr input r)"
          by (simp add: cstr_update_before)
        have len: "length (takeWhile (\<lambda>c. c \<noteq> sp) t) < length t"
        proof -
          have "dropWhile (\<lambda>c. c \<noteq> sp) t \<noteq> []"
          proof
            assume "dropWhile (\<lambda>c. c \<noteq> sp) t = []"
            with conjunct1 [OF r] have "cstr input r = []" by simp
            then have "cstr_at input r = 0" by (simp only: cstr_at_hd list.case)
            with True show False by simp
          qed
          moreover have "length t = length (takeWhile (\<lambda>c. c \<noteq> sp) t) + length (dropWhile (\<lambda>c. c \<noteq> sp) t)"
            by (metis length_append takeWhile_dropWhile_id)
          ultimately show ?thesis by simp
        qed
        have "cstr (input[r := 0]) q = takeWhile (\<lambda>c. c \<noteq> sp) t"
          using cstr_cut [of "length (takeWhile (\<lambda>c. c \<noteq> sp) t)" input q] len r
          by (simp add: t_def takeWhile_eq_take [symmetric])
        moreover have "cstr input' q = cstr (input[r := 0]) q"
          using ns(3) r calculation by (intro cstr_cong) simp
        ultimately have "cstr input' q = takeWhile (\<lambda>c. c \<noteq> sp) t" by simp
        moreover have "\<forall>i < p. cstr_at input' i = cstr_at input i"
          using ns(3) q r by (auto simp: cstr_at_update)
        ultimately show ?thesis
          using ns w tail go by (auto simp: take_Cons' Suc_diff_Suc)
      next
        case ends: False
        have z: "cstr_at input r = 0"
        proof (rule ccontr)
          assume "cstr_at input r \<noteq> 0"
          then have "cstr input r = cstr_at input r # cstr input (Suc r)" by (simp add: cstr_unfold [of input r])
          with conjunct1 [OF r] have "dropWhile (\<lambda>c. c \<noteq> sp) t = cstr_at input r # cstr input (Suc r)" by simp
          with hd_dropWhile [of "\<lambda>c. c \<noteq> sp" t] ends show False by (metis list.distinct(1) list.sel(1))
        qed
        have "input' = input \<and> argv' = argv @ [q]"
          using z 1(3) parse_loop_turn(4) [OF go q_def nz r_def ends]
          by (simp add: parse_loop_turn(1))
        moreover have "cstr input r = []" using z by (simp add: cstr_unfold [of input r])
        moreover have "takeWhile (\<lambda>c. c \<noteq> sp) t = t"
        proof -
          have "dropWhile (\<lambda>c. c \<noteq> sp) t = []"
            using trans [OF conjunct1 [OF r, symmetric] \<open>cstr input r = []\<close>] .
          then show ?thesis by (metis append_Nil2 takeWhile_dropWhile_id)
        qed
        ultimately have "words (cstr input p) = [t]" "input' = input \<and> argv' = argv @ [q]"
          using w by simp_all
        then show ?thesis using go by (auto simp: take_Cons' t_def)
      qed
    qed
  qed
qed

text \<open>C14: shell_parse, which writes NULs into the line it parses, returns pointers whose C strings are the
  first max_args words of the line, as words separated by any number of spaces are counted; nothing
  outside the line changes length.\<close>

theorem shell_parse_words:
  assumes "shell_parse input max_args = (input', argv)"
  shows "map (cstr input') argv = take max_args (words (cstr input 0)) \<and> length input' = length input"
  using parse_loop_words [of input "[]" max_args 0] assms by (auto simp: shell_parse_def)

theorem shell_parse_words_witness:
  "map (cstr (fst (shell_parse (of_string ''  cat   a b'' @ [0, 0xFF]) 2)))
     (snd (shell_parse (of_string ''  cat   a b'' @ [0, 0xFF]) 2)) = [of_string ''cat'', of_string ''a'']"
proof -
  obtain input' argv where p: "shell_parse (of_string ''  cat   a b'' @ [0, 0xFF]) 2 = (input', argv)" by fastforce
  have "take 2 (words (cstr (of_string ''  cat   a b'' @ [0, 0xFF]) 0)) = [of_string ''cat'', of_string ''a'']"
    by (simp add: cstr_def of_string_def words.simps)
  with shell_parse_words [OF p] show ?thesis by (simp add: p)
qed

section \<open>The terminal\<close>

text \<open>Where the cursor goes, and the pixels a text lights up from a cursor position on.\<close>

definition advance :: "u8 \<Rightarrow> int \<times> int \<Rightarrow> int \<times> int" where
  "advance c = (\<lambda>(x, y). if c = 10 \<or> x \<ge> 80 then (0, y + 10) else (x + 1, y))"

fun text_pixels :: "(u8 \<Rightarrow> bytes) \<Rightarrow> bytes \<Rightarrow> int \<times> int \<Rightarrow> (int \<times> int) set" where
  "text_pixels past [] p = {}"
| "text_pixels past (c # s) p =
     (if c = 10 then {} else glyph_pixels past c (9 * fst p) (snd p)) \<union> text_pixels past s (advance c p)"

abbreviation cursor :: "ShellContext \<Rightarrow> int \<times> int" where
  "cursor ctx \<equiv> (cursor_x ctx, cursor_y ctx)"

text \<open>A context whose cursor is inside the 81 columns.\<close>

definition cursor_ok :: "ShellContext \<Rightarrow> bool" where
  "cursor_ok ctx \<longleftrightarrow> 0 \<le> cursor_x ctx \<and> cursor_x ctx \<le> 80 \<and> 0 \<le> cursor_y ctx"

lemma putchar_cursor:
  "cursor (shell_putchar past c ctx) = advance c (cursor ctx)"
  "sc_pps (shell_putchar past c ctx) = sc_pps ctx" "sc_fs (shell_putchar past c ctx) = sc_fs ctx"
  by (auto simp: shell_putchar_def advance_def Let_def)

lemma putchar_cursor_ok: "cursor_ok ctx \<Longrightarrow> cursor_ok (shell_putchar past c ctx)"
  by (auto simp: shell_putchar_def cursor_ok_def Let_def)

lemma print_fold: "shell_print past s ctx = fold (shell_putchar past) s ctx"
  by (induction past s ctx rule: shell_print.induct) simp_all

lemma print_append: "shell_print past (s @ t) ctx = shell_print past t (shell_print past s ctx)"
  by (simp add: print_fold)

lemma print_cursor:
  "cursor (shell_print past s ctx) = fold advance s (cursor ctx)"
  "sc_pps (shell_print past s ctx) = sc_pps ctx" "sc_fs (shell_print past s ctx) = sc_fs ctx"
  by (induction past s ctx rule: shell_print.induct) (simp_all only: shell_print.simps fold_simps putchar_cursor)

lemma print_cursor_ok: "cursor_ok ctx \<Longrightarrow> cursor_ok (shell_print past s ctx)"
  by (induction past s ctx rule: shell_print.induct) (simp_all add: putchar_cursor_ok)

lemma advance_down: "snd p \<le> snd (advance c p)"
  by (auto simp: advance_def split: prod.splits)

lemma fold_advance_down: "snd p \<le> snd (fold advance s p)"
proof (induction s arbitrary: p)
  case (Cons c s)
  from Cons [of "advance c p"] advance_down [of p c] show ?case by simp
qed simp

lemma lit_putchar:
  assumes "cursor_ok ctx" "728 \<le> uint (sc_pps ctx)" "(cursor_y ctx + 8) * uint (sc_pps ctx) \<le> 2 ^ 32"
  shows "lit (sc_pps ctx) (sc_fb (shell_putchar past c ctx)) =
    lit (sc_pps ctx) (sc_fb ctx) \<union> text_pixels past [c] (cursor ctx)"
proof (cases "c = 10")
  case False
  have "fits (sc_pps ctx) 8 (cursor_x ctx * 9) (cursor_y ctx)"
    using assms by (simp add: fits_def cursor_ok_def)
  then show ?thesis
    using False by (simp add: shell_putchar_def Let_def lit_draw_char mult.commute)
qed (simp add: shell_putchar_def)

text \<open>C21: shell_print moves the cursor as a terminal of 81 columns and unlimited length does and lights
  exactly the pixels of the text's glyphs at the cells passed (lit pixels are never put out, and
  there is no scrolling), as long as the cells lie on a screen at least 728 pixels wide.\<close>

theorem shell_print_terminal:
  assumes "cursor_ok ctx" "728 \<le> uint (sc_pps ctx)"
    and "(snd (fold advance s (cursor ctx)) + 8) * uint (sc_pps ctx) \<le> 2 ^ 32"
  shows "cursor (shell_print past s ctx) = fold advance s (cursor ctx) \<and>
    lit (sc_pps ctx) (sc_fb (shell_print past s ctx)) =
      lit (sc_pps ctx) (sc_fb ctx) \<union> text_pixels past s (cursor ctx)"
  using assms
proof (induction past s ctx rule: shell_print.induct)
  case (2 past c s ctx)
  let ?ctx = "shell_putchar past c ctx"
  have end_at: "fold advance s (cursor ?ctx) = fold advance (c # s) (cursor ctx)"
    by (simp only: putchar_cursor fold_simps)
  have "cursor_y ctx \<le> snd (fold advance (c # s) (cursor ctx))"
    using fold_advance_down [of "cursor ctx" "c # s"] by simp
  then have "(cursor_y ctx + 8) * uint (sc_pps ctx) \<le> (snd (fold advance (c # s) (cursor ctx)) + 8) * uint (sc_pps ctx)"
    by (intro mult_right_mono) auto
  then have y: "(cursor_y ctx + 8) * uint (sc_pps ctx) \<le> 2 ^ 32" using "2.prems"(3) by linarith
  have "cursor (shell_print past s ?ctx) = fold advance s (cursor ?ctx) \<and>
      lit (sc_pps ?ctx) (sc_fb (shell_print past s ?ctx)) =
        lit (sc_pps ?ctx) (sc_fb ?ctx) \<union> text_pixels past s (cursor ?ctx)"
    using "2.prems" by (intro "2.IH") (simp_all only: end_at putchar_cursor(2) putchar_cursor_ok)
  then show ?case
    using lit_putchar [OF "2.prems"(1,2) y] unfolding end_at
    by (simp add: putchar_cursor Un_assoc)
qed simp

text \<open>A screen of 800 by 600 pixels, black, with the cursor where the kernel starts the shell.\<close>

definition blank_ctx :: "FSSO_Filesystem \<Rightarrow> ShellContext" where
  "blank_ctx fs = \<lparr>sc_fb = (\<lambda>_. 0), sc_pps = 800, cursor_x = 0, cursor_y = 40, sc_fs = fs\<rparr>"

definition blank_fs :: FSSO_Filesystem where
  "blank_fs = \<lparr>superblock = get_superblock (\<lambda>_. 0) 0, disk_start_block = 0\<rparr>"

lemma text_pixels_append:
  "text_pixels past (s @ t) p = text_pixels past s p \<union> text_pixels past t (fold advance s p)"
  by (induction past s p rule: text_pixels.induct) auto

theorem shell_print_terminal_witness:
  "cursor (shell_print (\<lambda>_. []) (replicate 100 0x41 @ [10, 0x42]) (blank_ctx blank_fs)) = (1, 60) \<and>
   (723, 40) \<in> lit 800 (sc_fb (shell_print (\<lambda>_. []) (replicate 100 0x41 @ [10, 0x42]) (blank_ctx blank_fs)))"
proof -
  have c: "cursor_ok (blank_ctx blank_fs)" "cursor (blank_ctx blank_fs) = (0, 40)" "sc_pps (blank_ctx blank_fs) = 800"
    by (simp_all add: blank_ctx_def cursor_ok_def)
  have e: "fold advance (replicate 100 0x41 @ [10, 0x42]) (0, 40) = (1, 60)"
    "fold advance (replicate 80 0x41) (0, 40) = (80, 40)" by code_simp+
  have "(723, 40) \<in> text_pixels (\<lambda>_. []) (0x41 # replicate 19 0x41 @ [10, 0x42]) (80, 40)"
    by (simp add: glyph_pixels_def font_def font_rows_def)
  then have "(723, 40) \<in> text_pixels (\<lambda>_. []) (replicate 80 0x41 @ 0x41 # replicate 19 0x41 @ [10, 0x42]) (0, 40)"
    unfolding text_pixels_append e(2) by simp
  moreover have "replicate 80 0x41 @ 0x41 # replicate 19 0x41 @ [10, 0x42] = replicate 100 (0x41 :: u8) @ [10, 0x42]"
    by code_simp
  ultimately show ?thesis
    using shell_print_terminal [of "blank_ctx blank_fs" "replicate 100 0x41 @ [10, 0x42]" "\<lambda>_. []"] c e(1)
    by simp
qed

section \<open>Short texts\<close>

lemma print_draw_from:
  "10 \<notin> set s \<Longrightarrow> cursor_x ctx = x + int i \<Longrightarrow> cursor_x ctx + int (length s) \<le> 80 \<Longrightarrow>
   shell_print past s ctx =
     ctx\<lparr>sc_fb := draw_string_from i past (sc_pps ctx) (9 * x) (cursor_y ctx) s 0xFFFFFF (sc_fb ctx),
       cursor_x := cursor_x ctx + int (length s)\<rparr>"
proof (induction s arbitrary: i ctx)
  case (Cons c s)
  let ?ctx = "shell_putchar past c ctx"
  have ctx: "?ctx = ctx\<lparr>sc_fb := draw_char past (sc_pps ctx) (9 * x + int i * 9) (cursor_y ctx) c 0xFFFFFF (sc_fb ctx),
      cursor_x := cursor_x ctx + 1\<rparr>"
    using Cons.prems by (auto simp: shell_putchar_def Let_def algebra_simps)
  have "cursor_x ?ctx = x + int (Suc i)" "cursor_x ?ctx + int (length s) \<le> 80" "10 \<notin> set s"
    using Cons.prems by (simp_all add: ctx)
  from Cons.IH [OF this(3,1,2)] show ?case by (simp add: ctx)
qed simp

text \<open>A text without newlines that ends before column 81 is printed exactly as draw_string draws it at
  the cursor: both routines place characters 9 pixels apart.\<close>

theorem shell_print_draws_string:
  assumes "10 \<notin> set s" "0 \<le> cursor_x ctx" "cursor_x ctx + int (length s) \<le> 80"
  shows "shell_print past s ctx = ctx\<lparr>sc_fb := draw_string past (sc_pps ctx) (9 * cursor_x ctx) (cursor_y ctx) s 0xFFFFFF (sc_fb ctx),
     cursor_x := cursor_x ctx + int (length s)\<rparr>"
  using print_draw_from [of s ctx "cursor_x ctx" 0 past] assms by (simp add: draw_string_def)

theorem shell_print_draws_string_witness:
  "sc_fb (shell_print (\<lambda>_. []) (of_string ''SimplrOS> '') (blank_ctx blank_fs)) =
     draw_string (\<lambda>_. []) 800 0 40 (of_string ''SimplrOS> '') 0xFFFFFF (\<lambda>_. 0)"
proof -
  have "10 \<notin> set (of_string ''SimplrOS> '')" "length (of_string ''SimplrOS> '') = 10"
    by (simp_all add: of_string_def)
  with shell_print_draws_string [of "of_string ''SimplrOS> ''" "blank_ctx blank_fs" "\<lambda>_. []"]
  show ?thesis by (simp add: blank_ctx_def)
qed

section \<open>What the commands print\<close>

text \<open>The arguments of echo, and the names of a directory block, as one text.\<close>

fun join :: "bytes list \<Rightarrow> bytes" where
  "join [] = []"
| "join [a] = a"
| "join (a # b # as) = a @ sp # join (b # as)"

lemma echo_args_print: "echo_args past as ctx = shell_print past (join as) ctx"
  by (induction as arbitrary: ctx rule: join.induct) (simp_all add: print_append)

lemma cmd_echo_print: "cmd_echo env argv ctx = shell_print (e_past env) (join (tl argv) @ [10]) ctx"
  by (simp add: cmd_echo_def echo_args_print print_append drop_Suc)

definition help_text :: bytes where
  "help_text = concat (map (\<lambda>line. of_string line @ [10])
       [''SimplrOS commands:'',
        ''  echo <text>     - print text'',
        ''  clear           - clear screen'',
        ''  ls              - list files'',
        ''  cat <file>      - read file'',
        ''  help            - this message''])"

lemma cmd_help_print: "cmd_help env ctx = shell_print (e_past env) help_text ctx"
  unfolding cmd_help_def help_text_def
  by (simp only: fold_simps concat.simps list.map print_append append_Nil2 shell_print.simps id_apply comp_apply)

definition entries_text :: "bytes \<Rightarrow> bytes \<Rightarrow> nat list \<Rightarrow> bytes" where
  "entries_text stack buffer js =
     concat (map (\<lambda>j. if get32 ((!) buffer) (sizeof_DirEntry * j) = 0 then []
        else cstr (buffer @ stack) (sizeof_DirEntry * j + off_de_name) @ [10]) js)"

lemma ls_entries_print:
  "ls_entries env buffer js ctx = shell_print (e_past env) (entries_text (e_above env) buffer js) ctx"
  by (induction env buffer js ctx rule: ls_entries.induct)
    (simp_all add: entries_text_def print_append del: get_le.simps)

end
