(* ===== verification/Keyboard.thy ===== *)
theory Keyboard
  imports Console Platform
begin

text \<open>
  The keyboard side of \<^verbatim>\<open>src/kernel/kernel.c\<close>. The locale \<open>keyboard\<close> is what \<open>read_key\<close> relies
  on: the controller offers the scancodes of a queue one after the other, each after finitely many
  polls of its status register, and never shows a ready bit when the queue is empty. Inside it
  \<open>read_key\<close> is the pure decoder \<open>decode_key\<close> applied to the head of the queue. The scancode tables
  are checked against the key strokes of a US keyboard, and the machine of \<open>Platform\<close> is shown to
  be such a keyboard.
\<close>

unbundle bit_operations_syntax

section \<open>The contract\<close>

text \<open>\<open>n\<close> reads of the status register that show no key.\<close>

fun kbd_polls :: "nat \<Rightarrow> 'w hw \<Rightarrow> 'w \<Rightarrow> 'w option" where
  "kbd_polls 0 hw w = Some w"
| "kbd_polls (Suc n) hw w =
     (case inb hw 0x64 w of (v, w') \<Rightarrow> if v AND 0x01 = 0 then kbd_polls n hw w' else None)"

lemma polls_kbd_wait:
  "kbd_polls n hw w = Some w1 \<Longrightarrow> inb hw 0x64 w1 = (v, w') \<Longrightarrow> v AND 0x01 \<noteq> 0 \<Longrightarrow> kbd_wait hw w = Some w'"
proof (induction n arbitrary: w)
  case 0
  then show ?case by (simp add: kbd_wait.simps)
next
  case (Suc n)
  then show ?case
    by (subst kbd_wait.simps) (auto split: prod.splits if_splits)
qed

lemma kbd_wait_fails:
  assumes P: "P w" and step: "\<And>w v w'. P w \<Longrightarrow> inb hw 0x64 w = (v, w') \<Longrightarrow> v AND 0x01 = 0 \<and> P w'"
  shows "kbd_wait hw w = None"
proof -
  have "\<not> P v" if "kbd_wait hw v = Some v'" for v v'
  proof -
    have "h = hw \<longrightarrow> \<not> P v" if "kbd_wait h v = Some v'" for h
    proof (rule kbd_wait.raw_induct [OF _ that, where P = "\<lambda>h v v'. h = hw \<longrightarrow> \<not> P v"])
      fix self :: "'a hw \<Rightarrow> 'a \<Rightarrow> 'a option" and h :: "'a hw" and v v'
      assume IH: "\<And>h v v'. self h v = Some v' \<Longrightarrow> h = hw \<longrightarrow> \<not> P v"
        and r: "(case inb h 0x64 v of (status, w') \<Rightarrow>
                  if status AND 0x01 = 0 then self h w' else Some w') = Some v'"
      show "h = hw \<longrightarrow> \<not> P v"
      proof (intro impI notI)
        assume "h = hw" "P v"
        obtain s v1 where i: "inb hw 0x64 v = (s, v1)" by fastforce
        from step [OF \<open>P v\<close> i] r i \<open>h = hw\<close> have "self hw v1 = Some v'" "P v1" by simp_all
        with IH [OF this(1)] show False by simp
      qed
    qed
    with that show ?thesis by simp
  qed
  with P show ?thesis by (cases "kbd_wait hw w") auto
qed

text \<open>
  \<open>frame\<close> is whatever else of the world the keyboard must leave alone, \<open>ok\<close> the worlds in which the
  contract holds.
\<close>

locale keyboard =
  fixes hw :: "'w hw" and keys :: "'w \<Rightarrow> bytes" and ok :: "'w \<Rightarrow> bool" and frame :: "'w \<Rightarrow> 'f"
  assumes offers: "ok w \<Longrightarrow> keys w = k # ks \<Longrightarrow>
      \<exists>n w1 v w2 w3. kbd_polls n hw w = Some w1 \<and> inb hw 0x64 w1 = (v, w2) \<and> v AND 0x01 \<noteq> 0 \<and>
        inb hw 0x60 w2 = (k, w3) \<and> keys w3 = ks \<and> ok w3 \<and> frame w3 = frame w"
    and silent: "ok w \<Longrightarrow> keys w = [] \<Longrightarrow> inb hw 0x64 w = (v, w') \<Longrightarrow>
      v AND 0x01 = 0 \<and> ok w' \<and> keys w' = []"
begin

lemma read_key_head:
  assumes "ok w" "keys w = k # ks"
  shows "\<exists>w'. read_key hw shift w = Some (fst (decode_key shift k), snd (decode_key shift k), w') \<and>
    keys w' = ks \<and> ok w' \<and> frame w' = frame w"
proof -
  from offers [OF assms] obtain n w1 v w2 w3 where
    r: "kbd_polls n hw w = Some w1" "inb hw 0x64 w1 = (v, w2)" "v AND 0x01 \<noteq> 0"
      "inb hw 0x60 w2 = (k, w3)" "keys w3 = ks" "ok w3" "frame w3 = frame w" by blast
  from polls_kbd_wait [OF r(1-3)] r(4-7) show ?thesis
    by (auto simp: read_key_def split: prod.splits)
qed

lemma read_key_blocks: "ok w \<Longrightarrow> keys w = [] \<Longrightarrow> read_key hw shift w = None"
proof -
  assume a: "ok w" "keys w = []"
  have "kbd_wait hw w = None"
    by (rule kbd_wait_fails [where P = "\<lambda>w. ok w \<and> keys w = []"]) (use a silent in blast)+
  then show ?thesis by (simp add: read_key_def)
qed

end

section \<open>Streams of key strokes\<close>

text \<open>The characters a list of scancodes stands for, empty ones left out, and the shift state left.\<close>

fun decode_keys :: "bool \<Rightarrow> bytes \<Rightarrow> bytes \<times> bool" where
  "decode_keys shift [] = ([], shift)"
| "decode_keys shift (k # ks) =
     (case decode_key shift k of (c, shift') \<Rightarrow>
       case decode_keys shift' ks of (cs, s) \<Rightarrow> (if c = 0 then cs else c # cs, s))"

lemma decode_keys_append:
  "decode_keys shift (ks @ js) =
     (fst (decode_keys shift ks) @ fst (decode_keys (snd (decode_keys shift ks)) js),
      snd (decode_keys (snd (decode_keys shift ks)) js))"
  by (induction ks arbitrary: shift) (auto split: prod.splits)

text \<open>
  The key strokes that type a character on a US keyboard: make and break code of its key, between
  those of the left shift key when the character is on the upper level. \<open>us_keys\<close> gives each
  key's make code (IBM set 1) with its two characters.
\<close>

definition us_keys :: "(u8 \<times> char \<times> char) list" where
  "us_keys =
     zip (map of_nat [2..<14]) (zip ''1234567890-='' ''!@#$%^&*()_+'') @
     zip (map of_nat [16..<28]) (zip ''qwertyuiop[]'' ''QWERTYUIOP{}'') @
     zip (map of_nat [30..<42]) (zip (''asdfghjkl;'' @ [CHR 0x27, CHR 0x60]) (''ASDFGHJKL:'' @ [CHR 0x22, CHR 0x7E])) @
     zip (map of_nat [43..<54]) (zip ([CHR 0x5C] @ ''zxcvbnm,./'') (''|ZXCVBNM<>?'')) @
     [(0x39, CHR 0x20, CHR 0x20), (0x0E, CHR 0x08, CHR 0x08), (0x1C, CHR 0x0A, CHR 0x0A)]"

definition press :: "u8 \<Rightarrow> bytes" where
  "press k = [k, k + 0x80]"

definition strokes :: "char \<Rightarrow> bytes" where
  "strokes c =
     (case find (\<lambda>(k, lo, up). c = lo) us_keys of
        Some (k, _) \<Rightarrow> press k
      | None \<Rightarrow> (case find (\<lambda>(k, lo, up). c = up) us_keys of
            Some (k, _) \<Rightarrow> [0x2A] @ press k @ [0xAA]
          | None \<Rightarrow> []))"

definition typeable :: "char \<Rightarrow> bool" where
  "typeable c \<longleftrightarrow> (\<exists>(k, lo, up) \<in> set us_keys. c = lo \<or> c = up)"

text \<open>The tables as plain lists, for evaluation.\<close>

lemma scancode_map_list [code]: "scancode_map =
    [0, 0, 49, 50, 51, 52, 53, 54, 55, 56, 57, 48, 45, 61, 8, 0, 113, 119, 101, 114, 116, 121, 117,
     105, 111, 112, 91, 93, 10, 0, 97, 115, 100, 102, 103, 104, 106, 107, 108, 59, 39, 96, 0, 92,
     122, 120, 99, 118, 98, 110, 109, 44, 46, 47, 0, 42, 0, 32, 0, 0, 0, 0, 0, 0, 0, 0, 0, 0, 0, 0,
     0, 0, 0, 0, 0, 0, 0, 0, 0, 0, 0, 0, 0, 0, 0, 0, 0, 0, 0, 0, 0, 0, 0, 0, 0, 0, 0, 0, 0, 0, 0,
     0, 0, 0, 0, 0, 0, 0, 0, 0, 0, 0, 0, 0, 0, 0, 0, 0, 0, 0, 0, 0, 0, 0, 0, 0, 0, 0]"
  by code_simp

lemma scancode_map_shift_list [code]: "scancode_map_shift =
    [0, 0, 33, 64, 35, 36, 37, 94, 38, 42, 40, 41, 95, 43, 8, 0, 81, 87, 69, 82, 84, 89, 85, 73,
     79, 80, 123, 125, 10, 0, 65, 83, 68, 70, 71, 72, 74, 75, 76, 58, 34, 126, 0, 124, 90, 88, 67,
     86, 66, 78, 77, 60, 62, 63, 0, 42, 0, 32, 0, 0, 0, 0, 0, 0, 0, 0, 0, 0, 0, 0, 0, 0, 0, 0, 0,
     0, 0, 0, 0, 0, 0, 0, 0, 0, 0, 0, 0, 0, 0, 0, 0, 0, 0, 0, 0, 0, 0, 0, 0, 0, 0, 0, 0, 0, 0, 0,
     0, 0, 0, 0, 0, 0, 0, 0, 0, 0, 0, 0, 0, 0, 0, 0, 0, 0, 0, 0, 0, 0]"
  by code_simp

lemma us_keys_list [code]: "us_keys =
    [(2, CHR 0x31, CHR 0x21), (3, CHR 0x32, CHR 0x40), (4, CHR 0x33, CHR 0x23),
     (5, CHR 0x34, CHR 0x24), (6, CHR 0x35, CHR 0x25), (7, CHR 0x36, CHR 0x5E),
     (8, CHR 0x37, CHR 0x26), (9, CHR 0x38, CHR 0x2A), (10, CHR 0x39, CHR 0x28),
     (11, CHR 0x30, CHR 0x29), (12, CHR 0x2D, CHR 0x5F), (13, CHR 0x3D, CHR 0x2B),
     (16, CHR 0x71, CHR 0x51), (17, CHR 0x77, CHR 0x57), (18, CHR 0x65, CHR 0x45),
     (19, CHR 0x72, CHR 0x52), (20, CHR 0x74, CHR 0x54), (21, CHR 0x79, CHR 0x59),
     (22, CHR 0x75, CHR 0x55), (23, CHR 0x69, CHR 0x49), (24, CHR 0x6F, CHR 0x4F),
     (25, CHR 0x70, CHR 0x50), (26, CHR 0x5B, CHR 0x7B), (27, CHR 0x5D, CHR 0x7D),
     (30, CHR 0x61, CHR 0x41), (31, CHR 0x73, CHR 0x53), (32, CHR 0x64, CHR 0x44),
     (33, CHR 0x66, CHR 0x46), (34, CHR 0x67, CHR 0x47), (35, CHR 0x68, CHR 0x48),
     (36, CHR 0x6A, CHR 0x4A), (37, CHR 0x6B, CHR 0x4B), (38, CHR 0x6C, CHR 0x4C),
     (39, CHR 0x3B, CHR 0x3A), (40, CHR 0x27, CHR 0x22), (41, CHR 0x60, CHR 0x7E),
     (43, CHR 0x5C, CHR 0x7C), (44, CHR 0x7A, CHR 0x5A), (45, CHR 0x78, CHR 0x58),
     (46, CHR 0x63, CHR 0x43), (47, CHR 0x76, CHR 0x56), (48, CHR 0x62, CHR 0x42),
     (49, CHR 0x6E, CHR 0x4E), (50, CHR 0x6D, CHR 0x4D), (51, CHR 0x2C, CHR 0x3C),
     (52, CHR 0x2E, CHR 0x3E), (53, CHR 0x2F, CHR 0x3F), (57, CHR 0x20, CHR 0x20),
     (14, CHR 0x08, CHR 0x08), (28, CHR 0x0A, CHR 0x0A)]"
  by code_simp

lemma typed_char:
  assumes "typeable c"
  shows "decode_keys False (strokes c) = ([of_char c], False)"
proof -
  have "list_all (\<lambda>(k, lo, up). decode_keys False (strokes lo) = ([of_char lo], False) \<and>
      decode_keys False (strokes up) = ([of_char up], False)) us_keys"
    by code_simp
  with assms show ?thesis unfolding typeable_def list_all_iff by auto
qed

lemma printable_typeable: "list_all typeable (map char_of [32 ..< 127 :: nat])"
  by code_simp

lemma typed_decodes:
  "list_all typeable s \<Longrightarrow> decode_keys False (concat (map strokes s)) = (map of_char s, False)"
  by (induction s) (simp_all add: decode_keys_append typed_char)

text \<open>Typing any text of characters that have a key, the shift key held only for the upper
  characters, makes read_key return exactly that text (no-character results left out) and leaves
  the shift state off: both scancode tables agree with the keyboard, key by key.\<close>

theorem typed_text_decodes:
  assumes "list_all typeable s"
  shows "decode_keys False (concat (map strokes s)) = (map of_char s, False)"
  by (rule typed_decodes [OF assms])

theorem typed_text_decodes_witness:
  "decode_keys False (concat (map strokes ''cat Hello_{~}.py'')) = (of_string ''cat Hello_{~}.py'', False)"
proof -
  have "list_all typeable ''cat Hello_{~}.py''" by code_simp
  from typed_text_decodes [OF this] show ?thesis by (simp add: of_string_def)
qed

section \<open>The keyboard of the machine\<close>

text \<open>What of the machine is not the keyboard.\<close>

definition pc_rest :: "pc \<Rightarrow> pc" where
  "pc_rest w = w\<lparr>pc_keys := []\<rparr>"

lemma pc_keyboard:
  assumes "\<And>w ks. P w \<Longrightarrow> P (w\<lparr>pc_keys := ks\<rparr>)" "\<And>w ks. f (w\<lparr>pc_keys := ks\<rparr>) = f w"
  shows "keyboard pc_hw pc_keys P f"
proof
  fix w :: pc and k ks
  assume P: "P w" and k: "pc_keys w = k # ks"
  define w3 where "w3 = w\<lparr>pc_keys := ks\<rparr>"
  have "kbd_polls 0 pc_hw w = Some w" by simp
  moreover have "inb pc_hw 0x64 w = (1, w)" by (simp add: inb_def pc_inb_def k)
  moreover have "inb pc_hw 0x60 w = (k, w3)" by (simp add: inb_def pc_inb_def k w3_def)
  moreover have "(1 :: u8) AND 0x01 \<noteq> 0" by simp
  moreover have "pc_keys w3 = ks" "P w3" "f w3 = f w" using assms P by (simp_all add: w3_def)
  ultimately show "\<exists>n w1 v w2 w3. kbd_polls n pc_hw w = Some w1 \<and> inb pc_hw 0x64 w1 = (v, w2) \<and>
      v AND 0x01 \<noteq> 0 \<and> inb pc_hw 0x60 w2 = (k, w3) \<and> pc_keys w3 = ks \<and> P w3 \<and> f w3 = f w"
    by blast
qed (auto simp: inb_def pc_inb_def)

interpretation pc_kbd: keyboard pc_hw pc_keys "\<lambda>w. True" pc_rest
  by (rule pc_keyboard) (simp_all add: pc_rest_def)

end
