(* ===== verification/Mkfsso.thy ===== *)
theory Mkfsso
  imports Fsso_Layout
begin

text \<open>
  The image builder \<^verbatim>\<open>src/tools/mkfsso.c\<close>. The disk is a byte memory, all zero at first
  (\<open>calloc\<close>); structures are written field by field at their packed offsets. Where the code goes
  outside an array (the 12 entries of \<open>allocated_blocks\<close>, the caller's data) the model has no
  result: \<open>None\<close>. As it stands the file does not compile: the condition on line 174, which adds
  \<^verbatim>\<open>hello.py\<close>, lacks its second closing parenthesis. \<open>mkfsso_main\<close> is the program with that parenthesis added.
\<close>

unbundle bit_operations_syntax

section \<open>Bitmaps\<close>

text \<open>The inode bitmap is block 1, the block bitmap block 2, the inode table starts at block 3.\<close>

definition inode_bitmap :: nat where "inode_bitmap = FSSO_BLOCK_SIZE"
definition block_bitmap :: nat where "block_bitmap = FSSO_BLOCK_SIZE * 2"
definition inode_table :: nat where "inode_table = FSSO_BLOCK_SIZE * 3"

lemmas image_areas = inode_bitmap_def block_bitmap_def inode_table_def

definition is_set :: "nat \<Rightarrow> mem \<Rightarrow> nat \<Rightarrow> bool" where
  "is_set base m i \<longleftrightarrow> m (base + i div 8) AND push_bit (i mod 8) 1 \<noteq> 0"

definition set_bit_at :: "nat \<Rightarrow> nat \<Rightarrow> mem \<Rightarrow> mem" where
  "set_bit_at base i m = m(base + i div 8 := m (base + i div 8) OR push_bit (i mod 8) 1)"

text \<open>The first loop of \<open>fsso_add_file\<close>: take the first free inode from 1 on; 0 stands for none.\<close>

function alloc_inode :: "mem \<Rightarrow> nat \<Rightarrow> nat \<Rightarrow> nat \<times> mem" where
  "alloc_inode m i limit =
     (if i < limit then
        (if \<not> is_set inode_bitmap m i then (i, set_bit_at inode_bitmap i m)
         else alloc_inode m (Suc i) limit)
      else (0, m))"
  by pat_completeness auto
termination
  by (relation "measure (\<lambda>(m, i, limit). limit - i)") auto

declare alloc_inode.simps [simp del]

text \<open>
  The second loop: mark free blocks until enough are found. Recording one more than the array
  \<open>allocated_blocks\<close> holds is out of bounds.
\<close>

function alloc_blocks :: "mem \<Rightarrow> nat \<Rightarrow> nat \<Rightarrow> nat \<Rightarrow> nat list \<Rightarrow> (nat list \<times> mem) option" where
  "alloc_blocks m i limit needed allocated =
     (if i < limit \<and> length allocated < needed then
        (if \<not> is_set block_bitmap m i then
           (if length allocated < FSSO_DIRECT_BLOCKS then
              alloc_blocks (set_bit_at block_bitmap i m) (Suc i) limit needed (allocated @ [i])
            else None)
         else alloc_blocks m (Suc i) limit needed allocated)
      else Some (allocated, m))"
  by pat_completeness auto
termination
  by (relation "measure (\<lambda>(m, i, limit, needed, allocated). limit - i)") (simp_all add: diff_less_mono2)

declare alloc_blocks.simps [simp del]

section \<open>Adding a file\<close>

definition blocks_for :: "u32 \<Rightarrow> nat" where
  "blocks_for sz = unat ((sz + of_nat FSSO_BLOCK_SIZE - 1) div of_nat FSSO_BLOCK_SIZE)"

text \<open>Writing the data: block \<open>i\<close> of the file gets at most 1024 bytes from offset \<open>i * 1024\<close>.\<close>

definition block_addr :: "nat \<Rightarrow> nat" where
  "block_addr b = unat (of_nat b * of_nat FSSO_BLOCK_SIZE :: u32)"

definition write_block :: "bytes \<Rightarrow> u32 \<Rightarrow> nat \<Rightarrow> nat \<Rightarrow> mem \<Rightarrow> mem" where
  "write_block data sz i b m =
     (let offset = of_nat i * of_nat FSSO_BLOCK_SIZE :: u32;
          to_copy = sz - offset;
          to_copy = (if to_copy > of_nat FSSO_BLOCK_SIZE then of_nat FSSO_BLOCK_SIZE else to_copy)
      in put_bytes m (block_addr b) (take (unat to_copy) (drop (unat offset) data)))"

fun write_data :: "bytes \<Rightarrow> u32 \<Rightarrow> nat \<Rightarrow> nat list \<Rightarrow> mem \<Rightarrow> mem" where
  "write_data data sz i [] m = m"
| "write_data data sz i (b # bs) m = write_data data sz (Suc i) bs (write_block data sz i b m)"

definition mkfs_inode_addr :: "nat \<Rightarrow> nat" where
  "mkfs_inode_addr n = inode_table + sizeof_Inode * n"

fun write_direct :: "nat \<Rightarrow> nat \<Rightarrow> nat list \<Rightarrow> mem \<Rightarrow> mem" where
  "write_direct a i [] m = m"
| "write_direct a i (b # bs) m = write_direct a (Suc i) bs (put32 m (a + off_i_direct i) (of_nat b))"

definition write_inode :: "nat \<Rightarrow> u32 \<Rightarrow> nat list \<Rightarrow> mem \<Rightarrow> mem" where
  "write_inode n sz allocated m =
     (let a = mkfs_inode_addr n;
          m = put32 m (a + off_i_size) sz;
          m = m(a + off_i_type := FSSO_TYPE_FILE);
          m = put32 m (a + off_i_created) 0;
          m = put32 m (a + off_i_modified) 0
      in write_direct a 0 allocated m)"

text \<open>The directory entry: inode number, name cut at 255 bytes, terminating NUL.\<close>

definition write_entry :: "nat \<Rightarrow> nat \<Rightarrow> bytes \<Rightarrow> mem \<Rightarrow> mem" where
  "write_entry a n name m =
     (let m = put32 m a (of_nat n);
          m = put_bytes m (a + off_de_name) (take FSSO_MAX_FILENAME name)
      in m(a + off_de_name + length (take FSSO_MAX_FILENAME name) := 0))"

text \<open>The slot search of the root directory's first block, with the final bookkeeping.\<close>

fun add_entry :: "nat list \<Rightarrow> nat \<Rightarrow> nat \<Rightarrow> nat \<Rightarrow> bytes \<Rightarrow> mem \<Rightarrow> int \<times> mem" where
  "add_entry [] root_block n found name m = (-1, m)"
| "add_entry (j # js) root_block n found name m =
     (if get32 m (root_block + sizeof_DirEntry * j) = 0 then
        (let m = write_entry (root_block + sizeof_DirEntry * j) n name m;
             m = put32 m 24 (get32 m 24 - 1);
             m = put32 m 20 (get32 m 20 - of_nat found)
         in (0, m))
      else add_entry js root_block n found name m)"

definition fsso_add_file :: "mem \<Rightarrow> bytes \<Rightarrow> bytes \<Rightarrow> u32 \<Rightarrow> (int \<times> mem) option" where
  "fsso_add_file disk name data sz =
     (case alloc_inode disk 1 (unat (get32 disk 16)) of (free_inode, m) \<Rightarrow>
        if free_inode = 0 then Some (-1, m)
        else
          (case alloc_blocks m FSSO_FIRST_DATA_BLOCK (unat (get32 disk 12)) (blocks_for sz) [] of
             None \<Rightarrow> None
           | Some (allocated, m) \<Rightarrow>
               if length allocated < blocks_for sz then Some (-1, m)
               else if allocated \<noteq> [] \<and> length data < unat sz then None
               else
                 (let m = write_data data sz 0 allocated m;
                      m = write_inode free_inode sz allocated m;
                      root_block = unat (get32 m (mkfs_inode_addr 0 + off_i_direct 0) *
                        of_nat FSSO_BLOCK_SIZE)
                  in Some (add_entry [0..<FSSO_BLOCK_SIZE div sizeof_DirEntry] root_block
                       free_inode (length allocated) name m))))"

section \<open>Formatting and main\<close>

definition TOTAL_BLOCKS :: nat where "TOTAL_BLOCKS = 4096"
definition TOTAL_INODES :: nat where "TOTAL_INODES = 512"

definition format_disk :: "mem \<Rightarrow> mem" where
  "format_disk disk =
     (let m = put64 disk 0 FSSO_MAGIC;
          m = put32 m 8 (of_nat FSSO_BLOCK_SIZE);
          m = put32 m 12 (of_nat TOTAL_BLOCKS);
          m = put32 m 16 (of_nat TOTAL_INODES);
          m = put32 m 20 (of_nat (TOTAL_BLOCKS - FSSO_FIRST_DATA_BLOCK));
          m = put32 m 24 (of_nat (TOTAL_INODES - 1));
          m = put32 m 28 (of_nat FSSO_FIRST_DATA_BLOCK);
          m = put32 m 40 1;
          m = put_bytes m 32 (of_string ''FSSO    '');
          m = m(inode_bitmap := 0x01);
          m = m(block_bitmap := 0xFF);
          m = m(block_bitmap + 1 := 0x07);
          root = mkfs_inode_addr 0;
          m = put32 m (root + off_i_size) 0;
          m = put32 m (root + off_i_created) 0;
          m = put32 m (root + off_i_modified) 0;
          m = m(root + off_i_type := FSSO_TYPE_DIR);
          m = put32 m (root + off_i_direct 0) (of_nat FSSO_FIRST_DATA_BLOCK);
          m = m(block_bitmap + 1 := m (block_bitmap + 1) OR 0x08)
      in m)"

text \<open>The two files \<open>main\<close> adds; the sizes passed count the NUL that ends the C literal.\<close>

definition hello_txt :: bytes where
  "hello_txt = of_string ''Hello from FSSO!'' @ [10, 0]"

definition hello_py :: bytes where
  "hello_py = of_string ''print('' @ [39] @ of_string ''Hello from SimplrOS!'' @ [39] @
     of_string '')'' @ [10, 0]"

text \<open>
  What the host decides: whether \<open>fopen\<close> and \<open>calloc\<close> succeed and how many blocks \<open>fwrite\<close>
  writes. The result is the exit code and, when the image was written, the image.

  This is \<open>main\<close> with the closing parenthesis that line 174 lacks. The program \<^verbatim>\<open>src/tools/mkfsso\<close> that
  lies beside it was built from an earlier text without the second file: the name \<^verbatim>\<open>hello.py\<close> does not
  occur in it.
\<close>

record host =
  h_fopen :: bool
  h_calloc :: bool
  h_fwrite :: nat

definition mkfsso_main :: "host \<Rightarrow> nat \<Rightarrow> (int \<times> mem option) option" where
  "mkfsso_main h argc =
     (if argc < 2 then Some (1, None)
      else if \<not> h_fopen h then Some (1, None)
      else if \<not> h_calloc h then Some (1, None)
      else
        (case fsso_add_file (format_disk (\<lambda>_. 0)) (of_string ''hello.txt'') hello_txt 18 of
           None \<Rightarrow> None
         | Some (rc, disk) \<Rightarrow>
             if rc \<noteq> 0 then Some (1, None)
             else
               (case fsso_add_file disk (of_string ''hello.py'') hello_py 31 of
                  None \<Rightarrow> None
                | Some (rc, disk) \<Rightarrow>
                    if rc \<noteq> 0 then Some (1, None)
                    else if h_fwrite h \<noteq> TOTAL_BLOCKS then Some (1, None)
                    else Some (0, Some disk))))"

end
