(* ===== verification/Bitmap.thy ===== *)
theory Bitmap
  imports Mkfsso
begin

text \<open>
  The bitmaps of \<^verbatim>\<open>src/tools/mkfsso.c\<close> as sets of used numbers. The locale \<open>bit_store\<close> is what
  the two allocation loops of \<open>fsso_add_file\<close> rely on: marking a number makes exactly that number
  used. It is interpreted on the inode bitmap and on the block bitmap, and the loops are shown to
  be first-fit searches.
\<close>

unbundle bit_operations_syntax

section \<open>The interface\<close>

definition free_numbers :: "('m \<Rightarrow> nat \<Rightarrow> bool) \<Rightarrow> 'm \<Rightarrow> nat \<Rightarrow> nat \<Rightarrow> nat list" where
  "free_numbers used m i limit = filter (\<lambda>j. \<not> used m j) [i..<limit]"

lemma distinct_free_numbers [simp]: "distinct (free_numbers used m i limit)"
  by (simp add: free_numbers_def)

lemma in_free_numbers [simp]:
  "j \<in> set (free_numbers used m i limit) \<longleftrightarrow> i \<le> j \<and> j < limit \<and> \<not> used m j"
  by (auto simp: free_numbers_def)

locale bit_store =
  fixes used :: "'m \<Rightarrow> nat \<Rightarrow> bool"
    and mark :: "nat \<Rightarrow> 'm \<Rightarrow> 'm"
  assumes used_mark: "used (mark i m) j \<longleftrightarrow> j = i \<or> used m j"
begin

lemma used_fold_mark: "used (fold mark js m) k \<longleftrightarrow> k \<in> set js \<or> used m k"
  by (induction js arbitrary: m) (auto simp: used_mark)

lemma free_numbers_mark:
  "free_numbers used (mark j m) i limit = filter (\<lambda>k. k \<noteq> j) (free_numbers used m i limit)"
  by (simp add: free_numbers_def used_mark) (metis (no_types, lifting) conj_commute)

lemma free_numbers_step:
  "i < limit \<Longrightarrow> free_numbers used m i limit =
   (if used m i then free_numbers used m (Suc i) limit else i # free_numbers used m (Suc i) limit)"
  by (simp add: free_numbers_def upt_conv_Cons)

lemma free_numbers_mark_below:
  "j < i \<Longrightarrow> free_numbers used (mark j m) i limit = free_numbers used m i limit"
  by (auto simp: free_numbers_def used_mark intro!: filter_cong)

lemma length_free_fold_mark:
  assumes "distinct js" "set js \<subseteq> set (free_numbers used m i limit)"
  shows "length (free_numbers used (fold mark js m) i limit) + length js =
    length (free_numbers used m i limit)"
proof -
  have dist: "distinct (free_numbers used m' i limit)" for m' by (simp add: free_numbers_def)
  have "set (free_numbers used (fold mark js m) i limit) = set (free_numbers used m i limit) - set js"
    by (auto simp: free_numbers_def used_fold_mark)
  then have "card (set (free_numbers used (fold mark js m) i limit)) =
      card (set (free_numbers used m i limit)) - card (set js)"
    using assms(2) by (simp add: card_Diff_subset)
  moreover have "card (set js) \<le> card (set (free_numbers used m i limit))"
    using assms(2) by (intro card_mono) simp_all
  ultimately show ?thesis
    using dist assms(1) by (simp add: distinct_card)
qed

end

section \<open>The two bitmaps\<close>

lemma is_set_iff: "is_set base m i \<longleftrightarrow> bit (m (base + i div 8)) (i mod 8)"
  by (simp add: is_set_def bit_iff_and_push_bit_not_eq_0)

lemma is_set_set_bit_at: "is_set base (set_bit_at base i m) j \<longleftrightarrow> j = i \<or> is_set base m j"
proof (cases "j div 8 = i div 8")
  case True
  then have "j mod 8 = i mod 8 \<longleftrightarrow> j = i" by (metis div_mult_mod_eq)
  with True show ?thesis by (auto simp: is_set_iff set_bit_at_def bit_simps)
next
  case False
  then show ?thesis by (auto simp: is_set_iff set_bit_at_def)
qed

abbreviation ibit :: "mem \<Rightarrow> nat \<Rightarrow> bool" where "ibit \<equiv> is_set inode_bitmap"
abbreviation bbit :: "mem \<Rightarrow> nat \<Rightarrow> bool" where "bbit \<equiv> is_set block_bitmap"

interpretation inodes: bit_store ibit "set_bit_at inode_bitmap"
  by unfold_locales (rule is_set_set_bit_at)

interpretation blocks: bit_store bbit "set_bit_at block_bitmap"
  by unfold_locales (rule is_set_set_bit_at)

lemma set_bit_at_other: "a \<noteq> base + i div 8 \<Longrightarrow> set_bit_at base i m a = m a"
  by (simp add: set_bit_at_def)

lemma fold_set_bit_at_other:
  "\<forall>i \<in> set js. a \<noteq> base + i div 8 \<Longrightarrow> fold (set_bit_at base) js m a = m a"
  by (induction js arbitrary: m) (auto simp: set_bit_at_other)

section \<open>The allocation loops are first-fit searches\<close>

lemma alloc_inode_eq:
  "alloc_inode m i limit =
    (case free_numbers ibit m i limit of [] \<Rightarrow> (0, m) | n # _ \<Rightarrow> (n, set_bit_at inode_bitmap n m))"
proof (induction m i limit rule: alloc_inode.induct)
  case (1 m i limit)
  show ?case
  proof (cases "i < limit")
    case True
    with "1.IH" show ?thesis
      by (simp add: alloc_inode.simps [of m i limit] inodes.free_numbers_step)
  next
    case False
    then show ?thesis by (simp add: alloc_inode.simps [of m i limit] free_numbers_def)
  qed
qed

lemma alloc_blocks_eq:
  "length acc \<le> 12 \<Longrightarrow>
   alloc_blocks m i limit needed acc =
    (let js = take (needed - length acc) (free_numbers bbit m i limit) in
     if length acc + length js \<le> 12 then Some (acc @ js, fold (set_bit_at block_bitmap) js m)
     else None)"
proof (induction m i limit needed acc rule: alloc_blocks.induct)
  case (1 m i limit needed acc)
  show ?case
  proof (cases "i < limit \<and> length acc < needed")
    case False
    then show ?thesis
      using "1.prems" by (auto simp: alloc_blocks.simps [of m i limit needed acc] free_numbers_def)
  next
    case go: True
    then obtain r where r: "needed - length acc = Suc r" "needed - length (acc @ [i]) = r"
      by (metis Suc_diff_Suc length_append_singleton)
    show ?thesis
    proof (cases "bbit m i")
      case True
      with go "1.IH"(2) "1.prems" show ?thesis
        by (simp add: alloc_blocks.simps [of m i limit needed acc] blocks.free_numbers_step)
    next
      case free: False
      show ?thesis
      proof (cases "length acc < 12")
        case True
        with go free "1.IH"(1) r show ?thesis
          by (simp add: alloc_blocks.simps [of m i limit needed acc] blocks.free_numbers_step
              blocks.free_numbers_mark_below Let_def)
      next
        case False
        with go free "1.prems" r show ?thesis
          by (simp add: alloc_blocks.simps [of m i limit needed acc] blocks.free_numbers_step Let_def)
      qed
    qed
  qed
qed

end
