(* ===== verification/Fsso_Spec.thy ===== *)
theory Fsso_Spec
  imports Fsso
begin

text \<open>
  What the file system functions mean over the bytes of a disk: where the kernel looks for an
  inode, which name and inode pairs a directory holds, which bytes a file holds. The locale
  \<open>fsso_disk\<close> is a block device that keeps its contract, with any contents of uninitialised
  arrays; inside it the functions of \<^verbatim>\<open>src/kernel/fsso.c\<close> are shown to compute exactly this.
\<close>

unbundle bit_operations_syntax

section \<open>The meaning of a disk\<close>

definition kernel_inode_addr :: "nat \<Rightarrow> nat" where
  "kernel_inode_addr n = 1024 * (3 + n div 13) + 76 * (n mod 13)"

definition disk_inode :: "mem \<Rightarrow> nat \<Rightarrow> FSSO_Inode" where
  "disk_inode d n = get_inode d (kernel_inode_addr n)"

definition cname :: "mem \<Rightarrow> nat \<Rightarrow> bytes" where
  "cname m a = takeWhile (\<lambda>b. b \<noteq> 0) (get_bytes m a 256)"

definition slot_addr :: "nat \<Rightarrow> nat \<Rightarrow> nat" where
  "slot_addr b j = 1024 * b + 260 * j"

definition slots_entries :: "mem \<Rightarrow> nat \<Rightarrow> nat list \<Rightarrow> (bytes \<times> u32) list" where
  "slots_entries d b js =
     map (\<lambda>j. (cname d (slot_addr b j + 4), get32 d (slot_addr b j)))
       (filter (\<lambda>j. get32 d (slot_addr b j) \<noteq> 0) js)"

definition block_entries :: "mem \<Rightarrow> nat \<Rightarrow> (bytes \<times> u32) list" where
  "block_entries d b = slots_entries d b [0..<3]"

definition data_blocks :: "u32 list \<Rightarrow> u32 list" where
  "data_blocks bs = takeWhile (\<lambda>b. b \<noteq> 0) bs"

definition blocks_entries :: "mem \<Rightarrow> u32 list \<Rightarrow> (bytes \<times> u32) list" where
  "blocks_entries d bs = concat (map (\<lambda>b. block_entries d (unat b)) (data_blocks bs))"

definition dir_lookup :: "mem \<Rightarrow> FSSO_Inode \<Rightarrow> bytes \<Rightarrow> u32 option" where
  "dir_lookup d inode name = map_of (blocks_entries d (i_direct inode)) name"

definition blocks_bytes :: "mem \<Rightarrow> u32 list \<Rightarrow> bytes" where
  "blocks_bytes d bs = concat (map (\<lambda>b. get_bytes d (1024 * unat b) 1024) (data_blocks bs))"

definition blocks_in :: "nat \<Rightarrow> u32 list \<Rightarrow> bool" where
  "blocks_in nsect bs \<longleftrightarrow> (\<forall>b \<in> set (data_blocks bs). unat b * 2 + 2 \<le> nsect)"

text \<open>The inodes read and the blocks they name lie on the disk, \<open>nsect\<close> sectors long.\<close>

definition inode_on_disk :: "nat \<Rightarrow> mem \<Rightarrow> u32 \<Rightarrow> bool" where
  "inode_on_disk nsect d n \<longleftrightarrow> 2 * (3 + unat n div 13) + 2 \<le> nsect \<and>
     blocks_in nsect (i_direct (disk_inode d (unat n)))"

text \<open>The results of the functions, errors included.\<close>

definition find_result :: "mem \<Rightarrow> FSSO_Filesystem \<Rightarrow> u32 \<Rightarrow> bytes \<Rightarrow> u32 \<Rightarrow> int \<times> u32" where
  "find_result d fs dir name out =
     (if dir \<ge> sb_total_inodes (superblock fs) then (-1, out)
      else if i_type (disk_inode d (unat dir)) \<noteq> FSSO_TYPE_DIR then (-2, out)
      else (case dir_lookup d (disk_inode d (unat dir)) name of
              Some i \<Rightarrow> (0, i) | None \<Rightarrow> (-3, out)))"

definition read_result :: "mem \<Rightarrow> FSSO_Filesystem \<Rightarrow> u32 \<Rightarrow> bytes \<Rightarrow> u32 \<Rightarrow> int \<times> bytes" where
  "read_result d fs n out maxsz =
     (if n \<ge> sb_total_inodes (superblock fs) then (-1, out)
      else if i_type (disk_inode d (unat n)) \<noteq> FSSO_TYPE_FILE then (-2, out)
      else
        (let bs = blocks_bytes d (i_direct (disk_inode d (unat n)));
             t = min (length bs) (unat maxsz)
         in (int t, take t bs @ drop t out)))"

text \<open>
  A path is cut at every dot; empty pieces are skipped and each piece is cut to 255 bytes. The
  walk starts at inode 0 and looks each piece up in the directory reached.
\<close>

fun split_dots :: "bytes \<Rightarrow> bytes list" where
  "split_dots [] = [[]]"
| "split_dots (c # p) = (if c = dot then [] # split_dots p
     else (case split_dots p of [] \<Rightarrow> [[c]] | h # t \<Rightarrow> (c # h) # t))"

definition path_components :: "bytes \<Rightarrow> bytes list" where
  "path_components p = filter (\<lambda>c. c \<noteq> []) (map (take 255) (split_dots p))"

fun walk :: "mem \<Rightarrow> FSSO_Filesystem \<Rightarrow> u32 \<Rightarrow> bytes list \<Rightarrow> u32 option" where
  "walk d fs cur [] = Some cur"
| "walk d fs cur (c # cs) =
     (case find_result d fs cur c 0 of (rc, nxt) \<Rightarrow> if rc \<noteq> 0 then None else walk d fs nxt cs)"

text \<open>Every inode such a walk reads lies on the disk.\<close>

fun walk_on_disk :: "nat \<Rightarrow> mem \<Rightarrow> FSSO_Filesystem \<Rightarrow> u32 \<Rightarrow> bytes list \<Rightarrow> bool" where
  "walk_on_disk nsect d fs cur [] = True"
| "walk_on_disk nsect d fs cur (c # cs) =
     ((cur < sb_total_inodes (superblock fs) \<longrightarrow> inode_on_disk nsect d cur) \<and>
      (case find_result d fs cur c 0 of (rc, nxt) \<Rightarrow> rc \<noteq> 0 \<or> walk_on_disk nsect d fs nxt cs))"

section \<open>Names\<close>

lemma name_match_iff:
  "name_match e name k \<longleftrightarrow> (\<forall>i. k \<le> i \<and> i \<le> length name \<longrightarrow> e i = cstr_at name i)"
  if "is_cstr name" "k \<le> length name"
  using that
proof (induction e name k rule: name_match.induct)
  case (1 e name k)
  show ?case
  proof (cases "e k = cstr_at name k")
    case False
    then show ?thesis using "1.prems" by (auto simp: name_match.simps [of e name k])
  next
    case True
    show ?thesis
    proof (cases "k < length name")
      case False
      with "1.prems" have k: "k = length name" by simp
      then have z: "cstr_at name k = 0" by (simp add: cstr_at_def)
      with True have "name_match e name k" by (simp add: name_match.simps [of e name k])
      moreover have "\<forall>i. k \<le> i \<and> i \<le> length name \<longrightarrow> e i = cstr_at name i"
        using k True by (auto dest: le_antisym)
      ultimately show ?thesis by simp
    next
      case less: True
      with "1.prems" True have nz: "cstr_at name k \<noteq> 0" by (simp add: is_cstr_at)
      with "1.IH" True "1.prems" less
      have "name_match e name (Suc k) \<longleftrightarrow> (\<forall>i. Suc k \<le> i \<and> i \<le> length name \<longrightarrow> e i = cstr_at name i)"
        by auto
      moreover have "name_match e name k = name_match e name (Suc k)"
        using True nz by (simp add: name_match.simps [of e name k])
      ultimately show ?thesis using True by (metis Suc_leD Suc_leI le_neq_implies_less)
    qed
  qed
qed

lemma cname_eq_iff:
  assumes "is_cstr name" "length name \<le> 255"
  shows "cname m a = name \<longleftrightarrow> (\<forall>i. i \<le> length name \<longrightarrow> m (a + i) = cstr_at name i)"
proof
  assume eq: "cname m a = name"
  have len: "length (get_bytes m a 256) = 256" by simp
  show "\<forall>i. i \<le> length name \<longrightarrow> m (a + i) = cstr_at name i"
  proof (intro allI impI)
    fix i assume i: "i \<le> length name"
    show "m (a + i) = cstr_at name i"
    proof (cases "i < length name")
      case True
      then have "name ! i = get_bytes m a 256 ! i"
        using eq by (metis cname_def takeWhile_nth)
      with True assms show ?thesis by (simp add: cstr_at_def)
    next
      case False
      with i have "i = length name" by simp
      moreover have "length (takeWhile (\<lambda>b. b \<noteq> 0) (get_bytes m a 256)) < length (get_bytes m a 256)"
        using eq assms by (simp add: cname_def)
      from nth_length_takeWhile [OF this] eq have "get_bytes m a 256 ! length name = 0"
        by (simp add: cname_def)
      ultimately show ?thesis using assms by (simp add: cstr_at_def)
    qed
  qed
next
  assume all: "\<forall>i. i \<le> length name \<longrightarrow> m (a + i) = cstr_at name i"
  have "take (length name) (get_bytes m a 256) = name"
    by (rule nth_equalityI) (use all assms in \<open>auto simp: cstr_at_def\<close>)
  moreover have "get_bytes m a 256 ! length name = 0"
    using all assms by (simp add: cstr_at_def)
  ultimately have split: "get_bytes m a 256 = name @ 0 # drop (Suc (length name)) (get_bytes m a 256)"
    using id_take_nth_drop [of "length name" "get_bytes m a 256"] assms by simp
  have "\<forall>b \<in> set name. b \<noteq> 0" using assms by (auto simp: is_cstr_def)
  then have "takeWhile (\<lambda>b. b \<noteq> 0) (name @ 0 # drop (Suc (length name)) (get_bytes m a 256)) = name"
    by (simp add: takeWhile_append2)
  with split show "cname m a = name" by (simp add: cname_def)
qed

section \<open>Paths\<close>

lemma scan_component_eq:
  "length acc \<le> 255 \<Longrightarrow>
   scan_component p acc = (take 255 (acc @ takeWhile (\<lambda>c. c \<noteq> dot) p), dropWhile (\<lambda>c. c \<noteq> dot) p)"
proof (induction p arbitrary: acc)
  case (Cons c p)
  show ?case
  proof (cases "length acc < 255")
    case True
    with Cons.IH [of "acc @ [c]"] show ?thesis by simp
  next
    case False
    with Cons show ?thesis by simp
  qed
qed simp

lemma split_dots_eq:
  "split_dots p = takeWhile (\<lambda>c. c \<noteq> dot) p #
     (case dropWhile (\<lambda>c. c \<noteq> dot) p of [] \<Rightarrow> [] | _ # r \<Rightarrow> split_dots r)"
  by (induction p) auto

lemma skip_dot_dropWhile:
  "skip_dot (dropWhile (\<lambda>c. c \<noteq> dot) p) = (case dropWhile (\<lambda>c. c \<noteq> dot) p of [] \<Rightarrow> [] | _ # r \<Rightarrow> r)"
proof (cases "dropWhile (\<lambda>c. c \<noteq> dot) p")
  case (Cons x r)
  then have "x = dot" using hd_dropWhile [of "\<lambda>c. c \<noteq> dot" p] by simp
  with Cons show ?thesis by (simp add: skip_dot_def)
qed (simp add: skip_dot_def del: dropWhile_eq_Nil_conv)

lemma path_components_Nil [simp]: "path_components [] = []"
  by (simp add: path_components_def)

lemma path_components_scan:
  assumes "scan_component p [] = (component, p1)"
  shows "path_components p =
    (if component = [] then [] else [component]) @ path_components (skip_dot p1)"
proof -
  have "component = take 255 (takeWhile (\<lambda>c. c \<noteq> dot) p)" and p1: "p1 = dropWhile (\<lambda>c. c \<noteq> dot) p"
    using assms scan_component_eq [of "[]" p] by simp_all
  then show ?thesis
    unfolding path_components_def p1 skip_dot_dropWhile
    by (subst split_dots_eq, cases "dropWhile (\<lambda>c. c \<noteq> dot) p") (simp_all del: dropWhile_eq_Nil_conv)
qed

lemma scan_component_cstr:
  "is_cstr p \<Longrightarrow> scan_component p [] = (component, p1) \<Longrightarrow>
   is_cstr component \<and> length component \<le> 255 \<and> is_cstr (skip_dot p1)"
proof -
  assume p: "is_cstr p" and sc: "scan_component p [] = (component, p1)"
  then have c: "component = take 255 (takeWhile (\<lambda>c. c \<noteq> dot) p)"
    and p1: "p1 = dropWhile (\<lambda>c. c \<noteq> dot) p"
    using scan_component_eq [of "[]" p] by simp_all
  have "set component \<subseteq> set p" unfolding c by (auto dest!: in_set_takeD set_takeWhileD)
  moreover have "set (skip_dot p1) \<subseteq> set p1" by (auto simp: skip_dot_def split: list.splits if_splits)
  moreover have "set p1 \<subseteq> set p" unfolding p1 by (auto dest: set_dropWhileD)
  ultimately show ?thesis using p c by (auto simp: is_cstr_def)
qed

section \<open>Copying\<close>

lemma copy_loop_eq:
  "off + n \<le> length out \<Longrightarrow> n \<le> length block \<Longrightarrow>
   copy_loop out off block n = take off out @ take n block @ drop (off + n) out"
proof (induction n)
  case (Suc n)
  have "copy_loop out off block (Suc n) = (copy_loop out off block n)[off + n := block ! n]"
    by (simp add: copy_loop_def)
  also have "\<dots> = (take off out @ take n block @ drop (off + n) out)[off + n := block ! n]"
    using Suc by simp
  also have "\<dots> = take off out @ take n block @ (block ! n) # drop (Suc (off + n)) out"
    using Suc.prems by (simp add: list_update_append Cons_nth_drop_Suc [symmetric] min_def)
  finally show ?case using Suc.prems by (simp add: take_Suc_conv_app_nth)
qed (simp add: copy_loop_def)

lemma data_blocks_simps [simp]:
  "data_blocks [] = []" "data_blocks (b # bs) = (if b = 0 then [] else b # data_blocks bs)"
  by (simp_all add: data_blocks_def)

lemma blocks_bytes_simps [simp]:
  "blocks_bytes d [] = []"
  "blocks_bytes d (b # bs) = (if b = 0 then [] else get_bytes d (1024 * unat b) 1024 @ blocks_bytes d bs)"
  by (simp_all add: blocks_bytes_def)

lemma blocks_entries_simps [simp]:
  "blocks_entries d [] = []"
  "blocks_entries d (b # bs) = (if b = 0 then [] else block_entries d (unat b) @ blocks_entries d bs)"
  by (simp_all add: blocks_entries_def)

lemma blocks_in_simps [simp]:
  "blocks_in n []" "blocks_in n (b # bs) \<longleftrightarrow> (b \<noteq> 0 \<longrightarrow> unat b * 2 + 2 \<le> n \<and> blocks_in n bs)"
  by (auto simp: blocks_in_def)

lemma length_blocks_bytes: "length (blocks_bytes d bs) = 1024 * length (data_blocks bs)"
  by (induction bs) auto

lemma find_entries_eq:
  assumes "is_cstr name" "length name \<le> 255" "set js \<subseteq> {..<3}"
  shows "find_entries (get_bytes d (1024 * b) 1024) name js = map_of (slots_entries d b js) name"
  using assms(3)
proof (induction js)
  case (Cons j js)
  let ?buf = "get_bytes d (1024 * b) 1024"
  have ino: "get32 ((!) ?buf) (260 * j) = get32 d (slot_addr b j)"
    using Cons.prems by (subst get_le_get_bytes) (auto simp: slot_addr_def)
  have "name_match (\<lambda>k. ?buf ! (260 * j + 4 + k)) name 0 \<longleftrightarrow> cname d (slot_addr b j + 4) = name"
    using assms(1,2) Cons.prems
    by (auto simp: name_match_iff cname_eq_iff slot_addr_def add.assoc)
  with ino Cons show ?case by (simp add: Let_def slots_entries_def del: get_le.simps)
qed (simp add: slots_entries_def)

section \<open>The functions over a device that keeps its contract\<close>

locale fsso_disk = block_dev rd content sectors ok
  for rd :: "'s bdev" and content sectors ok +
  fixes stk :: "'s \<Rightarrow> bytes"
  assumes stk_length: "length (stk s) = 1024"
begin

abbreviation io :: "'s disk_io" where "io \<equiv> \<lparr>io_read = rd, io_stack = stk\<rparr>"

text \<open>Every operation leaves the device usable and the disk as it was.\<close>

definition same_disk :: "'s \<Rightarrow> 's \<Rightarrow> bool" where
  "same_disk s s' \<longleftrightarrow> ok s' \<and> content s' = content s"

lemma read_block_disk:
  assumes "ok s" "length buf = 1024" "unat b * 2 + 2 \<le> sectors" "read_block io b buf s = (buf', s')"
  shows "buf' = get_bytes (content s) (1024 * unat b) 1024" "same_disk s s'"
proof -
  have lba: "unat ((ucast b :: u64) * 2) = unat b * 2"
    using unat_u32_less [of b] by (simp add: unat_mult_no_wrap unsigned_ucast_eq take_bit_nat_eq_self)
  obtain rc where "rd ((ucast b :: u64) * 2) 2 buf s = (rc, buf', s')"
    using assms(4) by (auto simp: read_block_def Let_def split: prod.splits)
  from rd_block [OF assms(1,2) _ this] assms(3) lba
  show "buf' = get_bytes (content s) (1024 * unat b) 1024" "same_disk s s'"
    by (simp_all add: same_disk_def mult.commute)
qed

lemma read_inode_disk:
  assumes "ok s" "n < sb_total_inodes (superblock fs)" "2 * (3 + unat n div 13) + 2 \<le> sectors"
    and "fsso_read_inode io fs n out s = (rc, inode, s')"
  shows "rc = 0" "inode = disk_inode (content s) (unat n)" "same_disk s s'"
proof -
  have blk: "unat (3 + n div 13) = 3 + unat n div 13"
    using unat_u32_less [of n] by (simp add: unat_word_ariths unat_div)
  have off: "unat (n mod 13) = unat n mod 13" by (simp add: unat_mod)
  obtain buf where rb: "read_block io (3 + n div 13) (stk s) s = (buf, s')"
    and inode: "inode = get_inode ((!) buf) (76 * unat (n mod 13))" and "rc = 0"
    using assms(2,4) by (auto simp: fsso_read_inode_def Let_def not_le [symmetric] split: prod.splits)
  have rd: "buf = get_bytes (content s) (1024 * (3 + unat n div 13)) 1024" "same_disk s s'"
    using read_block_disk [OF assms(1) stk_length _ rb] assms(3) blk by simp_all
  have "unat n mod 13 < 13" by simp
  then have "76 * (unat n mod 13) + i < 1024" if "i < 76" for i using that by linarith
  then have "inode = disk_inode (content s) (unat n)"
    unfolding inode rd(1) off disk_inode_def kernel_inode_addr_def
    by (intro get_inode_cong) (simp add: add.assoc)
  with rd(2) \<open>rc = 0\<close> show "rc = 0" "inode = disk_inode (content s) (unat n)" "same_disk s s'" by simp_all
qed

lemma same_disk_trans: "same_disk s s' \<Longrightarrow> same_disk s' s'' \<Longrightarrow> same_disk s s''"
  by (simp add: same_disk_def)

lemma find_blocks_disk:
  assumes "is_cstr name" "length name \<le> 255"
  shows "ok s \<Longrightarrow> length buf = 1024 \<Longrightarrow> blocks_in sectors bs \<Longrightarrow>
    find_blocks io name bs buf s = (r, s') \<Longrightarrow>
    r = map_of (blocks_entries (content s) bs) name \<and> same_disk s s'"
proof (induction bs arbitrary: buf s)
  case Nil
  then show ?case by (auto simp: same_disk_def)
next
  case (Cons b bs)
  show ?case
  proof (cases "b = 0")
    case True
    with Cons.prems show ?thesis by (auto simp: same_disk_def)
  next
    case False
    obtain buf1 s1 where rb: "read_block io b buf s = (buf1, s1)" by fastforce
    with Cons.prems False have rd: "buf1 = get_bytes (content s) (1024 * unat b) 1024" "same_disk s s1"
      using read_block_disk [OF Cons.prems(1,2) _ rb] by simp_all
    have ent: "find_entries buf1 name [0..<entries_per_block] = map_of (block_entries (content s) (unat b)) name"
      using find_entries_eq [OF assms, of "[0..<3]" "content s" "unat b"]
      by (simp add: rd block_entries_def entries_per_block_def lessThan_atLeast0
          del: upt_rec_numeral)
    show ?thesis
    proof (cases "find_entries buf1 name [0..<entries_per_block]")
      case None
      with Cons.prems False rb have "find_blocks io name bs buf1 s1 = (r, s')" by simp
      with Cons.IH [of s1 buf1] Cons.prems False rd None ent show ?thesis
        by (auto simp: same_disk_def map_add_def split: option.splits)
    next
      case (Some i)
      then have m: "map_of (block_entries (content s) (unat b)) name = Some i" using ent by simp
      have "r = Some i" "s' = s1" using Cons.prems(4) False rb Some by simp_all
      with False rd m show ?thesis by (simp add: map_add_def)
    qed
  qed
qed

lemma find_in_dir_disk:
  assumes "ok s" "dir < sb_total_inodes (superblock fs) \<Longrightarrow> inode_on_disk sectors (content s) dir"
    and "is_cstr name" "length name \<le> 255"
    and "fsso_find_in_dir io fs dir name out s = (rc, i, s')"
  shows "(rc, i) = find_result (content s) fs dir name out" "same_disk s s'"
proof -
  obtain rc1 inode s1 where ri: "fsso_read_inode io fs dir (stack_inode io s) s = (rc1, inode, s1)"
    by (metis prod_cases3)
  have both: "(rc, i) = find_result (content s) fs dir name out \<and> same_disk s s'"
  proof (cases "sb_total_inodes (superblock fs) \<le> dir")
    case True
    then show ?thesis using assms(1,5) ri
      by (auto simp: fsso_find_in_dir_def fsso_read_inode_def find_result_def same_disk_def)
  next
    case False
    with assms(1,2) ri have r: "rc1 = 0" "inode = disk_inode (content s) (unat dir)" "same_disk s s1"
      using read_inode_disk [of s dir fs "stack_inode io s" rc1 inode s1]
      by (simp_all add: inode_on_disk_def not_le)
    obtain q s2 where fb: "find_blocks io name (i_direct inode) (stk s1) s1 = (q, s2)" by fastforce
    have "q = dir_lookup (content s) inode name" "same_disk s s2"
      using find_blocks_disk [OF assms(3,4) _ stk_length _ fb] assms(2) r
      using False by (auto simp: same_disk_def inode_on_disk_def dir_lookup_def not_le)
    then show ?thesis using assms(5) ri r fb False
      by (auto simp: fsso_find_in_dir_def find_result_def split: if_splits option.splits)
  qed
  then show "(rc, i) = find_result (content s) fs dir name out" "same_disk s s'" by simp_all
qed

lemma read_blocks_disk:
  "ok s \<Longrightarrow> length block = 1024 \<Longrightarrow> blocks_in sectors bs \<Longrightarrow>
   unat br \<le> unat maxsz \<Longrightarrow> unat maxsz \<le> length out \<Longrightarrow> unat br + 1024 * length bs < 2 ^ 32 \<Longrightarrow>
   read_blocks io bs br out maxsz block s = (br', out', s') \<Longrightarrow>
   (let F = blocks_bytes (content s) bs; t = min (length F) (unat maxsz - unat br) in
     unat br' = unat br + t \<and> out' = take (unat br) out @ take t F @ drop (unat br + t) out \<and>
     same_disk s s')"
proof (induction bs arbitrary: br out block s)
  case Nil
  then show ?case by (auto simp: same_disk_def)
next
  case (Cons b bs)
  show ?case
  proof (cases "b = 0 \<or> maxsz \<le> br")
    case True
    then have "read_blocks io (b # bs) br out maxsz block s = (br, out, s)" by auto
    with Cons.prems(7) have "br' = br" "out' = out" "s' = s" by simp_all
    with True Cons.prems show ?thesis by (auto simp: same_disk_def word_le_nat_alt Let_def)
  next
    case False
    then have b: "b \<noteq> 0" and lt: "unat br < unat maxsz" by (auto simp: word_le_nat_alt)
    obtain blk s1 where rb: "read_block io b block s = (blk, s1)" by fastforce
    with Cons.prems b have blk: "blk = get_bytes (content s) (1024 * unat b) 1024" "same_disk s s1"
      using read_block_disk [OF Cons.prems(1,2) _ rb] by simp_all
    define n where "n = (if maxsz < br + 1024 then maxsz - br else 1024)"
    have sum: "unat (br + 1024) = unat br + 1024" using Cons.prems(6) by (simp add: unat_word_ariths)
    have n: "unat n = min 1024 (unat maxsz - unat br)"
      using lt sum by (auto simp: n_def word_less_nat_alt unat_diff_no_wrap word_le_nat_alt)
    have brn: "unat (br + n) = unat br + unat n"
      using n Cons.prems(6) by (intro unat_add_no_wrap) auto
    have copied: "copy_loop out (unat br) blk (unat n) =
        take (unat br) out @ take (unat n) blk @ drop (unat br + unat n) out"
      using n lt Cons.prems(5) blk(1) by (intro copy_loop_eq) auto
    define out1 where "out1 = take (unat br) out @ take (unat n) blk @ drop (unat br + unat n) out"
    have rest: "read_blocks io bs (br + n) out1 maxsz blk s1 = (br', out', s')"
      using Cons.prems(7) False rb copied by (simp add: n_def [symmetric] out1_def Let_def)
    have len: "length out1 = length out"
      using n lt Cons.prems(5) blk(1) by (auto simp: out1_def)
    define F where "F = blocks_bytes (content s) bs"
    define t where "t = min (length F) (unat maxsz - unat (br + n))"
    have IH: "unat br' = unat (br + n) + t"
      "out' = take (unat (br + n)) out1 @ take t F @ drop (unat (br + n) + t) out1" "same_disk s s'"
    proof -
      have "ok s1" "content s1 = content s" using blk(2) by (simp_all add: same_disk_def)
      moreover have "length blk = 1024" by (simp add: blk)
      moreover have "blocks_in sectors bs" using Cons.prems(3) b by simp
      moreover have "unat (br + n) \<le> unat maxsz" using brn n lt by simp
      moreover have "unat (br + n) + 1024 * length bs < 2 ^ 32" using Cons.prems(6) brn n by simp
      ultimately have "let F = blocks_bytes (content s1) bs; t = min (length F) (unat maxsz - unat (br + n)) in
          unat br' = unat (br + n) + t \<and>
          out' = take (unat (br + n)) out1 @ take t F @ drop (unat (br + n) + t) out1 \<and> same_disk s1 s'"
        using Cons.IH [of s1 blk "br + n" out1] Cons.prems(5) len rest by simp
      then show "unat br' = unat (br + n) + t"
        "out' = take (unat (br + n)) out1 @ take t F @ drop (unat (br + n) + t) out1" "same_disk s s'"
        using blk(2) by (auto simp: Let_def t_def F_def same_disk_def)
    qed
    have full: "blocks_bytes (content s) (b # bs) = blk @ F" using b by (simp add: F_def blk)
    have T: "min (length (blk @ F)) (unat maxsz - unat br) = unat n + t"
      using n brn lt by (auto simp: t_def blk min_def)
    have "take (unat n + t) (blk @ F) = take (unat n) blk @ take t F"
      using n brn lt by (cases "unat n = 1024") (auto simp: t_def blk min_def split: if_splits)
    moreover have "take (unat (br + n)) out1 = take (unat br) out @ take (unat n) blk"
      using n lt Cons.prems(5) by (auto simp: out1_def brn blk)
    moreover have "drop (unat (br + n) + t) out1 = drop (unat br + (unat n + t)) out"
      using n lt Cons.prems(5) by (auto simp: out1_def brn blk ac_simps)
    ultimately show ?thesis
      unfolding full Let_def T using IH brn by (simp add: add.assoc)
  qed
qed

lemma read_file_disk:
  assumes "ok s" "n < sb_total_inodes (superblock fs) \<Longrightarrow> inode_on_disk sectors (content s) n"
    and "unat maxsz \<le> length out"
    and "fsso_read_file io fs n out maxsz s = (rc, out', s')"
  shows "(rc, out') = read_result (content s) fs n out maxsz" "same_disk s s'"
proof -
  obtain rc1 inode s1 where ri: "fsso_read_inode io fs n (stack_inode io s) s = (rc1, inode, s1)"
    by (metis prod_cases3)
  have both: "(rc, out') = read_result (content s) fs n out maxsz \<and> same_disk s s'"
  proof (cases "sb_total_inodes (superblock fs) \<le> n")
    case True
    then show ?thesis using assms(1,4) ri
      by (auto simp: fsso_read_file_def fsso_read_inode_def read_result_def same_disk_def)
  next
    case False
    with assms(1,2) ri have r: "rc1 = 0" "inode = disk_inode (content s) (unat n)" "same_disk s s1"
      using read_inode_disk [of s n fs "stack_inode io s" rc1 inode s1]
      by (simp_all add: inode_on_disk_def not_le)
    obtain br out1 s2 where rb: "read_blocks io (i_direct inode) 0 out maxsz (stk s1) s1 = (br, out1, s2)"
      by (metis prod_cases3)
    define F where "F = blocks_bytes (content s) (i_direct inode)"
    define t where "t = min (length F) (unat maxsz)"
    have len: "length (i_direct inode) = 12" by (simp add: r disk_inode_def get_inode_def)
    have "unat br = t" "out1 = take t F @ drop t out" "same_disk s s2"
      using read_blocks_disk [OF _ stk_length _ _ _ _ rb] assms(2,3) r len False
      by (simp_all add: same_disk_def inode_on_disk_def Let_def F_def t_def not_le)
    moreover have "length F \<le> 12288"
      using length_takeWhile_le [of _ "i_direct inode"] len
      by (simp add: F_def length_blocks_bytes data_blocks_def)
    then have "t \<le> 12288" by (simp add: t_def)
    then have "sint br = int t"
      using \<open>unat br = t\<close> by (simp add: sint_uint uint_nat signed_take_bit_int_eq_self)
    ultimately show ?thesis using assms(4) ri r rb False
      by (auto simp: fsso_read_file_def read_result_def F_def t_def Let_def split: if_splits)
  qed
  then show "(rc, out') = read_result (content s) fs n out maxsz" "same_disk s s'" by simp_all
qed

lemma mount_disk:
  assumes "ok s" "2 \<le> sectors" "fsso_mount io fs s = (rc, fs', s')"
  shows "(if get64 (content s) 0 = FSSO_MAGIC
      then rc = 0 \<and> fs' = fs\<lparr>superblock := get_superblock (content s) 0, disk_start_block := 0\<rparr>
      else rc = -1 \<and> fs' = fs) \<and> same_disk s s'"
proof -
  obtain buf s1 where rb: "read_block io 0 (stk s) s = (buf, s1)" by fastforce
  note rd = read_block_disk [OF assms(1) stk_length _ rb]
  have sb: "get_superblock ((!) buf) 0 = get_superblock (content s) 0"
    using assms(2) by (intro get_superblock_cong) (simp add: rd(1))
  then have "get64 ((!) buf) 0 = get64 (content s) 0"
    by (simp add: get_superblock_def del: get_le.simps)
  with assms rd(2) rb sb show ?thesis
    by (auto simp: fsso_mount_def get_superblock_def Let_def simp del: get_le.simps)
qed

lemma resolve_loop_disk:
  shows "same_disk s0 s \<Longrightarrow> is_cstr p \<Longrightarrow>
    walk_on_disk sectors (content s0) fs cur (path_components p) \<Longrightarrow> resolve_loop io fs p cur out s = (rc, r, s') \<Longrightarrow>
    (rc, r) = (case walk (content s0) fs cur (path_components p) of None \<Rightarrow> (-1, out) | Some i \<Rightarrow> (0, i)) \<and>
    same_disk s0 s'"
proof (induction "length p" arbitrary: p cur s rule: less_induct)
  case less
  show ?case
  proof (cases "p = []")
    case True
    with less.prems show ?thesis by (simp add: resolve_loop.simps)
  next
    case False
    obtain component p1 where sc: "scan_component p [] = (component, p1)" by fastforce
    note c = scan_component_cstr [OF less.prems(2) sc]
    note shorter = scan_skip_shorter [OF False sc]
    show ?thesis
    proof (cases "component = []")
      case True
      with less.prems(4) False sc have "resolve_loop io fs (skip_dot p1) cur out s = (rc, r, s')"
        by (simp add: resolve_loop.simps [of io fs p])
      with less.hyps [OF shorter less.prems(1)] less.prems(3) c True show ?thesis
        by (simp add: path_components_scan [OF sc])
    next
      case comp: False
      obtain frc nxt s1 where fd: "fsso_find_in_dir io fs cur component 0 s = (frc, nxt, s1)"
        by (metis prod_cases3)
      have f: "(frc, nxt) = find_result (content s0) fs cur component 0" "same_disk s s1"
        using find_in_dir_disk [OF _ _ _ _ fd] less.prems(1,3) c comp
        by (simp_all add: same_disk_def path_components_scan [OF sc])
      have s1: "same_disk s0 s1" using less.prems(1) f(2) by (rule same_disk_trans)
      show ?thesis
      proof (cases "frc = 0")
        case True
        with less.prems(4) False sc fd comp have "resolve_loop io fs (skip_dot p1) nxt out s1 = (rc, r, s')"
          by (simp add: resolve_loop.simps [of io fs p])
        with less.hyps [OF shorter s1, of nxt] less.prems(3) c comp True f(1) [symmetric] show ?thesis
          by (simp add: path_components_scan [OF sc])
      next
        case False
        with less.prems(4) \<open>p \<noteq> []\<close> sc fd comp have "(rc, r, s') = (-1, out, s1)"
          by (simp add: resolve_loop.simps [of io fs p])
        with False f(1) [symmetric] s1 comp show ?thesis
          by (simp add: path_components_scan [OF sc])
      qed
    qed
  qed
qed

end

end
