(* ===== verification/Image_Writes.thy ===== *)
theory Image_Writes
  imports Bitmap Fsso_Spec
begin

text \<open>
  What each writer of \<^verbatim>\<open>src/tools/mkfsso.c\<close> changes in the image, and what is read back from
  it: data blocks, inode, directory entry. These are the lemmas the theorems on \<open>fsso_add_file\<close>
  are assembled from.
\<close>

unbundle bit_operations_syntax

section \<open>Data blocks\<close>

lemma block_addr_eq: "b < 2 ^ 22 \<Longrightarrow> block_addr b = 1024 * b"
  by (simp add: block_addr_def unat_word_ariths unat_of_nat)

definition chunk :: "bytes \<Rightarrow> u32 \<Rightarrow> nat \<Rightarrow> bytes" where
  "chunk data sz i = take (min 1024 (unat sz - 1024 * i)) (drop (1024 * i) data)"

lemma length_chunk: "length (chunk data sz i) \<le> 1024"
  by (simp add: chunk_def)

lemma write_block_eq:
  assumes "b < 2 ^ 22" "1024 * i < unat sz" 
  shows "write_block data sz i b m = put_bytes m (1024 * b) (chunk data sz i)"
proof -
  have i: "1024 * i < 2 ^ 32" using assms(2) unat_u32_less [of sz] by simp
  then have off: "unat (of_nat i * 1024 :: u32) = 1024 * i"
    by (simp add: unat_word_ariths unat_of_nat)
  then have "(of_nat i * 1024 :: u32) \<le> sz" using assms(2) by (simp add: word_le_nat_alt)
  then have "unat (sz - of_nat i * 1024) = unat sz - 1024 * i"
    by (simp add: unat_diff_no_wrap off)
  then show ?thesis
    using assms(1) off
    by (auto simp: write_block_def Let_def block_addr_eq chunk_def word_less_nat_alt min_def)
qed

lemma write_data_other:
  "\<forall>b \<in> set bs. b < 2 ^ 22 \<and> (a < 1024 * b \<or> 1024 * b + 1024 \<le> a) \<Longrightarrow>
   1024 * (i + length bs) < unat sz + 1024 \<Longrightarrow> write_data data sz i bs m a = m a"
proof (induction bs arbitrary: i m)
  case (Cons b bs)
  then have "write_block data sz i b m a = m a"
    using length_chunk [of data sz i] by (auto simp: write_block_eq put_bytes_other)
  with Cons show ?case by simp
qed simp

lemma write_data_at:
  "\<forall>b \<in> set bs. b < 2 ^ 22 \<Longrightarrow> distinct bs \<Longrightarrow> 1024 * (i + length bs) < unat sz + 1024 \<Longrightarrow>
   k < length bs \<Longrightarrow> o' < length (chunk data sz (i + k)) \<Longrightarrow>
   write_data data sz i bs m (1024 * (bs ! k) + o') = chunk data sz (i + k) ! o'"
proof (induction bs arbitrary: i k m)
  case (Cons b bs)
  let ?a = "1024 * ((b # bs) ! k) + o'"
  have o': "o' < 1024" using Cons.prems(5) length_chunk [of data sz "i + k"] by simp
  show ?case
  proof (cases k)
    case 0
    have "?a < 1024 * c \<or> 1024 * c + 1024 \<le> ?a" if "c \<in> set bs" for c
    proof -
      from that Cons.prems(2) have "c \<noteq> b" by auto
      then have "c + 1 \<le> b \<or> b + 1 \<le> c" by linarith
      with o' 0 show ?thesis by auto
    qed
    then have "write_data data sz (Suc i) bs (write_block data sz i b m) ?a = write_block data sz i b m ?a"
      using Cons.prems by (intro write_data_other) auto
    with 0 Cons.prems show ?thesis by (simp add: write_block_eq put_bytes_in)
  next
    case (Suc k')
    with Cons show ?thesis by simp
  qed
qed simp

section \<open>The inode\<close>

lemma write_direct_other: "x < a + 16 + 4 * i \<or> a + 16 + 4 * (i + length bs) \<le> x \<Longrightarrow>
    write_direct a i bs m x = m x"
  by (induction bs arbitrary: i m) (auto simp: mem_simps simp del: put_le.simps)

lemma write_direct_at:
  "k < length bs \<Longrightarrow> get32 (write_direct a i bs m) (a + 16 + 4 * (i + k)) = of_nat (bs ! k)"
proof (induction bs arbitrary: i k m)
  case (Cons b bs)
  show ?case
  proof (cases k)
    case 0
    have "get32 (write_direct a (Suc i) bs m') (a + 16 + 4 * i) = get32 m' (a + 16 + 4 * i)" for m'
      by (rule get_le_cong) (simp add: write_direct_other)
    with 0 show ?thesis by (simp add: mem_simps add.assoc del: get_le.simps put_le.simps)
  next
    case (Suc k')
    with Cons.IH [of k' "Suc i"] Cons.prems show ?thesis
      by (simp add: algebra_simps del: get_le.simps put_le.simps)
  qed
qed simp

lemma write_inode_other:
  "length bs \<le> 12 \<Longrightarrow> x < mkfs_inode_addr n \<or> mkfs_inode_addr n + 76 \<le> x \<Longrightarrow> write_inode n sz bs m x = m x"
  by (auto simp: write_inode_def Let_def write_direct_other mem_simps simp del: put_le.simps)

lemma write_inode_reads:
  assumes "length bs \<le> 12"
  shows "get32 (write_inode n sz bs m) (mkfs_inode_addr n) = sz"
    and "write_inode n sz bs m (mkfs_inode_addr n + 12) = FSSO_TYPE_FILE"
    and "k < length bs \<Longrightarrow> get32 (write_inode n sz bs m) (mkfs_inode_addr n + 16 + 4 * k) = of_nat (bs ! k)"
    and "length bs \<le> k \<Longrightarrow> get32 (write_inode n sz bs m) (mkfs_inode_addr n + 16 + 4 * k) =
      get32 m (mkfs_inode_addr n + 16 + 4 * k)"
proof -
  let ?a = "mkfs_inode_addr n"
  have hd: "get_le k (write_direct ?a 0 bs m') x = (get_le k m' x :: 'w::len word)"
    if "x + k \<le> ?a + 16 \<or> ?a + 16 + 4 * length bs \<le> x" for k m' x
    by (rule get_le_cong) (use that in \<open>auto simp: write_direct_other\<close>)
  show "get32 (write_inode n sz bs m) ?a = sz"
    by (simp add: write_inode_def Let_def hd mem_simps del: get_le.simps put_le.simps)
  show "write_inode n sz bs m (?a + 12) = FSSO_TYPE_FILE"
    by (simp add: write_inode_def Let_def write_direct_other mem_simps del: get_le.simps put_le.simps)
  show "get32 (write_inode n sz bs m) (?a + 16 + 4 * k) = of_nat (bs ! k)" if "k < length bs"
    using write_direct_at [OF that, of ?a 0]
    by (simp add: write_inode_def Let_def del: get_le.simps put_le.simps)
  show "get32 (write_inode n sz bs m) (?a + 16 + 4 * k) = get32 m (?a + 16 + 4 * k)" if "length bs \<le> k"
    using that by (simp add: write_inode_def Let_def hd mem_simps del: get_le.simps put_le.simps)
qed

section \<open>The directory entry\<close>

lemma write_entry_other: "x < a \<or> a + 260 \<le> x \<Longrightarrow> write_entry a n name m x = m x"
  by (auto simp: write_entry_def Let_def mem_simps simp del: put_le.simps)

lemma write_entry_inode: "get32 (write_entry a n name m) a = of_nat n"
  by (simp add: write_entry_def Let_def mem_simps del: get_le.simps put_le.simps)

lemma write_entry_name:
  assumes "is_cstr name"
  shows "cname (write_entry a n name m) (a + 4) = take 255 name"
proof -
  have cs: "is_cstr (take 255 name)" using assms by (auto simp: is_cstr_def dest: in_set_takeD)
  show ?thesis
    unfolding cname_eq_iff [OF cs, simplified]
    by (auto simp: write_entry_def Let_def cstr_at_def put_bytes_in min_def simp del: put_le.simps)
qed

lemma cname_cong: "(\<And>i. i < 256 \<Longrightarrow> m (a + i) = m' (b + i)) \<Longrightarrow> cname m a = cname m' b"
  unfolding cname_def using get_bytes_cong [of 256 m a m' b] by simp

end
