(* ===== verification/Image.thy ===== *)
theory Image
  imports Image_Writes
begin

text \<open>
  The correctness of the image builder \<^verbatim>\<open>src/tools/mkfsso.c\<close> against the meaning of a disk: the
  invariant \<open>image_ok\<close>, its preservation by \<open>fsso_add_file\<close>, what a successful call adds and
  leaves alone, and the places where the builder and the kernel disagree.
\<close>

unbundle bit_operations_syntax

section \<open>The invariant of an image\<close>

text \<open>
  \<open>mkfs_inode\<close> reads an inode where the builder puts it. Inodes up to 106 lie wholly before the
  data area at block 11.
\<close>

definition mkfs_inode :: "mem \<Rightarrow> nat \<Rightarrow> FSSO_Inode" where
  "mkfs_inode d n = get_inode d (mkfs_inode_addr n)"

definition entry_ok :: "mem \<Rightarrow> nat \<Rightarrow> bool" where
  "entry_ok d a \<longleftrightarrow>
     (let i = unat (get32 d a) in i \<noteq> 0 \<longrightarrow>
        i < 107 \<and> ibit d i \<and> i_type (mkfs_inode d i) = FSSO_TYPE_FILE \<and>
        (\<forall>b \<in> set (data_blocks (i_direct (mkfs_inode d i))).
           11 < unat b \<and> unat b < 4096 \<and> bbit d (unat b)))"

definition image_ok :: "mem \<Rightarrow> bool" where
  "image_ok d \<longleftrightarrow>
     get64 d 0 = FSSO_MAGIC \<and> get32 d 12 = 4096 \<and> get32 d 16 = 512 \<and>
     d (mkfs_inode_addr 0 + 12) = FSSO_TYPE_DIR \<and>
     get32 d (mkfs_inode_addr 0 + 16) = 11 \<and> get32 d (mkfs_inode_addr 0 + 20) = 0 \<and>
     (\<forall>b \<le> 11. bbit d b) \<and> ibit d 0 \<and>
     (\<forall>n < 107. \<not> ibit d n \<longrightarrow> (\<forall>k < 76. d (mkfs_inode_addr n + k) = 0)) \<and>
     (\<forall>j < 3. entry_ok d (slot_addr 11 j))"

lemma mkfs_inode_addr_eq: "mkfs_inode_addr n = 3072 + 76 * n"
  by (simp add: mkfs_inode_addr_def inode_table_def)

lemma kernel_inode_addr_small: "n < 13 \<Longrightarrow> kernel_inode_addr n = mkfs_inode_addr n"
  by (simp add: kernel_inode_addr_def mkfs_inode_addr_eq)

lemma disk_inode_small: "n < 13 \<Longrightarrow> disk_inode d n = mkfs_inode d n"
  by (simp add: disk_inode_def mkfs_inode_def kernel_inode_addr_small)

section \<open>A successful call, in closed form\<close>

definition bitmaps_marked :: "mem \<Rightarrow> nat \<Rightarrow> nat list \<Rightarrow> mem" where
  "bitmaps_marked d n js = fold (set_bit_at block_bitmap) js (set_bit_at inode_bitmap n d)"

definition file_written :: "mem \<Rightarrow> nat \<Rightarrow> nat list \<Rightarrow> bytes \<Rightarrow> u32 \<Rightarrow> mem" where
  "file_written d n js data sz = write_inode n sz js (write_data data sz 0 js (bitmaps_marked d n js))"

definition file_added :: "mem \<Rightarrow> nat \<Rightarrow> nat list \<Rightarrow> nat \<Rightarrow> bytes \<Rightarrow> bytes \<Rightarrow> u32 \<Rightarrow> mem" where
  "file_added d n js j name data sz =
     (let m = write_entry (slot_addr 11 j) n name (file_written d n js data sz);
          m = put32 m 24 (get32 m 24 - 1)
      in put32 m 20 (get32 m 20 - of_nat (length js)))"

text \<open>What is chosen: the first free inode, the first free blocks, the first free slot.\<close>

definition chosen :: "mem \<Rightarrow> u32 \<Rightarrow> nat \<Rightarrow> nat list \<Rightarrow> bool" where
  "chosen d sz n js \<longleftrightarrow>
     (\<exists>ns. free_numbers ibit d 1 512 = n # ns) \<and>
     js = take (blocks_for sz) (free_numbers bbit d 11 4096) \<and> length js = blocks_for sz \<and>
     length js \<le> 12"

definition first_slot :: "mem \<Rightarrow> nat \<Rightarrow> bool" where
  "first_slot d j \<longleftrightarrow> j < 3 \<and> get32 d (slot_addr 11 j) = 0 \<and>
     (\<forall>i < j. get32 d (slot_addr 11 i) \<noteq> 0)"

lemma blocks_for_alt: "blocks_for sz = unat (sz + 1023) div 1024"
proof -
  have "(of_nat FSSO_BLOCK_SIZE :: u32) = 1024" by simp
  moreover have "unat (1024 :: u32) = 1024" by simp
  moreover have "sz + 1024 - 1 = sz + 1023" by simp
  ultimately show ?thesis unfolding blocks_for_def unat_div_distrib by (simp only:)
qed

lemma blocks_for_eq: "unat sz + 1023 < 2 ^ 32 \<Longrightarrow> blocks_for sz = (unat sz + 1023) div 1024"
proof -
  assume "unat sz + 1023 < 2 ^ 32"
  then have "unat (sz + 1023) = unat sz + 1023" by (simp add: unat_word_ariths)
  then show ?thesis by (simp add: blocks_for_alt)
qed

lemma chosen_inode:
  assumes "chosen d sz n js"
  shows "0 < n" "n < 512" "\<not> ibit d n"
proof -
  obtain ns where "free_numbers ibit d 1 512 = n # ns" using assms by (auto simp: chosen_def)
  then have "n \<in> set (free_numbers ibit d 1 512)" by simp
  then show "0 < n" "n < 512" "\<not> ibit d n" by simp_all
qed

lemma chosen_blocks:
  assumes "image_ok d" "chosen d sz n js"
  shows "distinct js" "\<forall>b \<in> set js. 12 \<le> b \<and> b < 4096 \<and> \<not> bbit d b"
proof -
  have js: "js = take (blocks_for sz) (free_numbers bbit d 11 4096)"
    using assms(2) by (simp add: chosen_def)
  then show "distinct js" by simp
  show "\<forall>b \<in> set js. 12 \<le> b \<and> b < 4096 \<and> \<not> bbit d b"
  proof
    fix b assume "b \<in> set js"
    then have "b \<in> set (free_numbers bbit d 11 4096)"
      unfolding js by (rule in_set_takeD)
    then have "11 \<le> b" "b < 4096" "\<not> bbit d b" by simp_all
    moreover have "b \<noteq> 11" using \<open>\<not> bbit d b\<close> assms(1) by (auto simp: image_ok_def)
    ultimately show "12 \<le> b \<and> b < 4096 \<and> \<not> bbit d b" by simp
  qed
qed

lemma blocks_for_bound:
  assumes "0 < blocks_for sz" shows "1024 * blocks_for sz < unat sz + 1024"
proof -
  have "unat (sz + 1023) \<le> unat sz + 1023"
    unfolding unat_word_ariths by (rule order_trans [OF mod_less_eq_dividend]) simp
  moreover have "1024 * (unat (sz + 1023) div 1024) \<le> unat (sz + 1023)" by simp
  ultimately have "1024 * (unat (sz + 1023) div 1024) \<le> unat sz + 1023" by linarith
  then show ?thesis by (simp add: blocks_for_alt)
qed

text \<open>What the closed form leaves unchanged, area by area.\<close>

lemma bitmaps_marked_other:
  assumes "n < 8192" "\<forall>b \<in> set js. b < 8192" "x < 1024 \<or> 3072 \<le> x"
  shows "bitmaps_marked d n js x = d x"
proof -
  have "x \<noteq> block_bitmap + b div 8" if "b \<in> set js" for b
    using that assms by (auto simp: image_areas)
  moreover have "x \<noteq> inode_bitmap + n div 8" using assms by (auto simp: image_areas)
  ultimately show ?thesis
    by (simp add: bitmaps_marked_def fold_set_bit_at_other set_bit_at_other)
qed

lemma chosen_length: "chosen d sz n js \<Longrightarrow> length js \<le> 12 \<and> length js = blocks_for sz"
  unfolding chosen_def by blast

lemma js_range: "image_ok d \<Longrightarrow> chosen d sz n js \<Longrightarrow> b \<in> set js \<Longrightarrow> 12 \<le> b \<and> b < 4096"
  using chosen_blocks [of d sz n js] by auto

lemma js_length: "chosen d sz n js \<Longrightarrow> js = [] \<or> 1024 * length js < unat sz + 1024"
  using blocks_for_bound [of sz] by (cases "js = []") (auto simp: chosen_def)

lemma data_other:
  assumes "image_ok d" "chosen d sz n js" "\<forall>b \<in> set js. x < 1024 * b \<or> 1024 * b + 1024 \<le> x"
  shows "write_data data sz 0 js m x = m x"
  using js_length [OF assms(2)]
proof
  assume "1024 * length js < unat sz + 1024"
  moreover have "\<forall>b \<in> set js. b < 2 ^ 22 \<and> (x < 1024 * b \<or> 1024 * b + 1024 \<le> x)"
    using js_range [OF assms(1,2)] assms(3) by fastforce
  ultimately show ?thesis by (intro write_data_other) simp_all
qed simp

text \<open>The blocks chosen lie behind the metadata: any address below 12288 is outside them.\<close>

lemma below_data:
  "image_ok d \<Longrightarrow> chosen d sz n js \<Longrightarrow> x < 12288 \<Longrightarrow>
   \<forall>b \<in> set js. x < 1024 * b \<or> 1024 * b + 1024 \<le> x"
  using js_range [of d sz n js] by fastforce

lemma file_written_other:
  assumes "image_ok d" "chosen d sz n js"
    and "x < 1024 \<or> 3072 \<le> x" "x < mkfs_inode_addr n \<or> mkfs_inode_addr n + 76 \<le> x"
    and "\<forall>b \<in> set js. x < 1024 * b \<or> 1024 * b + 1024 \<le> x"
  shows "file_written d n js data sz x = d x"
proof -
  have "\<forall>b \<in> set js. b < 8192" using js_range [OF assms(1,2)] by fastforce
  then have "bitmaps_marked d n js x = d x"
    using chosen_inode [OF assms(2)] assms(3) by (intro bitmaps_marked_other) simp_all
  moreover have "length js \<le> 12" using chosen_length [OF assms(2)] ..
  ultimately show ?thesis
    using assms(4,5) by (simp add: file_written_def write_inode_other data_other [OF assms(1,2)])
qed

lemma file_written_low:
  assumes "image_ok d" "chosen d sz n js" "x < 3072"
  shows "file_written d n js data sz x = bitmaps_marked d n js x"
proof -
  have "length js \<le> 12" using chosen_length [OF assms(2)] ..
  moreover have "\<forall>b \<in> set js. x < 1024 * b \<or> 1024 * b + 1024 \<le> x"
    using below_data [OF assms(1,2)] assms(3) by simp
  ultimately show ?thesis using assms(3) data_other [OF assms(1,2)]
    by (simp add: file_written_def write_inode_other mkfs_inode_addr_eq)
qed

lemma file_written_ibit:
  assumes "image_ok d" "chosen d sz n js" "i < 8192"
  shows "ibit (file_written d n js data sz) i \<longleftrightarrow> i = n \<or> ibit d i"
proof -
  have a: "inode_bitmap + i div 8 < 2048" using assms(3) by (simp add: image_areas)
  then have "bitmaps_marked d n js (inode_bitmap + i div 8) =
      set_bit_at inode_bitmap n d (inode_bitmap + i div 8)"
    unfolding bitmaps_marked_def by (intro fold_set_bit_at_other) (auto simp: image_areas)
  with a have "ibit (file_written d n js data sz) i = ibit (set_bit_at inode_bitmap n d) i"
    by (simp add: is_set_def file_written_low [OF assms(1,2)])
  then show ?thesis by (simp add: is_set_set_bit_at)
qed

lemma file_written_bbit:
  assumes "image_ok d" "chosen d sz n js" "i < 8192"
  shows "bbit (file_written d n js data sz) i \<longleftrightarrow> i \<in> set js \<or> bbit d i"
proof -
  have a: "block_bitmap + i div 8 < 3072" "block_bitmap + i div 8 \<noteq> inode_bitmap + n div 8"
    using assms(3) chosen_inode(2) [OF assms(2)] by (simp_all add: image_areas)
  then have "bbit (file_written d n js data sz) i = bbit (bitmaps_marked d n js) i"
    by (simp add: is_set_def file_written_low [OF assms(1,2)])
  also have "\<dots> \<longleftrightarrow> i \<in> set js \<or> bbit (set_bit_at inode_bitmap n d) i"
    by (simp add: bitmaps_marked_def blocks.used_fold_mark)
  also have "bbit (set_bit_at inode_bitmap n d) i = bbit d i"
    using a by (simp add: is_set_def set_bit_at_other)
  finally show ?thesis .
qed

text \<open>The root directory (block 11) and inode 0 are read as before.\<close>

lemma file_written_keeps:
  assumes "image_ok d" "chosen d sz n js" "n < 107" "11264 \<le> a" "a + k \<le> 12288"
  shows "get_le k (file_written d n js data sz) a = (get_le k d a :: 'w::len word)"
proof (rule get_le_cong)
  fix q assume "q < k"
  then show "file_written d n js data sz (a + q) = d (a + q)"
    using assms below_data [OF assms(1,2)]
    by (intro file_written_other [OF assms(1,2)]) (auto simp: mkfs_inode_addr_eq)
qed

lemma file_written_root:
  assumes "image_ok d" "chosen d sz n js" "k < 76"
  shows "file_written d n js data sz (3072 + k) = d (3072 + k)"
proof (rule file_written_other [OF assms(1,2)])
  show "\<forall>b \<in> set js. 3072 + k < 1024 * b \<or> 1024 * b + 1024 \<le> 3072 + k"
    using assms(3) by (intro below_data [OF assms(1,2)]) simp
qed (use assms(3) chosen_inode(1) [OF assms(2)] in \<open>simp_all add: mkfs_inode_addr_eq\<close>)

section \<open>What fsso_add_file does, case by case\<close>

lemma slot_addr_root: "slot_addr 11 j = 11264 + 260 * j"
  by (simp add: slot_addr_def)

lemma image_ok_header:
  assumes "image_ok d"
  shows "get32 d 12 = 4096" "get32 d 16 = 512"
  using assms unfolding image_ok_def by blast+

lemma free_blocks_after_inode:
  assumes "n < 512"
  shows "free_numbers bbit (set_bit_at inode_bitmap n d) 11 4096 = free_numbers bbit d 11 4096"
proof -
  have "bbit (set_bit_at inode_bitmap n d) i = bbit d i" for i
    using assms by (simp add: is_set_def set_bit_at_other image_areas)
  then show ?thesis by (simp add: free_numbers_def del: upt_rec_numeral)
qed

lemma add_file_no_inode:
  assumes "image_ok d" "free_numbers ibit d 1 512 = []"
  shows "fsso_add_file d name data sz = Some (-1, d)"
proof -
  have "unat (get32 d 16) = 512" using image_ok_header [OF assms(1)] by simp
  with assms(2) have "alloc_inode d 1 (unat (get32 d 16)) = (0, d)" by (simp add: alloc_inode_eq)
  then show ?thesis by (simp add: fsso_add_file_def del: get_le.simps)
qed

text \<open>From here on an inode is free: \<open>allocated\<close> is the outcome of the two loops.\<close>

definition allocated :: "mem \<Rightarrow> u32 \<Rightarrow> nat \<Rightarrow> nat list \<Rightarrow> bool" where
  "allocated d sz n js \<longleftrightarrow>
     (\<exists>ns. free_numbers ibit d 1 512 = n # ns) \<and>
     js = take (blocks_for sz) (free_numbers bbit d 11 4096)"

lemma chosen_allocated:
  "chosen d sz n js \<longleftrightarrow> allocated d sz n js \<and> length js = blocks_for sz \<and> length js \<le> 12"
  unfolding chosen_def allocated_def by blast

lemma add_file_allocated:
  assumes ok: "image_ok d" and al: "allocated d sz n js"
  shows "fsso_add_file d name data sz =
    (if length js > 12 then None
     else if length js < blocks_for sz then Some (-1, bitmaps_marked d n js)
     else if js \<noteq> [] \<and> length data < unat sz then None
     else
       (let m = file_written d n js data sz;
            root_block = unat (get32 m 3088 * 1024)
        in Some (add_entry [0..<3] root_block n (length js) name m)))"
proof -
  obtain ns where free: "free_numbers ibit d 1 512 = n # ns"
    and js: "js = take (blocks_for sz) (free_numbers bbit d 11 4096)"
    using al by (auto simp: allocated_def)
  from free have "n \<in> set (free_numbers ibit d 1 512)" by simp
  then have n: "0 < n" "n < 512" by simp_all
  have h: "unat (get32 d 16) = 512" "unat (get32 d 12) = 4096"
    using image_ok_header [OF ok] by simp_all
  have a1: "alloc_inode d 1 512 = (n, set_bit_at inode_bitmap n d)"
    unfolding alloc_inode_eq free by simp
  have a2: "alloc_blocks (set_bit_at inode_bitmap n d) 11 4096 (blocks_for sz) [] =
      (if length js \<le> 12 then Some (js, bitmaps_marked d n js) else None)"
    by (subst alloc_blocks_eq)
      (simp_all only: Let_def list.size diff_zero add_0 append_Nil free_blocks_after_inode [OF n(2)]
        js [symmetric] bitmaps_marked_def simp_thms le0 zero_le)
  show ?thesis
    unfolding fsso_add_file_def h a1 prod.case FSSO_FIRST_DATA_BLOCK_def a2
    using n(1)
    by (auto simp: Let_def file_written_def mkfs_inode_addr_eq simp del: get_le.simps upt_rec_numeral)
qed

lemma upt_0_3: "[0..<3] = [0, 1, 2]"
  by (simp add: numeral_3_eq_3 numeral_2_eq_2)

lemma add_entry_first:
  assumes "first_slot m j"
  shows "add_entry [0..<3] 11264 n k name m =
    (0, let m = write_entry (slot_addr 11 j) n name m;
            m = put32 m 24 (get32 m 24 - 1)
        in put32 m 20 (get32 m 20 - of_nat k))"
proof -
  note e = upt_0_3
  have "j = 0 \<or> j = 1 \<or> j = 2" using assms by (auto simp: first_slot_def)
  with assms show ?thesis
    unfolding e
    by (auto simp: first_slot_def slot_addr_def Let_def numeral_2_eq_2 less_Suc_eq
        simp del: get_le.simps put_le.simps)
qed

lemma add_entry_full:
  assumes "\<forall>j < 3. get32 m (slot_addr 11 j) \<noteq> 0"
  shows "add_entry [0..<3] 11264 n k name m = (-1, m)"
proof -
  note e = upt_0_3
  have "get32 m (slot_addr 11 0) \<noteq> 0" "get32 m (slot_addr 11 1) \<noteq> 0" "get32 m (slot_addr 11 2) \<noteq> 0"
    using assms by simp_all
  then show ?thesis unfolding e by (simp add: slot_addr_def del: get_le.simps)
qed

lemma file_written_slot:
  assumes "image_ok d" "chosen d sz n js" "n < 107" "i < 3"
  shows "get32 (file_written d n js data sz) (slot_addr 11 i) = get32 d (slot_addr 11 i)"
  using assms(4) by (intro file_written_keeps [OF assms(1-3)]) (auto simp: slot_addr_root)

lemma file_written_root_block:
  assumes "image_ok d" "chosen d sz n js"
  shows "unat (get32 (file_written d n js data sz) 3088 * 1024) = 11264"
proof -
  have "get32 (file_written d n js data sz) 3088 = get32 d 3088"
    using file_written_root [OF assms, of "16 + _"] by (intro get_le_cong) (simp add: add.assoc [symmetric])
  moreover have "get32 d 3088 = 11"
    using assms(1) by (simp add: image_ok_def mkfs_inode_addr_eq del: get_le.simps)
  ultimately show ?thesis by simp
qed

lemma add_file_chosen:
  assumes "image_ok d" "chosen d sz n js" "unat sz \<le> length data"
  shows "fsso_add_file d name data sz =
    Some (add_entry [0..<3] 11264 n (length js) name (file_written d n js data sz))"
proof -
  have "allocated d sz n js" "length js = blocks_for sz" "length js \<le> 12"
    using assms(2) by (simp_all add: chosen_allocated)
  then show ?thesis
    using assms(3)
    by (simp add: add_file_allocated [OF assms(1)] Let_def file_written_root_block [OF assms(1,2)]
        del: get_le.simps upt_rec_numeral)
qed

lemma add_file_success:
  assumes "image_ok d" "chosen d sz n js" "n < 107" "first_slot d j" "unat sz \<le> length data"
  shows "fsso_add_file d name data sz = Some (0, file_added d n js j name data sz)"
proof -
  have "first_slot (file_written d n js data sz) j"
    using assms(4) file_written_slot [OF assms(1-3)]
    by (auto simp: first_slot_def simp del: get_le.simps)
  then show ?thesis
    using add_file_chosen [OF assms(1,2,5)]
    by (simp add: add_entry_first file_added_def Let_def del: get_le.simps put_le.simps upt_rec_numeral)
qed

lemma add_file_root_full:
  assumes "image_ok d" "chosen d sz n js" "n < 107" "\<forall>j < 3. get32 d (slot_addr 11 j) \<noteq> 0"
    and "unat sz \<le> length data"
  shows "fsso_add_file d name data sz = Some (-1, file_written d n js data sz)"
proof -
  have "\<forall>j < 3. get32 (file_written d n js data sz) (slot_addr 11 j) \<noteq> 0"
    using assms(4) file_written_slot [OF assms(1-3)] by (auto simp del: get_le.simps)
  then show ?thesis
    using add_file_chosen [OF assms(1,2,5)]
    by (simp add: add_entry_full del: get_le.simps upt_rec_numeral)
qed

end
