(* ===== verification/Image_Add.thy ===== *)
theory Image_Add
  imports Image
begin

text \<open>
  What a successful \<open>fsso_add_file\<close> (\<^verbatim>\<open>src/tools/mkfsso.c\<close>) leaves in the image: the new inode, its
  blocks and its directory entry read back as written, everything else is as before, and the
  invariant \<open>image_ok\<close> holds again.
\<close>

unbundle bit_operations_syntax

section \<open>The closed form read back\<close>

text \<open>The hypotheses of a successful call, shared by the lemmas below.\<close>

definition adding :: "mem \<Rightarrow> u32 \<Rightarrow> nat \<Rightarrow> nat list \<Rightarrow> nat \<Rightarrow> bool" where
  "adding d sz n js j \<longleftrightarrow> image_ok d \<and> chosen d sz n js \<and> n < 107 \<and> first_slot d j"

lemma addingD:
  assumes "adding d sz n js j"
  shows "image_ok d" "chosen d sz n js" "n < 107" "first_slot d j" "j < 3" "0 < n"
    "length js \<le> 12" "length js = blocks_for sz" "distinct js" "\<not> ibit d n"
  using assms chosen_inode [of d sz n js] chosen_length [of d sz n js] chosen_blocks [of d sz n js]
  by (auto simp: adding_def first_slot_def)

lemma adding_blocks: "adding d sz n js j \<Longrightarrow> b \<in> set js \<Longrightarrow> 12 \<le> b \<and> b < 4096 \<and> \<not> bbit d b"
  using chosen_blocks [of d sz n js] by (auto simp: adding_def)

lemma file_added_other:
  assumes "x < 20 \<or> 28 \<le> x" "x < slot_addr 11 j \<or> slot_addr 11 j + 260 \<le> x"
  shows "file_added d n js j name data sz x = file_written d n js data sz x"
  using assms by (auto simp: file_added_def Let_def write_entry_other put_le_other simp del: put_le.simps)

lemma file_added_get:
  assumes "28 \<le> a" "a + k \<le> slot_addr 11 j \<or> slot_addr 11 j + 260 \<le> a"
  shows "get_le k (file_added d n js j name data sz) a = (get_le k (file_written d n js data sz) a :: 'w::len word)"
  by (rule get_le_cong) (use assms in \<open>auto intro!: file_added_other\<close>)

lemma slot_addr_low: "11264 \<le> slot_addr 11 j" "j < 3 \<Longrightarrow> slot_addr 11 j + 260 \<le> 12044"
  by (simp_all add: slot_addr_root)

text \<open>The whole frame of the call: which bytes are those of the old image.\<close>

lemma file_added_frame:
  assumes "adding d sz n js j"
    and "x < 20 \<or> 28 \<le> x \<and> x < 1024 \<or> 3072 \<le> x"
    and "x < mkfs_inode_addr n \<or> mkfs_inode_addr n + 76 \<le> x"
    and "x < slot_addr 11 j \<or> slot_addr 11 j + 260 \<le> x"
    and "\<forall>b \<in> set js. x < 1024 * b \<or> 1024 * b + 1024 \<le> x"
  shows "file_added d n js j name data sz x = d x"
proof -
  note a = addingD [OF assms(1)]
  have "file_added d n js j name data sz x = file_written d n js data sz x"
    using assms(2,4) by (intro file_added_other) auto
  also have "\<dots> = d x" using assms by (intro file_written_other [OF a(1,2)]) auto
  finally show ?thesis .
qed

lemma file_added_bits:
  assumes "adding d sz n js j" "i < 8192"
  shows "ibit (file_added d n js j name data sz) i \<longleftrightarrow> i = n \<or> ibit d i"
    and "bbit (file_added d n js j name data sz) i \<longleftrightarrow> i \<in> set js \<or> bbit d i"
proof -
  note a = addingD [OF assms(1)]
  have "1024 + i div 8 < 11264" "2048 + i div 8 < 11264" using assms(2) by simp_all
  then have s: "file_added d n js j name data sz (1024 + i div 8) = file_written d n js data sz (1024 + i div 8)"
    "file_added d n js j name data sz (2048 + i div 8) = file_written d n js data sz (2048 + i div 8)"
    using slot_addr_low(1) [of j] by (auto intro!: file_added_other)
  then show "ibit (file_added d n js j name data sz) i \<longleftrightarrow> i = n \<or> ibit d i"
    "bbit (file_added d n js j name data sz) i \<longleftrightarrow> i \<in> set js \<or> bbit d i"
    using file_written_ibit [OF a(1,2) assms(2)] file_written_bbit [OF a(1,2) assms(2)]
    by (simp_all add: is_set_def image_areas)
qed

lemma file_added_inode_other:
  assumes "adding d sz n js j" "i < 107" "i \<noteq> n"
  shows "mkfs_inode (file_added d n js j name data sz) i = mkfs_inode d i"
  unfolding mkfs_inode_def
proof (rule get_inode_cong)
  fix k assume k: "k < sizeof_Inode"
  let ?x = "mkfs_inode_addr i + k"
  note a = addingD [OF assms(1)]
  have x: "3072 \<le> ?x" "?x < 11264" using assms(2) k by (simp_all add: mkfs_inode_addr_eq)
  have "i < n \<or> n < i" using assms(3) by linarith
  then have "?x < mkfs_inode_addr n \<or> mkfs_inode_addr n + 76 \<le> ?x"
    using k by (auto simp: mkfs_inode_addr_eq)
  with x show "file_added d n js j name data sz ?x = d ?x"
    using below_data [OF a(1,2)] slot_addr_low(1) [of j] by (intro file_added_frame [OF assms(1)]) auto
qed

lemma inode_zero_before:
  assumes "image_ok d" "n < 107" "\<not> ibit d n" "k < 76"
  shows "d (mkfs_inode_addr n + k) = 0"
  using assms unfolding image_ok_def by blast

lemma file_added_inode_get:
  assumes "n < 107" "p + k \<le> 76"
  shows "get_le k (file_added d n js j name data sz) (mkfs_inode_addr n + p) =
    (get_le k (file_written d n js data sz) (mkfs_inode_addr n + p) :: 'w::len word)"
  using assms slot_addr_low(1) [of j] by (intro file_added_get) (auto simp: mkfs_inode_addr_eq)

lemma file_added_inode:
  fixes d :: mem and name data :: bytes
  assumes "adding d sz n js j"
  defines "i \<equiv> mkfs_inode (file_added d n js j name data sz) n"
  shows "i_size i = sz" "i_type i = FSSO_TYPE_FILE"
    "i_direct i = map of_nat js @ replicate (12 - length js) 0"
proof -
  note a = addingD [OF assms(1)]
  let ?m = "write_data data sz 0 js (bitmaps_marked d n js)"
  let ?w = "file_written d n js data sz"
  have w: "?w = write_inode n sz js ?m" by (simp add: file_written_def)
  have low: "mkfs_inode_addr n + 76 \<le> 11264" "3072 \<le> mkfs_inode_addr n"
    using a(3) by (simp_all add: mkfs_inode_addr_eq)
  note g = file_added_inode_get [OF a(3)]
  note r = write_inode_reads [OF a(7), where n = n and sz = sz and m = ?m, folded w]
  show "i_size i = sz"
    using r(1) by (simp add: i_def mkfs_inode_def get_inode_def g [of 0 4, simplified] del: get_le.simps)
  show "i_type i = FSSO_TYPE_FILE"
    using r(2) low slot_addr_low(1) [of j]
    by (simp add: i_def mkfs_inode_def get_inode_def file_added_other)
  have z: "get32 ?m (mkfs_inode_addr n + (16 + 4 * k)) = 0" if "k < 12" for k
  proof -
    show "get32 ?m (mkfs_inode_addr n + (16 + 4 * k)) = 0"
    proof (rule get_le_zeros)
      fix q :: nat assume q: "q < 4"
      let ?x = "mkfs_inode_addr n + (16 + 4 * k + q)"
      have x: "?x < 11264" "3072 \<le> ?x" using low q that by simp_all
      have js: "\<forall>b \<in> set js. b < 8192" using adding_blocks [OF assms(1)] by fastforce
      have "?m ?x = bitmaps_marked d n js ?x"
        using x by (intro data_other [OF a(1,2)] below_data [OF a(1,2)]) simp
      also have "\<dots> = d ?x" using x a(3) js by (intro bitmaps_marked_other) auto
      also have "\<dots> = 0" using q that a by (intro inode_zero_before) auto
      finally show "?m (mkfs_inode_addr n + (16 + 4 * k) + q) = 0" by (simp add: add.assoc)
    qed
  qed
  have e: "get32 (file_added d n js j name data sz) (mkfs_inode_addr n + (16 + 4 * k)) =
      (if k < length js then of_nat (js ! k) else 0)" if "k < 12" for k
    using that r(3,4) [of k] z [OF that] by (simp add: g add.assoc del: get_le.simps)
  show "i_direct i = map of_nat js @ replicate (12 - length js) 0"
    by (rule nth_equalityI)
      (use a(7) e in \<open>auto simp: i_def mkfs_inode_def get_inode_def nth_append simp del: get_le.simps\<close>)
qed

section \<open>The contents\<close>

lemma concat_blocks_nth:
  "(\<And>b. b \<in> set bs \<Longrightarrow> length (f b) = 1024) \<Longrightarrow> q < 1024 * length bs \<Longrightarrow>
   concat (map f bs) ! q = f (bs ! (q div 1024)) ! (q mod 1024)"
proof (induction bs arbitrary: q)
  case (Cons b bs)
  show ?case
  proof (cases "q < 1024")
    case True
    with Cons.prems show ?thesis by (simp add: nth_append)
  next
    case False
    then obtain r where q: "q = r + 1024" by (metis add.commute le_Suc_ex not_less)
    have "concat (map f bs) ! r = f (bs ! (r div 1024)) ! (r mod 1024)"
      using Cons.prems q by (intro Cons.IH) auto
    moreover have "(r + 1024) div 1024 = Suc (r div 1024)" by simp
    ultimately show ?thesis using Cons.prems by (simp add: q nth_append)
  qed
qed simp

lemma length_concat_blocks:
  "(\<And>b. b \<in> set bs \<Longrightarrow> length (f b) = 1024) \<Longrightarrow> length (concat (map f bs)) = 1024 * length bs"
  by (induction bs) auto

lemma data_blocks_added:
  assumes "\<forall>b \<in> set js. 0 < b \<and> b < 4096"
  shows "data_blocks (map of_nat js @ replicate k 0) = map of_nat js"
proof -
  have "(of_nat b :: u32) \<noteq> 0" if "b \<in> set js" for b
  proof -
    have "unat (of_nat b :: u32) = b" using that assms by (fastforce simp: unat_of_nat)
    then show ?thesis using that assms by fastforce
  qed
  then have "\<forall>c \<in> set (map of_nat js :: u32 list). c \<noteq> 0" by simp
  then show ?thesis
    unfolding data_blocks_def by (subst takeWhile_append2) (blast, cases k, simp_all)
qed

lemma unat_block:
  "adding d sz n js j \<Longrightarrow> b \<in> set js \<Longrightarrow> unat (of_nat b :: u32) = b"
  using adding_blocks [of d sz n js j b] by (simp add: unat_of_nat)

lemma blocks_bytes_added:
  assumes "adding d sz n js j"
  shows "blocks_bytes m (map of_nat js @ replicate k 0) = concat (map (\<lambda>b. get_bytes m (1024 * b) 1024) js)"
proof -
  have "\<forall>b \<in> set js. 0 < b \<and> b < 4096" using adding_blocks [OF assms] by fastforce
  moreover have "map (\<lambda>b. get_bytes m (1024 * unat (of_nat b :: u32)) 1024) js =
      map (\<lambda>b. get_bytes m (1024 * b) 1024) js"
    using unat_block [OF assms] by simp
  ultimately show ?thesis by (simp add: blocks_bytes_def data_blocks_added comp_def cong: map_cong)
qed

lemma file_added_data:
  assumes "adding d sz n js j" "unat sz \<le> length data" "k < length js" "1024 * k + q < unat sz" "q < 1024"
  shows "file_added d n js j name data sz (1024 * (js ! k) + q) = data ! (1024 * k + q)"
proof -
  note a = addingD [OF assms(1)]
  let ?x = "1024 * (js ! k) + q"
  have "12 \<le> js ! k" using adding_blocks [OF assms(1)] assms(3) by simp
  then have x: "12288 \<le> ?x" by simp
  have "file_added d n js j name data sz ?x = file_written d n js data sz ?x"
    using x slot_addr_low(2) [OF a(5)] by (intro file_added_other) auto
  also have "\<dots> = write_data data sz 0 js (bitmaps_marked d n js) ?x"
    using x a(3,7) by (simp add: file_written_def write_inode_other mkfs_inode_addr_eq)
  also have "\<dots> = chunk data sz (0 + k) ! q"
  proof (rule write_data_at)
    show "\<forall>b \<in> set js. b < 2 ^ 22" using adding_blocks [OF assms(1)] by fastforce
    show "1024 * (0 + length js) < unat sz + 1024" using js_length [OF a(2)] assms(3) by auto
    show "q < length (chunk data sz (0 + k))" using assms(2,4,5) by (simp add: chunk_def)
  qed (use a assms in auto)
  also have "\<dots> = data ! (1024 * k + q)" using assms(2,4,5) by (simp add: chunk_def)
  finally show ?thesis .
qed

lemma file_added_contents:
  assumes "adding d sz n js j" "unat sz \<le> length data" "unat sz + 1023 < 2 ^ 32"
  shows "take (unat sz) (blocks_bytes (file_added d n js j name data sz)
    (i_direct (mkfs_inode (file_added d n js j name data sz) n))) = take (unat sz) data"
    (is "take _ ?bs = _")
proof -
  note a = addingD [OF assms(1)]
  let ?m = "file_added d n js j name data sz"
  have bs: "?bs = concat (map (\<lambda>b. get_bytes ?m (1024 * b) 1024) js)"
    by (simp only: file_added_inode(3) [OF assms(1)] blocks_bytes_added [OF assms(1)])
  have sz: "unat sz \<le> 1024 * length js"
    using a(7,8) assms(3) by (simp add: blocks_for_eq)
  then have len: "length (take (unat sz) ?bs) = unat sz" by (simp add: bs length_concat_blocks)
  show ?thesis
  proof (rule nth_equalityI)
    show "length (take (unat sz) ?bs) = length (take (unat sz) data)" using len assms(2) by simp
    fix q assume "q < length (take (unat sz) ?bs)"
    then have q: "q < unat sz" by (simp add: len)
    have qd: "1024 * (q div 1024) + q mod 1024 = q" by simp
    have k: "q div 1024 < length js" using q sz by (simp add: div_less_iff_less_mult mult.commute)
    have "take (unat sz) ?bs ! q = get_bytes ?m (1024 * (js ! (q div 1024))) 1024 ! (q mod 1024)"
      using q sz unfolding bs by (simp add: concat_blocks_nth)
    also have "\<dots> = data ! q"
      using file_added_data [OF assms(1,2) k, of "q mod 1024" name] q qd by simp
    finally show "take (unat sz) ?bs ! q = take (unat sz) data ! q" using q by simp
  qed
qed

section \<open>The directory\<close>

lemma file_added_slot_write:
  assumes "28 \<le> x"
  shows "file_added d n js j name data sz x = write_entry (slot_addr 11 j) n name (file_written d n js data sz) x"
  using assms by (simp add: file_added_def Let_def put_le_other del: put_le.simps)

lemma file_added_slot:
  "get32 (file_added d n js j name data sz) (slot_addr 11 j) = of_nat n"
  "is_cstr name \<Longrightarrow> cname (file_added d n js j name data sz) (slot_addr 11 j + 4) = take 255 name"
proof -
  let ?w = "write_entry (slot_addr 11 j) n name (file_written d n js data sz)"
  have "get32 (file_added d n js j name data sz) (slot_addr 11 j) = get32 ?w (slot_addr 11 j)"
    by (rule get_le_cong) (use slot_addr_low(1) [of j] in \<open>simp add: file_added_slot_write\<close>)
  then show "get32 (file_added d n js j name data sz) (slot_addr 11 j) = of_nat n"
    by (simp add: write_entry_inode del: get_le.simps)
  have "cname (file_added d n js j name data sz) (slot_addr 11 j + 4) = cname ?w (slot_addr 11 j + 4)"
    by (rule cname_cong) (use slot_addr_low(1) [of j] in \<open>simp add: file_added_slot_write\<close>)
  then show "is_cstr name \<Longrightarrow> cname (file_added d n js j name data sz) (slot_addr 11 j + 4) = take 255 name"
    by (simp add: write_entry_name)
qed

lemma file_added_other_slot:
  assumes "adding d sz n js j" "i < 3" "i \<noteq> j"
  shows "get32 (file_added d n js j name data sz) (slot_addr 11 i) = get32 d (slot_addr 11 i)"
    and "cname (file_added d n js j name data sz) (slot_addr 11 i + 4) = cname d (slot_addr 11 i + 4)"
proof -
  note a = addingD [OF assms(1)]
  have same: "file_added d n js j name data sz (slot_addr 11 i + k) = d (slot_addr 11 i + k)" if "k < 260" for k
  proof (rule file_added_frame [OF assms(1)])
    show "\<forall>b \<in> set js. slot_addr 11 i + k < 1024 * b \<or> 1024 * b + 1024 \<le> slot_addr 11 i + k"
      using that assms(2) by (intro below_data [OF a(1,2)]) (simp add: slot_addr_root)
    have "i < j \<or> j < i" using assms(3) by linarith
    then show "slot_addr 11 i + k < slot_addr 11 j \<or> slot_addr 11 j + 260 \<le> slot_addr 11 i + k"
      using that by (auto simp: slot_addr_root)
  qed (use that a(3) in \<open>simp_all add: slot_addr_root mkfs_inode_addr_eq\<close>)
  show "get32 (file_added d n js j name data sz) (slot_addr 11 i) = get32 d (slot_addr 11 i)"
    by (rule get_le_cong) (simp add: same)
  show "cname (file_added d n js j name data sz) (slot_addr 11 i + 4) = cname d (slot_addr 11 i + 4)"
    by (rule cname_cong) (use same [of "4 + _"] in \<open>simp add: add.assoc\<close>)
qed

text \<open>The entries of a block as the list of its used slots, in terms of a slot function.\<close>

definition root_lookup :: "mem \<Rightarrow> bytes \<Rightarrow> u32 option" where
  "root_lookup d name = map_of (block_entries d 11) name"

lemma map_of_slots_cong:
  "(\<And>i. i \<in> set is \<Longrightarrow> get32 m (slot_addr b i) = get32 m' (slot_addr b i) \<and>
      cname m (slot_addr b i + 4) = cname m' (slot_addr b i + 4)) \<Longrightarrow>
   slots_entries m b is = slots_entries m' b is"
  unfolding slots_entries_def by (intro map_cong filter_cong) (auto simp del: get_le.simps)

lemma root_lookup_added:
  assumes "adding d sz n js j" "is_cstr name" "root_lookup d (take 255 name) = None"
  shows "root_lookup (file_added d n js j name data sz) = (root_lookup d)(take 255 name \<mapsto> of_nat n)"
proof -
  note a = addingD [OF assms(1)]
  let ?m = "file_added d n js j name data sz"
  have split: "[0..<3] = [0..<j] @ j # [Suc j..<3]"
    using upt_add_eq_append [of 0 j "3 - j"] upt_conv_Cons [OF a(5)] a(5) by simp
  have low: "slots_entries ?m 11 [0..<j] = slots_entries d 11 [0..<j]"
    using a(5) file_added_other_slot [OF assms(1)] by (intro map_of_slots_cong) auto
  have high: "slots_entries ?m 11 [Suc j..<3] = slots_entries d 11 [Suc j..<3]"
    using file_added_other_slot [OF assms(1)] by (intro map_of_slots_cong) auto
  have n0: "(of_nat n :: u32) \<noteq> 0"
  proof -
    have "unat (of_nat n :: u32) = n" using a(3) by (simp add: unat_of_nat)
    with a(6) show ?thesis by fastforce
  qed
  have free: "get32 d (slot_addr 11 j) = 0" using a(4) by (simp add: first_slot_def del: get_le.simps)
  have new: "block_entries ?m 11 = slots_entries d 11 [0..<j] @ (take 255 name, of_nat n) # slots_entries d 11 [Suc j..<3]"
    unfolding block_entries_def split low [symmetric] high [symmetric]
    by (simp add: slots_entries_def file_added_slot(1) file_added_slot(2) [OF assms(2)] n0 del: get_le.simps)
  have old: "block_entries d 11 = slots_entries d 11 [0..<j] @ slots_entries d 11 [Suc j..<3]"
    unfolding block_entries_def split by (simp add: slots_entries_def free del: get_le.simps)
  show ?thesis
    using assms(3) unfolding root_lookup_def new old
    by (auto simp: fun_eq_iff map_add_def split: option.splits)
qed

section \<open>The invariant is kept\<close>

lemma file_added_low:
  assumes "adding d sz n js j" "x < 20 \<or> 3072 \<le> x \<and> x < 3148"
  shows "file_added d n js j name data sz x = d x"
proof (rule file_added_frame [OF assms(1)])
  note a = addingD [OF assms(1)]
  show "\<forall>b \<in> set js. x < 1024 * b \<or> 1024 * b + 1024 \<le> x"
    using assms(2) by (intro below_data [OF a(1,2)]) auto
qed (use assms(2) addingD(6) [OF assms(1)] slot_addr_low(1) [of j] in \<open>auto simp: mkfs_inode_addr_eq\<close>)

lemma file_added_low_get:
  assumes "adding d sz n js j" "a + k \<le> 20 \<or> 3072 \<le> a \<and> a + k \<le> 3148"
  shows "get_le k (file_added d n js j name data sz) a = (get_le k d a :: 'w::len word)"
  by (rule get_le_cong) (use assms(2) in \<open>auto intro!: file_added_low [OF assms(1)]\<close>)

lemma entry_ok_added_other:
  assumes "adding d sz n js j" "i < 3" "i \<noteq> j" "entry_ok d (slot_addr 11 i)"
  shows "entry_ok (file_added d n js j name data sz) (slot_addr 11 i)"
proof -
  note a = addingD [OF assms(1)]
  let ?m = "file_added d n js j name data sz"
  define e where "e = unat (get32 d (slot_addr 11 i))"
  have e: "unat (get32 ?m (slot_addr 11 i)) = e"
    by (simp add: e_def file_added_other_slot(1) [OF assms(1-3)] del: get_le.simps)
  show ?thesis
  proof (cases "e = 0")
    case True
    then show ?thesis by (simp add: entry_ok_def e Let_def del: get_le.simps)
  next
    case False
    with assms(4) have old: "e < 107" "ibit d e" "i_type (mkfs_inode d e) = FSSO_TYPE_FILE"
      "\<forall>b \<in> set (data_blocks (i_direct (mkfs_inode d e))). 11 < unat b \<and> unat b < 4096 \<and> bbit d (unat b)"
      by (auto simp: entry_ok_def e_def Let_def simp del: get_le.simps)
    then have "e \<noteq> n" using a(10) by auto
    with old show ?thesis
      by (auto simp: entry_ok_def e Let_def file_added_bits [OF assms(1)] file_added_inode_other [OF assms(1)]
          simp del: get_le.simps)
  qed
qed

lemma entry_ok_added:
  assumes "adding d sz n js j"
  shows "entry_ok (file_added d n js j name data sz) (slot_addr 11 j)"
proof -
  note a = addingD [OF assms]
  let ?m = "file_added d n js j name data sz"
  have n: "unat (of_nat n :: u32) = n" using a(3) by (simp add: unat_of_nat)
  have pos: "\<forall>b \<in> set js. 0 < b \<and> b < 4096" using adding_blocks [OF assms] by fastforce
  have blocks: "data_blocks (i_direct (mkfs_inode ?m n)) = map of_nat js"
    by (simp only: file_added_inode(3) [OF assms] data_blocks_added [OF pos])
  have "11 < unat b \<and> unat b < 4096 \<and> bbit ?m (unat b)" if "b \<in> set (map of_nat js)" for b :: u32
  proof -
    from that obtain c where c: "c \<in> set js" "b = of_nat c" by auto
    with unat_block [OF assms] adding_blocks [OF assms c(1)] file_added_bits(2) [OF assms, of c]
    show ?thesis by simp
  qed
  with a(3) show ?thesis
    by (simp add: entry_ok_def file_added_slot(1) n Let_def blocks file_added_bits [OF assms]
        file_added_inode(2) [OF assms] del: get_le.simps)
qed

lemma image_ok_added:
  assumes "adding d sz n js j"
  shows "image_ok (file_added d n js j name data sz)"
  unfolding image_ok_def
proof (intro conjI allI impI)
  note a = addingD [OF assms]
  note ok = a(1) [unfolded image_ok_def]
  let ?m = "file_added d n js j name data sz"
  show "get64 ?m 0 = FSSO_MAGIC" "get32 ?m 12 = 4096" "get32 ?m 16 = 512"
    using ok by (simp_all add: file_added_low_get [OF assms] del: get_le.simps)
  show "?m (mkfs_inode_addr 0 + 12) = FSSO_TYPE_DIR" "get32 ?m (mkfs_inode_addr 0 + 16) = 11"
    "get32 ?m (mkfs_inode_addr 0 + 20) = 0"
    using ok by (simp_all add: mkfs_inode_addr_eq file_added_low [OF assms] file_added_low_get [OF assms] del: get_le.simps)
  show "bbit ?m b" if "b \<le> 11" for b using that ok by (simp add: file_added_bits [OF assms])
  show "ibit ?m 0" using ok by (simp add: file_added_bits [OF assms])
  show "entry_ok ?m (slot_addr 11 i)" if "i < 3" for i
    using that ok entry_ok_added [OF assms] entry_ok_added_other [OF assms that] by (cases "i = j") auto
  fix i k assume i: "i < 107" "\<not> ibit ?m i" and k: "(k :: nat) < 76"
  then have "\<not> ibit d i" "i \<noteq> n" by (auto simp: file_added_bits [OF assms])
  then have z: "d (mkfs_inode_addr i + k) = 0" using i k by (intro inode_zero_before [OF a(1)])
  have "?m (mkfs_inode_addr i + k) = d (mkfs_inode_addr i + k)"
  proof (rule file_added_frame [OF assms])
    show "\<forall>b \<in> set js. mkfs_inode_addr i + k < 1024 * b \<or> 1024 * b + 1024 \<le> mkfs_inode_addr i + k"
      using i(1) k by (intro below_data [OF a(1,2)]) (simp add: mkfs_inode_addr_eq)
    show "mkfs_inode_addr i + k < mkfs_inode_addr n \<or> mkfs_inode_addr n + 76 \<le> mkfs_inode_addr i + k"
      using \<open>i \<noteq> n\<close> k by (cases "i < n") (auto simp: mkfs_inode_addr_eq)
  qed (use i(1) k slot_addr_low(1) [of j] in \<open>simp_all add: mkfs_inode_addr_eq\<close>)
  with z show "?m (mkfs_inode_addr i + k) = 0" by simp
qed

end
