(* ===== verification/Image_Main.thy ===== *)
theory Image_Main
  imports Image_Add
begin

text \<open>
  The properties of \<^verbatim>\<open>src/tools/mkfsso.c\<close>: the outcomes of \<open>fsso_add_file\<close> on a well formed image in
  closed form, what the kernel then finds and reads, and that the image stays well formed. The inode
  table runs into the root directory's block behind inode 106 (8 blocks of 1024 bytes, 76 bytes an
  inode), so all of this is about calls that find no free inode or one below 107.
\<close>

unbundle bit_operations_syntax

section \<open>Every outcome of fsso_add_file\<close>

text \<open>
  First free inode, first free blocks, first free slot of the root directory. An attempt that fails
  after the search keeps what it has already marked or written.
\<close>

definition next_inode_fits :: "mem \<Rightarrow> bool" where
  "next_inode_fits d \<longleftrightarrow> (\<forall>n ns. free_numbers ibit d 1 512 = n # ns \<longrightarrow> n < 107)"

definition root_free :: "mem \<Rightarrow> nat list" where
  "root_free d = filter (\<lambda>j. get32 d (slot_addr 11 j) = 0) [0, 1, 2]"

definition add_file_closed :: "mem \<Rightarrow> bytes \<Rightarrow> bytes \<Rightarrow> u32 \<Rightarrow> (int \<times> mem) option" where
  "add_file_closed d name data sz =
     (case free_numbers ibit d 1 512 of
        [] \<Rightarrow> Some (-1, d)
      | n # _ \<Rightarrow>
          (let js = take (blocks_for sz) (free_numbers bbit d 11 4096) in
           if length js > 12 then None
           else if length js < blocks_for sz then Some (-1, bitmaps_marked d n js)
           else
             (case root_free d of
                [] \<Rightarrow> Some (-1, file_written d n js data sz)
              | j # _ \<Rightarrow> Some (0, file_added d n js j name data sz))))"

lemma root_free_Cons: "root_free d = j # js \<Longrightarrow> first_slot d j"
  by (auto simp: root_free_def first_slot_def less_Suc_eq numeral_2_eq_2 simp del: get_le.simps
      split: if_splits)

lemma root_free_Nil: "root_free d = [] \<longleftrightarrow> (\<forall>j < 3. get32 d (slot_addr 11 j) \<noteq> 0)"
proof -
  have "(\<forall>j < 3. P j) \<longleftrightarrow> P 0 \<and> P 1 \<and> P (2 :: nat)" for P
    by (auto simp: numeral_3_eq_3 numeral_2_eq_2 less_Suc_eq)
  then show ?thesis by (auto simp: root_free_def simp del: get_le.simps)
qed

lemma add_file_outcomes:
  assumes "image_ok d" "next_inode_fits d" "unat sz \<le> length data"
  shows "fsso_add_file d name data sz = add_file_closed d name data sz"
proof (cases "free_numbers ibit d 1 512")
  case Nil
  then show ?thesis using add_file_no_inode [OF assms(1) Nil] by (simp add: add_file_closed_def)
next
  case (Cons n ns)
  with assms(2) have n: "n < 107" by (simp add: next_inode_fits_def)
  define js where "js = take (blocks_for sz) (free_numbers bbit d 11 4096)"
  have al: "allocated d sz n js" using Cons by (simp add: allocated_def js_def)
  have spec: "add_file_closed d name data sz =
    (if length js > 12 then None
     else if length js < blocks_for sz then Some (-1, bitmaps_marked d n js)
     else (case root_free d of [] \<Rightarrow> Some (-1, file_written d n js data sz)
           | j # _ \<Rightarrow> Some (0, file_added d n js j name data sz)))"
    unfolding add_file_closed_def Cons list.case js_def [symmetric] Let_def ..
  have len: "length js \<le> blocks_for sz" by (simp add: js_def)
  show ?thesis
  proof (cases "length js \<le> 12 \<and> \<not> length js < blocks_for sz")
    case False
    then show ?thesis using add_file_allocated [OF assms(1) al] by (auto simp: spec)
  next
    case True
    with al len have ch: "chosen d sz n js" by (auto simp: chosen_allocated)
    show ?thesis
    proof (cases "root_free d")
      case Nil
      with add_file_root_full [OF assms(1) ch n _ assms(3)] True show ?thesis
        by (simp add: spec root_free_Nil [symmetric])
    next
      case (Cons j r)
      with add_file_success [OF assms(1) ch n root_free_Cons [OF Cons] assms(3)] True show ?thesis
        by (simp add: spec)
    qed
  qed
qed

lemma hd_fits: "hd (free_numbers ibit d 1 512) < 107 \<Longrightarrow> next_inode_fits d"
  by (auto simp: next_inode_fits_def)

lemma add_file_ok_adding:
  assumes "image_ok d" "next_inode_fits d" "unat sz \<le> length data"
    and "fsso_add_file d name data sz = Some (0, d')"
  obtains n js j where "adding d sz n js j" "d' = file_added d n js j name data sz"
    "n = hd (free_numbers ibit d 1 512)"
proof -
  from assms(4) obtain n ns js j r where *: "free_numbers ibit d 1 512 = n # ns"
    "js = take (blocks_for sz) (free_numbers bbit d 11 4096)" "length js \<le> 12"
    "length js = blocks_for sz" "root_free d = j # r" "d' = file_added d n js j name data sz"
    unfolding add_file_outcomes [OF assms(1-3)] add_file_closed_def
    by (auto simp: Let_def split: list.splits if_splits)
  then have "adding d sz n js j"
    using assms(1,2) root_free_Cons [OF *(5)] by (auto simp: adding_def chosen_def next_inode_fits_def)
  with * that show thesis by simp
qed

section \<open>What the kernel finds and reads\<close>

definition mounted :: "mem \<Rightarrow> FSSO_Filesystem" where
  "mounted d = \<lparr>superblock = get_superblock d 0, disk_start_block = 0\<rparr>"

lemma mounted_inodes: "image_ok d \<Longrightarrow> sb_total_inodes (superblock (mounted d)) = 512"
  using image_ok_header(2) [of d] by (simp add: mounted_def get_superblock_def del: get_le.simps)

lemma upt_0_12: "[0..<12] = [0, 1, 2, 3, 4, 5, 6, 7, 8, 9, 10, 11]"
  by (simp add: upt_rec)

lemma image_root:
  assumes "image_ok d"
  shows "i_type (disk_inode d 0) = FSSO_TYPE_DIR" "data_blocks (i_direct (disk_inode d 0)) = [11]"
  using assms unfolding image_ok_def
  by (simp_all add: disk_inode_small mkfs_inode_def get_inode_def upt_0_12 add.assoc del: get_le.simps)

lemma find_result_root:
  assumes "image_ok d"
  shows "find_result d (mounted d) 0 name out =
    (case root_lookup d name of Some i \<Rightarrow> (0, i) | None \<Rightarrow> (-3, out))"
proof -
  have "blocks_entries d (i_direct (disk_inode d 0)) = block_entries d 11"
    by (simp add: blocks_entries_def image_root(2) [OF assms])
  then show ?thesis
    using image_root(1) [OF assms] mounted_inodes [OF assms]
    by (simp add: find_result_def dir_lookup_def root_lookup_def)
qed

lemma read_result_file:
  assumes "image_ok d" "n < 13" "i_type (mkfs_inode d n) = FSSO_TYPE_FILE"
  shows "read_result d (mounted d) (of_nat n) out maxsz =
    (let bs = blocks_bytes d (i_direct (mkfs_inode d n)); t = min (length bs) (unat maxsz)
     in (int t, take t bs @ drop t out))"
proof -
  have n: "unat (of_nat n :: u32) = n" using assms(2) by (simp add: unat_of_nat)
  then have "\<not> (of_nat n :: u32) \<ge> 512" using assms(2) by (simp add: word_le_nat_alt)
  with n show ?thesis
    using assms(2,3) mounted_inodes [OF assms(1)]
    by (simp add: read_result_def disk_inode_small)
qed

lemma read_added:
  fixes d :: mem and name data :: bytes and sz :: u32
  assumes ad: "adding d sz n js j" and "n < 13"
    and "unat sz \<le> length data" "unat sz + 1023 < 2 ^ 32" "unat sz \<le> unat maxsz"
  defines "d' \<equiv> file_added d n js j name data sz"
  shows "fst (read_result d' (mounted d') (of_nat n) buf maxsz) = int (min (1024 * blocks_for sz) (unat maxsz))"
    and "take (unat sz) (snd (read_result d' (mounted d') (of_nat n) buf maxsz)) = take (unat sz) data"
proof -
  note a = addingD [OF ad]
  have ok: "image_ok d'" unfolding d'_def by (rule image_ok_added [OF ad])
  let ?bs = "blocks_bytes d' (i_direct (mkfs_inode d' n))"
  have pos: "\<forall>b \<in> set js. 0 < b \<and> b < 4096" using adding_blocks [OF ad] by fastforce
  have len: "length ?bs = 1024 * length js"
    by (simp add: length_blocks_bytes d'_def file_added_inode(3) [OF ad] data_blocks_added [OF pos])
  have sz: "unat sz \<le> length ?bs" using len a(7,8) assms(4) by (simp add: blocks_for_eq)
  have contents: "take (unat sz) ?bs = take (unat sz) data"
    unfolding d'_def by (rule file_added_contents [OF ad assms(3,4)])
  have rd: "read_result d' (mounted d') (of_nat n) buf maxsz =
      (int (min (length ?bs) (unat maxsz)), take (min (length ?bs) (unat maxsz)) ?bs @ drop (min (length ?bs) (unat maxsz)) buf)"
    using assms(2) file_added_inode(2) [OF ad]
    by (subst read_result_file [OF ok]) (simp_all add: Let_def d'_def)
  show "fst (read_result d' (mounted d') (of_nat n) buf maxsz) = int (min (1024 * blocks_for sz) (unat maxsz))"
    "take (unat sz) (snd (read_result d' (mounted d') (of_nat n) buf maxsz)) = take (unat sz) data"
    using rd contents sz assms(5) len a(8) by (simp_all add: min_def)
qed

text \<open>C4: after a successful fsso_add_file of a new name, with an inode below 13, the kernel's lookup in
  the root directory finds the name, and its read of the inode found returns whole blocks (capped by
  the buffer) whose first bytes are exactly the data added.\<close>

theorem add_file_then_read:
  assumes "image_ok d" "hd (free_numbers ibit d 1 512) < 13"
    and "is_cstr name" "length name \<le> 255" "root_lookup d name = None"
    and "unat sz \<le> length data" "unat sz + 1023 < 2 ^ 32" "unat sz \<le> unat maxsz"
    and "fsso_add_file d name data sz = Some (0, d')"
  shows "\<exists>n. find_result d' (mounted d') 0 name out = (0, n) \<and>
    fst (read_result d' (mounted d') n buf maxsz) = int (min (1024 * blocks_for sz) (unat maxsz)) \<and>
    take (unat sz) (snd (read_result d' (mounted d') n buf maxsz)) = take (unat sz) data"
proof -
  from assms(2) have "next_inode_fits d" by (intro hd_fits) simp
  from add_file_ok_adding [OF assms(1) this assms(6,9)] obtain n js j
    where ad: "adding d sz n js j" and d': "d' = file_added d n js j name data sz"
      and n: "n = hd (free_numbers ibit d 1 512)" by blast
  have ok: "image_ok d'" unfolding d' by (rule image_ok_added [OF ad])
  have "root_lookup d' name = Some (of_nat n)"
    using root_lookup_added [OF ad assms(3)] assms(4,5) by (simp add: d')
  then have find: "find_result d' (mounted d') 0 name out = (0, of_nat n)"
    by (simp add: find_result_root [OF ok])
  then show ?thesis
    using read_added [OF ad _ assms(6-8)] assms(2) n by (auto simp: d')
qed

lemma root_lookup_entry:
  assumes "image_ok d" "root_lookup d name = Some i"
  shows "0 < unat i" "unat i < 107" "ibit d (unat i)" "i_type (mkfs_inode d (unat i)) = FSSO_TYPE_FILE"
    "\<forall>b \<in> set (data_blocks (i_direct (mkfs_inode d (unat i)))). 11 < unat b \<and> unat b < 4096 \<and> bbit d (unat b)"
proof -
  from assms(2) have "(name, i) \<in> set (block_entries d 11)"
    unfolding root_lookup_def by (rule map_of_SomeD)
  then obtain k where k: "k < 3" "i = get32 d (slot_addr 11 k)" "get32 d (slot_addr 11 k) \<noteq> 0"
    by (auto simp: block_entries_def slots_entries_def simp del: get_le.simps upt_rec_numeral)
  then have nz: "unat i \<noteq> 0" by (simp add: unat_eq_0 del: get_le.simps)
  then show "0 < unat i" by simp
  have "entry_ok d (slot_addr 11 k)" using assms(1) k(1) unfolding image_ok_def by blast
  then show "unat i < 107" "ibit d (unat i)" "i_type (mkfs_inode d (unat i)) = FSSO_TYPE_FILE"
    "\<forall>b \<in> set (data_blocks (i_direct (mkfs_inode d (unat i)))). 11 < unat b \<and> unat b < 4096 \<and> bbit d (unat b)"
    using nz unfolding entry_ok_def Let_def k(2) [symmetric] by blast+
qed

lemma blocks_bytes_cong:
  "(\<And>b q. b \<in> set (data_blocks bs) \<Longrightarrow> q < 1024 \<Longrightarrow> m (1024 * unat b + q) = m' (1024 * unat b + q)) \<Longrightarrow>
   blocks_bytes m bs = blocks_bytes m' bs"
  unfolding blocks_bytes_def
  by (intro arg_cong [where f = concat] map_cong refl get_bytes_cong) blast

lemma kept_added:
  fixes d :: mem and name data :: bytes and sz :: u32
  assumes ad: "adding d sz n js j" and "is_cstr name" "length name \<le> 255" "root_lookup d name = None"
    and "other \<noteq> name"
  defines "d' \<equiv> file_added d n js j name data sz"
  shows "root_lookup d' other = root_lookup d other"
    and "root_lookup d other = Some i \<Longrightarrow> unat i < 13 \<Longrightarrow>
      read_result d' (mounted d') i buf maxsz = read_result d (mounted d) i buf maxsz"
proof -
  note a = addingD [OF ad]
  have ok: "image_ok d'" unfolding d'_def by (rule image_ok_added [OF ad])
  show "root_lookup d' other = root_lookup d other"
    using root_lookup_added [OF ad assms(2)] assms(3-5) by (simp add: d'_def)
  assume i: "root_lookup d other = Some i" "unat i < 13"
  note e = root_lookup_entry [OF a(1) i(1)]
  have "unat i \<noteq> n" using e(3) a(10) by auto
  then have inode: "mkfs_inode d' (unat i) = mkfs_inode d (unat i)"
    unfolding d'_def using e(2) by (intro file_added_inode_other [OF ad]) auto
  have "blocks_bytes d' (i_direct (mkfs_inode d (unat i))) = blocks_bytes d (i_direct (mkfs_inode d (unat i)))"
  proof (rule blocks_bytes_cong)
    fix b :: u32 and q :: nat
    assume b: "b \<in> set (data_blocks (i_direct (mkfs_inode d (unat i))))" and q: "q < 1024"
    have "12 \<le> unat b" "bbit d (unat b)" using e(5) b by fastforce+
    then have other: "c < unat b \<or> unat b < c" if "c \<in> set js" for c
      using adding_blocks [OF ad that] by (metis linorder_neqE_nat)
    show "d' (1024 * unat b + q) = d (1024 * unat b + q)"
      unfolding d'_def
    proof (rule file_added_frame [OF ad])
      show "\<forall>c \<in> set js. 1024 * unat b + q < 1024 * c \<or> 1024 * c + 1024 \<le> 1024 * unat b + q"
        using other q by fastforce
    qed (use \<open>12 \<le> unat b\<close> a(3) slot_addr_low(2) [OF a(5)] in \<open>auto simp: mkfs_inode_addr_eq\<close>)
  qed
  then show "read_result d' (mounted d') i buf maxsz = read_result d (mounted d) i buf maxsz"
    using read_result_file [OF ok, of "unat i"] read_result_file [OF a(1), of "unat i"] i e(4) inode
    by simp
qed

text \<open>C12: a successful fsso_add_file of a new name, on a well formed image whose first free inode is below
  107, leaves lookups of all other names in the root directory as they were, and the files they name
  read the same bytes when their inode is below 13 (where kernel and builder agree on the table).\<close>

theorem add_file_keeps_others:
  assumes "image_ok d" "next_inode_fits d"
    and "is_cstr name" "length name \<le> 255" "root_lookup d name = None" "unat sz \<le> length data"
    and "fsso_add_file d name data sz = Some (0, d')" "other \<noteq> name"
  shows "find_result d' (mounted d') 0 other out = find_result d (mounted d) 0 other out \<and>
    (\<forall>i. root_lookup d other = Some i \<and> unat i < 13 \<longrightarrow>
      read_result d' (mounted d') i buf maxsz = read_result d (mounted d) i buf maxsz)"
proof -
  from add_file_ok_adding [OF assms(1,2,6,7)] obtain n js j
    where ad: "adding d sz n js j" and d': "d' = file_added d n js j name data sz" by blast
  have ok: "image_ok d'" unfolding d' by (rule image_ok_added [OF ad])
  note k = kept_added [OF ad assms(3-5,8), where data = data, folded d']
  then show ?thesis by (simp add: find_result_root ok assms(1))
qed

section \<open>The invariant survives every outcome\<close>

text \<open>
  Marking one unused inode and some blocks as used, and writing only to that inode and to the
  data area, keeps the invariant.
\<close>

lemma image_ok_frame:
  assumes ok: "image_ok d" and n: "0 < n" "\<not> ibit d n"
    and same: "\<And>x. x < 20 \<or> 11264 \<le> x \<and> x < 12044 \<Longrightarrow> d' x = d x"
    and inodes: "\<And>i k. i < 107 \<Longrightarrow> i \<noteq> n \<Longrightarrow> k < 76 \<Longrightarrow> d' (mkfs_inode_addr i + k) = d (mkfs_inode_addr i + k)"
    and ibits: "\<And>i. i < 107 \<Longrightarrow> ibit d' i \<longleftrightarrow> i = n \<or> ibit d i"
    and bbits: "\<And>b. b < 4096 \<Longrightarrow> bbit d b \<Longrightarrow> bbit d' b"
  shows "image_ok d'"
  unfolding image_ok_def
proof (intro conjI allI impI)
  note ok' = ok [unfolded image_ok_def]
  have low: "get_le k d' a = (get_le k d a :: 'w::len word)" if "a + k \<le> 20" for a k
    by (rule get_le_cong) (use that same in auto)
  have low32: "get32 d' a = get32 d a" if "a + 4 \<le> 20" for a
    by (rule get_le_cong) (use that same in auto)
  have "get64 d' 0 = get64 d 0" by (rule get_le_cong) (use same in auto)
  then show "get64 d' 0 = FSSO_MAGIC" using ok' by (simp del: get_le.simps)
  show "get32 d' 12 = 4096" "get32 d' 16 = 512" using ok' by (simp_all add: low32 del: get_le.simps)
  have root: "d' (3072 + k) = d (3072 + k)" if "k < 76" for k
    using inodes [of 0 k] n(1) that by (simp add: mkfs_inode_addr_eq)
  have root32: "get32 d' (3072 + k) = get32 d (3072 + k)" if "k + 4 \<le> 76" for k
    by (rule get_le_cong) (use that root [of "k + _"] in \<open>simp add: add.assoc\<close>)
  show "d' (mkfs_inode_addr 0 + 12) = FSSO_TYPE_DIR"
    using ok' root [of 12] by (simp add: mkfs_inode_addr_eq)
  show "get32 d' (mkfs_inode_addr 0 + 16) = 11" "get32 d' (mkfs_inode_addr 0 + 20) = 0"
    using ok' root32 [of 16] root32 [of 20] by (simp_all add: mkfs_inode_addr_eq del: get_le.simps)
  show "bbit d' b" if "b \<le> 11" for b using that ok' bbits by simp
  show "ibit d' 0" using ok' ibits by simp
  show "d' (mkfs_inode_addr i + k) = 0" if "i < 107" "\<not> ibit d' i" "(k :: nat) < 76" for i k
    using that ibits [of i] inodes [of i k] inode_zero_before [OF ok, of i k] by simp
  fix j :: nat assume j: "j < 3"
  have e: "get32 d' (slot_addr 11 j) = get32 d (slot_addr 11 j)"
    by (rule get_le_cong) (use j in \<open>auto intro!: same simp: slot_addr_root\<close>)
  have old: "entry_ok d (slot_addr 11 j)" using ok' j by blast
  define i where "i = unat (get32 d (slot_addr 11 j))"
  show "entry_ok d' (slot_addr 11 j)"
  proof (cases "i = 0")
    case True
    then show ?thesis by (simp add: entry_ok_def e i_def Let_def del: get_le.simps)
  next
    case False
    with old have i: "i < 107" "ibit d i" "i_type (mkfs_inode d i) = FSSO_TYPE_FILE"
      "\<forall>b \<in> set (data_blocks (i_direct (mkfs_inode d i))). 11 < unat b \<and> unat b < 4096 \<and> bbit d (unat b)"
      by (auto simp: entry_ok_def i_def Let_def simp del: get_le.simps)
    then have "mkfs_inode d' i = mkfs_inode d i"
      unfolding mkfs_inode_def using n(2) by (intro get_inode_cong inodes) auto
    with i ibits [of i] bbits show ?thesis
      by (auto simp: entry_ok_def e i_def [symmetric] Let_def simp del: get_le.simps)
  qed
qed

lemma image_ok_marked:
  assumes "image_ok d" "0 < n" "n < 107" "\<not> ibit d n" "\<forall>b \<in> set js. b < 4096"
  shows "image_ok (bitmaps_marked d n js)"
proof (rule image_ok_frame [OF assms(1,2,4)])
  have js: "n < 8192" "\<forall>b \<in> set js. b < 8192" using assms(3,5) by auto
  show "bitmaps_marked d n js x = d x" if "x < 20 \<or> 11264 \<le> x \<and> x < 12044" for x
    using that by (intro bitmaps_marked_other js) auto
  show "bitmaps_marked d n js (mkfs_inode_addr i + k) = d (mkfs_inode_addr i + k)" for i k
    by (intro bitmaps_marked_other js) (simp add: mkfs_inode_addr_eq)
  show "ibit (bitmaps_marked d n js) i \<longleftrightarrow> i = n \<or> ibit d i" if "i < 107" for i
  proof -
    have "bitmaps_marked d n js (inode_bitmap + i div 8) = set_bit_at inode_bitmap n d (inode_bitmap + i div 8)"
      unfolding bitmaps_marked_def using that by (intro fold_set_bit_at_other) (auto simp: image_areas)
    then have "ibit (bitmaps_marked d n js) i = ibit (set_bit_at inode_bitmap n d) i"
      by (simp add: is_set_def)
    then show ?thesis by (simp add: is_set_set_bit_at)
  qed
  show "bbit (bitmaps_marked d n js) b" if "bbit d b" for b
  proof -
    have "bbit (set_bit_at inode_bitmap n d) b"
      using that assms(3) by (simp add: is_set_def set_bit_at_other image_areas)
    then show ?thesis by (simp add: bitmaps_marked_def blocks.used_fold_mark)
  qed
qed

lemma image_ok_written:
  assumes "image_ok d" "chosen d sz n js" "n < 107"
  shows "image_ok (file_written d n js data sz)"
proof (rule image_ok_frame [OF assms(1) chosen_inode(1,3) [OF assms(2)]])
  note other = file_written_other [OF assms(1,2)]
  note below = below_data [OF assms(1,2)]
  show "file_written d n js data sz x = d x" if "x < 20 \<or> 11264 \<le> x \<and> x < 12044" for x
    using that assms(3) by (intro other below) (auto simp: mkfs_inode_addr_eq)
  show "file_written d n js data sz (mkfs_inode_addr i + k) = d (mkfs_inode_addr i + k)"
    if "i < 107" "i \<noteq> n" "k < 76" for i k
  proof (intro other below)
    show "mkfs_inode_addr i + k < mkfs_inode_addr n \<or> mkfs_inode_addr n + 76 \<le> mkfs_inode_addr i + k"
      using that by (cases "i < n") (auto simp: mkfs_inode_addr_eq)
  qed (use that in \<open>simp_all add: mkfs_inode_addr_eq\<close>)
qed (use file_written_ibit [OF assms(1,2)] file_written_bbit [OF assms(1,2)] in simp_all)

text \<open>C5: when no inode is free or the first free one is below 107, a well formed image is well formed after
  a call of fsso_add_file that returns, whether it succeeded or failed: the superblock, the root
  directory and every file it lists are intact.\<close>

theorem add_file_keeps_image:
  assumes "image_ok d" "next_inode_fits d" "unat sz \<le> length data"
    and "fsso_add_file d name data sz = Some (rc, d')"
  shows "image_ok d'"
proof (cases "free_numbers ibit d 1 512")
  case Nil
  then show ?thesis using add_file_no_inode [OF assms(1) Nil] assms(1,4) by simp
next
  case (Cons n ns)
  define js where "js = take (blocks_for sz) (free_numbers bbit d 11 4096)"
  have "n \<in> set (free_numbers ibit d 1 512)" using Cons by simp
  then have n: "0 < n" "n < 107" "\<not> ibit d n" using assms(2) Cons by (simp_all add: next_inode_fits_def)
  have js: "\<forall>b \<in> set js. b < 4096" by (auto simp: js_def dest: in_set_takeD simp del: upt_rec_numeral)
  have ch: "chosen d sz n js" if "\<not> 12 < length js" "\<not> length js < blocks_for sz"
  proof -
    have "length js \<le> blocks_for sz" by (simp add: js_def)
    with that Cons show ?thesis by (simp add: chosen_def js_def [symmetric])
  qed
  have "add_file_closed d name data sz = Some (rc, d')"
    using add_file_outcomes [OF assms(1-3)] assms(4) by simp
  then show ?thesis
    unfolding add_file_closed_def Cons list.case js_def [symmetric] Let_def
    using image_ok_marked [OF assms(1) n js] image_ok_written [OF assms(1) ch n(2)] ch n(2) assms(1)
    by (auto split: if_splits list.splits intro!: image_ok_added simp: adding_def dest!: root_free_Cons)
qed

end
