(* ===== verification/Image_Spec.thy ===== *)
theory Image_Spec
  imports Image_Main
begin

text \<open>
  What \<open>fsso_add_file\<close> of \<^verbatim>\<open>src/tools/mkfsso.c\<close> promises, written by reading the image before and
  after the call: which bits are set, what the inode, the blocks and the directory entry hold, and
  that no other byte has changed. None of the builder's writers occurs in it.
\<close>

unbundle bit_operations_syntax

section \<open>Reading an image\<close>

definition inode_bit :: "mem \<Rightarrow> nat \<Rightarrow> bool" where
  "inode_bit d n \<longleftrightarrow> bit (d (1024 + n div 8)) (n mod 8)"

definition block_bit :: "mem \<Rightarrow> nat \<Rightarrow> bool" where
  "block_bit d b \<longleftrightarrow> bit (d (2048 + b div 8)) (b mod 8)"

definition free_inodes :: "mem \<Rightarrow> nat list" where
  "free_inodes d = filter (\<lambda>n. \<not> inode_bit d n) [1..<512]"

definition free_blocks :: "mem \<Rightarrow> nat list" where
  "free_blocks d = filter (\<lambda>b. \<not> block_bit d b) [11..<4096]"

definition free_slots :: "mem \<Rightarrow> nat list" where
  "free_slots d = filter (\<lambda>j. get32 d (11264 + 260 * j) = 0) [0, 1, 2]"

text \<open>The rounding up is done with 32 bits.\<close>

definition blocks_needed :: "u32 \<Rightarrow> nat" where
  "blocks_needed sz = (unat sz + 1023) mod 2 ^ 32 div 1024"

section \<open>What a call changes\<close>

definition unchanged :: "mem \<Rightarrow> mem \<Rightarrow> nat set \<Rightarrow> bool" where
  "unchanged d d' S \<longleftrightarrow> (\<forall>x. x \<notin> S \<longrightarrow> d' x = d x)"

definition bits_taken :: "mem \<Rightarrow> mem \<Rightarrow> nat \<Rightarrow> nat list \<Rightarrow> bool" where
  "bits_taken d d' n js \<longleftrightarrow>
     (\<forall>i < 8192. inode_bit d' i \<longleftrightarrow> i = n \<or> inode_bit d i) \<and>
     (\<forall>b < 8192. block_bit d' b \<longleftrightarrow> b \<in> set js \<or> block_bit d b)"

text \<open>The 76 bytes of inode \<open>n\<close> in the packed table; the entries of \<open>direct\<close> behind the file's blocks and
  the indirect ones keep what they held.\<close>

definition inode_is :: "mem \<Rightarrow> mem \<Rightarrow> nat \<Rightarrow> u32 \<Rightarrow> nat list \<Rightarrow> bool" where
  "inode_is d d' n sz js \<longleftrightarrow>
     (let old = get_inode d (3072 + 76 * n) in
      get_inode d' (3072 + 76 * n) = old\<lparr>i_size := sz, i_created := 0, i_modified := 0, i_type := FSSO_TYPE_FILE,
        i_direct := map of_nat js @ drop (length js) (i_direct old)\<rparr>)"

definition data_is :: "mem \<Rightarrow> nat list \<Rightarrow> bytes \<Rightarrow> u32 \<Rightarrow> bool" where
  "data_is d' js data sz \<longleftrightarrow>
     (\<forall>k < length js. \<forall>q < 1024. 1024 * k + q < unat sz \<longrightarrow> d' (1024 * (js ! k) + q) = data ! (1024 * k + q))"

definition entry_is :: "mem \<Rightarrow> nat \<Rightarrow> nat \<Rightarrow> bytes \<Rightarrow> bool" where
  "entry_is d' j n name \<longleftrightarrow>
     get32 d' (11264 + 260 * j) = of_nat n \<and>
     get_bytes d' (11264 + 260 * j + 4) (Suc (length (take 255 name))) = take 255 name @ [0]"

definition counters_are :: "mem \<Rightarrow> mem \<Rightarrow> nat \<Rightarrow> bool" where
  "counters_are d d' k \<longleftrightarrow> get32 d' 24 = get32 d 24 - 1 \<and> get32 d' 20 = get32 d 20 - of_nat k"

text \<open>The bytes of the bitmaps, of the inode and its data, of the directory entry and the counters.\<close>

definition bitmap_bytes :: "nat set" where
  "bitmap_bytes = {1024 ..< 3072}"

definition file_bytes :: "nat \<Rightarrow> u32 \<Rightarrow> nat list \<Rightarrow> nat set" where
  "file_bytes n sz js = {3072 + 76 * n ..< 3072 + 76 * n + 76} \<union>
     (\<Union>k \<in> {..<length js}. {1024 * (js ! k) ..< 1024 * (js ! k) + min 1024 (unat sz - 1024 * k)})"

definition entry_bytes :: "nat \<Rightarrow> bytes \<Rightarrow> nat set" where
  "entry_bytes j name = {11264 + 260 * j ..< 11264 + 260 * j + 5 + length (take 255 name)} \<union> {20 ..< 28}"

section \<open>The outcomes\<close>

text \<open>
  One rule per outcome, in the order the code meets them: no free inode; more than 12 blocks found
  (the array \<open>allocated_blocks\<close> overruns); not enough blocks; no free slot in the root directory; done.
\<close>

inductive adds_file :: "mem \<Rightarrow> bytes \<Rightarrow> bytes \<Rightarrow> u32 \<Rightarrow> (int \<times> mem) option \<Rightarrow> bool" for d name data sz where
  no_inode: "free_inodes d = [] \<Longrightarrow> adds_file d name data sz (Some (-1, d))"
| overrun: "free_inodes d = n # ns \<Longrightarrow> js = take (blocks_needed sz) (free_blocks d) \<Longrightarrow> 12 < length js \<Longrightarrow>
    adds_file d name data sz None"
| no_blocks: "free_inodes d = n # ns \<Longrightarrow> js = take (blocks_needed sz) (free_blocks d) \<Longrightarrow> length js \<le> 12 \<Longrightarrow>
    length js < blocks_needed sz \<Longrightarrow>
    bits_taken d d' n js \<Longrightarrow> unchanged d d' bitmap_bytes \<Longrightarrow>
    adds_file d name data sz (Some (-1, d'))"
| no_slot: "free_inodes d = n # ns \<Longrightarrow> js = take (blocks_needed sz) (free_blocks d) \<Longrightarrow> length js \<le> 12 \<Longrightarrow>
    length js = blocks_needed sz \<Longrightarrow> free_slots d = [] \<Longrightarrow>
    bits_taken d d' n js \<Longrightarrow> inode_is d d' n sz js \<Longrightarrow> data_is d' js data sz \<Longrightarrow>
    unchanged d d' (bitmap_bytes \<union> file_bytes n sz js) \<Longrightarrow>
    adds_file d name data sz (Some (-1, d'))"
| added: "free_inodes d = n # ns \<Longrightarrow> js = take (blocks_needed sz) (free_blocks d) \<Longrightarrow> length js \<le> 12 \<Longrightarrow>
    length js = blocks_needed sz \<Longrightarrow> free_slots d = j # ss \<Longrightarrow>
    bits_taken d d' n js \<Longrightarrow> inode_is d d' n sz js \<Longrightarrow> data_is d' js data sz \<Longrightarrow>
    entry_is d' j n name \<Longrightarrow> counters_are d d' (length js) \<Longrightarrow>
    unchanged d d' (bitmap_bytes \<union> file_bytes n sz js \<union> entry_bytes j name) \<Longrightarrow>
    adds_file d name data sz (Some (0, d'))"

section \<open>The builder's writers, read back to the byte\<close>

lemma inode_bit_ibit: "inode_bit d = ibit d"
  by (simp add: fun_eq_iff inode_bit_def is_set_iff inode_bitmap_def)

lemma block_bit_bbit: "block_bit d = bbit d"
  by (simp add: fun_eq_iff block_bit_def is_set_iff block_bitmap_def)

lemma free_lists:
  "free_inodes d = free_numbers ibit d 1 512" "free_blocks d = free_numbers bbit d 11 4096"
  "free_slots d = root_free d"
  by (simp_all only: free_inodes_def free_blocks_def free_slots_def free_numbers_def inode_bit_ibit block_bit_bbit
      root_free_def slot_addr_root)

lemma blocks_needed_for: "blocks_needed sz = blocks_for sz"
  by (simp add: blocks_needed_def blocks_for_alt unat_word_ariths)

lemma write_data_fine:
  "\<forall>b \<in> set bs. b < 2 ^ 22 \<Longrightarrow> 1024 * (i + length bs) < unat sz + 1024 \<Longrightarrow>
   (\<And>k. k < length bs \<Longrightarrow> x < 1024 * (bs ! k) \<or> 1024 * (bs ! k) + min 1024 (unat sz - 1024 * (i + k)) \<le> x) \<Longrightarrow>
   write_data data sz i bs m x = m x"
proof (induction bs arbitrary: i m)
  case (Cons b bs)
  have len: "length (chunk data sz i) \<le> min 1024 (unat sz - 1024 * i)"
    unfolding chunk_def length_take by (rule min.cobounded2)
  have "x < 1024 * b \<or> 1024 * b + min 1024 (unat sz - 1024 * i) \<le> x" using Cons.prems(3) [of 0] by simp
  then have "write_block data sz i b m x = m x"
    using Cons.prems(1,2) len by (auto simp: write_block_eq put_bytes_other)
  moreover have "write_data data sz (Suc i) bs (write_block data sz i b m) x = write_block data sz i b m x"
    using Cons.prems(1,2) Cons.prems(3) [of "Suc _"] by (intro Cons.IH) auto
  ultimately show ?case by simp
qed simp

lemma write_entry_fine:
  "x < a \<or> a + 5 + length (take 255 name) \<le> x \<Longrightarrow> write_entry a n name m x = m x"
  by (auto simp: write_entry_def Let_def mem_simps put_bytes_other simp del: put_le.simps)

lemma write_entry_bytes:
  "get_bytes (write_entry a n name m) (a + 4) (Suc (length (take 255 name))) = take 255 name @ [0]"
  by (rule nth_equalityI)
    (auto simp: write_entry_def Let_def put_bytes_in nth_append less_Suc_eq simp del: put_le.simps)

text \<open>An inode rewritten by the builder: every field.\<close>

lemma write_inode_get:
  assumes "length js \<le> 12"
  shows "get_inode (write_inode n sz js m) (mkfs_inode_addr n) = (get_inode m (mkfs_inode_addr n))
    \<lparr>i_size := sz, i_created := 0, i_modified := 0, i_type := FSSO_TYPE_FILE,
     i_direct := map of_nat js @ drop (length js) (i_direct (get_inode m (mkfs_inode_addr n)))\<rparr>"
proof -
  let ?a = "mkfs_inode_addr n"
  let ?w = "write_inode n sz js m"
  have other: "get_le k (write_direct ?a 0 js m') x = (get_le k m' x :: 'w::len word)"
    if "x + k \<le> ?a + 16 \<or> ?a + 16 + 4 * length js \<le> x" for k m' x
    by (rule get_le_cong) (use that in \<open>auto simp: write_direct_other\<close>)
  have byte: "write_direct ?a 0 js m' x = m' x" if "x < ?a + 16 \<or> ?a + 64 \<le> x" for m' x
    using that assms by (intro write_direct_other) auto
  note simps = write_inode_def Let_def mem_simps
  have "get32 ?w (?a + 4) = 0" "get32 ?w (?a + 8) = 0" "get32 ?w (?a + 64) = get32 m (?a + 64)"
    "get32 ?w (?a + 68) = get32 m (?a + 68)" "get32 ?w (?a + 72) = get32 m (?a + 72)"
    using assms by (simp_all add: simps other del: get_le.simps put_le.simps)
  moreover have "get_bytes ?w (?a + 13) 3 = get_bytes m (?a + 13) 3"
    by (rule get_bytes_cong) (simp add: simps byte del: put_le.simps)
  moreover have "map (\<lambda>i. get32 ?w (?a + (16 + 4 * i))) [0..<12] =
      map of_nat js @ drop (length js) (map (\<lambda>i. get32 m (?a + (16 + 4 * i))) [0..<12])"
  proof (rule nth_equalityI)
    show "length (map (\<lambda>i. get32 ?w (?a + (16 + 4 * i))) [0..<12]) =
      length (map of_nat js @ drop (length js) (map (\<lambda>i. get32 m (?a + (16 + 4 * i))) [0..<12]))"
      using assms by (simp del: upt_rec_numeral)
    fix k assume "k < length (map (\<lambda>i. get32 ?w (?a + (16 + 4 * i))) [0..<12])"
    then have k: "k < 12" by simp
    show "map (\<lambda>i. get32 ?w (?a + (16 + 4 * i))) [0..<12] ! k =
      (map of_nat js @ drop (length js) (map (\<lambda>i. get32 m (?a + (16 + 4 * i))) [0..<12])) ! k"
      using write_inode_reads(3,4) [OF assms, of k n sz m] k assms
      by (auto simp: nth_append add.assoc simp del: get_le.simps upt_rec_numeral)
  qed
  ultimately show ?thesis
    using write_inode_reads(1,2) [OF assms, of n sz m]
    by (simp add: get_inode_def del: get_le.simps upt_rec_numeral)
qed

section \<open>The closed forms meet it\<close>

lemma marked_reads:
  assumes "n < 8192" "\<forall>b \<in> set js. b < 8192"
  shows "bits_taken d (bitmaps_marked d n js) n js" "unchanged d (bitmaps_marked d n js) bitmap_bytes"
proof -
  let ?m = "bitmaps_marked d n js"
  have "ibit ?m i \<longleftrightarrow> i = n \<or> ibit d i" if "i < 8192" for i
  proof -
    have "?m (inode_bitmap + i div 8) = set_bit_at inode_bitmap n d (inode_bitmap + i div 8)"
      unfolding bitmaps_marked_def using that by (intro fold_set_bit_at_other) (auto simp: image_areas)
    then have "ibit ?m i = ibit (set_bit_at inode_bitmap n d) i" by (simp add: is_set_def)
    then show ?thesis by (simp add: is_set_set_bit_at)
  qed
  moreover have "bbit ?m b \<longleftrightarrow> b \<in> set js \<or> bbit d b" for b
  proof -
    have "bbit (set_bit_at inode_bitmap n d) b = bbit d b"
      using assms(1) by (simp add: is_set_def set_bit_at_other image_areas)
    then show ?thesis by (simp add: bitmaps_marked_def blocks.used_fold_mark)
  qed
  ultimately show "bits_taken d ?m n js" by (simp add: bits_taken_def inode_bit_ibit block_bit_bbit)
  show "unchanged d ?m bitmap_bytes"
    unfolding unchanged_def bitmap_bytes_def
  proof (intro allI impI)
    fix x :: nat assume "x \<notin> {1024..<3072}"
    then have "x < 1024 \<or> 3072 \<le> x" by auto
    then show "?m x = d x" by (rule bitmaps_marked_other [OF assms])
  qed
qed

lemma written_reads:
  fixes d :: mem and sz :: u32 and data :: bytes
  assumes ok: "image_ok d" and ch: "chosen d sz n js" and n: "n < 107" and len: "unat sz \<le> length data"
  defines "d' \<equiv> file_written d n js data sz"
  shows "bits_taken d d' n js" "inode_is d d' n sz js" "data_is d' js data sz"
    "unchanged d d' (bitmap_bytes \<union> file_bytes n sz js)"
proof -
  note js = js_range [OF ok ch]
  have l: "length js \<le> 12" "length js = blocks_for sz" using chosen_length [OF ch] by simp_all
  show "bits_taken d d' n js"
    using file_written_ibit [OF ok ch] file_written_bbit [OF ok ch]
    by (simp add: bits_taken_def inode_bit_ibit block_bit_bbit d'_def)
  let ?b = "bitmaps_marked d n js"
  let ?m = "write_data data sz 0 js ?b"
  have d': "d' = write_inode n sz js ?m" by (simp add: d'_def file_written_def)
  have js': "n < 8192" "\<forall>b \<in> set js. b < 8192" using n js by fastforce+
  have a: "mkfs_inode_addr n = 3072 + 76 * n" by (rule mkfs_inode_addr_eq)
  have "get_inode ?m (3072 + 76 * n) = get_inode d (3072 + 76 * n)"
  proof (rule get_inode_cong)
    fix k assume k: "k < sizeof_Inode"
    let ?x = "3072 + 76 * n + k"
    have "?m ?x = ?b ?x"
      using k n by (intro data_other [OF ok ch] below_data [OF ok ch]) simp
    also have "\<dots> = d ?x" by (rule bitmaps_marked_other [OF js']) simp
    finally show "?m ?x = d ?x" .
  qed
  then show "inode_is d d' n sz js"
    using write_inode_get [OF l(1), of n sz ?m] by (simp add: inode_is_def d' a Let_def)
  have data: "1024 * (0 + length js) < unat sz + 1024" if "js \<noteq> []" using js_length [OF ch] that by simp
  show "data_is d' js data sz"
    unfolding data_is_def
  proof (intro allI impI)
    fix k q assume k: "k < length js" and q: "q < 1024" "1024 * k + q < unat sz"
    let ?x = "1024 * (js ! k) + q"
    have "12 \<le> js ! k" using js [of "js ! k"] k by simp
    then have "d' ?x = ?m ?x"
      unfolding d' using l(1) n by (intro write_inode_other) (simp_all add: a)
    also have "\<dots> = chunk data sz (0 + k) ! q"
    proof (rule write_data_at)
      show "\<forall>b \<in> set js. b < 2 ^ 22" using js by fastforce
      show "distinct js" by (rule chosen_blocks(1) [OF ok ch])
      show "q < length (chunk data sz (0 + k))" using len q by (simp add: chunk_def)
    next
      have "js \<noteq> []" using k by auto
      from data [OF this] show "1024 * (0 + length js) < unat sz + 1024" .
    qed (use k in auto)
    also have "\<dots> = data ! (1024 * k + q)" using len q by (simp add: chunk_def)
    finally show "d' ?x = data ! (1024 * k + q)" .
  qed
  show "unchanged d d' (bitmap_bytes \<union> file_bytes n sz js)"
    unfolding unchanged_def
  proof (intro allI impI)
    fix x assume x: "x \<notin> bitmap_bytes \<union> file_bytes n sz js"
    then have "d' x = ?m x"
      unfolding d' using l(1) by (intro write_inode_other) (auto simp: file_bytes_def a)
    also have "\<dots> = ?b x"
    proof (cases "js = []")
      case False
      show ?thesis
      proof (rule write_data_fine)
        show "\<forall>b \<in> set js. b < 2 ^ 22" using js by fastforce
        fix k assume "k < length js"
        with x show "x < 1024 * (js ! k) \<or> 1024 * (js ! k) + min 1024 (unat sz - 1024 * (0 + k)) \<le> x"
          unfolding file_bytes_def by fastforce
      qed (rule data [OF False])
    qed simp
    also have "\<dots> = d x"
      using x by (intro bitmaps_marked_other [OF js']) (auto simp: bitmap_bytes_def)
    finally show "d' x = d x" .
  qed
qed

lemma added_reads:
  fixes d :: mem and sz :: u32 and name data :: bytes
  assumes ad: "adding d sz n js j" and len: "unat sz \<le> length data"
  defines "d' \<equiv> file_added d n js j name data sz"
  shows "bits_taken d d' n js" "inode_is d d' n sz js" "data_is d' js data sz"
    "entry_is d' j n name" "counters_are d d' (length js)"
    "unchanged d d' (bitmap_bytes \<union> file_bytes n sz js \<union> entry_bytes j name)"
proof -
  note a = addingD [OF ad]
  let ?w = "file_written d n js data sz"
  let ?e = "write_entry (slot_addr 11 j) n name ?w"
  note w = written_reads [OF a(1-3) len]
  have slot: "slot_addr 11 j = 11264 + 260 * j" "j < 3" by (simp_all add: slot_addr_root a(5))
  show "bits_taken d d' n js"
    using file_added_bits [OF ad] by (simp add: bits_taken_def inode_bit_ibit block_bit_bbit d'_def)
  have other: "d' x = ?w x" if "x < 20 \<or> 28 \<le> x" "x < 11264 \<or> 12044 \<le> x" for x
    unfolding d'_def using that slot by (intro file_added_other) auto
  have "get_inode d' (3072 + 76 * n) = get_inode ?w (3072 + 76 * n)"
    using a(3) by (intro get_inode_cong other) auto
  with w(2) show "inode_is d d' n sz js" by (simp add: inode_is_def)
  show "data_is d' js data sz"
    unfolding data_is_def
  proof (intro allI impI)
    fix k q assume k: "k < length js" and q: "q < 1024" "1024 * k + q < unat sz"
    have "12 \<le> js ! k" using adding_blocks [OF ad] k by simp
    then have "d' (1024 * (js ! k) + q) = ?w (1024 * (js ! k) + q)" by (intro other) auto
    with w(3) k q show "d' (1024 * (js ! k) + q) = data ! (1024 * k + q)" by (simp add: data_is_def)
  qed
  have high: "d' x = ?e x" if "28 \<le> x" for x
    unfolding d'_def using that by (rule file_added_slot_write)
  have "get_bytes d' (slot_addr 11 j + 4) (Suc (length (take 255 name))) =
      get_bytes ?e (slot_addr 11 j + 4) (Suc (length (take 255 name)))"
    using slot by (intro get_bytes_cong high) simp
  then show "entry_is d' j n name"
    using file_added_slot(1) [of d n js j name data sz] write_entry_bytes [of "slot_addr 11 j" n name ?w]
    by (simp add: entry_is_def slot(1) d'_def [symmetric] del: get_le.simps)
  have "?e x = d x" if "x < 28" for x
  proof -
    have "?e x = ?w x" using that slot by (simp add: write_entry_other)
    also have "\<dots> = d x"
      using that by (intro file_written_other [OF a(1,2)] below_data [OF a(1,2)]) (simp_all add: mkfs_inode_addr_eq)
    finally show ?thesis .
  qed
  then have "get32 ?e 20 = get32 d 20" "get32 ?e 24 = get32 d 24"
    by (auto intro!: get_le_cong simp del: get_le.simps)
  then show "counters_are d d' (length js)"
    by (simp add: counters_are_def d'_def file_added_def Let_def mem_simps del: get_le.simps put_le.simps)
  show "unchanged d d' (bitmap_bytes \<union> file_bytes n sz js \<union> entry_bytes j name)"
    unfolding unchanged_def
  proof (intro allI impI)
    fix x assume x: "x \<notin> bitmap_bytes \<union> file_bytes n sz js \<union> entry_bytes j name"
    then have "d' x = ?e x"
      by (auto simp: d'_def file_added_def Let_def entry_bytes_def put_le_other simp del: put_le.simps)
    also have "\<dots> = ?w x" using x by (intro write_entry_fine) (auto simp: entry_bytes_def slot)
    also have "\<dots> = d x" using w(4) x by (auto simp: unchanged_def)
    finally show "d' x = d x" .
  qed
qed

lemma add_file_reads:
  assumes "image_ok d" "next_inode_fits d" "unat sz \<le> length data"
  shows "adds_file d name data sz (fsso_add_file d name data sz)"
proof (cases "free_inodes d")
  case Nil
  then have "fsso_add_file d name data sz = Some (-1, d)"
    using add_file_no_inode [OF assms(1)] by (simp add: free_lists)
  with adds_file.no_inode [OF Nil] show ?thesis by simp
next
  case (Cons n ns)
  define js where "js = take (blocks_needed sz) (free_blocks d)"
  note closed = add_file_outcomes [OF assms, of name, unfolded add_file_closed_def free_lists [symmetric]
      blocks_needed_for [symmetric] Cons list.case js_def [symmetric] Let_def]
  have n: "n < 107" "n < 8192" using Cons assms(2) by (simp_all add: next_inode_fits_def free_lists)
  have range: "\<forall>b \<in> set js. b < 8192"
    by (auto simp: js_def free_lists dest!: in_set_takeD simp del: upt_rec_numeral)
  have small: "length js \<le> blocks_needed sz" by (simp add: js_def)
  have ch: "chosen d sz n js" if "length js \<le> 12" "length js = blocks_needed sz"
    using that Cons by (simp add: chosen_def free_lists js_def blocks_needed_for)
  consider (overrun) "12 < length js" | (few) "length js \<le> 12" "length js < blocks_needed sz"
    | (full) "length js \<le> 12" "length js = blocks_needed sz" "free_slots d = []"
    | (complete) j ss where "length js \<le> 12" "length js = blocks_needed sz" "free_slots d = j # ss"
    using small by (cases "free_slots d") force+
  then show ?thesis
  proof cases
    case overrun
    then show ?thesis using adds_file.overrun [OF Cons js_def] by (simp add: closed)
  next
    case few
    then show ?thesis
      using adds_file.no_blocks [OF Cons js_def few marked_reads [OF n(2) range]] by (simp add: closed)
  next
    case full
    then show ?thesis
      using adds_file.no_slot [OF Cons js_def full written_reads [OF assms(1) ch n(1) assms(3)]] by (simp add: closed)
  next
    case (complete j ss)
    have "adding d sz n js j"
      using assms(1) ch complete n(1) root_free_Cons [of d j ss] by (simp add: adding_def free_lists)
    then show ?thesis
      using adds_file.added [OF Cons js_def complete added_reads [OF _ assms(3)]] complete by (simp add: closed)
  qed
qed

text \<open>C3: On a well formed image in which no inode is free or the first free one is below 107 (the inode
  table reaches the root directory's block at 107), fsso_add_file has exactly the outcomes of the
  specification: it takes the first free inode, the first free blocks and the first free slot of the
  root directory, and the image afterwards reads as the file asks for, all other bytes unchanged; it
  fails with -1 when an inode (nothing changed), blocks (bits set) or a slot (bits, inode and data
  written) are missing, and overruns allocated_blocks when more than 12 blocks are asked for and
  more than 12 are free.\<close>

theorem fsso_add_file_meets_spec:
  assumes "image_ok d" "next_inode_fits d" "unat sz \<le> length data"
  shows "adds_file d name data sz (fsso_add_file d name data sz)"
  by (rule add_file_reads [OF assms])

end
