(* ===== verification/Image_Format.thy ===== *)
theory Image_Format
  imports Image_Spec
begin

text \<open>
  The image \<open>main\<close> of \<^verbatim>\<open>src/tools/mkfsso.c\<close> writes, with the parenthesis that its line 174 lacks: the fresh image is well formed, both test
  files are added, and the kernel's functions find and read them. Then the free counters, and the
  places where the builder loses blocks, wraps, or disagrees with the kernel.
\<close>

unbundle bit_operations_syntax

section \<open>The fresh image\<close>

definition fresh :: mem where "fresh = format_disk (\<lambda>_. 0)"

lemma of_string_simps: "length (of_string s) = length s"
  by (simp add: of_string_def)

lemma fresh_cell:
  "1024 \<le> x \<Longrightarrow> x < 2048 \<Longrightarrow> fresh x = (if x = 1024 then 1 else 0)"
  "2048 \<le> x \<Longrightarrow> x < 3072 \<Longrightarrow> fresh x = (if x = 2048 then 0xFF else if x = 2049 then 0x0F else 0)"
  "3092 \<le> x \<Longrightarrow> fresh x = 0"
  by (auto simp: fresh_def format_disk_def Let_def mem_simps image_areas mkfs_inode_addr_eq put_bytes_other
      of_string_simps simp del: put_le.simps)

lemma fresh_ibit: "i < 8192 \<Longrightarrow> ibit fresh i \<longleftrightarrow> i = 0"
proof -
  assume "i < 8192"
  then have "inode_bitmap + i div 8 < 2048" by (simp add: image_areas)
  then have "ibit fresh i \<longleftrightarrow> i div 8 = 0 \<and> bit (1 :: u8) (i mod 8)"
    by (simp add: is_set_iff fresh_cell image_areas)
  also have "\<dots> \<longleftrightarrow> i = 0" by (auto simp: bit_1_iff div_eq_0_iff)
  finally show ?thesis .
qed

lemma fresh_bbit: "i < 8192 \<Longrightarrow> bbit fresh i \<longleftrightarrow> i < 12"
proof -
  assume "i < 8192"
  then have "block_bitmap + i div 8 < 3072" by (simp add: image_areas)
  then have "bbit fresh i \<longleftrightarrow> (if i div 8 = 0 then bit (0xFF :: u8) (i mod 8)
      else i div 8 = 1 \<and> bit (0x0F :: u8) (i mod 8))"
    by (simp add: is_set_iff fresh_cell image_areas)
  moreover have "bit (0xFF :: u8) k" if "k < 8" for k
  proof -
    have "(0xFF :: u8) = mask 8" by (simp add: mask_eq_exp_minus_1)
    then show ?thesis using that by (simp only: bit_mask_iff) simp
  qed
  moreover have "bit (0x0F :: u8) k \<longleftrightarrow> k < 4" if "k < 8" for k
  proof -
    have "(0x0F :: u8) = mask 4" by (simp add: mask_eq_exp_minus_1)
    then show ?thesis using that by (simp only: bit_mask_iff) auto
  qed
  moreover have "i div 8 = 1 \<and> i mod 8 < 4 \<longleftrightarrow> 8 \<le> i \<and> i < 12" by presburger
  ultimately show ?thesis by auto
qed

lemma fresh_root:
  "get64 fresh 0 = FSSO_MAGIC" "get32 fresh 12 = 4096" "get32 fresh 16 = 512"
  "get32 fresh 20 = 4085" "get32 fresh 24 = 511"
  "fresh (mkfs_inode_addr 0 + 12) = FSSO_TYPE_DIR" "get32 fresh (mkfs_inode_addr 0 + 16) = 11"
  by (simp_all add: fresh_def format_disk_def Let_def mem_simps image_areas mkfs_inode_addr_eq put_bytes_other
      of_string_simps TOTAL_BLOCKS_def TOTAL_INODES_def del: put_le.simps get_le.simps)

lemma fresh_zero:
  assumes "3092 \<le> a" shows "get32 fresh a = 0"
  by (rule get_le_zeros) (use assms in \<open>simp add: fresh_cell\<close>)

lemma slot_free: "first_slot fresh 0"
  by (simp add: first_slot_def slot_addr_root fresh_zero del: get_le.simps)

lemma image_ok_fresh: "image_ok fresh"
  unfolding image_ok_def
proof (intro conjI allI impI)
  show "get32 fresh (mkfs_inode_addr 0 + 20) = 0"
    by (simp add: fresh_zero mkfs_inode_addr_eq del: get_le.simps)
  show "bbit fresh b" if "b \<le> 11" for b using that by (simp add: fresh_bbit)
  show "ibit fresh 0" by (simp add: fresh_ibit)
  show "entry_ok fresh (slot_addr 11 j)" for j
    by (simp add: entry_ok_def slot_addr_root fresh_zero del: get_le.simps)
  fix n k assume "n < 107" "\<not> ibit fresh n" "(k :: nat) < 76"
  then have "n \<noteq> 0" by (auto simp: fresh_ibit)
  then show "fresh (mkfs_inode_addr n + k) = 0" by (simp add: fresh_cell mkfs_inode_addr_eq)
qed (use fresh_root in \<open>simp_all add: del: get_le.simps\<close>)

lemma free_numbers_first:
  "i < limit \<Longrightarrow> \<not> used m i \<Longrightarrow> free_numbers used m i limit = i # free_numbers used m (Suc i) limit"
  by (simp add: free_numbers_def upt_conv_Cons)

lemma free_numbers_skip:
  "i < limit \<Longrightarrow> used m i \<Longrightarrow> free_numbers used m i limit = free_numbers used m (Suc i) limit"
  by (simp add: free_numbers_def upt_conv_Cons)

lemma root_lookup_fresh: "root_lookup fresh name = None"
  by (simp add: root_lookup_def block_entries_def slots_entries_def slot_addr_root upt_0_3 fresh_zero
      del: get_le.simps)

section \<open>main\<close>

lemma length_hello: "length hello_txt = 18" "length hello_py = 31"
  by (simp_all add: hello_txt_def hello_py_def of_string_def)

lemma blocks_for_hello: "blocks_for 18 = 1" "blocks_for 31 = 1"
  by (simp_all add: blocks_for_eq)

definition img1 :: mem where
  "img1 = file_added fresh 1 [12] 0 (of_string ''hello.txt'') hello_txt 18"

definition img2 :: mem where
  "img2 = file_added img1 2 [13] 1 (of_string ''hello.py'') hello_py 31"

lemma adding_img1: "adding fresh 18 1 [12] 0"
proof -
  have "free_numbers ibit fresh 1 512 = 1 # free_numbers ibit fresh (Suc 1) 512"
    by (rule free_numbers_first) (simp_all add: fresh_ibit)
  moreover have "free_numbers bbit fresh 11 4096 = free_numbers bbit fresh (Suc 11) 4096"
    by (rule free_numbers_skip) (simp_all add: fresh_bbit)
  moreover have "free_numbers bbit fresh (Suc 11) 4096 = Suc 11 # free_numbers bbit fresh (Suc (Suc 11)) 4096"
    by (rule free_numbers_first) (simp_all add: fresh_bbit)
  ultimately show ?thesis
    using image_ok_fresh slot_free unfolding adding_def chosen_def blocks_for_hello by simp
qed

lemma adding_img2: "adding img1 31 2 [13] 1"
proof -
  note bits = file_added_bits [OF adding_img1, where name = "of_string ''hello.txt''" and data = hello_txt,
      folded img1_def]
  have i1: "free_numbers ibit img1 1 512 = free_numbers ibit img1 (Suc 1) 512"
    by (rule free_numbers_skip) (simp_all add: bits)
  have i2: "free_numbers ibit img1 (Suc 1) 512 = Suc 1 # free_numbers ibit img1 (Suc (Suc 1)) 512"
    by (rule free_numbers_first) (simp_all add: bits fresh_ibit)
  have b1: "free_numbers bbit img1 11 4096 = free_numbers bbit img1 (Suc 11) 4096"
    by (rule free_numbers_skip) (simp_all add: bits fresh_bbit)
  have b2: "free_numbers bbit img1 (Suc 11) 4096 = free_numbers bbit img1 (Suc (Suc 11)) 4096"
    by (rule free_numbers_skip) (simp_all add: bits fresh_bbit)
  have b3: "free_numbers bbit img1 (Suc (Suc 11)) 4096 = Suc (Suc 11) # free_numbers bbit img1 (Suc (Suc (Suc 11))) 4096"
    by (rule free_numbers_first) (simp_all add: bits fresh_bbit)
  have ok: "image_ok img1" unfolding img1_def by (rule image_ok_added [OF adding_img1])
  have s0: "get32 img1 (slot_addr 11 0) = 1" unfolding img1_def file_added_slot by simp
  have "get32 img1 (slot_addr 11 1) = get32 fresh (slot_addr 11 1)"
    unfolding img1_def by (rule file_added_other_slot(1) [OF adding_img1]) simp_all
  then have s1: "get32 img1 (slot_addr 11 1) = 0"
    by (simp add: fresh_zero slot_addr_root del: get_le.simps)
  have "first_slot img1 1"
    using s0 s1 by (simp add: first_slot_def del: get_le.simps)
  moreover have "chosen img1 31 2 [13]"
    unfolding chosen_def blocks_for_hello i1 i2 b1 b2 b3 by simp
  ultimately show ?thesis using ok by (simp add: adding_def)
qed

lemma add_file_adding:
  assumes "adding d sz n js j" "unat sz \<le> length data"
  shows "fsso_add_file d name data sz = Some (0, file_added d n js j name data sz)"
  using addingD [OF assms(1)] assms(2) by (intro add_file_success)

lemma mkfsso_main_image:
  assumes "2 \<le> argc" "h_fopen h" "h_calloc h" "h_fwrite h = 4096"
  shows "mkfsso_main h argc = Some (0, Some img2)"
proof -
  have 1: "fsso_add_file (format_disk (\<lambda>_. 0)) (of_string ''hello.txt'') hello_txt 18 = Some (0, img1)"
    using add_file_adding [OF adding_img1] by (simp add: fresh_def [symmetric] img1_def length_hello)
  have 2: "fsso_add_file img1 (of_string ''hello.py'') hello_py 31 = Some (0, img2)"
    using add_file_adding [OF adding_img2] by (simp add: img2_def length_hello)
  show ?thesis
    unfolding mkfsso_main_def 1 option.case prod.case 2 using assms by (simp add: TOTAL_BLOCKS_def)
qed

lemma is_cstr_hello:
  "is_cstr (of_string ''hello.txt'')" "is_cstr (of_string ''hello.py'')"
  "length (of_string ''hello.txt'') = 9" "length (of_string ''hello.py'') = 8"
  "of_string ''hello.txt'' \<noteq> of_string ''hello.py''" "of_string ''hello.py'' \<noteq> of_string ''hello.txt''"
  by (simp_all add: of_string_def is_cstr_def)

lemma img1_lookup: "root_lookup img1 = [of_string ''hello.txt'' \<mapsto> 1]"
proof -
  have "root_lookup fresh = Map.empty" by (rule ext) (rule root_lookup_fresh)
  then show ?thesis
    using root_lookup_added [OF adding_img1 is_cstr_hello(1), where data = hello_txt]
    by (simp add: img1_def is_cstr_hello)
qed

lemma img2_lookup: "root_lookup img2 = [of_string ''hello.txt'' \<mapsto> 1, of_string ''hello.py'' \<mapsto> 2]"
  using root_lookup_added [OF adding_img2 is_cstr_hello(2), where data = hello_py] img1_lookup
  by (simp add: img2_def is_cstr_hello)

lemma image_ok_img2: "image_ok img2"
  unfolding img2_def by (rule image_ok_added [OF adding_img2])

lemma img2_read:
  assumes "31 \<le> unat maxsz"
  shows "take 18 (snd (read_result img2 (mounted img2) 1 buf maxsz)) = hello_txt"
    and "take 31 (snd (read_result img2 (mounted img2) 2 buf maxsz)) = hello_py"
    and "fst (read_result img2 (mounted img2) 1 buf maxsz) = int (min 1024 (unat maxsz))"
    and "fst (read_result img2 (mounted img2) 2 buf maxsz) = int (min 1024 (unat maxsz))"
proof -
  have "read_result img2 (mounted img2) 1 buf maxsz = read_result img1 (mounted img1) 1 buf maxsz"
    unfolding img2_def
    by (rule kept_added(2) [OF adding_img2 is_cstr_hello(2) _ _ is_cstr_hello(5)])
      (simp_all add: img1_lookup is_cstr_hello)
  then show "take 18 (snd (read_result img2 (mounted img2) 1 buf maxsz)) = hello_txt"
    "fst (read_result img2 (mounted img2) 1 buf maxsz) = int (min 1024 (unat maxsz))"
    using read_added [OF adding_img1, where data = hello_txt and maxsz = maxsz and buf = buf] assms
    by (simp_all add: img1_def length_hello blocks_for_hello)
  show "take 31 (snd (read_result img2 (mounted img2) 2 buf maxsz)) = hello_py"
    "fst (read_result img2 (mounted img2) 2 buf maxsz) = int (min 1024 (unat maxsz))"
    using read_added [OF adding_img2, where data = hello_py and maxsz = maxsz and buf = buf] assms
    by (simp_all add: img2_def length_hello blocks_for_hello)
qed

text \<open>When the host's calls succeed, main of mkfsso (with line 174 repaired, see \<open>mkfsso_main\<close>) writes a well formed image in which the kernel's
  lookup finds hello.txt as inode 1 and hello.py as inode 2, and whose files read, into a buffer of at
  least 31 bytes, as the text of the two literals followed by the rest of their block.\<close>

theorem mkfsso_image_files:
  assumes "2 \<le> argc" "h_fopen h" "h_calloc h" "h_fwrite h = 4096" "31 \<le> unat maxsz"
  shows "\<exists>img. mkfsso_main h argc = Some (0, Some img) \<and> image_ok img \<and>
    find_result img (mounted img) 0 (of_string ''hello.txt'') out = (0, 1) \<and>
    find_result img (mounted img) 0 (of_string ''hello.py'') out = (0, 2) \<and>
    take 18 (snd (read_result img (mounted img) 1 buf maxsz)) = hello_txt \<and>
    take 31 (snd (read_result img (mounted img) 2 buf maxsz)) = hello_py"
  using mkfsso_main_image [OF assms(1-4)] image_ok_img2 img2_read(1,2) [OF assms(5)]
  by (intro exI [of _ img2]) (simp add: find_result_root img2_lookup is_cstr_hello)

theorem mkfsso_image_files_witness:
  "\<exists>img. mkfsso_main \<lparr>h_fopen = True, h_calloc = True, h_fwrite = 4096\<rparr> 2 = Some (0, Some img) \<and>
    find_result img (mounted img) 0 (of_string ''hello.py'') 7 = (0, 2) \<and>
    take 31 (snd (read_result img (mounted img) 2 (replicate 4096 0) 4096)) = hello_py"
  using mkfsso_image_files [of 2 "\<lparr>h_fopen = True, h_calloc = True, h_fwrite = 4096\<rparr>" 4096 7 "replicate 4096 0"]
  by auto

section \<open>The free counters\<close>

text \<open>
  What the superblock's counters say against the bitmaps. The format step counts the root
  directory's block as free and then marks it used, so the block counter starts one too high.
\<close>

definition accounted :: "mem \<Rightarrow> bool" where
  "accounted d \<longleftrightarrow> unat (get32 d 20) = length (free_numbers bbit d 0 4096) + 1 \<and>
     unat (get32 d 24) = length (free_numbers ibit d 0 512)"

lemma free_numbers_interval:
  assumes "\<And>i. i < limit \<Longrightarrow> used m i \<longleftrightarrow> i < k" "k \<le> limit"
  shows "length (free_numbers used m 0 limit) = limit - k"
proof -
  have "[0..<limit] = [0..<k] @ [k..<limit]"
    using assms(2) upt_add_eq_append [of 0 k "limit - k"] by simp
  moreover have "filter (\<lambda>i. \<not> used m i) [0..<k] = []" "filter (\<lambda>i. \<not> used m i) [k..<limit] = [k..<limit]"
    using assms by (auto simp: filter_empty_conv filter_id_conv)
  ultimately show ?thesis by (simp add: free_numbers_def)
qed

lemma accounted_fresh: "accounted fresh"
proof -
  have "length (free_numbers bbit fresh 0 4096) = 4096 - 12"
    by (rule free_numbers_interval) (simp_all add: fresh_bbit)
  moreover have "length (free_numbers ibit fresh 0 512) = 512 - 1"
    by (rule free_numbers_interval) (simp_all add: fresh_ibit)
  ultimately show ?thesis by (simp add: accounted_def fresh_root del: get_le.simps)
qed

lemma file_added_counters:
  assumes "adding d sz n js j"
  shows "get32 (file_added d n js j name data sz) 20 = get32 d 20 - of_nat (length js)"
    and "get32 (file_added d n js j name data sz) 24 = get32 d 24 - 1"
proof -
  note a = addingD [OF assms]
  let ?w = "write_entry (slot_addr 11 j) n name (file_written d n js data sz)"
  have "?w x = d x" if "x < 28" for x
  proof -
    have "?w x = file_written d n js data sz x"
      using that slot_addr_low(1) [of j] by (simp add: write_entry_other)
    also have "\<dots> = d x"
      using that by (intro file_written_other [OF a(1,2)] below_data [OF a(1,2)])
        (simp_all add: mkfs_inode_addr_eq)
    finally show ?thesis .
  qed
  then have "get32 ?w 20 = get32 d 20" "get32 ?w 24 = get32 d 24"
    by (auto intro!: get_le_cong simp del: get_le.simps)
  then show "get32 (file_added d n js j name data sz) 20 = get32 d 20 - of_nat (length js)"
    "get32 (file_added d n js j name data sz) 24 = get32 d 24 - 1"
    by (simp_all add: file_added_def Let_def mem_simps del: get_le.simps put_le.simps)
qed

lemma accounted_added:
  assumes "adding d sz n js j" "accounted d"
  shows "accounted (file_added d n js j name data sz)"
proof -
  note a = addingD [OF assms(1)]
  let ?m = "file_added d n js j name data sz"
  have b: "free_numbers bbit ?m 0 4096 = free_numbers bbit (fold (set_bit_at block_bitmap) js d) 0 4096"
    unfolding free_numbers_def
    by (rule filter_cong) (auto simp: file_added_bits [OF assms(1)] blocks.used_fold_mark simp del: upt_rec_numeral)
  have i: "free_numbers ibit ?m 0 512 = free_numbers ibit (fold (set_bit_at inode_bitmap) [n] d) 0 512"
    unfolding free_numbers_def
    by (rule filter_cong) (auto simp: file_added_bits [OF assms(1)] inodes.used_mark simp del: upt_rec_numeral)
  have "set js \<subseteq> set (free_numbers bbit d 0 4096)" using adding_blocks [OF assms(1)] by auto
  from blocks.length_free_fold_mark [OF a(9) this] b
  have lb: "length (free_numbers bbit ?m 0 4096) + length js = length (free_numbers bbit d 0 4096)" by simp
  have "set [n] \<subseteq> set (free_numbers ibit d 0 512)" using a(3,10) by simp
  from inodes.length_free_fold_mark [OF _ this] i
  have li: "length (free_numbers ibit ?m 0 512) + 1 = length (free_numbers ibit d 0 512)" by simp
  have len: "unat (of_nat (length js) :: u32) = length js" using a(7) by (simp add: unat_of_nat)
  have "unat (get32 d 20 - of_nat (length js)) = unat (get32 d 20) - length js"
    using assms(2) lb len by (subst unat_diff_no_wrap) (simp_all add: accounted_def word_le_nat_alt del: get_le.simps)
  moreover have "unat (get32 d 24 - 1) = unat (get32 d 24) - 1"
    using assms(2) li by (subst unat_diff_no_wrap) (simp_all add: accounted_def word_le_nat_alt del: get_le.simps)
  ultimately show ?thesis
    using assms(2) lb li unfolding accounted_def file_added_counters [OF assms(1)] by arith
qed

text \<open>On the image just formatted the superblock's free-inode counter is the number of clear inode
  bits, and its free-block counter is one more than the number of clear block bits; a successful
  fsso_add_file keeps both relations.\<close>

theorem counters_follow_bitmaps:
  assumes "image_ok d" "accounted d" "hd (free_numbers ibit d 1 512) < 107" "unat sz \<le> length data"
    and "fsso_add_file d name data sz = Some (0, d')"
  shows "accounted (format_disk (\<lambda>_. 0)) \<and> accounted d'"
proof -
  from add_file_ok_adding [OF assms(1) hd_fits [OF assms(3)] assms(4,5)] obtain n js j
    where "adding d sz n js j" "d' = file_added d n js j name data sz" by blast
  then show ?thesis using accounted_added assms(2) accounted_fresh by (simp add: fresh_def)
qed

theorem counters_follow_bitmaps_witness: "accounted img1 \<and> unat (get32 img1 20) = 4084"
proof -
  have n: "hd (free_numbers ibit fresh 1 512) < 107"
    using addingD(2) [OF adding_img1] unfolding chosen_def by fastforce
  have add: "fsso_add_file fresh (of_string ''hello.txt'') hello_txt 18 = Some (0, img1)"
    using add_file_adding [OF adding_img1] by (simp add: img1_def length_hello)
  have "unat (18 :: u32) \<le> length hello_txt" by (simp add: length_hello)
  from counters_follow_bitmaps [OF image_ok_fresh accounted_fresh n this add]
  have "accounted img1" ..
  moreover have "unat (get32 img1 20) = 4084"
    using file_added_counters(1) [OF adding_img1] fresh_root(4) by (simp add: img1_def del: get_le.simps)
  ultimately show ?thesis by simp
qed

section \<open>What a failed attempt keeps\<close>

text \<open>C23: when the root directory has no free slot, fsso_add_file fails after it has marked an inode and
  blocks as used and written them: the bits stay set while the free counters do not change. This is
  the failure for want of a slot, with an inode below 107 and enough blocks at hand.\<close>

theorem failed_add_leaks:
  assumes "image_ok d" "root_free d = []" "hd (free_numbers ibit d 1 512) < 107"
    and "free_numbers ibit d 1 512 \<noteq> []" "blocks_for sz \<le> 12"
    and "blocks_for sz \<le> length (free_numbers bbit d 11 4096)" "unat sz \<le> length data"
  shows "\<exists>d'. fsso_add_file d name data sz = Some (-1, d') \<and>
    ibit d' (hd (free_numbers ibit d 1 512)) \<and>
    (\<forall>b \<in> set (take (blocks_for sz) (free_numbers bbit d 11 4096)). bbit d' b) \<and>
    get32 d' 20 = get32 d 20 \<and> get32 d' 24 = get32 d 24"
proof -
  define n where "n = hd (free_numbers ibit d 1 512)"
  define js where "js = take (blocks_for sz) (free_numbers bbit d 11 4096)"
  have len: "length js = blocks_for sz" using assms(6) by (simp add: js_def)
  have n: "\<exists>ns. free_numbers ibit d 1 512 = n # ns"
    using assms(4) by (cases "free_numbers ibit d 1 512") (simp_all add: n_def)
  then have ch: "chosen d sz n js" using len assms(5) by (simp add: chosen_def js_def [symmetric])
  have n107: "n < 107" using assms(3) by (simp add: n_def)
  have "\<forall>j < 3. get32 d (slot_addr 11 j) \<noteq> 0" using assms(2) by (simp only: root_free_Nil)
  note full = add_file_root_full [OF assms(1) ch n107 this assms(7)]
  let ?d' = "file_written d n js data sz"
  have low: "?d' x = d x" if "x < 28" for x
    using that by (intro file_written_other [OF assms(1) ch] below_data [OF assms(1) ch])
      (simp_all add: mkfs_inode_addr_eq)
  have "get32 ?d' 20 = get32 d 20" "get32 ?d' 24 = get32 d 24"
    by (rule get_le_cong, simp add: low)+
  moreover have "ibit ?d' n" using n107 by (simp add: file_written_ibit [OF assms(1) ch])
  moreover have "\<forall>b \<in> set js. bbit ?d' b"
    using chosen_blocks(2) [OF assms(1) ch] by (auto simp: file_written_bbit [OF assms(1) ch])
  ultimately show ?thesis
    unfolding n_def [symmetric] js_def [symmetric] using full by blast
qed

definition img3 :: mem where
  "img3 = file_added img2 3 [] 2 (of_string ''empty'') [] 0"

lemma adding_img3: "adding img2 0 3 [] 2"
proof -
  note bits1 = file_added_bits [OF adding_img1, where name = "of_string ''hello.txt''" and data = hello_txt,
      folded img1_def]
  note bits = file_added_bits [OF adding_img2, where name = "of_string ''hello.py''" and data = hello_py,
      folded img2_def]
  have i1: "free_numbers ibit img2 1 512 = free_numbers ibit img2 (Suc 1) 512"
    by (rule free_numbers_skip) (simp_all add: bits bits1)
  have i2: "free_numbers ibit img2 (Suc 1) 512 = free_numbers ibit img2 (Suc (Suc 1)) 512"
    by (rule free_numbers_skip) (simp_all add: bits bits1)
  have i3: "free_numbers ibit img2 (Suc (Suc 1)) 512 = Suc (Suc 1) # free_numbers ibit img2 (Suc (Suc (Suc 1))) 512"
    by (rule free_numbers_first) (simp_all add: bits bits1 fresh_ibit)
  have "blocks_for 0 = 0" by (simp add: blocks_for_eq)
  then have ch: "chosen img2 0 3 []" unfolding chosen_def i1 i2 i3 by simp
  have s1: "get32 img2 (slot_addr 11 1) = 2" unfolding img2_def file_added_slot by simp
  have "get32 img2 (slot_addr 11 0) = get32 img1 (slot_addr 11 0)"
    unfolding img2_def by (rule file_added_other_slot(1) [OF adding_img2]) simp_all
  also have "\<dots> = 1" unfolding img1_def file_added_slot by simp
  finally have s0: "get32 img2 (slot_addr 11 0) = 1" .
  have "get32 img2 (slot_addr 11 2) = get32 img1 (slot_addr 11 2)"
    unfolding img2_def by (rule file_added_other_slot(1) [OF adding_img2]) simp_all
  also have "\<dots> = get32 fresh (slot_addr 11 2)"
    unfolding img1_def by (rule file_added_other_slot(1) [OF adding_img1]) simp_all
  finally have s2: "get32 img2 (slot_addr 11 2) = 0"
    by (simp add: fresh_zero slot_addr_root del: get_le.simps)
  have "first_slot img2 2"
    using s0 s1 s2 by (auto simp: first_slot_def less_Suc_eq numeral_2_eq_2 simp del: get_le.simps)
  with ch image_ok_img2 show ?thesis by (simp add: adding_def)
qed

lemma img3_root_full: "root_free img3 = []"
proof -
  have s2: "get32 img3 (slot_addr 11 2) = 3" unfolding img3_def file_added_slot by simp
  have "get32 img3 (slot_addr 11 1) = get32 img2 (slot_addr 11 1)"
    unfolding img3_def by (rule file_added_other_slot(1) [OF adding_img3]) simp_all
  also have "\<dots> = 2" unfolding img2_def file_added_slot by simp
  finally have s1: "get32 img3 (slot_addr 11 1) = 2" .
  have "get32 img3 (slot_addr 11 0) = get32 img2 (slot_addr 11 0)"
    unfolding img3_def by (rule file_added_other_slot(1) [OF adding_img3]) simp_all
  also have "\<dots> = get32 img1 (slot_addr 11 0)"
    unfolding img2_def by (rule file_added_other_slot(1) [OF adding_img2]) simp_all
  also have "\<dots> = 1" unfolding img1_def file_added_slot by simp
  finally show ?thesis using s1 s2 by (simp add: root_free_def del: get_le.simps)
qed

lemma img3_free:
  "\<exists>ns. free_numbers ibit img3 1 512 = 4 # ns" "\<exists>bs. free_numbers bbit img3 11 4096 = 14 # bs"
  "image_ok img3"
proof -
  note bits1 = file_added_bits [OF adding_img1, where name = "of_string ''hello.txt''" and data = hello_txt,
      folded img1_def]
  note bits2 = file_added_bits [OF adding_img2, where name = "of_string ''hello.py''" and data = hello_py,
      folded img2_def]
  note bits = file_added_bits [OF adding_img3, where name = "of_string ''empty''" and data = "[]",
      folded img3_def]
  note used = bits bits2 bits1 fresh_ibit fresh_bbit
  have i: "free_numbers ibit img3 1 512 = free_numbers ibit img3 (Suc 1) 512"
    "free_numbers ibit img3 (Suc 1) 512 = free_numbers ibit img3 (Suc (Suc 1)) 512"
    "free_numbers ibit img3 (Suc (Suc 1)) 512 = free_numbers ibit img3 (Suc (Suc (Suc 1))) 512"
    by (rule free_numbers_skip; simp add: used)+
  have "free_numbers ibit img3 4 512 = 4 # free_numbers ibit img3 (Suc 4) 512"
    by (rule free_numbers_first) (simp_all add: used)
  moreover have "Suc (Suc (Suc 1)) = (4 :: nat)" by simp
  ultimately show "\<exists>ns. free_numbers ibit img3 1 512 = 4 # ns" unfolding i by (simp only:) blast
  have b: "free_numbers bbit img3 11 4096 = free_numbers bbit img3 (Suc 11) 4096"
    "free_numbers bbit img3 (Suc 11) 4096 = free_numbers bbit img3 (Suc (Suc 11)) 4096"
    "free_numbers bbit img3 (Suc (Suc 11)) 4096 = free_numbers bbit img3 (Suc (Suc (Suc 11))) 4096"
    by (rule free_numbers_skip; simp add: used)+
  have "free_numbers bbit img3 14 4096 = 14 # free_numbers bbit img3 (Suc 14) 4096"
    by (rule free_numbers_first) (simp_all add: used)
  then show "\<exists>bs. free_numbers bbit img3 11 4096 = 14 # bs" unfolding b by simp
  show "image_ok img3" unfolding img3_def by (rule image_ok_added [OF adding_img3])
qed

theorem failed_add_leaks_witness:
  "\<exists>d'. fsso_add_file img3 (of_string ''more'') hello_txt 18 = Some (-1, d') \<and> ibit d' 4 \<and> bbit d' 14"
proof -
  obtain ns where n: "free_numbers ibit img3 1 512 = 4 # ns" using img3_free(1) by blast
  obtain bs where b: "free_numbers bbit img3 11 4096 = 14 # bs" using img3_free(2) by blast
  have h: "hd (free_numbers ibit img3 1 512) < 107" "free_numbers ibit img3 1 512 \<noteq> []"
    "blocks_for 18 \<le> 12" "blocks_for 18 \<le> length (free_numbers bbit img3 11 4096)"
    "unat (18 :: u32) \<le> length hello_txt"
    unfolding n b blocks_for_hello by (simp_all add: length_hello)
  from failed_add_leaks [OF img3_free(3) img3_root_full h, of "of_string ''more''"]
  show ?thesis unfolding n b blocks_for_hello by auto
qed

section \<open>Witnesses on the first image\<close>

lemma fresh_inode: "hd (free_numbers ibit fresh 1 512) = 1" "hd (free_numbers ibit img1 1 512) = 2"
  using addingD(2) [OF adding_img1] addingD(2) [OF adding_img2] unfolding chosen_def by fastforce+

lemma fresh_fits: "next_inode_fits fresh" "next_inode_fits img1"
  by (simp_all add: hd_fits fresh_inode [simplified])

lemma add_img1: "fsso_add_file fresh (of_string ''hello.txt'') hello_txt 18 = Some (0, img1)"
  using add_file_adding [OF adding_img1] by (simp add: img1_def length_hello)

lemma add_img2: "fsso_add_file img1 (of_string ''hello.py'') hello_py 31 = Some (0, img2)"
  using add_file_adding [OF adding_img2] by (simp add: img2_def length_hello)

theorem fsso_add_file_meets_spec_witness:
  "adds_file fresh (of_string ''hello.txt'') hello_txt 18 (Some (0, img1))"
  using fsso_add_file_meets_spec [OF image_ok_fresh fresh_fits(1), of 18 hello_txt "of_string ''hello.txt''"] add_img1
  by (simp add: length_hello)

theorem add_file_then_read_witness:
  "\<exists>n. find_result img1 (mounted img1) 0 (of_string ''hello.txt'') 9 = (0, n) \<and>
    fst (read_result img1 (mounted img1) n [] 4096) = 1024 \<and>
    take 18 (snd (read_result img1 (mounted img1) n [] 4096)) = hello_txt"
  using add_file_then_read [OF image_ok_fresh _ is_cstr_hello(1) _ root_lookup_fresh _ _ _ add_img1, of 4096 9 "[]"]
  unfolding fresh_inode by (simp add: length_hello is_cstr_hello blocks_for_hello)

theorem add_file_keeps_others_witness:
  "read_result img2 (mounted img2) 1 [] 4096 = read_result img1 (mounted img1) 1 [] 4096"
proof -
  have "root_lookup img1 (of_string ''hello.py'') = None" by (simp add: img1_lookup is_cstr_hello)
  from add_file_keeps_others [OF addingD(1) [OF adding_img2] fresh_fits(2) is_cstr_hello(2) _ this _ add_img2 is_cstr_hello(5)]
  show ?thesis by (simp add: length_hello is_cstr_hello img1_lookup)
qed

theorem add_file_keeps_image_witness: "image_ok img1"
  using add_file_keeps_image [OF image_ok_fresh fresh_fits(1) _ add_img1] by (simp add: length_hello)

section \<open>Where the builder and the kernel disagree\<close>

text \<open>The builder packs the inode table, the kernel reads 13 inodes per block: they agree on the place
  of inode n exactly when n is below 13. The packed table reaches the root directory's block 11 at
  inode 107, although the image is formatted with 512 inodes and fsso_add_file hands out all of them.\<close>

theorem inode_tables_disagree:
  "(kernel_inode_addr n = mkfs_inode_addr n \<longleftrightarrow> n < 13) \<and>
   (mkfs_inode_addr n + sizeof_Inode \<le> FSSO_FIRST_DATA_BLOCK * FSSO_BLOCK_SIZE \<longleftrightarrow> n < 107) \<and>
   get32 (format_disk (\<lambda>_. 0)) 16 = 512"
proof (intro conjI)
  have "n = 13 * (n div 13) + n mod 13" by simp
  moreover have "kernel_inode_addr n = 3072 + 1024 * (n div 13) + 76 * (n mod 13)"
    by (simp add: kernel_inode_addr_def)
  ultimately have "kernel_inode_addr n = mkfs_inode_addr n \<longleftrightarrow> n div 13 = 0"
    unfolding mkfs_inode_addr_eq by linarith
  then show "kernel_inode_addr n = mkfs_inode_addr n \<longleftrightarrow> n < 13" by (simp add: div_eq_0_iff)
  show "mkfs_inode_addr n + sizeof_Inode \<le> FSSO_FIRST_DATA_BLOCK * FSSO_BLOCK_SIZE \<longleftrightarrow> n < 107"
    by (auto simp: mkfs_inode_addr_eq)
  show "get32 (format_disk (\<lambda>_. 0)) 16 = 512" using fresh_root(3) unfolding fresh_def .
qed

text \<open>A size within 1023 bytes of 4 GB needs no block at all: the rounding wraps.\<close>

lemma blocks_for_wraps: "2 ^ 32 \<le> unat sz + 1023 \<Longrightarrow> blocks_for sz = 0"
proof -
  assume a: "2 ^ 32 \<le> unat sz + 1023"
  have "unat (sz + 1023) = (unat sz + 1023) mod 2 ^ 32" by (simp add: unat_word_ariths)
  also have "\<dots> = unat sz + 1023 - 2 ^ 32"
    using a unat_u32_less [of sz] by (simp add: mod_if)
  finally have "unat (sz + 1023) < 1024" using unat_u32_less [of sz] by simp
  then show ?thesis by (simp add: blocks_for_alt)
qed

end
