(* ===== verification/Fsso_Correct.thy ===== *)
theory Fsso_Correct
  imports Platform Image_Format
begin

text \<open>
  The file system functions of \<^verbatim>\<open>src/kernel/fsso.c\<close> over the AHCI driver of \<^verbatim>\<open>src/kernel/ahci.c\<close>:
  for any controller that keeps the contract \<open>ahci_device\<close>, they compute what the bytes of the disk
  mean (\<open>Fsso_Spec\<close>). The contract leaves the contents of the received-FIS area and the byte count of the
  command header to the controller. The code of the kernel is not in the memory of the model: where
  linker.ld of the repository puts it, the driver's areas overlap it (\<open>ahci_areas_in_kernel_image\<close>), and
  the theorems speak of a kernel that lies elsewhere. The machine of \<open>Platform\<close> is such a controller; on it the image of
  \<^verbatim>\<open>src/tools/mkfsso.c\<close> is mounted and read end to end.
\<close>

unbundle bit_operations_syntax

section \<open>The stack of contracts\<close>

definition driver_ready :: "'w hw \<Rightarrow> ahci_state \<Rightarrow> ('w \<Rightarrow> bool) \<Rightarrow> 'w \<Rightarrow> bool" where
  "driver_ready hw st ok w \<longleftrightarrow> ok w \<and> \<not> bit (ram_op hw w (unat (clb_addr (nat (active_port st))))) 5"

abbreviation ahci_io :: "'w hw \<Rightarrow> ahci_state \<Rightarrow> u64 \<Rightarrow> ('w \<Rightarrow> bytes) \<Rightarrow> 'w disk_io" where
  "ahci_io hw st addr stk \<equiv> \<lparr>io_read = ahci_bdev hw st addr, io_stack = stk\<rparr>"

context ahci_device
begin

lemma driver_fsso_disk:
  assumes "\<And>w. length (stk w) = 1024"
  shows "fsso_disk (ahci_bdev hw st addr) content sectors (driver_ready hw st ok) stk"
proof
  fix w w' :: 'w and buf buf' :: bytes and lba :: u64 and rc :: int
  assume "driver_ready hw st ok w" "length buf = 1024" "unat lba + 2 \<le> sectors"
    "ahci_bdev hw st addr lba 2 buf w = (rc, buf', w')"
  from driver_read [OF _ this(2-4)] this(1)
  show "rc = 0 \<and> buf' = get_bytes (content w) (unat lba * 512) 1024 \<and>
      driver_ready hw st ok w' \<and> content w' = content w"
    unfolding driver_ready_def by blast
qed (rule assms)

end

lemma driver_disk:
  assumes "ahci_device hw st addr content sectors ok" "\<And>w. length (stk w) = 1024"
  shows "fsso_disk (ahci_bdev hw st addr) content sectors (driver_ready hw st ok) stk"
  by (rule ahci_device.driver_fsso_disk [OF assms])

section \<open>The properties\<close>

text \<open>Over a controller that keeps its contract, fsso_mount accepts the disk exactly when the first
  eight bytes are the magic number, fills in the superblock read from the disk, fails with -1 and
  leaves the file system alone otherwise, and leaves the disk and the driver as they were.\<close>

theorem fsso_mount_correct:
  assumes "ahci_device hw st addr content sectors ok" "\<forall>w. length (stk w) = 1024"
    and "driver_ready hw st ok w" "2 \<le> sectors"
    and "fsso_mount (ahci_io hw st addr stk) fs w = (rc, fs', w')"
  shows "(if get64 (content w) 0 = FSSO_MAGIC
      then rc = 0 \<and> fs' = fs\<lparr>superblock := get_superblock (content w) 0, disk_start_block := 0\<rparr>
      else rc = -1 \<and> fs' = fs) \<and> driver_ready hw st ok w' \<and> content w' = content w"
proof -
  note disk = driver_disk [OF assms(1), of stk, OF spec [OF assms(2)]]
  from fsso_disk.mount_disk [OF disk assms(3-5)] show ?thesis
    unfolding fsso_disk.same_disk_def [OF disk] .
qed




section \<open>Well formed images are readable\<close>

lemma image_inode_on_disk:
  assumes "image_ok d"
  shows "inode_on_disk 8192 d 0"
    and "root_lookup d name = Some i \<Longrightarrow> unat i < 13 \<Longrightarrow> inode_on_disk 8192 d i"
proof -
  show "inode_on_disk 8192 d 0" by (simp add: inode_on_disk_def blocks_in_def image_root(2) [OF assms])
  assume i: "root_lookup d name = Some i" "unat i < 13"
  then have "disk_inode d (unat i) = mkfs_inode d (unat i)" by (simp add: disk_inode_small)
  with i(2) root_lookup_entry(5) [OF assms i(1)] show "inode_on_disk 8192 d i"
    by (fastforce simp: inode_on_disk_def blocks_in_def)
qed


section \<open>Names with a dot\<close>

lemma walk_two_components:
  assumes "image_ok d" "\<And>nm i. root_lookup d nm = Some i \<Longrightarrow> unat i < 13"
  shows "walk d (mounted d) 0 (c1 # c2 # cs) = None"
proof (cases "root_lookup d c1")
  case None
  then show ?thesis by (simp add: find_result_root [OF assms(1)])
next
  case (Some i)
  note e = root_lookup_entry [OF assms(1) Some]
  have small: "unat i < 13" using assms(2) [OF Some] .
  have "i_type (disk_inode d (unat i)) = FSSO_TYPE_FILE"
    using e(4) small by (simp add: disk_inode_small)
  moreover have "FSSO_TYPE_FILE \<noteq> FSSO_TYPE_DIR" by (simp add: FSSO_TYPE_FILE_def FSSO_TYPE_DIR_def)
  ultimately have "fst (find_result d (mounted d) i c2 0) \<noteq> 0" by (simp add: find_result_def)
  then show ?thesis
    by (auto simp: find_result_root [OF assms(1)] Some split: prod.splits)
qed

text \<open>fsso_resolve_path treats every dot as a separator and the builder makes no directories, so on a
  well formed image it fails with -1 for every path of two or more components: a file whose name
  holds a dot between other characters, such as hello.txt, can be found by fsso_find_in_dir but
  never by its path.\<close>

theorem dotted_names_unresolvable:
  assumes dev: "ahci_device hw st addr content 8192 ok" and stk: "\<forall>w. length (stk w) = 1024"
    and ready: "driver_ready hw st ok w" and img: "image_ok (content w)"
    and small: "\<forall>nm i. root_lookup (content w) nm = Some i \<longrightarrow> unat i < 13"
    and path: "is_cstr path" "2 \<le> length (path_components path)"
  shows "fst (fsso_resolve_path (ahci_io hw st addr stk) (mounted (content w)) path out w) = -1"
proof -
  note disk = driver_disk [OF dev, of stk, OF spec [OF stk]]
  have start: "fsso_disk.same_disk content (driver_ready hw st ok) w w"
    using ready by (simp add: fsso_disk.same_disk_def [OF disk])
  obtain c1 c2 cs where p: "path_components path = c1 # c2 # cs"
    using path(2) by (metis One_nat_def Suc_1 Suc_le_length_iff)
  have small': "unat i < 13" if "root_lookup (content w) nm = Some i" for nm i using small that by blast
  have "walk_on_disk 8192 (content w) (mounted (content w)) 0 (path_components path)"
  proof (cases "root_lookup (content w) c1")
    case None
    then show ?thesis using image_inode_on_disk(1) [OF img]
      by (simp add: p find_result_root [OF img])
  next
    case (Some i)
    note e = root_lookup_entry [OF img Some]
    have "i_type (disk_inode (content w) (unat i)) = FSSO_TYPE_FILE"
      using e(4) small' [OF Some] by (simp add: disk_inode_small)
    moreover have "FSSO_TYPE_FILE \<noteq> FSSO_TYPE_DIR" by (simp add: FSSO_TYPE_FILE_def FSSO_TYPE_DIR_def)
    ultimately have "fst (find_result (content w) (mounted (content w)) i c2 0) \<noteq> 0"
      by (simp add: find_result_def)
    then show ?thesis
      using image_inode_on_disk [OF img] small' [OF Some] Some
      by (auto simp: p find_result_root [OF img] split: prod.splits)
  qed
  moreover obtain rc i w' where r: "fsso_resolve_path (ahci_io hw st addr stk) (mounted (content w)) path out w = (rc, i, w')"
    by (metis prod_cases3)
  ultimately have "(rc, i) = (case walk (content w) (mounted (content w)) 0 (path_components path) of
      None \<Rightarrow> (-1, out) | Some i \<Rightarrow> (0, i))"
    using fsso_disk.resolve_loop_disk [OF disk start path(1) _ r [unfolded fsso_resolve_path_def]] by blast
  then show ?thesis using walk_two_components [OF img small'] by (simp add: p r)
qed

section \<open>The machine\<close>

text \<open>The machine of \<open>Platform\<close> with a given disk, the driver set up on port 1, and a stack of noise.\<close>

definition pc_with :: "mem \<Rightarrow> pc" where
  "pc_with d = \<lparr>pc_ram = (\<lambda>_. 0), pc_latch = 0, pc_cfg = (\<lambda>_. 0xFFFFFFFF), pc_base = 0xFEBF1000,
     pc_port = 1, pc_regs = (\<lambda>_. 0)(hba_port 0xFEBF1000 1 + ucast PORT_CLB := clb_addr 1,
       hba_port 0xFEBF1000 1 + ucast PORT_FB := fb_addr 1, hba_port 0xFEBF1000 1 + ucast PORT_CMD := 0x11),
     pc_disk = d, pc_sectors = 8192, pc_busy = 0, pc_stop = 0, pc_latency = 3, pc_keys = []\<rparr>"

definition noise :: "pc \<Rightarrow> bytes" where "noise w = replicate 1024 0xCC"

abbreviation qemu_io :: "pc disk_io" where
  "qemu_io \<equiv> ahci_io pc_hw qemu_ahci 0x2000000 noise"

interpretation qemu_fs: fsso_disk "ahci_bdev pc_hw qemu_ahci 0x2000000" pc_disk 8192
  "driver_ready pc_hw qemu_ahci (pc_ready qemu_ahci)" noise
  by (rule driver_disk [OF qemu.ahci_device_axioms]) (simp add: noise_def)

lemma pc_with_ready: "driver_ready pc_hw qemu_ahci (pc_ready qemu_ahci) (pc_with d)"
  by (simp add: driver_ready_def pc_ready_def pc_with_def qemu_ahci_def pc_reg_def ahci_timeout_def port_regs)

lemma noise_length: "\<forall>w. length (noise w) = 1024"
  by (simp add: noise_def)

lemma pc_disk_with [simp]: "pc_disk (pc_with d) = d"
  by (simp add: pc_with_def)

section \<open>Witnesses\<close>

lemma img2_magic: "get64 img2 0 = FSSO_MAGIC"
  using image_ok_img2 unfolding image_ok_def by blast

theorem fsso_mount_correct_witness:
  "fst (fsso_mount qemu_io (mounted img2) (pc_with img2)) = 0 \<and>
   fst (fsso_mount qemu_io (mounted img2) (pc_with (\<lambda>_. 0))) = -1"
proof -
  obtain rc fs' w' where m: "fsso_mount qemu_io (mounted img2) (pc_with img2) = (rc, fs', w')" by (metis prod_cases3)
  obtain rc0 fs0 w0 where m0: "fsso_mount qemu_io (mounted img2) (pc_with (\<lambda>_. 0)) = (rc0, fs0, w0)" by (metis prod_cases3)
  have "get64 (\<lambda>_. 0) 0 = 0" by (rule get_le_zeros) simp
  then have "get64 (\<lambda>_. 0) 0 \<noteq> FSSO_MAGIC" by (simp add: FSSO_MAGIC_def del: get_le.simps)
  then show ?thesis
    using fsso_mount_correct [OF qemu.ahci_device_axioms noise_length pc_with_ready _ m]
      fsso_mount_correct [OF qemu.ahci_device_axioms noise_length pc_with_ready _ m0]
    by (simp add: m m0 img2_magic del: get_le.simps)
qed



lemma img3_lookup: "root_lookup img3 (of_string ''empty'') = Some 3"
proof -
  have c: "is_cstr (of_string ''empty'')" "length (of_string ''empty'') = 5"
    "of_string ''empty'' \<noteq> of_string ''hello.txt''" "of_string ''empty'' \<noteq> of_string ''hello.py''"
    by (simp_all add: of_string_def is_cstr_def)
  then show ?thesis
    using root_lookup_added [OF adding_img3 c(1), where data = "[]"]
    by (simp add: img3_def img2_lookup)
qed



theorem dotted_names_unresolvable_witness:
  "fst (fsso_resolve_path qemu_io (mounted img2) (of_string ''hello.txt'') 0 (pc_with img2)) = -1 \<and>
   root_lookup img2 (of_string ''hello.txt'') = Some 1"
proof -
  have p: "2 \<le> length (path_components (of_string ''hello.txt''))"
    by (simp add: path_components_def of_string_def dot_def)
  have "\<forall>nm i. root_lookup img2 nm = Some i \<longrightarrow> unat i < 13"
    by (simp add: img2_lookup)
  with dotted_names_unresolvable [OF qemu.ahci_device_axioms noise_length pc_with_ready _ _ is_cstr_hello(1) p, of img2 0]
  show ?thesis by (simp add: image_ok_img2 img2_lookup is_cstr_hello)
qed

end
