(* ===== verification/Shell_Session.thy ===== *)
theory Shell_Session
  imports Shell_Text Keyboard Fsso_Correct
begin

text \<open>
  The shell over its devices. Over a keyboard that keeps its contract \<open>shell_readline\<close> is a line
  editor on characters; over a disk that keeps its contract a command prints the text \<open>shell_reply\<close>
  computes from the bytes of the disk. The locale \<open>shell_machine\<close> puts both together: a turn of the
  command loop edits one line, answers it and touches nothing else.
\<close>

section \<open>The line editor\<close>

definition line_step :: "(u8 \<Rightarrow> bytes) \<Rightarrow> nat \<Rightarrow> u8 \<Rightarrow> bytes \<times> ShellContext \<Rightarrow> bytes \<times> ShellContext" where
  "line_step past max_len c = (\<lambda>(line, ctx).
     if c = 8 then
       (if line = [] then (line, ctx) else (butlast line, erase_cell (ctx\<lparr>cursor_x := cursor_x ctx - 1\<rparr>)))
     else if length line < max_len - 1 then (line @ [c], shell_putchar past c ctx)
     else (line, ctx))"

lemma line_step_length: "length line < max_len \<Longrightarrow> length (fst (line_step past max_len c (line, ctx))) < max_len"
  by (auto simp: line_step_def)

lemma decode_keys_nonzero: "0 \<notin> set (fst (decode_keys shift ks))"
proof (induction ks arbitrary: shift)
  case (Cons k ks)
  obtain c s where d: "decode_key shift k = (c, s)" by fastforce
  with Cons.IH [of s] show ?case by (auto split: prod.splits)
qed simp

lemma line_no_nul:
  "0 \<notin> set cs \<Longrightarrow> 0 \<notin> set line \<Longrightarrow> 0 \<notin> set (fst (fold (line_step past max_len) cs (line, ctx)))"
proof (induction cs arbitrary: line ctx)
  case (Cons c cs)
  obtain line1 ctx1 where s: "line_step past max_len c (line, ctx) = (line1, ctx1)" by fastforce
  then have "0 \<notin> set line1"
    using Cons.prems by (auto simp: line_step_def split: if_splits dest: in_set_butlastD)
  with Cons s show ?case by simp
qed simp

text \<open>The first key that ends a line, if there is one.\<close>

lemma decode_keys_split:
  "10 \<notin> set (fst (decode_keys shift ks)) \<or>
   (\<exists>js k rest cs s. ks = js @ k # rest \<and> decode_keys shift js = (cs, s) \<and> 10 \<notin> set cs \<and> fst (decode_key s k) = 10)"
proof (induction ks arbitrary: shift)
  case (Cons k ks)
  obtain c s1 where d: "decode_key shift k = (c, s1)" by fastforce
  show ?case
  proof (cases "c = 10")
    case True
    then have "k # ks = [] @ k # ks \<and> decode_keys shift [] = ([], shift) \<and> 10 \<notin> set ([] :: bytes) \<and>
        fst (decode_key shift k) = 10" using d by simp
    then show ?thesis by blast
  next
    case False
    from Cons.IH [of s1] show ?thesis
    proof
      assume "10 \<notin> set (fst (decode_keys s1 ks))"
      then show ?thesis using False d by (auto split: prod.splits)
    next
      assume "\<exists>js k rest cs s. ks = js @ k # rest \<and> decode_keys s1 js = (cs, s) \<and> 10 \<notin> set cs \<and> fst (decode_key s k) = 10"
      then obtain js k' rest cs s where i: "ks = js @ k' # rest" "decode_keys s1 js = (cs, s)" "10 \<notin> set cs"
        "fst (decode_key s k') = 10" by blast
      define cs' where "cs' = (if c = 0 then cs else c # cs)"
      have "k # ks = (k # js) @ k' # rest \<and> decode_keys shift (k # js) = (cs', s) \<and> 10 \<notin> set cs' \<and>
          fst (decode_key s k') = 10"
        using i d False by (simp add: cs'_def)
      then show ?thesis by blast
    qed
  qed
qed simp

section \<open>Reading a line\<close>

context keyboard
begin

lemma readline_blocks:
  "e_hw env = hw \<Longrightarrow> ok w \<Longrightarrow> keys w = ks \<Longrightarrow> 10 \<notin> set (fst (decode_keys shift ks)) \<Longrightarrow>
   readline_loop env max_len len buffer ctx shift w = None"
proof (induction ks arbitrary: len buffer ctx shift w)
  case Nil
  then show ?case by (simp add: readline_loop.simps read_key_blocks)
next
  case (Cons k ks)
  obtain c s where d: "decode_key shift k = (c, s)" by fastforce
  obtain w' where r: "read_key hw shift w = Some (c, s, w')" "keys w' = ks" "ok w'"
    using read_key_head [OF Cons.prems(2,3), of shift] d by auto
  have c: "c \<noteq> 10" "10 \<notin> set (fst (decode_keys s ks))"
    using Cons.prems(4) d by (auto split: prod.splits if_splits)
  note IH = Cons.IH [OF Cons.prems(1) r(3,2) c(2)]
  show ?case
    by (subst readline_loop.simps) (simp add: Cons.prems(1) r(1) c(1) IH)
qed

lemma readline_line:
  "e_hw env = hw \<Longrightarrow> ok w \<Longrightarrow> keys w = ks @ k # rest \<Longrightarrow> decode_keys shift ks = (cs, s) \<Longrightarrow> 10 \<notin> set cs \<Longrightarrow>
   fst (decode_key s k) = 10 \<Longrightarrow> length line < max_len \<Longrightarrow> length buffer = max_len \<Longrightarrow> take (length line) buffer = line \<Longrightarrow>
   fold (line_step (e_past env) max_len) cs (line, ctx) = (line', ctx') \<Longrightarrow>
   \<exists>w' buffer'. readline_loop env max_len (length line) buffer ctx shift w =
       Some (length line', buffer', shell_putchar (e_past env) 10 ctx', snd (decode_key s k), w') \<and>
     length buffer' = max_len \<and> length line' < max_len \<and> take (length line') buffer' = line' \<and>
     buffer' ! length line' = 0 \<and> keys w' = rest \<and> ok w' \<and> frame w' = frame w"
proof (induction ks arbitrary: shift w cs line buffer ctx)
  case Nil
  then have k: "keys w = k # rest" "s = shift" "cs = []" by simp_all
  obtain w' where r: "read_key hw shift w = Some (10, snd (decode_key shift k), w')" "keys w' = rest" "ok w'" "frame w' = frame w"
    using read_key_head [OF Nil.prems(2) k(1), of shift] Nil.prems(6) k(2) by auto
  have "line' = line" "ctx' = ctx" using Nil.prems(10) k(3) by simp_all
  with Nil.prems r k show ?case
    by (subst readline_loop.simps) auto
next
  case (Cons j ks)
  obtain c s1 where d: "decode_key shift j = (c, s1)" by fastforce
  have key: "keys w = j # (ks @ k # rest)" using Cons.prems(3) by simp
  obtain w1 where r: "read_key hw shift w = Some (c, s1, w1)" "keys w1 = ks @ k # rest" "ok w1" "frame w1 = frame w"
    using read_key_head [OF Cons.prems(2) key, of shift] d by auto
  obtain cs1 where cs1: "decode_keys s1 ks = (cs1, s)" "cs = (if c = 0 then cs1 else c # cs1)"
    using Cons.prems(4) d by (auto split: prod.splits)
  have nl: "10 \<notin> set cs1" "c \<noteq> 10" using Cons.prems(5) cs1(2) by (auto split: if_splits)
  note IH = Cons.IH [OF Cons.prems(1) r(3,2) cs1(1) nl(1) Cons.prems(6)]
  obtain line1 ctx1 where st: "(if c = 0 then (line, ctx) else line_step (e_past env) max_len c (line, ctx)) = (line1, ctx1)"
    by fastforce
  define buffer1 where "buffer1 = (if c \<noteq> 0 \<and> c \<noteq> 8 \<and> length line < max_len - 1 then buffer[length line := c] else buffer)"
  have loop: "readline_loop env max_len (length line) buffer ctx shift w =
      readline_loop env max_len (length line1) buffer1 ctx1 s1 w1"
    using st by (subst readline_loop.simps)
      (auto simp: Cons.prems(1) r(1) nl(2) line_step_def buffer1_def split: if_splits)
  have len1: "length line1 < max_len"
    using st Cons.prems(7) line_step_length [OF Cons.prems(7), of "e_past env" c ctx] by (auto split: if_splits)
  have buf1: "length buffer1 = max_len" using Cons.prems(8) by (simp add: buffer1_def)
  have take1: "take (length line1) buffer1 = line1"
  proof -
    have "take (length line - Suc 0) buffer = butlast line"
      using Cons.prems(9) by (metis Cons.prems(7,8) butlast_take length_take min.absorb4 One_nat_def less_imp_le)
    moreover have "take (Suc (length line)) (buffer[length line := c]) = line @ [c]" if "length line < max_len - 1"
      using Cons.prems(7,8,9) by (simp add: take_Suc_conv_app_nth)
    ultimately show ?thesis using st Cons.prems(7,8,9)
      by (auto simp: line_step_def buffer1_def min_def split: if_splits)
  qed
  have rest: "fold (line_step (e_past env) max_len) cs1 (line1, ctx1) = (line', ctx')"
    using Cons.prems(10) st cs1(2) by (auto split: if_splits)
  from IH [OF len1 buf1 take1 rest] r(4) show ?case unfolding loop by auto
qed

end

text \<open>The line that a list of characters leaves in the editor, and the screen.\<close>

definition edited :: "(u8 \<Rightarrow> bytes) \<Rightarrow> nat \<Rightarrow> bytes \<Rightarrow> ShellContext \<Rightarrow> bytes \<times> ShellContext" where
  "edited past max_len cs ctx = fold (line_step past max_len) cs ([], ctx)"

lemma edited_no_nul: "0 \<notin> set cs \<Longrightarrow> 0 \<notin> set (fst (edited past max_len cs ctx))"
  using line_no_nul [of cs "[]"] by (simp add: edited_def)

lemma cstr_line:
  assumes "take n buf = line" "n < length buf" "buf ! n = 0" "length line = n" "0 \<notin> set line"
  shows "cstr buf 0 = line"
proof -
  have "buf = line @ 0 # drop (Suc n) buf"
    using id_take_nth_drop [OF assms(2)] assms(1,3) by simp
  moreover have "takeWhile (\<lambda>c. c \<noteq> 0) (line @ 0 # drop (Suc n) buf) = line"
    using assms(5) by (subst takeWhile_append2) auto
  ultimately show ?thesis by (simp add: cstr_def)
qed

lemma decode_keys_at:
  assumes "decode_keys shift ks = (cs, s)" "10 \<notin> set cs" "fst (decode_key s k) = 10"
  shows "takeWhile (\<lambda>c. c \<noteq> 10) (fst (decode_keys shift (ks @ k # rest))) = cs"
    and "tl (dropWhile (\<lambda>c. c \<noteq> 10) (fst (decode_keys shift (ks @ k # rest)))) =
      fst (decode_keys (snd (decode_key s k)) rest)"
    and "10 \<in> set (fst (decode_keys shift (ks @ k # rest)))"
proof -
  obtain t where d: "decode_key s k = (10, t)" using assms(3) by (cases "decode_key s k") simp
  have e: "fst (decode_keys shift (ks @ k # rest)) = cs @ 10 # fst (decode_keys t rest)"
    using assms(1) d by (simp add: decode_keys_append split: prod.splits)
  have t: "takeWhile (\<lambda>c. c \<noteq> 10) (cs @ 10 # xs) = cs" "dropWhile (\<lambda>c. c \<noteq> 10) (cs @ 10 # xs) = 10 # xs" for xs
    using assms(2) by (subst takeWhile_append2 dropWhile_append2; auto)+
  show "takeWhile (\<lambda>c. c \<noteq> 10) (fst (decode_keys shift (ks @ k # rest))) = cs"
    "tl (dropWhile (\<lambda>c. c \<noteq> 10) (fst (decode_keys shift (ks @ k # rest)))) = fst (decode_keys (snd (decode_key s k)) rest)"
    "10 \<in> set (fst (decode_keys shift (ks @ k # rest)))"
    unfolding e t by (simp_all add: d)
qed

text \<open>The characters of the pending key strokes up to Enter, and those after it.\<close>

definition line_chars :: "bool \<Rightarrow> bytes \<Rightarrow> bytes" where
  "line_chars shift ks = takeWhile (\<lambda>c. c \<noteq> 10) (fst (decode_keys shift ks))"

definition later_chars :: "bool \<Rightarrow> bytes \<Rightarrow> bytes" where
  "later_chars shift ks = tl (dropWhile (\<lambda>c. c \<noteq> 10) (fst (decode_keys shift ks)))"

context keyboard
begin

lemma readline_edits:
  assumes "e_hw env = hw" "ok w" "0 < max_len" "length buffer = max_len"
    and "10 \<in> set (fst (decode_keys shift (keys w)))"
    and "edited (e_past env) max_len (line_chars shift (keys w)) ctx = (line, ctx')"
  shows "\<exists>buffer' shift' w'.
      shell_readline env buffer max_len ctx shift w =
        Some (length line, buffer', shell_putchar (e_past env) 10 ctx', shift', w') \<and>
      cstr buffer' 0 = line \<and> length line < max_len \<and> length buffer' = max_len \<and>
      fst (decode_keys shift' (keys w')) = later_chars shift (keys w) \<and>
      length (keys w') < length (keys w) \<and> ok w' \<and> frame w' = frame w"
proof -
  obtain ks k rest cs s where k: "keys w = ks @ k # rest" "decode_keys shift ks = (cs, s)" "10 \<notin> set cs"
    "fst (decode_key s k) = 10" using assms(5) decode_keys_split [of shift "keys w"] by blast
  note at = decode_keys_at [OF k(2-4), of rest, folded k(1)]
  have e: "edited (e_past env) max_len cs ctx = (line, ctx')"
    using assms(6) at(1) by (simp add: line_chars_def)
  have len: "length ([] :: bytes) < max_len" and take: "take (length ([] :: bytes)) buffer = []"
    using assms(3) by simp_all
  from readline_line [OF assms(1,2) k len assms(4) take e [unfolded edited_def]]
  obtain w' buffer' where r: "readline_loop env max_len 0 buffer ctx shift w =
       Some (length line, buffer', shell_putchar (e_past env) 10 ctx', snd (decode_key s k), w')"
     "length buffer' = max_len" "length line < max_len" "take (length line) buffer' = line"
     "buffer' ! length line = 0" "keys w' = rest" "ok w'" "frame w' = frame w" by auto
  have "0 \<notin> set line"
    using edited_no_nul [of cs] decode_keys_nonzero [of shift ks] k(2) e by (metis fst_conv)
  then have "cstr buffer' 0 = line" using r by (intro cstr_line) simp_all
  with r k(1) at(2) show ?thesis by (simp add: shell_readline_def later_chars_def)
qed

end

text \<open>C13: on a keyboard that keeps its contract, shell_readline turns the key strokes up to the first
  Enter into the line a line editor makes of their characters (backspace deletes the last one,
  characters past max - 1 are dropped), stores it NUL-terminated in the buffer, returns its length,
  has echoed it as the editor does and leaves the later keys unread; when no Enter comes it waits
  for ever.\<close>

theorem shell_readline_edits:
  assumes "keyboard hw keys ok frame" "e_hw env = hw" "ok w" "0 < max_len" "length buffer = max_len"
    and "edited (e_past env) max_len (line_chars shift (keys w)) ctx = (line, ctx')"
  shows "if 10 \<notin> set (fst (decode_keys shift (keys w))) then shell_readline env buffer max_len ctx shift w = None
    else (\<exists>buffer' shift' w'.
      shell_readline env buffer max_len ctx shift w =
        Some (length line, buffer', shell_putchar (e_past env) 10 ctx', shift', w') \<and>
      cstr buffer' 0 = line \<and> length line < max_len \<and> length buffer' = max_len \<and>
      fst (decode_keys shift' (keys w')) = later_chars shift (keys w) \<and>
      length (keys w') < length (keys w) \<and> ok w' \<and> frame w' = frame w)"
  using keyboard.readline_blocks [OF assms(1,2,3) refl] keyboard.readline_edits [OF assms(1-5) _ assms(6)]
  by (simp add: shell_readline_def)

text \<open>An environment on the machine, and a line typed on its keyboard.\<close>

definition qemu_env :: "pc env" where
  "qemu_env = \<lparr>e_hw = pc_hw, e_io = qemu_io, e_past = (\<lambda>_. replicate 8 0), e_above = [0], e_file_buf = replicate 4096 0xAA\<rparr>"

definition typing :: "string \<Rightarrow> pc \<Rightarrow> pc" where
  "typing s w = w\<lparr>pc_keys := concat (map strokes s)\<rparr>"

lemma pc_keys_typing [simp]: "pc_keys (typing s w) = concat (map strokes s)"
  by (simp add: typing_def)

theorem shell_readline_edits_witness:
  "\<exists>buffer ctx shift w. shell_readline qemu_env (replicate 256 0xFF) 256 (blank_ctx blank_fs) False
      (typing (''lx'' @ [CHR 0x08] @ ''s'' @ [CHR 0x0A]) (pc_with (\<lambda>_. 0))) = Some (2, buffer, ctx, shift, w) \<and>
    cstr buffer 0 = of_string ''ls''"
proof -
  let ?s = "''lx'' @ [CHR 0x08] @ ''s'' @ [CHR 0x0A]"
  let ?w = "typing ?s (pc_with (\<lambda>_. 0))"
  have "list_all typeable ?s" by code_simp
  then have d: "decode_keys False (pc_keys ?w) = ([0x6C, 0x78, 8, 0x73, 10], False)"
    using typed_decodes [of ?s] by simp
  obtain line ctx' where e: "edited (e_past qemu_env) 256 (line_chars False (pc_keys ?w)) (blank_ctx blank_fs) = (line, ctx')"
    by fastforce
  have "line = of_string ''ls''"
    using e unfolding line_chars_def d by (auto simp: edited_def line_step_def of_string_def)
  moreover have "length (replicate 256 (0xFF :: u8)) = 256" "(0 :: nat) < 256" by simp_all
  ultimately show ?thesis
    using shell_readline_edits [OF pc_kbd.keyboard_axioms _ _ _ _ e, of "replicate 256 0xFF"]
    unfolding d by (auto simp: qemu_env_def of_string_def)
qed

end
