(* ===== verification/Shell_Machine.thy ===== *)
theory Shell_Machine
  imports Shell_Session
begin

text \<open>
  The command loop of \<^verbatim>\<open>src/kernel/shell.c\<close> over a keyboard and a disk that both keep their
  contracts. \<open>shell_reply\<close> is the text a command prints, computed from the bytes of the disk;
  \<open>shell_turn\<close> is shown to edit one line and print its reply, and runs of the loop to keep the
  geometry, the file system and the disk.
\<close>

section \<open>What a command prints\<close>

definition ls_text :: "mem \<Rightarrow> bytes \<Rightarrow> bytes" where
  "ls_text d stack = concat (map (\<lambda>b. entries_text stack (get_bytes d (1024 * unat b) 1024) [0..<3])
     (data_blocks (i_direct (disk_inode d 0))))"

definition cat_text :: "mem \<Rightarrow> FSSO_Filesystem \<Rightarrow> bytes list \<Rightarrow> bytes" where
  "cat_text d fs argv =
     (if length argv < 2 then of_string ''Usage: cat <filename>'' @ [10]
      else (case find_result d fs 0 (argv ! 1) 0 of (rc, i) \<Rightarrow>
        if rc \<noteq> 0 then of_string ''File not found: '' @ argv ! 1 @ [10]
        else (case read_result d fs i (replicate 4096 0) 4096 of (n, out) \<Rightarrow>
          if n < 0 then of_string ''Error reading file'' @ [10] else take (nat n) out @ [10])))"

definition shell_reply :: "mem \<Rightarrow> FSSO_Filesystem \<Rightarrow> bytes \<Rightarrow> bytes list \<Rightarrow> bytes" where
  "shell_reply d fs stack argv =
     (if argv ! 0 = of_string ''echo'' then join (tl argv) @ [10]
      else if argv ! 0 = of_string ''ls'' then ls_text d stack
      else if argv ! 0 = of_string ''cat'' then cat_text d fs argv
      else if argv ! 0 = of_string ''help'' then help_text
      else of_string ''Unknown command: '' @ argv ! 0 @ [10])"

text \<open>The inodes and blocks that commands can reach lie on the disk, \<open>n\<close> sectors long.\<close>

definition root_readable :: "nat \<Rightarrow> mem \<Rightarrow> FSSO_Filesystem \<Rightarrow> bool" where
  "root_readable n d fs \<longleftrightarrow> 0 < sb_total_inodes (superblock fs) \<and> inode_on_disk n d 0 \<and>
     (\<forall>nm i. dir_lookup d (disk_inode d 0) nm = Some i \<and> i < sb_total_inodes (superblock fs) \<longrightarrow> inode_on_disk n d i)"

text \<open>The screen after the reply to a line.\<close>

definition respond :: "'w env \<Rightarrow> mem \<Rightarrow> bytes \<Rightarrow> ShellContext \<Rightarrow> ShellContext" where
  "respond env d line ctx =
     (let argv = take 16 (words line) in
      if argv = [] then ctx
      else if argv ! 0 = of_string ''clear'' then cmd_clear ctx
      else shell_print (e_past env) (shell_reply d (sc_fs ctx) (e_above env) argv) ctx)"

lemma command_names:
  "is_cstr (of_string ''echo'')" "is_cstr (of_string ''clear'')" "is_cstr (of_string ''ls'')"
  "is_cstr (of_string ''cat'')" "is_cstr (of_string ''help'')"
  by (simp_all add: is_cstr_def of_string_def)

section \<open>Words fit\<close>

lemma words_length: "a \<in> set (words s) \<Longrightarrow> length a \<le> length s"
proof (induction s rule: words.induct)
  case (1 s)
  let ?t = "dropWhile (\<lambda>c. c = sp) s"
  have t: "length ?t \<le> length s" by (rule length_dropWhile_le)
  show ?case
  proof (cases "?t = []")
    case True
    with "1.prems" show ?thesis by (simp add: words.simps [of s])
  next
    case False
    then have "a = takeWhile (\<lambda>c. c \<noteq> sp) ?t \<or> a \<in> set (words (dropWhile (\<lambda>c. c \<noteq> sp) ?t))"
      using "1.prems" by (simp add: words.simps [of s] Let_def del: dropWhile_eq_Nil_conv)
    then show ?thesis
    proof
      assume "a = takeWhile (\<lambda>c. c \<noteq> sp) ?t"
      then show ?thesis using length_takeWhile_le [of "\<lambda>c. c \<noteq> sp" ?t] t by simp
    next
      assume "a \<in> set (words (dropWhile (\<lambda>c. c \<noteq> sp) ?t))"
      from "1.IH" [OF refl False this] show ?thesis
        using length_dropWhile_le [of "\<lambda>c. c \<noteq> sp" ?t] t by linarith
    qed
  qed
qed

section \<open>Commands over the disk\<close>

context fsso_disk
begin

lemma ls_blocks_disk:
  "ok s \<Longrightarrow> length buf = 1024 \<Longrightarrow> blocks_in sectors bs \<Longrightarrow> e_io env = io \<Longrightarrow>
   ls_blocks env bs buf ctx s = (ctx', s') \<Longrightarrow>
   ctx' = shell_print (e_past env)
     (concat (map (\<lambda>b. entries_text (e_above env) (get_bytes (content s) (1024 * unat b) 1024) [0..<3]) (data_blocks bs))) ctx \<and>
   same_disk s s'"
proof (induction bs arbitrary: buf ctx s)
  case (Cons b bs)
  show ?case
  proof (cases "b = 0")
    case True
    with Cons.prems show ?thesis by (auto simp: same_disk_def)
  next
    case False
    obtain buf1 s1 where rb: "read_block io b buf s = (buf1, s1)" by fastforce
    with Cons.prems False have rd: "buf1 = get_bytes (content s) (1024 * unat b) 1024" "same_disk s s1"
      using read_block_disk [OF Cons.prems(1,2) _ rb] by simp_all
    define ctx1 where "ctx1 = shell_print (e_past env) (entries_text (e_above env) buf1 [0..<3]) ctx"
    have "ls_blocks env bs buf1 ctx1 s1 = (ctx', s')"
      using Cons.prems(4,5) False rb
      by (simp add: ls_entries_print ctx1_def entries_per_block_def del: upt_rec_numeral)
    with Cons.IH [of s1 buf1 ctx1] Cons.prems(3,4) False rd show ?thesis
      by (auto simp: same_disk_def ctx1_def print_append)
  qed
qed (auto simp: same_disk_def)

lemma cmd_ls_disk:
  assumes "ok s" "root_readable sectors (content s) (sc_fs ctx)" "e_io env = io" "cmd_ls env ctx s = (ctx', s')"
  shows "ctx' = shell_print (e_past env) (ls_text (content s) (e_above env)) ctx" "same_disk s s'"
proof -
  obtain rc root s1 where ri: "fsso_read_inode io (sc_fs ctx) 0 (stack_inode io s) s = (rc, root, s1)"
    by (metis prod_cases3)
  have on: "0 < sb_total_inodes (superblock (sc_fs ctx))" "inode_on_disk sectors (content s) 0"
    using assms(2) by (simp_all add: root_readable_def)
  have r: "root = disk_inode (content s) 0" "same_disk s s1"
    using read_inode_disk [OF assms(1) on(1) _ ri] on(2) by (simp_all add: inode_on_disk_def)
  have ls: "ls_blocks env (i_direct root) (stk s1) ctx s1 = (ctx', s')"
    using assms(3,4) ri by (simp add: cmd_ls_def)
  have "ok s1" "blocks_in sectors (i_direct root)"
    using r on(2) by (simp_all add: same_disk_def inode_on_disk_def)
  from ls_blocks_disk [OF this(1) stk_length this(2) assms(3) ls] r
  show "ctx' = shell_print (e_past env) (ls_text (content s) (e_above env)) ctx" "same_disk s s'"
    by (auto simp: ls_text_def same_disk_def)
qed

lemma read_result_buffer:
  assumes "length out = 4096" "read_result d fs n out 4096 = (k, out')" "0 \<le> k"
  shows "fst (read_result d fs n (replicate 4096 0) 4096) = k \<and>
     take (nat k) (snd (read_result d fs n (replicate 4096 0) 4096)) = take (nat k) out'"
  using assms by (auto simp: read_result_def Let_def split: if_splits)

lemma cmd_cat_disk:
  assumes "ok s" "root_readable sectors (content s) (sc_fs ctx)" "e_io env = io" "length (e_file_buf env) = 4096"
    and "\<And>a. a \<in> set argv \<Longrightarrow> is_cstr a \<and> length a \<le> 255" "cmd_cat env argv ctx s = (ctx', s')"
  shows "ctx' = shell_print (e_past env) (cat_text (content s) (sc_fs ctx) argv) ctx \<and> same_disk s s'"
proof (cases "length argv < 2")
  case True
  then show ?thesis using assms(1,6) by (auto simp: cmd_cat_def cat_text_def same_disk_def)
next
  case False
  let ?fs = "sc_fs ctx" and ?d = "content s"
  have nm: "is_cstr (argv ! 1)" "length (argv ! 1) \<le> 255" using assms(5) False by simp_all
  have on: "inode_on_disk sectors ?d 0" using assms(2) by (simp add: root_readable_def)
  obtain rc i s1 where fd: "fsso_find_in_dir io ?fs 0 (argv ! 1) 0 s = (rc, i, s1)" by (metis prod_cases3)
  from find_in_dir_disk [OF assms(1) on nm fd]
  have f: "find_result ?d ?fs 0 (argv ! 1) 0 = (rc, i)" "same_disk s s1" by simp_all
  show ?thesis
  proof (cases "rc = 0")
    case False
    with assms(3,6) \<open>\<not> length argv < 2\<close> fd f show ?thesis
      by (auto simp: cmd_cat_def cat_text_def print_append Let_def)
  next
    case True
    have "dir_lookup ?d (disk_inode ?d 0) (argv ! 1) = Some i"
      using f(1) True by (auto simp: find_result_def split: if_splits option.splits)
    then have oni: "i < sb_total_inodes (superblock ?fs) \<Longrightarrow> inode_on_disk sectors ?d i"
      using assms(2) unfolding root_readable_def by blast
    obtain n out s2 where rf: "fsso_read_file io ?fs i (e_file_buf env) 4096 s1 = (n, out, s2)"
      by (metis prod_cases3)
    have s1: "ok s1" "content s1 = ?d" using f(2) by (simp_all add: same_disk_def)
    have r: "read_result ?d ?fs i (e_file_buf env) 4096 = (n, out)" "same_disk s s2"
      using read_file_disk [OF s1(1) _ _ rf] oni assms(4) s1(2) f(2) by (auto simp: same_disk_def)
    have "ctx' = shell_print (e_past env)
        (if n < 0 then of_string ''Error reading file'' @ [10] else take (nat n) out @ [10]) ctx" "s' = s2"
      using assms(3,6) \<open>\<not> length argv < 2\<close> fd True rf
      by (auto simp: cmd_cat_def print_append print_fold Let_def split: if_splits)
    moreover obtain k out0 where r0: "read_result ?d ?fs i (replicate 4096 0) 4096 = (k, out0)" by fastforce
    moreover have "n < 0 \<longleftrightarrow> k < 0"
      using r(1) r0 by (auto simp: read_result_def Let_def split: if_splits)
    moreover have "take (nat n) out = take (nat k) out0 \<and> nat n = nat k" if "0 \<le> n"
      using read_result_buffer [OF assms(4) r(1) that] r0 by simp
    ultimately show ?thesis
      using \<open>\<not> length argv < 2\<close> f(1) True r(2) by (auto simp: cat_text_def)
  qed
qed

lemma shell_command_disk:
  assumes "ok s" "root_readable sectors (content s) (sc_fs ctx)" "e_io env = io" "length (e_file_buf env) = 4096"
    and "argv \<noteq> []" "\<And>a. a \<in> set argv \<Longrightarrow> is_cstr a \<and> length a \<le> 255" "shell_command env argv ctx s = (ctx', s')"
  shows "ctx' = (if argv ! 0 = of_string ''clear'' then cmd_clear ctx
      else shell_print (e_past env) (shell_reply (content s) (sc_fs ctx) (e_above env) argv) ctx) \<and> same_disk s s'"
proof -
  have "is_cstr (argv ! 0)" using assms(5,6) by (cases argv) auto
  note eq = str_eq_iff this
  have names: "distinct [of_string ''echo'', of_string ''clear'', of_string ''ls'', of_string ''cat'', of_string ''help'']"
    "distinct [of_string ''help'', of_string ''cat'', of_string ''ls'', of_string ''clear'', of_string ''echo'']"
    by (simp_all add: of_string_def)
  have same: "same_disk s s" using assms(1) by (simp add: same_disk_def)
  consider (clear) "argv ! 0 = of_string ''clear''" | (ls) "argv ! 0 = of_string ''ls''"
    | (cat) "argv ! 0 = of_string ''cat''" | (other) "argv ! 0 \<notin> {of_string ''clear'', of_string ''ls'', of_string ''cat''}"
    by blast
  then show ?thesis
  proof cases
    case ls
    then have "cmd_ls env ctx s = (ctx', s')"
      using assms(7) names by (simp add: shell_command_def eq command_names Let_def)
    with cmd_ls_disk [OF assms(1,2,3)] ls names show ?thesis by (simp add: shell_reply_def)
  next
    case cat
    then have "cmd_cat env argv ctx s = (ctx', s')"
      using assms(7) names by (simp add: shell_command_def eq command_names Let_def)
    with cmd_cat_disk [OF assms(1,2,3,4,6)] cat names show ?thesis by (simp add: shell_reply_def)
  qed (use assms(7) names same in \<open>auto simp: shell_command_def shell_reply_def eq command_names Let_def
      cmd_echo_print cmd_help_print print_append split: if_splits\<close>)
qed

end

section \<open>Keyboard and disk together\<close>

text \<open>Reading the disk takes no key away.\<close>

locale shell_machine = fsso_disk rd content sectors ok stk + kbd: keyboard hw keys ok content
  for rd :: "'w bdev" and content sectors ok stk and hw :: "'w hw" and keys +
  assumes disk_keys: "ok s \<Longrightarrow> length buf = 1024 \<Longrightarrow> unat lba + 2 \<le> sectors \<Longrightarrow>
      rd lba 2 buf s = (rc, buf', s') \<Longrightarrow> keys s' = keys s"
begin

lemma disk_with_keys: "fsso_disk rd content sectors (\<lambda>w. ok w \<and> keys w = K) stk"
proof
  fix s s' :: 'w and buf buf' :: bytes and lba :: u64 and rc :: int
  assume "ok s \<and> keys s = K" "length buf = 1024" "unat lba + 2 \<le> sectors" "rd lba 2 buf s = (rc, buf', s')"
  with rd_block [of s buf lba rc buf' s'] disk_keys [of s buf lba rc buf' s']
  show "rc = 0 \<and> buf' = get_bytes (content s) (unat lba * 512) 1024 \<and> (ok s' \<and> keys s' = K) \<and> content s' = content s"
    by simp
qed (rule stk_length)

end

lemma line_step_keeps:
  "sc_pps (snd (line_step past max_len c (line, ctx))) = sc_pps ctx"
  "sc_fs (snd (line_step past max_len c (line, ctx))) = sc_fs ctx"
  by (auto simp: line_step_def erase_cell_def putchar_cursor)

lemma edited_keeps:
  "sc_pps (snd (edited past max_len cs ctx)) = sc_pps ctx \<and> sc_fs (snd (edited past max_len cs ctx)) = sc_fs ctx"
proof -
  have "sc_pps (snd (fold (line_step past max_len) cs (line, ctx))) = sc_pps ctx \<and>
      sc_fs (snd (fold (line_step past max_len) cs (line, ctx))) = sc_fs ctx" for line
  proof (induction cs arbitrary: line ctx)
    case (Cons c cs)
    obtain line1 ctx1 where s: "line_step past max_len c (line, ctx) = (line1, ctx1)" by fastforce
    with line_step_keeps [of past max_len c line ctx] Cons [of line1 ctx1] show ?case by simp
  qed simp
  then show ?thesis by (simp add: edited_def)
qed

text \<open>The screen after one turn on a line of characters: prompt, editing, newline, reply.\<close>

definition turn_screen :: "'w env \<Rightarrow> mem \<Rightarrow> bytes \<Rightarrow> ShellContext \<Rightarrow> ShellContext" where
  "turn_screen env d cs ctx =
     (case edited (e_past env) 256 cs (shell_print (e_past env) (of_string ''SimplrOS> '') ctx) of
        (line, ctx) \<Rightarrow> respond env d line (shell_putchar (e_past env) 10 ctx))"

definition turn_ready :: "'w env \<Rightarrow> 'w hw \<Rightarrow> 'w disk_io \<Rightarrow> bool" where
  "turn_ready env hw io \<longleftrightarrow> e_hw env = hw \<and> e_io env = io \<and> length (e_file_buf env) = 4096"

text \<open>A shell state in which the loop can start a turn.\<close>

definition shell_ok :: "('w \<Rightarrow> bool) \<Rightarrow> ('w \<Rightarrow> mem) \<Rightarrow> nat \<Rightarrow> 'w shell \<Rightarrow> bool" where
  "shell_ok ok content n sh \<longleftrightarrow> ok (sh_world sh) \<and> length (sh_input sh) = 256 \<and>
     root_readable n (content (sh_world sh)) (sc_fs (sh_ctx sh))"

abbreviation pending :: "('w \<Rightarrow> bytes) \<Rightarrow> 'w shell \<Rightarrow> bytes" where
  "pending keys sh \<equiv> fst (decode_keys (sh_shift sh) (keys (sh_world sh)))"

context shell_machine
begin

lemma turn_blocks:
  assumes "turn_ready env hw io" "shell_ok ok content sectors sh" "10 \<notin> set (pending keys sh)"
  shows "shell_turn env sh = None"
  using assms kbd.readline_blocks [of env "sh_world sh" _ "sh_shift sh"]
  by (simp add: shell_turn_def shell_readline_def turn_ready_def shell_ok_def Let_def)

lemma turn_answers:
  assumes env: "turn_ready env hw io" and sh: "shell_ok ok content sectors sh" and nl: "10 \<in> set (pending keys sh)"
  shows "\<exists>sh'. shell_turn env sh = Some sh' \<and> shell_ok ok content sectors sh' \<and>
    sh_ctx sh' = turn_screen env (content (sh_world sh)) (takeWhile (\<lambda>c. c \<noteq> 10) (pending keys sh)) (sh_ctx sh) \<and>
    pending keys sh' = tl (dropWhile (\<lambda>c. c \<noteq> 10) (pending keys sh)) \<and>
    content (sh_world sh') = content (sh_world sh) \<and> length (keys (sh_world sh')) < length (keys (sh_world sh))"
proof -
  let ?w = "sh_world sh" and ?past = "e_past env"
  define ctx0 where "ctx0 = shell_print ?past (of_string ''SimplrOS> '') (sh_ctx sh)"
  obtain line ctx1 where e: "edited ?past 256 (line_chars (sh_shift sh) (keys ?w)) ctx0 = (line, ctx1)" by fastforce
  have w: "ok ?w" "length (sh_input sh) = 256" using sh by (simp_all add: shell_ok_def)
  define ctx2 where "ctx2 = shell_putchar ?past 10 ctx1"
  obtain buf shift w1 where r: "shell_readline env (sh_input sh) 256 ctx0 (sh_shift sh) ?w = Some (length line, buf, ctx2, shift, w1)"
    "cstr buf 0 = line" "length line < 256" "length buf = 256"
    "fst (decode_keys shift (keys w1)) = later_chars (sh_shift sh) (keys ?w)"
    "length (keys w1) < length (keys ?w)" "ok w1" "content w1 = content ?w"
    using kbd.readline_edits [OF _ w(1) _ w(2) nl e] env by (auto simp: turn_ready_def ctx2_def)
  have fs: "sc_fs ctx2 = sc_fs (sh_ctx sh)" "sc_pps ctx2 = sc_pps (sh_ctx sh)"
    using edited_keeps [of ?past 256 "line_chars (sh_shift sh) (keys ?w)" ctx0] e
    by (simp_all add: ctx2_def ctx0_def putchar_cursor print_cursor)
  have screen: "turn_screen env (content ?w) (takeWhile (\<lambda>c. c \<noteq> 10) (pending keys sh)) (sh_ctx sh) =
      respond env (content ?w) line ctx2"
    using e by (simp add: turn_screen_def line_chars_def ctx0_def ctx2_def)
  obtain input argv where p: "shell_parse buf 16 = (input, argv)" by fastforce
  have words: "map (cstr input) argv = take 16 (words line)" and len: "length input = 256"
    using parse_loop_words [of buf "[]" 16 0] p r(2,4) by (auto simp: shell_parse_def)
  have turn: "shell_turn env sh =
     (if cstr_at buf 0 = 0 then Some (sh\<lparr>sh_ctx := ctx2, sh_input := buf, sh_shift := shift, sh_world := w1\<rparr>)
      else if argv = [] then Some (sh\<lparr>sh_ctx := ctx2, sh_input := input, sh_shift := shift, sh_world := w1\<rparr>)
      else (case shell_command env (map (cstr input) argv) ctx2 w1 of (ctx, w) \<Rightarrow>
        Some (sh\<lparr>sh_ctx := ctx, sh_input := input, sh_shift := shift, sh_world := w\<rparr>)))"
    using r(1) p unfolding shell_turn_def by (simp add: ctx0_def Let_def)
  have root: "root_readable sectors (content w1) (sc_fs ctx2)"
    using sh r(8) fs(1) by (simp add: shell_ok_def)
  show ?thesis
  proof (cases "words line = []")
    case True
    then have "argv = []" using words by simp
    then have "\<exists>i. length i = 256 \<and>
        shell_turn env sh = Some (sh\<lparr>sh_ctx := ctx2, sh_input := i, sh_shift := shift, sh_world := w1\<rparr>)"
      using turn r(4) len by auto
    then show ?thesis
      using True screen r root by (auto simp: respond_def shell_ok_def later_chars_def)
  next
    case False
    then have ne: "argv \<noteq> []" "map (cstr input) argv \<noteq> []" using words by auto
    have "line \<noteq> []" using False by auto
    then have first: "cstr_at buf 0 \<noteq> 0" using r(2) cstr_unfold [of buf 0] by (auto split: if_splits)
    obtain ctx3 w2 where c: "shell_command env (map (cstr input) argv) ctx2 w1 = (ctx3, w2)" by fastforce
    have args: "is_cstr a \<and> length a \<le> 255" if "a \<in> set (map (cstr input) argv)" for a
    proof -
      have "a \<in> set (words line)" using that words by (metis in_set_takeD)
      then have "length a \<le> 255" using words_length r(3) by fastforce
      moreover have "is_cstr a" using that is_cstr_cstr by auto
      ultimately show ?thesis by simp
    qed
    note D = disk_with_keys [of "keys w1"]
    have "ctx3 = respond env (content w1) line ctx2 \<and> ok w2 \<and> keys w2 = keys w1 \<and> content w2 = content w1"
      using fsso_disk.shell_command_disk [OF D _ root _ _ ne(2) args c] env r(7) ne words
      unfolding fsso_disk.same_disk_def [OF D]
      by (auto simp: turn_ready_def respond_def)
    moreover have "sc_fs (respond env (content w1) line ctx2) = sc_fs ctx2"
      by (auto simp: respond_def Let_def cmd_clear_def print_cursor)
    ultimately show ?thesis
      using turn first ne(1) c screen r root len
      by (auto simp: shell_ok_def later_chars_def)
  qed
qed

end

section \<open>Runs of the command loop\<close>

definition ends_line :: "bytes \<Rightarrow> bool" where
  "ends_line s \<longleftrightarrow> s = [] \<or> last s = 10"

lemma ends_line_concat: "(\<And>s. s \<in> set ss \<Longrightarrow> ends_line s) \<Longrightarrow> ends_line (concat ss)"
proof (induction ss)
  case (Cons s ss)
  then have "ends_line (concat ss)" "ends_line s" by simp_all
  then show ?case by (auto simp: ends_line_def last_append)
qed (simp add: ends_line_def)

lemma shell_reply_ends_line: "ends_line (shell_reply d fs stack argv)"
proof -
  have "ends_line (entries_text stack buffer js)" for buffer js
    unfolding entries_text_def by (rule ends_line_concat) (auto simp: ends_line_def)
  then have "ends_line (ls_text d stack)"
    unfolding ls_text_def by (intro ends_line_concat) auto
  moreover have "ends_line help_text" by (simp add: help_text_def ends_line_def)
  ultimately show ?thesis
    unfolding shell_reply_def cat_text_def by (auto simp: ends_line_def split: prod.splits)
qed

lemma print_ends_line:
  assumes "ends_line s" "cursor_x ctx = 0"
  shows "cursor_x (shell_print past s ctx) = 0"
proof (cases "s = []")
  case False
  then have s: "s = butlast s @ [10]" using assms(1) by (metis append_butlast_last_id ends_line_def)
  show ?thesis by (subst s) (simp add: print_append shell_putchar_def)
qed (simp add: assms)

lemma respond_keeps:
  "cursor_x ctx = 0 \<Longrightarrow> cursor_x (respond env d line ctx) = 0"
  "sc_pps (respond env d line ctx) = sc_pps ctx" "sc_fs (respond env d line ctx) = sc_fs ctx"
  by (auto simp: respond_def Let_def cmd_clear_def print_cursor print_ends_line shell_reply_ends_line)

lemma turn_screen_keeps:
  "cursor_x (turn_screen env d cs ctx) = 0" "sc_pps (turn_screen env d cs ctx) = sc_pps ctx"
  "sc_fs (turn_screen env d cs ctx) = sc_fs ctx"
proof -
  obtain line ctx1 where e: "edited (e_past env) 256 cs (shell_print (e_past env) (of_string ''SimplrOS> '') ctx) = (line, ctx1)"
    by fastforce
  have "cursor_x (shell_putchar (e_past env) 10 ctx1) = 0" by (simp add: shell_putchar_def)
  then show "cursor_x (turn_screen env d cs ctx) = 0" "sc_pps (turn_screen env d cs ctx) = sc_pps ctx"
    "sc_fs (turn_screen env d cs ctx) = sc_fs ctx"
    using edited_keeps [of "e_past env" 256 cs "shell_print (e_past env) (of_string ''SimplrOS> '') ctx"] e
    by (simp_all add: turn_screen_def respond_keeps putchar_cursor print_cursor)
qed

text \<open>What a run of the loop never changes.\<close>

definition shell_kept :: "('w \<Rightarrow> bool) \<Rightarrow> ('w \<Rightarrow> mem) \<Rightarrow> nat \<Rightarrow> ('w \<Rightarrow> bytes) \<Rightarrow> 'w shell \<Rightarrow> 'w shell \<Rightarrow> bool" where
  "shell_kept ok content n keys sh sh' \<longleftrightarrow> shell_ok ok content n sh' \<and> cursor_x (sh_ctx sh') = 0 \<and>
     sc_pps (sh_ctx sh') = sc_pps (sh_ctx sh) \<and> sc_fs (sh_ctx sh') = sc_fs (sh_ctx sh) \<and>
     content (sh_world sh') = content (sh_world sh) \<and>
     length (keys (sh_world sh')) \<le> length (keys (sh_world sh))"

context shell_machine
begin

lemma run_keeps:
  assumes "shell_run env sh sh'" "turn_ready env hw io" "shell_ok ok content sectors sh" "cursor_x (sh_ctx sh) = 0"
  shows "shell_kept ok content sectors keys sh sh'"
  using assms
proof (induction rule: shell_run.induct)
  case (start sh)
  then show ?case by (simp add: shell_kept_def)
next
  case (turn sh sh' sh'')
  then have k: "shell_kept ok content sectors keys sh sh'" by simp
  then have ok: "shell_ok ok content sectors sh'" by (simp add: shell_kept_def)
  have "10 \<in> set (pending keys sh')"
    using turn_blocks [OF turn.prems(1) ok] turn.hyps(2) by auto
  from turn_answers [OF turn.prems(1) ok this] turn.hyps(2) k show ?case
    by (auto simp: shell_kept_def turn_screen_keeps)
qed

end

lemma shell_run_trans: "shell_run env sh' sh'' \<Longrightarrow> shell_run env sh sh' \<Longrightarrow> shell_run env sh sh''"
  by (induction rule: shell_run.induct) (auto intro: shell_run.turn)

lemma shell_run_step: "shell_turn env sh = Some sh' \<Longrightarrow> shell_run env sh' sh'' \<Longrightarrow> shell_run env sh sh''"
  by (rule shell_run_trans) (auto intro: shell_run.intros)

text \<open>The screen once every complete line of the characters is answered.\<close>

function session :: "'w env \<Rightarrow> mem \<Rightarrow> bytes \<Rightarrow> ShellContext \<Rightarrow> ShellContext" where
  "session env d cs ctx =
     (if 10 \<in> set cs then
        session env d (tl (dropWhile (\<lambda>c. c \<noteq> 10) cs)) (turn_screen env d (takeWhile (\<lambda>c. c \<noteq> 10) cs) ctx)
      else ctx)"
  by pat_completeness auto

lemma later_shorter: "10 \<in> set cs \<Longrightarrow> length (tl (dropWhile (\<lambda>c. c \<noteq> 10) cs)) < length (cs :: bytes)"
proof -
  assume "10 \<in> set cs"
  then have "dropWhile (\<lambda>c. c \<noteq> 10) cs \<noteq> []" by auto
  then have "length (tl (dropWhile (\<lambda>c. c \<noteq> 10) cs)) < length (dropWhile (\<lambda>c. c \<noteq> 10) cs)"
    by (cases "dropWhile (\<lambda>c. c \<noteq> 10) cs") simp_all
  then show ?thesis using length_dropWhile_le [of "\<lambda>c. c \<noteq> 10" cs] by linarith
qed

termination session
  by (relation "measure (\<lambda>(env, d, cs, ctx). length cs)") (simp_all add: later_shorter del: length_tl)

declare session.simps [simp del]

context shell_machine
begin

lemma run_session:
  "turn_ready env hw io \<Longrightarrow> shell_ok ok content sectors sh \<Longrightarrow>
   \<exists>sh'. shell_run env sh sh' \<and> shell_turn env sh' = None \<and>
     sh_ctx sh' = session env (content (sh_world sh)) (pending keys sh) (sh_ctx sh)"
proof (induction "length (pending keys sh)" arbitrary: sh rule: less_induct)
  case less
  show ?case
  proof (cases "10 \<in> set (pending keys sh)")
    case False
    from turn_blocks [OF less.prems False] False show ?thesis
      by (intro exI [of _ sh]) (simp add: shell_run.start session.simps)
  next
    case True
    from turn_answers [OF less.prems True] obtain sh1 where
      t: "shell_turn env sh = Some sh1" "shell_ok ok content sectors sh1"
        "sh_ctx sh1 = turn_screen env (content (sh_world sh)) (takeWhile (\<lambda>c. c \<noteq> 10) (pending keys sh)) (sh_ctx sh)"
        "pending keys sh1 = tl (dropWhile (\<lambda>c. c \<noteq> 10) (pending keys sh))"
        "content (sh_world sh1) = content (sh_world sh)" by blast
    have "length (pending keys sh1) < length (pending keys sh)"
      unfolding t(4) by (rule later_shorter [OF True])
    from less.hyps [OF this less.prems(1) t(2)] t True show ?thesis
      by (auto simp: session.simps [of env "content (sh_world sh)" "pending keys sh"] intro: shell_run_step)
  qed
qed

end

text \<open>C6: over a keyboard and a disk that keep their contracts, one turn of shell_run edits one line (up to
  Enter), prints after it the reply computed from the disk (or clears the screen for clear), leaves
  the disk alone and takes exactly that line's keys; without an Enter among the pending keys the
  turn never ends.\<close>

theorem shell_turn_answers:
  assumes "shell_machine rd content sectors ok stk hw keys" "turn_ready env hw \<lparr>io_read = rd, io_stack = stk\<rparr>"
    and "shell_ok ok content sectors sh"
  shows "if 10 \<in> set (pending keys sh) then
      (\<exists>sh'. shell_turn env sh = Some sh' \<and> shell_ok ok content sectors sh' \<and>
        sh_ctx sh' = turn_screen env (content (sh_world sh)) (takeWhile (\<lambda>c. c \<noteq> 10) (pending keys sh)) (sh_ctx sh) \<and>
        pending keys sh' = tl (dropWhile (\<lambda>c. c \<noteq> 10) (pending keys sh)) \<and>
        content (sh_world sh') = content (sh_world sh) \<and> length (keys (sh_world sh')) < length (keys (sh_world sh)))
    else shell_turn env sh = None"
  using shell_machine.turn_answers [OF assms] shell_machine.turn_blocks [OF assms] by simp

text \<open>C20: in every state the loop of shell_run can reach, the disk, the file system and the screen geometry
  are those of the start, the input array still holds 256 bytes and the cursor is in column 0 when
  the next prompt is printed.\<close>

theorem shell_run_invariant:
  assumes "shell_machine rd content sectors ok stk hw keys" "turn_ready env hw \<lparr>io_read = rd, io_stack = stk\<rparr>"
    and "shell_ok ok content sectors sh" "cursor_x (sh_ctx sh) = 0" "shell_run env sh sh'"
  shows "shell_kept ok content sectors keys sh sh'"
  by (rule shell_machine.run_keeps [OF assms(1,5,2,3,4)])

text \<open>C7: the whole session: from any ready state the loop answers every complete line of the pending key
  strokes, in order, each on the screen the one before left, and then waits for ever for a key.\<close>

theorem shell_session_completes:
  assumes "shell_machine rd content sectors ok stk hw keys" "turn_ready env hw \<lparr>io_read = rd, io_stack = stk\<rparr>"
    and "shell_ok ok content sectors sh"
  shows "\<exists>sh'. shell_run env sh sh' \<and> shell_turn env sh' = None \<and>
     sh_ctx sh' = session env (content (sh_world sh)) (pending keys sh) (sh_ctx sh)"
  by (rule shell_machine.run_session [OF assms])

section \<open>The shell on the machine\<close>

lemma qemu_ready_keys:
  "driver_ready pc_hw qemu_ahci (pc_ready qemu_ahci) w \<Longrightarrow>
   driver_ready pc_hw qemu_ahci (pc_ready qemu_ahci) (w\<lparr>pc_keys := ks\<rparr>)"
  by (auto simp: driver_ready_def pc_ready_def pc_reg_def)

interpretation qemu_shell: shell_machine "ahci_bdev pc_hw qemu_ahci 0x2000000" pc_disk 8192
  "driver_ready pc_hw qemu_ahci (pc_ready qemu_ahci)" noise pc_hw pc_keys
proof (intro shell_machine.intro shell_machine_axioms.intro)
  show "fsso_disk (ahci_bdev pc_hw qemu_ahci 0x2000000) pc_disk 8192
      (driver_ready pc_hw qemu_ahci (pc_ready qemu_ahci)) noise"
    by (rule qemu_fs.fsso_disk_axioms)
  show "keyboard pc_hw pc_keys (driver_ready pc_hw qemu_ahci (pc_ready qemu_ahci)) pc_disk"
    by (rule pc_keyboard) (simp_all add: qemu_ready_keys)
next
  fix w w' :: pc and buf buf' :: bytes and lba :: u64 and rc :: int
  assume w: "driver_ready pc_hw qemu_ahci (pc_ready qemu_ahci) w" and len: "length buf = 1024"
    and lba: "unat lba + 2 \<le> 8192" and rd: "ahci_bdev pc_hw qemu_ahci 0x2000000 lba 2 buf w = (rc, buf', w')"
  have "ahci_device pc_hw qemu_ahci 0x2000000 pc_disk 8192 (\<lambda>v. pc_ready qemu_ahci v \<and> pc_keys v = pc_keys w)"
    by (rule pc_ahci_device_keys [where Q = "\<lambda>k. k = pc_keys w"]) (simp_all add: qemu_ahci_def)
  from ahci_device.driver_read [OF this _ len lba rd] w
  show "pc_keys w' = pc_keys w" by (simp add: driver_ready_def)
qed

text \<open>The shell on the image of the builder, before a line typed on the keyboard.\<close>

definition qemu_shell_state :: "mem \<Rightarrow> string \<Rightarrow> pc shell" where
  "qemu_shell_state d s = \<lparr>sh_ctx = blank_ctx (mounted d), sh_input = replicate 256 0xFF, sh_shift = False,
     sh_world = typing s (pc_with d)\<rparr>"

lemma qemu_turn_ready: "turn_ready qemu_env pc_hw qemu_io"
  by (simp add: turn_ready_def qemu_env_def)

lemma root_readable_image:
  assumes "image_ok d" "\<And>nm i. root_lookup d nm = Some i \<Longrightarrow> unat i < 13"
  shows "root_readable 8192 d (mounted d)"
proof -
  have "dir_lookup d (disk_inode d 0) nm = root_lookup d nm" for nm
    by (simp add: dir_lookup_def blocks_entries_def image_root(2) [OF assms(1)] root_lookup_def)
  then show ?thesis
    using image_inode_on_disk [OF assms(1)] assms(2) mounted_inodes [OF assms(1)]
    by (auto simp: root_readable_def)
qed

lemma root_readable_img2: "root_readable 8192 img2 (mounted img2)"
  by (rule root_readable_image [OF image_ok_img2]) (auto simp: img2_lookup split: if_splits)

lemma qemu_shell_ok:
  assumes "root_readable 8192 d (mounted d)"
  shows "shell_ok (driver_ready pc_hw qemu_ahci (pc_ready qemu_ahci)) pc_disk 8192 (qemu_shell_state d s)"
  using assms qemu_ready_keys [OF pc_with_ready [of d], of "concat (map strokes s)"]
  by (simp add: shell_ok_def qemu_shell_state_def typing_def blank_ctx_def)

lemma qemu_pending:
  "list_all typeable s \<Longrightarrow> pending pc_keys (qemu_shell_state d s) = map of_char s"
  by (simp add: qemu_shell_state_def typed_decodes)

text \<open>One line typed, one line answered: the prompt and echo 'hi' on the first line, its output below.\<close>

lemma echo_line_typeable: "list_all typeable (''echo hi'' @ [CHR 0x0A])"
  by code_simp

theorem shell_turn_answers_witness:
  "\<exists>sh'. shell_turn qemu_env (qemu_shell_state img2 (''echo hi'' @ [CHR 0x0A])) = Some sh' \<and>
     sh_ctx sh' = turn_screen qemu_env img2 (of_string ''echo hi'') (blank_ctx (mounted img2)) \<and>
     pending pc_keys sh' = []"
proof -
  let ?sh = "qemu_shell_state img2 (''echo hi'' @ [CHR 0x0A])"
  have p: "pending pc_keys ?sh = map of_char (''echo hi'' @ [CHR 0x0A])"
    by (rule qemu_pending [OF echo_line_typeable])
  have t: "10 \<in> set (pending pc_keys ?sh)"
    "takeWhile (\<lambda>c. c \<noteq> 10) (pending pc_keys ?sh) = of_string ''echo hi''"
    "tl (dropWhile (\<lambda>c. c \<noteq> 10) (pending pc_keys ?sh)) = []"
    unfolding p by (simp_all add: of_string_def)
  from shell_turn_answers [OF qemu_shell.shell_machine_axioms qemu_turn_ready qemu_shell_ok [OF root_readable_img2],
      of "''echo hi'' @ [CHR 0x0A]"] t
  show ?thesis
    by (auto simp: qemu_shell_state_def typing_def)
qed

theorem shell_run_invariant_witness:
  "\<exists>sh'. shell_run qemu_env (qemu_shell_state img2 (''echo hi'' @ [CHR 0x0A])) sh' \<and>
     sh' \<noteq> qemu_shell_state img2 (''echo hi'' @ [CHR 0x0A]) \<and>
     shell_kept (driver_ready pc_hw qemu_ahci (pc_ready qemu_ahci)) pc_disk 8192 pc_keys
       (qemu_shell_state img2 (''echo hi'' @ [CHR 0x0A])) sh'"
proof -
  let ?sh = "qemu_shell_state img2 (''echo hi'' @ [CHR 0x0A])"
  have "10 \<in> set (pending pc_keys ?sh)"
    unfolding qemu_pending [OF echo_line_typeable] by simp
  with qemu_shell.turn_answers [OF qemu_turn_ready qemu_shell_ok [OF root_readable_img2]]
  obtain sh' where t: "shell_turn qemu_env ?sh = Some sh'"
    "length (pc_keys (sh_world sh')) < length (pc_keys (sh_world ?sh))" by blast
  have run: "shell_run qemu_env ?sh sh'"
    by (rule shell_run.turn [OF shell_run.start t(1)])
  have x: "cursor_x (sh_ctx ?sh) = 0" by (simp add: qemu_shell_state_def blank_ctx_def)
  from shell_run_invariant [OF qemu_shell.shell_machine_axioms qemu_turn_ready qemu_shell_ok [OF root_readable_img2] x run]
  show ?thesis using run t(2) by auto
qed

theorem shell_session_completes_witness:
  "\<exists>sh'. shell_run qemu_env (qemu_shell_state img2 (''echo hi'' @ [CHR 0x0A])) sh' \<and>
     shell_turn qemu_env sh' = None \<and>
     sh_ctx sh' = turn_screen qemu_env img2 (of_string ''echo hi'') (blank_ctx (mounted img2))"
proof -
  let ?sh = "qemu_shell_state img2 (''echo hi'' @ [CHR 0x0A])"
  have p: "pending pc_keys ?sh = map of_char (''echo hi'' @ [CHR 0x0A])"
    by (rule qemu_pending [OF echo_line_typeable])
  have "session qemu_env img2 (pending pc_keys ?sh) (sh_ctx ?sh) =
      turn_screen qemu_env img2 (of_string ''echo hi'') (blank_ctx (mounted img2))"
    unfolding p by (simp add: session.simps of_string_def qemu_shell_state_def)
  moreover have "pc_disk (sh_world ?sh) = img2" by (simp add: qemu_shell_state_def typing_def)
  ultimately show ?thesis
    using shell_session_completes [OF qemu_shell.shell_machine_axioms qemu_turn_ready qemu_shell_ok [OF root_readable_img2],
      of "''echo hi'' @ [CHR 0x0A]"] by simp
qed

end
