(* ===== verification/Kernel.thy ===== *)
theory Kernel
  imports Heap Ahci_Start Shell_Machine
begin

text \<open>
  \<open>kernel_main\<close> of \<^verbatim>\<open>src/kernel/kernel.c\<close>: clear the screen, start the AHCI driver, mount the file
  system, start the shell. The driver's static variables and the heap offset are part of the
  result, since the file system reads through the driver as \<open>ahci_init\<close> left it. The locale \<open>machine\<close>
  puts the contracts of the devices together; on every machine that keeps them the whole boot is
  followed from power-on to the last command typed, and the machine of \<open>Platform\<close> keeps them.

  As in all of the development the program is its source: its code is not in the memory of the
  model, so these theorems take for granted that nothing overwrites it. With the linker script of the
  repository the driver's own areas lie in the kernel's image (\<open>ahci_areas_in_kernel_image\<close>), so a
  kernel linked with it has to be moved before they describe what the processor executes.
\<close>

section \<open>Model\<close>

record BootInfo =
  bi_framebuffer :: u64
  bi_width :: u32
  bi_height :: u32
  bi_pixels_per_scanline :: u32

text \<open>What the kernel's code reads without having written it: see \<open>env\<close>; \<open>addr\<close> is where the block
  buffers of the file system lie on the stack.\<close>

record 'w stack_junk =
  j_addr :: u64
  j_stack :: "'w \<Rightarrow> bytes"
  j_fs :: FSSO_Filesystem
  j_past :: "u8 \<Rightarrow> bytes"
  j_above :: bytes
  j_file_buf :: bytes
  j_input :: bytes

text \<open>
  The kernel either spins in \<^verbatim>\<open>while(1) {}\<close> with a picture on the screen, or enters \<open>shell_run\<close> with
  an environment and a first state.
\<close>

datatype 'w kernel_end =
    Spin pixels 'w
  | Run_shell heap_state ahci_state "'w env" "'w shell"

definition kernel_env :: "'w hw \<Rightarrow> 'w stack_junk \<Rightarrow> ahci_state \<Rightarrow> 'w env" where
  "kernel_env hw j st =
     \<lparr>e_hw = hw, e_io = ahci_io hw st (j_addr j) (j_stack j), e_past = j_past j, e_above = j_above j,
      e_file_buf = j_file_buf j\<rparr>"

text \<open>The bound of the clearing loop is a \<open>uint32_t\<close> product.\<close>

definition clear_screen :: "BootInfo \<Rightarrow> pixels \<Rightarrow> pixels" where
  "clear_screen info fb = (\<lambda>i. if i < bi_height info * bi_pixels_per_scanline info then 0 else fb i)"

definition kernel_main :: "'w hw \<Rightarrow> 'w stack_junk \<Rightarrow> BootInfo \<Rightarrow> heap_state \<Rightarrow> pixels \<Rightarrow> 'w \<Rightarrow> 'w kernel_end option" where
  "kernel_main hw j info heap fb w =
     (let heap = memory_init heap;
          fb = clear_screen info fb;
          draw = (\<lambda>y s. draw_string (j_past j) (bi_pixels_per_scanline info) 0 y (of_string s));
          fb = draw 0 ''SimplrOS'' 0xFFFFFF fb
      in case ahci_init hw ahci_boot w of
           None \<Rightarrow> None
         | Some (rc, st, w) \<Rightarrow>
             if rc \<noteq> 0 then Some (Spin (draw 10 ''AHCI: FAIL'' 0xFF0000 fb) w)
             else
               (let fb = draw 10 ''AHCI: OK'' 0x00FF00 fb;
                    env = kernel_env hw j st;
                    (rc, fs, w) = fsso_mount (e_io env) (j_fs j) w
                in if rc \<noteq> 0 then Some (Spin (draw 20 ''FSSO: FAIL'' 0xFF0000 fb) w)
                   else
                     (let fb = draw 20 ''FSSO: OK'' 0x00FF00 fb;
                          ctx = \<lparr>sc_fb = fb, sc_pps = bi_pixels_per_scanline info, cursor_x = 0, cursor_y = 40, sc_fs = fs\<rparr>
                      in Some (Run_shell heap st env
                           \<lparr>sh_ctx = ctx, sh_input = j_input j, sh_shift = False, sh_world = w\<rparr>))))"

section \<open>A machine that keeps its contracts\<close>

text \<open>
  \<open>idle\<close> is the controller from power-on through the work of \<open>ahci_init\<close>, with the contents \<open>d\<close> of the
  disk and the key strokes \<open>ks\<close> to come. The registers read stably while it is probed
  (\<open>ahci_probe\<close>), the port obeys the laws of \<open>ahci_port\<close> and its engines stop when told to; once it
  is started it carries out commands (\<open>ahci_device\<close>), and reading the disk takes no key away. The
  ATAPI bit of the first command header, which the driver never writes, is clear at power-on.
\<close>

locale machine =
  probe: ahci_probe hw cfg idle regs +
  port: ahci_port hw "hba st" "nat (active_port st)" idle reg fr cr +
  kbd: keyboard hw keys "driver_ready hw st ok" content
  for hw :: "'w hw" and cfg idle regs and st reg fr cr and keys ok and content :: "'w \<Rightarrow> mem" +
  fixes addr :: u64
    and d :: mem
    and ks :: bytes
  assumes device: "ahci_device hw st addr content 8192 (\<lambda>w. ok w \<and> keys w = K)"
    and idle_frame: "idle w \<Longrightarrow> content w = d \<and> keys w = ks"
    and header_clear: "idle w \<Longrightarrow> \<not> bit (ram_op hw w (unat (clb_addr (nat (active_port st))))) 5"
    and stops: "idle w \<Longrightarrow> port_read hw (hba st) (nat (active_port st)) PORT_CMD w = (cmd, w0) \<Longrightarrow>
        w1 = port_write hw (hba st) (nat (active_port st)) PORT_CMD (cmd AND NOT 0x11) w0 \<Longrightarrow>
        fr w1 \<noteq> None \<and> cr w1 \<noteq> None"
    and started: "idle w \<Longrightarrow> port_started reg (nat (active_port st)) w \<Longrightarrow> ok w"
begin

lemma shell_contract:
  assumes "\<And>w. length (stk w) = 1024"
  shows "shell_machine (ahci_bdev hw st addr) content 8192 (driver_ready hw st ok) stk hw keys"
proof (intro shell_machine.intro shell_machine_axioms.intro)
  have r: "rc = 0 \<and> buf' = get_bytes (content w) (unat lba * 512) 1024 \<and> driver_ready hw st ok w' \<and>
      content w' = content w \<and> keys w' = keys w"
    if "driver_ready hw st ok w" "length buf = 1024" "unat lba + 2 \<le> 8192"
      "ahci_bdev hw st addr lba 2 buf w = (rc, buf', w')" for w w' buf buf' lba rc
    using ahci_device.driver_read [OF device [of "keys w"] _ that(2-4)] that(1)
    by (simp add: driver_ready_def)
  show "fsso_disk (ahci_bdev hw st addr) content 8192 (driver_ready hw st ok) stk"
    using r assms by unfold_locales blast+
  show "keyboard hw keys (driver_ready hw st ok) content" by (rule kbd.keyboard_axioms)
  show "keys w' = keys w"
    if "driver_ready hw st ok w" "length buf = 1024" "unat lba + 2 \<le> 8192"
      "ahci_bdev hw st addr lba 2 buf w = (rc, buf', w')" for w w' :: 'w and buf buf' lba rc
    using r [OF that] by simp
qed

end

section \<open>Booting\<close>

text \<open>What \<open>ahci_init\<close> is to find on the machine.\<close>

definition disk_found :: "('w \<Rightarrow> u32 \<Rightarrow> u32) \<Rightarrow> ('w \<Rightarrow> u64 \<Rightarrow> u32) \<Rightarrow> ahci_state \<Rightarrow> 'w \<Rightarrow> bool" where
  "disk_found cfg regs st w \<longleftrightarrow> hba st \<noteq> 0 \<and> hba st = pci_ahci_spec (cfg w) \<and>
     ata_ports (regs w) (hba st) [0..<32] \<noteq> [] \<and> active_port st = int (last (ata_ports (regs w) (hba st) [0..<32]))"

text \<open>The picture the kernel has drawn when the shell starts, and what its uninitialised memory has to be like.\<close>

definition boot_screen :: "(u8 \<Rightarrow> bytes) \<Rightarrow> u32 \<Rightarrow> pixels \<Rightarrow> pixels" where
  "boot_screen past pps fb =
     (let draw = (\<lambda>y s. draw_string past pps 0 y (of_string s)) in
      draw 20 ''FSSO: OK'' 0x00FF00 (draw 10 ''AHCI: OK'' 0x00FF00 (draw 0 ''SimplrOS'' 0xFFFFFF fb)))"

definition junk_sized :: "u64 \<Rightarrow> 'w stack_junk \<Rightarrow> bool" where
  "junk_sized addr j \<longleftrightarrow> j_addr j = addr \<and> (\<forall>w. length (j_stack j w) = 1024) \<and>
     length (j_file_buf j) = 4096 \<and> length (j_input j) = 256"

definition boot_context :: "'w stack_junk \<Rightarrow> BootInfo \<Rightarrow> pixels \<Rightarrow> mem \<Rightarrow> ShellContext" where
  "boot_context j info fb d =
     \<lparr>sc_fb = boot_screen (j_past j) (bi_pixels_per_scanline info) (clear_screen info fb),
      sc_pps = bi_pixels_per_scanline info, cursor_x = 0, cursor_y = 40, sc_fs = mounted d\<rparr>"

context machine
begin

lemma driver_starts:
  assumes "idle w" "disk_found cfg regs st w"
  obtains w' where "ahci_init hw ahci_boot w = Some (0, st, w')" "driver_ready hw st ok w'"
    "content w' = d" "keys w' = ks"
proof -
  let ?p = "nat (active_port st)"
  define last_port where "last_port = last (ata_ports (regs w) (hba st) [0..<32])"
  have f: "hba st \<noteq> 0" "pci_ahci_spec (cfg w) = hba st" "ata_ports (regs w) (hba st) [0..<32] \<noteq> []"
    "last_port = ?p" "\<lparr>hba = hba st, active_port = int ?p\<rparr> = st"
    using assms(2) by (auto simp: disk_found_def last_port_def simp del: upt_rec_numeral)
  obtain v where v: "idle v" and
    i: "ahci_init hw ahci_boot w = map_option (\<lambda>v. (0, st, v)) (port_rebase hw (hba st) ?p v)"
    using probe.ahci_init_probe [OF assms(1), unfolded f(2), folded last_port_def, unfolded f(4,5)] f(1,3) by auto
  obtain cmd w0 where r: "port_read hw (hba st) ?p PORT_CMD v = (cmd, w0)" by fastforce
  obtain w' where w': "port_rebase hw (hba st) ?p v = Some w'" "idle w'" "port_started reg ?p w'"
    using port.rebase_port [OF v r refl] stops [OF v r refl] by auto
  with started have "driver_ready hw st ok w'" using header_clear by (simp add: driver_ready_def)
  with w' i idle_frame [OF w'(2)] that show thesis by simp
qed

lemma kernel_boots:
  assumes "idle w" "disk_found cfg regs st w" "junk_sized addr j" "get64 d 0 = FSSO_MAGIC"
  obtains sh where
    "kernel_main hw j info heap fb w = Some (Run_shell (memory_init heap) st (kernel_env hw j st) sh)"
    "sh_ctx sh = boot_context j info fb d"
    "sh_shift sh = False" "keys (sh_world sh) = ks" "content (sh_world sh) = d"
    "driver_ready hw st ok (sh_world sh)" "length (sh_input sh) = 256"
proof -
  obtain w1 where i: "ahci_init hw ahci_boot w = Some (0, st, w1)" "driver_ready hw st ok w1"
    "content w1 = d" "keys w1 = ks"
    by (rule driver_starts [OF assms(1,2)])
  have io: "e_io (kernel_env hw j st) = ahci_io hw st addr (j_stack j)" "\<And>w. length (j_stack j w) = 1024"
    "length (j_input j) = 256"
    using assms(3) by (simp_all add: kernel_env_def junk_sized_def)
  obtain rc fs w2 where m: "fsso_mount (ahci_io hw st addr (j_stack j)) (j_fs j) w1 = (rc, fs, w2)" by (metis prod_cases3)
  note D = shell_machine.disk_with_keys [OF shell_contract, of "j_stack j" ks, OF io(2)]
  have "(if get64 (content w1) 0 = FSSO_MAGIC
      then rc = 0 \<and> fs = (j_fs j)\<lparr>superblock := get_superblock (content w1) 0, disk_start_block := 0\<rparr>
      else rc = -1 \<and> fs = j_fs j) \<and> fsso_disk.same_disk content (\<lambda>w. driver_ready hw st ok w \<and> keys w = ks) w1 w2"
    using i(2,4) by (intro fsso_disk.mount_disk [OF D _ _ m]) simp_all
  then have mk: "rc = 0" "fs = mounted d" "driver_ready hw st ok w2" "keys w2 = ks" "content w2 = d"
    using i(3) assms(4) by (simp_all add: fsso_disk.same_disk_def [OF D] mounted_def del: get_le.simps)
  show thesis
  proof (rule that)
    show "kernel_main hw j info heap fb w = Some (Run_shell (memory_init heap) st (kernel_env hw j st)
      \<lparr>sh_ctx = boot_context j info fb d, sh_input = j_input j, sh_shift = False, sh_world = w2\<rparr>)"
      unfolding kernel_main_def by (simp add: i(1) io m mk(1,2) boot_screen_def boot_context_def Let_def)
  qed (use mk io in simp_all)
qed

lemma boot_session:
  assumes "idle w" "disk_found cfg regs st w" "junk_sized addr j"
    and "image_ok d" "\<forall>nm i. root_lookup d nm = Some i \<longrightarrow> unat i < 13"
  shows "\<exists>sh sh'. kernel_main hw j info heap fb w =
      Some (Run_shell (memory_init heap) st (kernel_env hw j st) sh) \<and>
    shell_run (kernel_env hw j st) sh sh' \<and> shell_turn (kernel_env hw j st) sh' = None \<and>
    sh_ctx sh' = session (kernel_env hw j st) d (fst (decode_keys False ks)) (boot_context j info fb d)"
proof -
  have "get64 d 0 = FSSO_MAGIC" using assms(4) unfolding image_ok_def by blast
  then obtain sh where sh: "kernel_main hw j info heap fb w = Some (Run_shell (memory_init heap) st (kernel_env hw j st) sh)"
    "sh_ctx sh = boot_context j info fb d" "sh_shift sh = False" "keys (sh_world sh) = ks" "content (sh_world sh) = d"
    "driver_ready hw st ok (sh_world sh)" "length (sh_input sh) = 256"
    by (rule kernel_boots [OF assms(1-3)])
  have "root_readable 8192 d (mounted d)" using assms(4,5) by (intro root_readable_image) auto
  with sh have ok: "shell_ok (driver_ready hw st ok) content 8192 sh"
    by (simp add: shell_ok_def boot_context_def)
  have j: "\<And>w. length (j_stack j w) = 1024" using assms(3) by (simp add: junk_sized_def)
  have t: "turn_ready (kernel_env hw j st) hw (ahci_io hw st addr (j_stack j))"
    using assms(3) by (simp add: turn_ready_def kernel_env_def junk_sized_def)
  from shell_machine.run_session [OF shell_contract t ok, OF j] sh show ?thesis by auto
qed

end


section \<open>The machine of Platform\<close>

definition qemu_junk :: "pc stack_junk" where
  "qemu_junk = \<lparr>j_addr = 0x2000000, j_stack = noise, j_fs = blank_fs, j_past = (\<lambda>_. replicate 8 0),
     j_above = [0], j_file_buf = replicate 4096 0xAA, j_input = replicate 256 0xFF\<rparr>"

abbreviation qemu_idle :: "mem \<Rightarrow> bytes \<Rightarrow> pc \<Rightarrow> bool" where
  "qemu_idle d ks \<equiv> pc_idle (\<lambda>F. F = pc_frame (qemu_pc d ks)) 0xFEBF1000 1"

lemma qemu_idle_frame: "qemu_idle d ks = (\<lambda>v. pc_powered v \<and> pc_frame v = pc_frame (qemu_pc d ks))"
  by (auto simp: pc_idle_def fun_eq_iff) (simp_all add: pc_frame_def)

lemma qemu_machine:
  "machine pc_hw pc_cfg (qemu_idle d ks) pc_regs qemu_ahci pc_port_reg (pc_engine 4) (pc_engine 0)
     pc_keys (pc_ready qemu_ahci) pc_disk 0x2000000 d ks"
proof (intro machine.intro machine_axioms.intro)
  have st: "hba qemu_ahci = 0xFEBF1000" "nat (active_port qemu_ahci) = 1" by (simp_all add: qemu_ahci_def)
  show "ahci_probe pc_hw pc_cfg (qemu_idle d ks) pc_regs"
    unfolding qemu_idle_frame by (rule pc_probe_frame)
  show "ahci_port pc_hw (hba qemu_ahci) (nat (active_port qemu_ahci)) (qemu_idle d ks) pc_port_reg (pc_engine 4) (pc_engine 0)"
    unfolding st by (rule pc_ahci_port) simp
  show "keyboard pc_hw pc_keys (driver_ready pc_hw qemu_ahci (pc_ready qemu_ahci)) pc_disk"
    by (rule qemu_shell.kbd.keyboard_axioms)
  show "ahci_device pc_hw qemu_ahci 0x2000000 pc_disk 8192 (\<lambda>w. pc_ready qemu_ahci w \<and> pc_keys w = K)" for K
    by (rule pc_ahci_device_keys [where Q = "\<lambda>k. k = K"]) (simp_all add: qemu_ahci_def)
next
  fix w :: pc assume w: "qemu_idle d ks w"
  then have f: "pc_frame w = pc_frame (qemu_pc d ks)" "pc_base w = 0xFEBF1000" "pc_port w = 1"
    by (simp_all add: pc_idle_def)
  then show "pc_disk w = d \<and> pc_keys w = ks" by (simp add: pc_frame_def)
  show "\<not> bit (ram_op pc_hw w (unat (clb_addr (nat (active_port qemu_ahci))))) 5"
    using f by (simp add: pc_frame_def qemu_ahci_def)
  show "pc_ready qemu_ahci w" if "port_started pc_port_reg (nat (active_port qemu_ahci)) w"
  proof -
    have "pc_latency w = 3" "pc_sectors w = 8192" using f by (simp_all add: pc_frame_def)
    moreover have "3 < ahci_timeout" by (simp add: ahci_timeout_def)
    ultimately show ?thesis
      using that f(2,3) by (simp add: pc_ready_def port_started_def areas_set_def qemu_ahci_def)
  qed
next
  fix w w0 w1 :: pc and cmd :: u32
  assume w: "qemu_idle d ks w"
    and r: "port_read pc_hw (hba qemu_ahci) (nat (active_port qemu_ahci)) PORT_CMD w = (cmd, w0)"
    and w1: "w1 = port_write pc_hw (hba qemu_ahci) (nat (active_port qemu_ahci)) PORT_CMD (cmd AND NOT 0x11) w0"
  have st: "hba qemu_ahci = 0xFEBF1000" "nat (active_port qemu_ahci) = 1" by (simp_all add: qemu_ahci_def)
  from pc_engines_stop [OF w r [unfolded st] w1 [unfolded st]]
  show "pc_engine 4 w1 \<noteq> None \<and> pc_engine 0 w1 \<noteq> None" by blast
qed

abbreviation typed_echo :: bytes where
  "typed_echo \<equiv> concat (map strokes (''echo hi'' @ [CHR 0x0A]))"

interpretation qemu_boot: machine pc_hw pc_cfg "qemu_idle img2 typed_echo" pc_regs qemu_ahci pc_port_reg "pc_engine 4" "pc_engine 0"
  pc_keys "pc_ready qemu_ahci" pc_disk "0x2000000" img2 typed_echo
  by (rule qemu_machine)

lemma qemu_starts:
  "qemu_idle d ks (qemu_pc d ks)" "disk_found pc_cfg pc_regs qemu_ahci (qemu_pc d ks)" "junk_sized 0x2000000 qemu_junk"
proof -
  show "qemu_idle d ks (qemu_pc d ks)" by (simp add: pc_idle_def qemu_powered)
  show "disk_found pc_cfg pc_regs qemu_ahci (qemu_pc d ks)"
    by (simp add: disk_found_def qemu_ahci_def qemu_pci qemu_ata_ports del: upt_rec_numeral)
  show "junk_sized 0x2000000 qemu_junk" by (simp add: junk_sized_def qemu_junk_def noise_def)
qed


end
