(* ===== verification/Bootloader.thy ===== *)
theory Bootloader
  imports Prelude
begin

text \<open>
  The UEFI boot loader: \<open>efi_main\<close> of \<^verbatim>\<open>src/bootloader/bootloader.c\<close> and of its EDK2 copy
  \<^verbatim>\<open>src/SimplrOsPkg/Bootloader/Bootloader.c\<close>. The firmware is a parameter, a record of the boot
  services and protocol functions the code calls. The ELF headers are read from memory each time the
  C code reads them, so a segment that overwrites the file buffer is in the model; the two copy
  loops, whose bound is read from that memory at every turn, may then run for ever.
\<close>

unbundle bit_operations_syntax

section \<open>The firmware\<close>

datatype guid = LoadedImageProtocolGuid | SimpleFileSystemProtocolGuid

record 'w uefi =
  efi_print :: "string \<Rightarrow> u64 list \<Rightarrow> 'w \<Rightarrow> 'w"
  efi_handle_protocol :: "u64 \<Rightarrow> guid \<Rightarrow> 'w \<Rightarrow> u64 \<times> u64 \<times> 'w"
  efi_device_handle :: "u64 \<Rightarrow> 'w \<Rightarrow> u64"
  efi_open_volume :: "u64 \<Rightarrow> 'w \<Rightarrow> u64 \<times> u64 \<times> 'w"
  efi_open :: "u64 \<Rightarrow> string \<Rightarrow> 'w \<Rightarrow> u64 \<times> u64 \<times> 'w"
  efi_get_info :: "u64 \<Rightarrow> u64 \<Rightarrow> 'w \<Rightarrow> u64 \<times> 'w"
  efi_sizeof_file_info :: u64
  efi_file_size :: "u64 \<Rightarrow> 'w \<Rightarrow> u64"
  efi_read :: "u64 \<Rightarrow> u64 \<Rightarrow> u64 \<Rightarrow> 'w \<Rightarrow> u64 \<times> 'w"
  efi_close :: "u64 \<Rightarrow> 'w \<Rightarrow> 'w"
  efi_allocate_pool :: "u64 \<Rightarrow> 'w \<Rightarrow> u64 \<times> 'w"
  efi_free_pool :: "u64 \<Rightarrow> 'w \<Rightarrow> 'w"
  efi_locate_gop :: "'w \<Rightarrow> u64 \<times> u64 \<times> 'w"
  efi_set_mode :: "u64 \<Rightarrow> nat \<Rightarrow> 'w \<Rightarrow> 'w"
  efi_gop_mode :: "u64 \<Rightarrow> 'w \<Rightarrow> u64 \<times> u32 \<times> u32 \<times> u32"
  efi_get_memory_map :: "u64 \<Rightarrow> u64 \<Rightarrow> 'w \<Rightarrow> u64 \<times> u64 \<times> u64 \<times> u64 \<times> 'w"
  efi_exit_boot_services :: "u64 \<Rightarrow> u64 \<Rightarrow> 'w \<Rightarrow> u64 \<times> 'w"
  efi_ram :: "'w \<Rightarrow> mem"
  efi_set_ram :: "mem \<Rightarrow> 'w \<Rightarrow> 'w"

text \<open>\<^verbatim>\<open>EFI_ERROR\<close> tests the top bit; the two statuses the loader itself returns.\<close>

definition EFI_ERROR :: "u64 \<Rightarrow> bool" where
  "EFI_ERROR status \<longleftrightarrow> bit status 63"

definition EFI_OUT_OF_RESOURCES :: u64 where "EFI_OUT_OF_RESOURCES = 0x8000000000000009"
definition EFI_LOAD_ERROR :: u64 where "EFI_LOAD_ERROR = 0x8000000000000001"

section \<open>The ELF file in memory\<close>

record Elf64_Ehdr =
  e_ident :: bytes
  e_type :: u16
  e_machine :: u16
  e_version :: u32
  e_entry :: u64
  e_phoff :: u64
  e_shoff :: u64
  e_flags :: u32
  e_ehsize :: u16
  e_phentsize :: u16
  e_phnum :: u16
  e_shentsize :: u16
  e_shnum :: u16
  e_shstrndx :: u16

definition get_ehdr :: "mem \<Rightarrow> u64 \<Rightarrow> Elf64_Ehdr" where
  "get_ehdr m p =
     (let a = unat p in
      \<lparr>e_ident = get_bytes m a 16, e_type = get16 m (a + 16), e_machine = get16 m (a + 18),
       e_version = get32 m (a + 20), e_entry = get64 m (a + 24), e_phoff = get64 m (a + 32),
       e_shoff = get64 m (a + 40), e_flags = get32 m (a + 48), e_ehsize = get16 m (a + 52),
       e_phentsize = get16 m (a + 54), e_phnum = get16 m (a + 56), e_shentsize = get16 m (a + 58),
       e_shnum = get16 m (a + 60), e_shstrndx = get16 m (a + 62)\<rparr>)"

record Elf64_Phdr =
  p_type :: u32
  p_flags :: u32
  p_offset :: u64
  p_vaddr :: u64
  p_paddr :: u64
  p_filesz :: u64
  p_memsz :: u64
  p_align :: u64

definition get_phdr :: "mem \<Rightarrow> u64 \<Rightarrow> Elf64_Phdr" where
  "get_phdr m p =
     (let a = unat p in
      \<lparr>p_type = get32 m a, p_flags = get32 m (a + 4), p_offset = get64 m (a + 8),
       p_vaddr = get64 m (a + 16), p_paddr = get64 m (a + 24), p_filesz = get64 m (a + 32),
       p_memsz = get64 m (a + 40), p_align = get64 m (a + 48)\<rparr>)"

definition elf_magic :: "bytes \<Rightarrow> bool" where
  "elf_magic ident \<longleftrightarrow> ident ! 0 = 0x7F \<and> ident ! 1 = 0x45 \<and> ident ! 2 = 0x4C \<and> ident ! 3 = 0x46"

section \<open>Loading the segments\<close>

partial_function (option) copy_file :: "u64 \<Rightarrow> u64 \<Rightarrow> u64 \<Rightarrow> u64 \<Rightarrow> mem \<Rightarrow> mem option" where
  "copy_file phdr dest src j m =
     (if j < p_filesz (get_phdr m phdr) then
        copy_file phdr dest src (j + 1) (m(unat (dest + j) := m (unat (src + j))))
      else Some m)"

partial_function (option) zero_rest :: "u64 \<Rightarrow> u64 \<Rightarrow> u64 \<Rightarrow> mem \<Rightarrow> mem option" where
  "zero_rest phdr dest j m =
     (if j < p_memsz (get_phdr m phdr) then zero_rest phdr dest (j + 1) (m(unat (dest + j) := 0))
      else Some m)"

definition load_segment :: "u64 \<Rightarrow> u64 \<Rightarrow> mem \<Rightarrow> mem option" where
  "load_segment buffer phdr m =
     (if p_type (get_phdr m phdr) = 1 then
        (let dest = p_vaddr (get_phdr m phdr); src = buffer + p_offset (get_phdr m phdr) in
         case copy_file phdr dest src 0 m of None \<Rightarrow> None
         | Some m \<Rightarrow> zero_rest phdr dest (p_filesz (get_phdr m phdr)) m)
      else Some m)"

text \<open>The address of a program header: the product is one of two promoted \<^verbatim>\<open>UINT16\<close>.\<close>

definition phdr_addr :: "mem \<Rightarrow> u64 \<Rightarrow> u16 \<Rightarrow> u64" where
  "phdr_addr m buffer i =
     buffer + e_phoff (get_ehdr m buffer) + of_int (sint (ucast i * ucast (e_phentsize (get_ehdr m buffer)) :: 32 word))"

function load_segments :: "u64 \<Rightarrow> u16 \<Rightarrow> mem \<Rightarrow> mem option" where
  "load_segments buffer i m =
     (if i < e_phnum (get_ehdr m buffer) then
        (case load_segment buffer (phdr_addr m buffer i) m of None \<Rightarrow> None
         | Some m \<Rightarrow> load_segments buffer (i + 1) m)
      else Some m)"
  by pat_completeness auto

lemma unat_Suc_below:
  assumes "i < (n :: u16)"
  shows "unat (i + 1) = unat i + 1"
proof -
  have "unat i + 1 < 2 ^ LENGTH(16)" using assms unat_less_power [of n] by (simp add: word_less_nat_alt)
  then show ?thesis using unat_add_no_wrap [of i 1] by simp
qed

termination load_segments
proof (relation "measure (\<lambda>(buffer, i, m). 65536 - unat i)")
  fix buffer m m' and i :: u16
  assume "i < e_phnum (get_ehdr m buffer)"
  from unat_Suc_below [OF this] unat_less_power [of i]
  show "((buffer, i + 1, m'), (buffer, i, m)) \<in> measure (\<lambda>(buffer, i, m). 65536 - unat i)" by simp
qed simp

declare load_segments.simps [simp del]

section \<open>The program\<close>

record BootInfo =
  framebuffer :: u64
  width :: u32
  height :: u32
  pixels_per_scanline :: u32

text \<open>
  How \<open>efi_main\<close> ends: it returns a status to the firmware, or calls the kernel's entry point with the
  \<open>BootInfo\<close> (and would spin if the kernel returned). \<open>None\<close> stands for a copy loop that never ends.
\<close>

datatype 'w efi_end = Return u64 'w | Jump u64 BootInfo 'w

definition read_gop :: "'w uefi \<Rightarrow> u64 \<Rightarrow> 'w \<Rightarrow> BootInfo" where
  "read_gop fw gop w = (case efi_gop_mode fw gop w of (base, hres, vres, pps) \<Rightarrow>
     \<lparr>framebuffer = base, width = hres, height = vres, pixels_per_scanline = pps\<rparr>)"

text \<open>The end: memory map, exit of boot services, jump.\<close>

definition leave_firmware :: "'w uefi \<Rightarrow> u64 \<Rightarrow> u64 \<Rightarrow> BootInfo \<Rightarrow> 'w \<Rightarrow> 'w efi_end" where
  "leave_firmware fw handle entry info w =
     (case efi_get_memory_map fw 0 0 w of (status, size1, key, desc, w) \<Rightarrow>
      case efi_allocate_pool fw (size1 + 2 * desc) w of (memory_map, w) \<Rightarrow>
      case efi_get_memory_map fw (size1 + 2 * desc) memory_map w of (status, size2, key, desc, w) \<Rightarrow>
      if EFI_ERROR status then Return status (efi_print fw ''Failed to get memory map'' [] w)
      else
        (case efi_exit_boot_services fw handle key w of (status, w) \<Rightarrow>
         if EFI_ERROR status then Return status (efi_print fw ''Failed to exit boot services'' [] w)
         else Jump entry info w))"

text \<open>From the file in memory on. \<open>gop0\<close> is the uninitialised pointer \<open>Gop\<close>, which \<open>LocateProtocol\<close>
  leaves alone when it fails.\<close>

definition start_kernel :: "'w uefi \<Rightarrow> u64 \<Rightarrow> u64 \<Rightarrow> u64 \<Rightarrow> 'w \<Rightarrow> 'w efi_end option" where
  "start_kernel fw handle gop0 buffer w =
     (if \<not> elf_magic (e_ident (get_ehdr (efi_ram fw w) buffer)) then
        Some (Return EFI_LOAD_ERROR (efi_print fw ''kernel.elf is not a valid ELF file'' [] w))
      else
        (case load_segments buffer 0 (efi_ram fw w) of None \<Rightarrow> None
         | Some m \<Rightarrow>
            (let w = efi_set_ram fw m w;
                 w = efi_print fw ''Kernel ELF valid. Entry point: 0x%lx'' [e_entry (get_ehdr (efi_ram fw w) buffer)] w;
                 (status, gop, w) = efi_locate_gop fw w;
                 gop = (if EFI_ERROR status then gop0 else gop);
                 w = (if EFI_ERROR status then w else efi_set_mode fw gop 0 w);
                 info = read_gop fw gop w;
                 entry = e_entry (get_ehdr (efi_ram fw w) buffer)
             in Some (leave_firmware fw handle entry info w))))"

text \<open>Opening and reading \<^verbatim>\<open>kernel.elf\<close>: the status to return, or the buffer with the file.\<close>

definition read_kernel :: "'w uefi \<Rightarrow> u64 \<Rightarrow> 'w \<Rightarrow> (u64 + u64) \<times> 'w" where
  "read_kernel fw handle w =
     (let fail = (\<lambda>status msg w. (Inl status, efi_print fw msg [] w)) in
      case efi_handle_protocol fw handle LoadedImageProtocolGuid w of (status, loaded, w) \<Rightarrow>
      if EFI_ERROR status then fail status ''Failed to get loaded image protocol'' w else
      case efi_handle_protocol fw (efi_device_handle fw loaded w) SimpleFileSystemProtocolGuid w of (status, fs, w) \<Rightarrow>
      if EFI_ERROR status then fail status ''Failed to get filesystem protocol'' w else
      case efi_open_volume fw fs w of (status, root, w) \<Rightarrow>
      if EFI_ERROR status then fail status ''Failed to open volume'' w else
      case efi_open fw root ''kernel.elf'' w of (status, file, w) \<Rightarrow>
      if EFI_ERROR status then fail status ''Failed to open kernel.elf'' w else
      case efi_allocate_pool fw (efi_sizeof_file_info fw + 2 * 256) w of (file_info, w) \<Rightarrow>
      case efi_get_info fw file file_info w of (status, w) \<Rightarrow>
      if EFI_ERROR status then fail status ''Failed to get kernel file info'' w else
      (let kernel_size = efi_file_size fw file_info w; w = efi_free_pool fw file_info w in
       case efi_allocate_pool fw kernel_size w of (buffer, w) \<Rightarrow>
       if buffer = 0 then fail EFI_OUT_OF_RESOURCES ''Failed to allocate memory for kernel'' w else
       case efi_read fw file kernel_size buffer w of (status, w) \<Rightarrow>
       if EFI_ERROR status then fail status ''Failed to read kernel'' w else
       (Inr buffer, efi_close fw file w)))"

definition efi_main :: "'w uefi \<Rightarrow> u64 \<Rightarrow> u64 \<Rightarrow> 'w \<Rightarrow> 'w efi_end option" where
  "efi_main fw handle gop0 w =
     (let w = efi_print fw ''SimplrOS bootloader starting...'' [] w;
          w = efi_print fw ''Hello from Simplr!'' [] w
      in case read_kernel fw handle w of
           (Inl status, w) \<Rightarrow> Some (Return status w)
         | (Inr buffer, w) \<Rightarrow> start_kernel fw handle gop0 buffer w)"

text \<open>
  The EDK2 copy prints the entry point before it loads the segments and adds a debug print of the
  four bytes at 0x100000.
\<close>

definition start_kernel_pkg :: "'w uefi \<Rightarrow> u64 \<Rightarrow> u64 \<Rightarrow> u64 \<Rightarrow> 'w \<Rightarrow> 'w efi_end option" where
  "start_kernel_pkg fw handle gop0 buffer w =
     (if \<not> elf_magic (e_ident (get_ehdr (efi_ram fw w) buffer)) then
        Some (Return EFI_LOAD_ERROR (efi_print fw ''kernel.elf is not a valid ELF file'' [] w))
      else
        (let w = efi_print fw ''Kernel ELF valid. Entry point: 0x%lx'' [e_entry (get_ehdr (efi_ram fw w) buffer)] w in
         case load_segments buffer 0 (efi_ram fw w) of None \<Rightarrow> None
         | Some m \<Rightarrow>
            (let w = efi_set_ram fw m w;
                 (status, gop, w) = efi_locate_gop fw w;
                 gop = (if EFI_ERROR status then gop0 else gop);
                 w = (if EFI_ERROR status then w else efi_set_mode fw gop 0 w);
                 w = efi_print fw ''Bytes at 0x100000: %02x %02x %02x %02x''
                       (map (\<lambda>i. ucast (efi_ram fw w (0x100000 + i))) [0, 1, 2, 3]) w;
                 info = read_gop fw gop w;
                 entry = e_entry (get_ehdr (efi_ram fw w) buffer)
             in Some (leave_firmware fw handle entry info w))))"

definition efi_main_pkg :: "'w uefi \<Rightarrow> u64 \<Rightarrow> u64 \<Rightarrow> 'w \<Rightarrow> 'w efi_end option" where
  "efi_main_pkg fw handle gop0 w =
     (let w = efi_print fw ''SimplrOS bootloader starting...'' [] w;
          w = efi_print fw ''Hello from Simplr!'' [] w
      in case read_kernel fw handle w of
           (Inl status, w) \<Rightarrow> Some (Return status w)
         | (Inr buffer, w) \<Rightarrow> start_kernel_pkg fw handle gop0 buffer w)"

end
