(* ===== verification/Bootloader_Correct.thy ===== *)
theory Bootloader_Correct
  imports Bootloader
begin

text \<open>
  What the boot loader does: the segments of an ELF file whose destinations stay clear of the file
  buffer are placed as the program headers say; the error returns; the two copies of the program.
\<close>

unbundle bit_operations_syntax

section \<open>Byte ranges\<close>

lemma put_bytes_Nil [simp]: "put_bytes m a [] = m"
  by (auto simp: put_bytes_def fun_eq_iff)

lemma put_bytes_Cons: "put_bytes m a (x # xs) = put_bytes (m(a := x)) (a + 1) xs"
proof (rule ext)
  fix i
  have "i < a \<or> i = a \<or> (\<exists>k. i = a + 1 + k)" by presburger
  then show "put_bytes m a (x # xs) i = put_bytes (m(a := x)) (a + 1) xs i"
    by (elim disjE exE) (simp_all add: put_bytes_def)
qed

lemma put_bytes_append: "put_bytes (put_bytes m a xs) (a + length xs) ys = put_bytes m a (xs @ ys)"
  by (auto simp: put_bytes_def fun_eq_iff nth_append)

lemma get_bytes_Suc: "get_bytes m a (Suc n) = m a # get_bytes m (a + 1) n"
  by (simp add: get_bytes_def upt_conv_Cons map_Suc_upt [symmetric] del: upt_Suc map_Suc_upt)

section \<open>Where things lie\<close>

text \<open>Two memories agree on the file buffer, \<open>n\<close> bytes at \<open>b\<close>.\<close>

definition agree :: "nat \<Rightarrow> nat \<Rightarrow> mem \<Rightarrow> mem \<Rightarrow> bool" where
  "agree b n m m' \<longleftrightarrow> (\<forall>i. b \<le> i \<and> i < b + n \<longrightarrow> m i = m' i)"

definition outside :: "nat \<Rightarrow> nat \<Rightarrow> nat \<Rightarrow> nat \<Rightarrow> bool" where
  "outside b n a k \<longleftrightarrow> a + k \<le> b \<or> b + n \<le> a"

lemma agree_refl [simp]: "agree b n m m"
  by (simp add: agree_def)

lemma agree_upd: "agree b n m m' \<Longrightarrow> a < b \<or> b + n \<le> a \<Longrightarrow> agree b n (m(a := v)) m'"
  by (auto simp: agree_def)

lemma agree_put: "agree b n m m' \<Longrightarrow> outside b n a (length xs) \<Longrightarrow> agree b n (put_bytes m a xs) m'"
  by (auto simp: agree_def outside_def put_bytes_def)

lemma agree_get: "agree b n m m' \<Longrightarrow> b \<le> a \<Longrightarrow> a + k \<le> b + n \<Longrightarrow> get_le k m a = get_le k m' a"
  by (rule get_le_cong) (simp add: agree_def)

lemma agree_get_bytes: "agree b n m m' \<Longrightarrow> b \<le> a \<Longrightarrow> a + k \<le> b + n \<Longrightarrow> get_bytes m a k = get_bytes m' a k"
  by (rule get_bytes_cong) (simp add: agree_def)

lemma agree_phdr:
  assumes "agree b n m m'" "b \<le> unat p" "unat p + 56 \<le> b + n"
  shows "get_phdr m p = get_phdr m' p"
  using assms by (simp add: get_phdr_def Let_def agree_get [OF assms(1)] del: get_le.simps)

lemma agree_ehdr:
  assumes "agree b n m m'" "b \<le> unat p" "unat p + 64 \<le> b + n"
  shows "get_ehdr m p = get_ehdr m' p"
  using assms by (simp add: get_ehdr_def Let_def agree_get [OF assms(1)] agree_get_bytes [OF assms(1)] del: get_le.simps)

section \<open>The copy loops\<close>

lemma copy_file_puts:
  assumes "b \<le> unat phdr" "unat phdr + 56 \<le> b + n" "fs = p_filesz (get_phdr m0 phdr)"
    and "b \<le> unat src" "unat src + unat fs \<le> b + n" "b + n \<le> 2 ^ 64"
    and "outside b n (unat dest) (unat fs)" "unat dest + unat fs \<le> 2 ^ 64"
  shows "agree b n m m0 \<Longrightarrow> j \<le> fs \<Longrightarrow>
    copy_file phdr dest src j m =
      Some (put_bytes m (unat dest + unat j) (get_bytes m0 (unat src + unat j) (unat fs - unat j)))"
proof (induction "unat fs - unat j" arbitrary: j m)
  case 0
  then have "\<not> j < p_filesz (get_phdr m phdr)"
    by (simp add: agree_phdr [OF 0(2) assms(1,2)] assms(3) [symmetric] word_less_nat_alt)
  then show ?case using 0 by (simp add: copy_file.simps get_bytes_def)
next
  case (Suc k)
  have lt: "unat j < unat fs" using Suc.hyps(2) by simp
  then have j: "j < p_filesz (get_phdr m phdr)"
    by (simp add: agree_phdr [OF Suc.prems(1) assms(1,2)] assms(3) [symmetric] word_less_nat_alt)
  have Suc_j: "unat (j + 1) = unat j + 1"
    using lt unat_less_power [of fs] unat_add_no_wrap [of j 1] by simp
  have d: "unat (dest + j) = unat dest + unat j" and s: "unat (src + j) = unat src + unat j"
    using lt assms(5,6,8) by (simp_all add: unat_add_no_wrap)
  have v: "m (unat src + unat j) = m0 (unat src + unat j)"
    using Suc.prems(1) lt assms(4,5) by (simp add: agree_def)
  define m1 where "m1 = m(unat dest + unat j := m0 (unat src + unat j))"
  have "agree b n m1 m0"
    unfolding m1_def using Suc.prems(1) lt assms(7) by (intro agree_upd) (auto simp: outside_def)
  moreover have "k = unat fs - unat (j + 1)" "j + 1 \<le> fs"
    using Suc.hyps(2) lt Suc_j by (simp_all add: word_le_nat_alt)
  ultimately have "copy_file phdr dest src (j + 1) m1 =
      Some (put_bytes m1 (unat dest + unat (j + 1)) (get_bytes m0 (unat src + unat (j + 1)) (unat fs - unat (j + 1))))"
    by (intro Suc.hyps(1))
  then have "copy_file phdr dest src j m =
      Some (put_bytes m1 (unat dest + unat j + 1) (get_bytes m0 (unat src + unat j + 1) k))"
    using j d s v Suc_j \<open>k = unat fs - unat (j + 1)\<close>
    by (simp add: copy_file.simps [of _ _ _ j] m1_def [symmetric])
  then show ?case
    unfolding Suc.hyps(2) [symmetric] get_bytes_Suc put_bytes_Cons m1_def .
qed

lemma zero_rest_puts:
  assumes "b \<le> unat phdr" "unat phdr + 56 \<le> b + n" "ms = p_memsz (get_phdr m0 phdr)"
    and "outside b n (unat dest) (unat ms)" "unat dest + unat ms \<le> 2 ^ 64"
  shows "agree b n m m0 \<Longrightarrow>
    zero_rest phdr dest j m = Some (put_bytes m (unat dest + unat j) (replicate (unat ms - unat j) 0))"
proof (induction "unat ms - unat j" arbitrary: j m)
  case 0
  then have "\<not> j < p_memsz (get_phdr m phdr)"
    by (simp add: agree_phdr [OF 0(2) assms(1,2)] assms(3) [symmetric] word_less_nat_alt)
  then show ?case using 0 by (simp add: zero_rest.simps)
next
  case (Suc k)
  have lt: "unat j < unat ms" using Suc.hyps(2) by simp
  then have j: "j < p_memsz (get_phdr m phdr)"
    by (simp add: agree_phdr [OF Suc.prems assms(1,2)] assms(3) [symmetric] word_less_nat_alt)
  have Suc_j: "unat (j + 1) = unat j + 1"
    using lt unat_less_power [of ms] unat_add_no_wrap [of j 1] by simp
  have d: "unat (dest + j) = unat dest + unat j"
    using lt assms(5) by (simp add: unat_add_no_wrap)
  define m1 where "m1 = m(unat dest + unat j := 0)"
  have "agree b n m1 m0"
    unfolding m1_def using Suc.prems lt assms(4) by (intro agree_upd) (auto simp: outside_def)
  moreover have "k = unat ms - unat (j + 1)" using Suc.hyps(2) lt Suc_j by simp
  ultimately have "zero_rest phdr dest (j + 1) m1 =
      Some (put_bytes m1 (unat dest + unat (j + 1)) (replicate (unat ms - unat (j + 1)) 0))"
    by (intro Suc.hyps(1))
  then have "zero_rest phdr dest j m = Some (put_bytes m1 (unat dest + unat j + 1) (replicate k 0))"
    using j d Suc_j \<open>k = unat ms - unat (j + 1)\<close> by (simp add: zero_rest.simps [of _ _ j] m1_def [symmetric])
  then show ?case
    unfolding Suc.hyps(2) [symmetric] replicate_Suc put_bytes_Cons m1_def .
qed

section \<open>The memory image a file asks for\<close>

definition phdrs :: "mem \<Rightarrow> u64 \<Rightarrow> Elf64_Phdr list" where
  "phdrs m buffer = map (\<lambda>i. get_phdr m (phdr_addr m buffer (of_nat i))) [0..<unat (e_phnum (get_ehdr m buffer))]"

text \<open>The bytes of a segment: from the file, then zeros up to the memory size.\<close>

definition segment_bytes :: "mem \<Rightarrow> u64 \<Rightarrow> Elf64_Phdr \<Rightarrow> bytes" where
  "segment_bytes m buffer p =
     get_bytes m (unat (buffer + p_offset p)) (unat (p_filesz p)) @ replicate (unat (p_memsz p) - unat (p_filesz p)) 0"

definition place :: "mem \<Rightarrow> u64 \<Rightarrow> Elf64_Phdr \<Rightarrow> mem \<Rightarrow> mem" where
  "place m0 buffer p m =
     (if p_type p = 1 then put_bytes m (unat (p_vaddr p)) (segment_bytes m0 buffer p) else m)"

definition loaded :: "mem \<Rightarrow> u64 \<Rightarrow> mem" where
  "loaded m buffer = fold (place m buffer) (phdrs m buffer) m"

text \<open>
  A file of \<open>n\<close> bytes at \<open>buffer\<close> that can be loaded: headers and segment bytes lie inside it, the
  segments' destinations inside the address space and outside the buffer.
\<close>

definition segment_safe :: "u64 \<Rightarrow> nat \<Rightarrow> Elf64_Phdr \<Rightarrow> bool" where
  "segment_safe buffer n p \<longleftrightarrow> p_type p = 1 \<longrightarrow>
     unat buffer \<le> unat (buffer + p_offset p) \<and> unat (buffer + p_offset p) + unat (p_filesz p) \<le> unat buffer + n \<and>
     unat (p_vaddr p) + max (unat (p_filesz p)) (unat (p_memsz p)) \<le> 2 ^ 64 \<and>
     outside (unat buffer) n (unat (p_vaddr p)) (max (unat (p_filesz p)) (unat (p_memsz p)))"

definition elf_safe :: "mem \<Rightarrow> u64 \<Rightarrow> nat \<Rightarrow> bool" where
  "elf_safe m buffer n \<longleftrightarrow> 64 \<le> n \<and> unat buffer + n \<le> 2 ^ 64 \<and>
     (\<forall>i < unat (e_phnum (get_ehdr m buffer)).
        unat buffer \<le> unat (phdr_addr m buffer (of_nat i)) \<and>
        unat (phdr_addr m buffer (of_nat i)) + 56 \<le> unat buffer + n \<and>
        segment_safe buffer n (get_phdr m (phdr_addr m buffer (of_nat i))))"

lemma outside_le: "outside b n a k \<Longrightarrow> l \<le> k \<Longrightarrow> outside b n a l"
  by (auto simp: outside_def)

lemma load_segment_places:
  assumes "agree (unat buffer) n m m0" "unat buffer \<le> unat ph" "unat ph + 56 \<le> unat buffer + n"
    and "unat buffer + n \<le> 2 ^ 64" "segment_safe buffer n (get_phdr m0 ph)"
  shows "load_segment buffer ph m = Some (place m0 buffer (get_phdr m0 ph) m) \<and>
    agree (unat buffer) n (place m0 buffer (get_phdr m0 ph) m) m0"
proof (cases "p_type (get_phdr m0 ph) = 1")
  case False
  then show ?thesis
    using assms(1) by (simp add: load_segment_def place_def agree_phdr [OF assms(1-3)])
next
  case True
  let ?p = "get_phdr m0 ph"
  let ?fs = "p_filesz ?p" and ?ms = "p_memsz ?p" and ?d = "p_vaddr ?p" and ?s = "buffer + p_offset ?p"
  from True assms(5) have s: "unat buffer \<le> unat ?s" "unat ?s + unat ?fs \<le> unat buffer + n"
    "unat ?d + max (unat ?fs) (unat ?ms) \<le> 2 ^ 64" and out: "outside (unat buffer) n (unat ?d) (max (unat ?fs) (unat ?ms))"
    by (simp_all add: segment_safe_def)
  have o: "outside (unat buffer) n (unat ?d) (unat ?fs)" "outside (unat buffer) n (unat ?d) (unat ?ms)"
    using out by (auto intro: outside_le)
  have w: "unat ?d + unat ?fs \<le> 2 ^ 64" "unat ?d + unat ?ms \<le> 2 ^ 64" using s(3) by simp_all
  define m1 where "m1 = put_bytes m (unat ?d) (get_bytes m0 (unat ?s) (unat ?fs))"
  have c: "copy_file ph ?d ?s 0 m = Some m1"
    using copy_file_puts [OF assms(2,3) refl s(1,2) assms(4) o(1) w(1) assms(1), of 0] by (simp add: m1_def)
  have a1: "agree (unat buffer) n m1 m0"
    unfolding m1_def using assms(1) o(1) by (intro agree_put) simp_all
  have z: "zero_rest ph ?d ?fs m1 = Some (put_bytes m1 (unat ?d + unat ?fs) (replicate (unat ?ms - unat ?fs) 0))"
    by (rule zero_rest_puts [OF assms(2,3) refl o(2) w(2) a1])
  have "put_bytes m1 (unat ?d + unat ?fs) (replicate (unat ?ms - unat ?fs) 0) = place m0 buffer ?p m"
    using True put_bytes_append [of m "unat ?d" "get_bytes m0 (unat ?s) (unat ?fs)"]
    by (simp add: m1_def place_def segment_bytes_def)
  moreover have "agree (unat buffer) n (place m0 buffer ?p m) m0"
    using True assms(1) out by (auto simp: place_def segment_bytes_def max_def intro!: agree_put split: if_splits)
  ultimately show ?thesis
    using True c z by (simp add: load_segment_def agree_phdr [OF assms(1-3)] agree_phdr [OF a1 assms(2,3)])
qed

lemma load_segments_places:
  assumes "elf_safe m0 buffer n"
  shows "agree (unat buffer) n m m0 \<Longrightarrow>
    load_segments buffer i m = Some (fold (place m0 buffer) (drop (unat i) (phdrs m0 buffer)) m) \<and>
    agree (unat buffer) n (fold (place m0 buffer) (drop (unat i) (phdrs m0 buffer)) m) m0"
proof (induction "unat (e_phnum (get_ehdr m0 buffer)) - unat i" arbitrary: i m)
  case 0
  have e: "get_ehdr m buffer = get_ehdr m0 buffer"
    using assms by (intro agree_ehdr [OF 0(2)]) (simp_all add: elf_safe_def)
  have "drop (unat i) (phdrs m0 buffer) = []" using 0(1) by (simp add: phdrs_def)
  with 0 e show ?case by (simp add: load_segments.simps [of buffer i] word_less_nat_alt)
next
  case (Suc k)
  have e: "get_ehdr m buffer = get_ehdr m0 buffer"
    using assms by (intro agree_ehdr [OF Suc.prems]) (simp_all add: elf_safe_def)
  have lt: "unat i < unat (e_phnum (get_ehdr m0 buffer))" using Suc.hyps(2) by simp
  then have i: "i < e_phnum (get_ehdr m0 buffer)" by (simp add: word_less_nat_alt)
  let ?ph = "phdr_addr m0 buffer i"
  have ph: "phdr_addr m buffer i = ?ph" by (simp add: phdr_addr_def e)
  have safe: "unat buffer \<le> unat ?ph" "unat ?ph + 56 \<le> unat buffer + n" "segment_safe buffer n (get_phdr m0 ?ph)"
    "unat buffer + n \<le> 2 ^ 64"
    using assms lt by (auto simp: elf_safe_def dest!: spec [of _ "unat i"])
  have Suc_i: "unat (i + 1) = unat i + 1" by (rule unat_Suc_below [OF i])
  have d: "drop (unat i) (phdrs m0 buffer) = get_phdr m0 ?ph # drop (unat (i + 1)) (phdrs m0 buffer)"
    using lt Cons_nth_drop_Suc [of "unat i" "phdrs m0 buffer"] by (simp add: phdrs_def Suc_i)
  note seg = load_segment_places [OF Suc.prems safe(1,2,4,3)]
  have "k = unat (e_phnum (get_ehdr m0 buffer)) - unat (i + 1)" using Suc.hyps(2) Suc_i by simp
  from Suc.hyps(1) [OF this conjunct2 [OF seg]] seg i show ?case
    by (simp add: load_segments.simps [of buffer i] e ph d)
qed

text \<open>C8: when the headers and the bytes of the segments lie inside the file read and no destination
  overlaps the file buffer, the loader's loops end and the memory is exactly the one the program
  headers describe: every PT_LOAD segment's file bytes at its virtual address followed by zeros up
  to its memory size, in header order, and nothing else is written.\<close>

theorem load_segments_loads:
  assumes "elf_safe m buffer n"
  shows "load_segments buffer 0 m = Some (loaded m buffer)"
  using load_segments_places [OF assms agree_refl, of 0] by (simp add: loaded_def)

text \<open>A kernel of two bytes: one PT_LOAD segment at 0x100000, 2 bytes in the file and 4 in memory.\<close>

definition tiny_elf :: bytes where
  "tiny_elf =
    [0x7F, 0x45, 0x4C, 0x46, 0x02, 0, 0, 0, 0, 0, 0, 0, 0, 0, 0, 0, 0x02, 0, 0x3E, 0, 0, 0, 0, 0,
     0, 0, 0x10, 0, 0, 0, 0, 0, 0x40, 0, 0, 0, 0, 0, 0, 0, 0, 0, 0, 0, 0, 0, 0, 0, 0, 0, 0, 0,
     0x40, 0, 0x38, 0, 0x01, 0, 0, 0, 0, 0, 0, 0, 0x01, 0, 0, 0, 0x05, 0, 0, 0, 0x78, 0, 0, 0, 0,
     0, 0, 0, 0, 0, 0x10, 0, 0, 0, 0, 0, 0, 0, 0x10, 0, 0, 0, 0, 0, 0x02, 0, 0, 0, 0, 0, 0, 0,
     0x04, 0, 0, 0, 0, 0, 0, 0, 0, 0x10, 0, 0, 0, 0, 0, 0, 0xEB, 0xFE]"

definition tiny_ram :: mem where
  "tiny_ram = put_bytes (\<lambda>_. 0xCC) 0x200000 tiny_elf"

lemma tiny_length: "length tiny_elf = 122"
  by (simp add: tiny_elf_def)

lemma tiny_get: "off + n \<le> 122 \<Longrightarrow> get_le n tiny_ram (0x200000 + off) = get_le n ((!) tiny_elf) off"
  by (rule get_le_cong) (simp add: tiny_ram_def put_bytes_in tiny_length)

lemma tiny_ident: "get_bytes tiny_ram 0x200000 16 = take 16 tiny_elf"
  by (rule nth_equalityI) (simp_all add: tiny_ram_def put_bytes_in tiny_length)

lemma tiny_fields:
  "get16 ((!) tiny_elf) 54 = 56" "get16 ((!) tiny_elf) 56 = 1" "get64 ((!) tiny_elf) 24 = 0x100000"
  "get64 ((!) tiny_elf) 32 = 64" "get32 ((!) tiny_elf) 64 = 1" "get64 ((!) tiny_elf) 72 = 120"
  "get64 ((!) tiny_elf) 80 = 0x100000" "get64 ((!) tiny_elf) 96 = 2" "get64 ((!) tiny_elf) 104 = 4"
  by code_simp+

lemma tiny_magic: "elf_magic (take 16 tiny_elf)"
  by (simp add: elf_magic_def tiny_elf_def)

lemma tiny_at:
  "get_le 2 tiny_ram 2097208 = get_le 2 ((!) tiny_elf) 56" "get_le 2 tiny_ram 2097206 = get_le 2 ((!) tiny_elf) 54"
  "get_le 8 tiny_ram 2097176 = get_le 8 ((!) tiny_elf) 24" "get_le 8 tiny_ram 2097184 = get_le 8 ((!) tiny_elf) 32"
  "get_le 4 tiny_ram 2097216 = get_le 4 ((!) tiny_elf) 64" "get_le 8 tiny_ram 2097224 = get_le 8 ((!) tiny_elf) 72"
  "get_le 8 tiny_ram 2097232 = get_le 8 ((!) tiny_elf) 80" "get_le 8 tiny_ram 2097248 = get_le 8 ((!) tiny_elf) 96"
  "get_le 8 tiny_ram 2097256 = get_le 8 ((!) tiny_elf) 104"
  using tiny_get [of 56 2] tiny_get [of 54 2] tiny_get [of 24 8] tiny_get [of 32 8] tiny_get [of 64 4]
    tiny_get [of 72 8] tiny_get [of 80 8] tiny_get [of 96 8] tiny_get [of 104 8]
  by (simp_all del: get_le.simps)

lemma tiny_headers:
  "e_phnum (get_ehdr tiny_ram 0x200000) = 1" "e_phentsize (get_ehdr tiny_ram 0x200000) = 56"
  "e_phoff (get_ehdr tiny_ram 0x200000) = 64" "e_entry (get_ehdr tiny_ram 0x200000) = 0x100000"
  "elf_magic (e_ident (get_ehdr tiny_ram 0x200000))"
  "p_type (get_phdr tiny_ram 0x200040) = 1" "p_offset (get_phdr tiny_ram 0x200040) = 120"
  "p_vaddr (get_phdr tiny_ram 0x200040) = 0x100000" "p_filesz (get_phdr tiny_ram 0x200040) = 2"
  "p_memsz (get_phdr tiny_ram 0x200040) = 4"
  by (simp_all add: get_ehdr_def get_phdr_def Let_def tiny_at tiny_fields tiny_ident tiny_magic del: get_le.simps)

lemma tiny_phdr_addr: "phdr_addr tiny_ram 0x200000 0 = 0x200040"
  by (simp add: phdr_addr_def tiny_headers)

lemma tiny_safe: "elf_safe tiny_ram 0x200000 122"
  by (simp add: elf_safe_def tiny_headers tiny_phdr_addr segment_safe_def outside_def)

lemma tiny_loaded: "loaded tiny_ram 0x200000 = put_bytes tiny_ram 0x100000 [0xEB, 0xFE, 0, 0]"
proof -
  have "get_bytes tiny_ram 0x200078 2 = [0xEB, 0xFE]"
    by (rule nth_equalityI)
      (auto simp: tiny_ram_def put_bytes_in tiny_length tiny_elf_def less_2_cases_iff)
  moreover have "replicate 2 (0 :: u8) = [0, 0]" by (simp add: numeral_2_eq_2)
  ultimately have "segment_bytes tiny_ram 0x200000 (get_phdr tiny_ram 0x200040) = [0xEB, 0xFE, 0, 0]"
    by (simp add: segment_bytes_def tiny_headers)
  moreover have "phdrs tiny_ram 0x200000 = [get_phdr tiny_ram 0x200040]"
    by (simp add: phdrs_def tiny_headers tiny_phdr_addr)
  ultimately show ?thesis by (simp add: loaded_def place_def tiny_headers)
qed

theorem load_segments_loads_witness:
  "load_segments 0x200000 0 tiny_ram = Some (put_bytes tiny_ram 0x100000 [0xEB, 0xFE, 0, 0])"
  using load_segments_loads [OF tiny_safe] by (simp add: tiny_loaded)

section \<open>The whole loader\<close>

text \<open>
  What the loader relies on once the file is in memory. \<open>P\<close> is a set of addresses that belong to the
  loader: the file buffer, and the destinations of the segments (which the loader does not ask the
  firmware for). While the loader holds its buffers (\<open>held\<close>), no service changes a byte of \<open>P\<close>,
  except that GetMemoryMap writes to the buffer it is given, and a block that AllocatePool grants
  does not meet \<open>P\<close>. Everything else in memory may change at every call.
\<close>

locale uefi_services =
  fixes fw :: "'w uefi"
    and held :: "'w \<Rightarrow> bool"
    and P :: "nat set"
  assumes set_ram: "held w \<Longrightarrow> held (efi_set_ram fw m w) \<and> efi_ram fw (efi_set_ram fw m w) = m"
    and printed: "held w \<Longrightarrow> held (efi_print fw s xs w) \<and>
        (\<forall>a \<in> P. efi_ram fw (efi_print fw s xs w) a = efi_ram fw w a)"
    and located: "held w \<Longrightarrow> efi_locate_gop fw w = (status, gop, w') \<Longrightarrow>
        held w' \<and> (\<forall>a \<in> P. efi_ram fw w' a = efi_ram fw w a)"
    and mode_set: "held w \<Longrightarrow> held (efi_set_mode fw gop i w) \<and>
        (\<forall>a \<in> P. efi_ram fw (efi_set_mode fw gop i w) a = efi_ram fw w a)"
    and pool: "held w \<Longrightarrow> efi_allocate_pool fw n w = (p, w') \<Longrightarrow>
        held w' \<and> (\<forall>a \<in> P. efi_ram fw w' a = efi_ram fw w a) \<and>
        (p \<noteq> 0 \<longrightarrow> (\<forall>a \<in> P. a < unat p \<or> unat p + unat n \<le> a))"
    and memory_map: "held w \<Longrightarrow> efi_get_memory_map fw n p w = (status, sz, key, desc, w') \<Longrightarrow>
        held w' \<and> (\<forall>a \<in> P. p = 0 \<or> a < unat p \<or> unat p + unat n \<le> a \<longrightarrow> efi_ram fw w' a = efi_ram fw w a)"
    and exited: "held w \<Longrightarrow> efi_exit_boot_services fw h k w = (status, w') \<Longrightarrow>
        (\<forall>a \<in> P. efi_ram fw w' a = efi_ram fw w a)"

lemma EFI_errors: "EFI_ERROR EFI_LOAD_ERROR" "EFI_ERROR EFI_OUT_OF_RESOURCES"
  by (simp_all add: EFI_ERROR_def EFI_LOAD_ERROR_def EFI_OUT_OF_RESOURCES_def bit_simps)

lemma leave_firmware_cases:
  "(\<exists>status w'. leave_firmware fw handle entry info w = Return status w' \<and> EFI_ERROR status) \<or>
   (\<exists>w'. leave_firmware fw handle entry info w = Jump entry info w')"
  by (auto simp: leave_firmware_def split: prod.splits)

lemma read_kernel_error:
  "read_kernel fw handle w = (Inl status, w') \<Longrightarrow> EFI_ERROR status"
  by (auto simp: read_kernel_def Let_def EFI_errors split: prod.splits if_splits)

text \<open>Whatever the firmware does, efi_main never returns to it with a success status: it returns an
  error, runs into a copy loop that never ends, or leaves for the kernel.\<close>

theorem efi_main_returns_errors:
  assumes "efi_main fw handle gop0 w = Some (Return status w')"
  shows "EFI_ERROR status"
proof -
  obtain r w1 where r: "read_kernel fw handle (efi_print fw ''Hello from Simplr!'' []
      (efi_print fw ''SimplrOS bootloader starting...'' [] w)) = (r, w1)" by fastforce
  show ?thesis
  proof (cases r)
    case (Inl s)
    with r assms read_kernel_error show ?thesis by (fastforce simp: efi_main_def)
  next
    case (Inr buffer)
    with r assms have "start_kernel fw handle gop0 buffer w1 = Some (Return status w')"
      by (simp add: efi_main_def)
    then show ?thesis
      using leave_firmware_cases [of fw handle]
      by (auto simp: start_kernel_def Let_def EFI_errors split: if_splits option.splits prod.splits)
        (metis efi_end.distinct(1) efi_end.inject(1))+
  qed
qed

lemma loaded_header:
  assumes "elf_safe m buffer n"
  shows "get_ehdr (loaded m buffer) buffer = get_ehdr m buffer"
proof -
  have a: "agree (unat buffer) n (loaded m buffer) m"
    using load_segments_places [OF assms agree_refl, of 0] by (simp add: loaded_def)
  show ?thesis using assms by (intro agree_ehdr [OF a]) (simp_all add: elf_safe_def)
qed

text \<open>
  What the firmware makes of the loader's last requests: the display it finds (\<open>gop0\<close> is what the
  uninitialised pointer holds when there is none) and the world after setting its mode; and the
  three ways its departure goes. GetMemoryMap is asked for the size, then with a buffer two
  descriptors larger; ExitBootServices gets the key of that map.
\<close>

definition display :: "'w uefi \<Rightarrow> u64 \<Rightarrow> 'w \<Rightarrow> u64 \<Rightarrow> 'w \<Rightarrow> bool" where
  "display fw gop0 w gop w' \<longleftrightarrow> (\<exists>status g v. efi_locate_gop fw w = (status, g, v) \<and>
     (if EFI_ERROR status then gop = gop0 \<and> w' = v else gop = g \<and> w' = efi_set_mode fw g 0 v))"

inductive departs :: "'w uefi \<Rightarrow> u64 \<Rightarrow> 'w \<Rightarrow> u64 option \<Rightarrow> 'w \<Rightarrow> bool" for fw handle where
  no_map: "efi_get_memory_map fw 0 0 w = (s0, len, k0, desc, w1) \<Longrightarrow>
    efi_allocate_pool fw (len + 2 * desc) w1 = (p, w2) \<Longrightarrow>
    efi_get_memory_map fw (len + 2 * desc) p w2 = (status, sz, key, ds, w3) \<Longrightarrow> EFI_ERROR status \<Longrightarrow>
    departs fw handle w (Some status) w3"
| no_exit: "efi_get_memory_map fw 0 0 w = (s0, len, k0, desc, w1) \<Longrightarrow>
    efi_allocate_pool fw (len + 2 * desc) w1 = (p, w2) \<Longrightarrow>
    efi_get_memory_map fw (len + 2 * desc) p w2 = (s1, sz, key, ds, w3) \<Longrightarrow> \<not> EFI_ERROR s1 \<Longrightarrow>
    efi_exit_boot_services fw handle key w3 = (status, w4) \<Longrightarrow> EFI_ERROR status \<Longrightarrow>
    departs fw handle w (Some status) w4"
| gone: "efi_get_memory_map fw 0 0 w = (s0, len, k0, desc, w1) \<Longrightarrow>
    efi_allocate_pool fw (len + 2 * desc) w1 = (p, w2) \<Longrightarrow>
    efi_get_memory_map fw (len + 2 * desc) p w2 = (s1, sz, key, ds, w3) \<Longrightarrow> \<not> EFI_ERROR s1 \<Longrightarrow>
    efi_exit_boot_services fw handle key w3 = (s2, w4) \<Longrightarrow> \<not> EFI_ERROR s2 \<Longrightarrow>
    departs fw handle w None w4"

text \<open>How the loader ends, from the world \<open>w\<close> after its message on: with the error the firmware gave, or in the
  kernel at the entry point of the file \<open>m\<close>, told of the display's mode, with the memory of \<open>P\<close> loaded.\<close>

definition loader_ends :: "'w uefi \<Rightarrow> nat set \<Rightarrow> u64 \<Rightarrow> u64 \<Rightarrow> mem \<Rightarrow> u64 \<Rightarrow> 'w \<Rightarrow> 'w efi_end \<Rightarrow> bool" where
  "loader_ends fw P handle gop0 m buffer w r \<longleftrightarrow> (\<exists>gop v. display fw gop0 w gop v \<and>
     (case r of
        Return status w' \<Rightarrow> (\<exists>u msg. departs fw handle v (Some status) u \<and> w' = efi_print fw msg [] u)
      | Jump entry info w' \<Rightarrow> departs fw handle v None w' \<and> entry = e_entry (get_ehdr m buffer) \<and>
          efi_gop_mode fw gop v = (framebuffer info, width info, height info, pixels_per_scanline info) \<and>
          (\<forall>a \<in> P. efi_ram fw w' a = loaded m buffer a)))"

context uefi_services
begin

lemma display_keeps:
  assumes "held w" "display fw gop0 w gop v"
  shows "held v \<and> (\<forall>a \<in> P. efi_ram fw v a = efi_ram fw w a)"
  using assms located [of w] mode_set by (fastforce simp: display_def split: if_splits)

lemma departs_keeps:
  assumes "departs fw handle w None v" "held w" "a \<in> P"
  shows "efi_ram fw v a = efi_ram fw w a"
  using assms(1)
proof cases
  case (gone s0 len k0 desc w1 p w2 s1 sz key ds w3 s2)
  note m1 = memory_map [OF assms(2) gone(1)]
  note m2 = pool [OF conjunct1 [OF m1] gone(2)]
  note m3 = memory_map [OF conjunct1 [OF m2] gone(3)]
  note m4 = exited [OF conjunct1 [OF m3] gone(5)]
  show ?thesis using m1 m2 m3 m4 assms(3) by metis
qed

lemma leave_firmware_departs:
  "(\<exists>status u msg. leave_firmware fw handle entry info w = Return status (efi_print fw msg [] u) \<and>
      departs fw handle w (Some status) u) \<or>
   (\<exists>v. leave_firmware fw handle entry info w = Jump entry info v \<and> departs fw handle w None v)"
proof -
  obtain s0 len k0 desc w1 where 1: "efi_get_memory_map fw 0 0 w = (s0, len, k0, desc, w1)" by (metis prod_cases5)
  obtain p w2 where 2: "efi_allocate_pool fw (len + 2 * desc) w1 = (p, w2)" by fastforce
  obtain s1 sz key ds w3 where 3: "efi_get_memory_map fw (len + 2 * desc) p w2 = (s1, sz, key, ds, w3)"
    by (metis prod_cases5)
  obtain s2 w4 where 4: "efi_exit_boot_services fw handle key w3 = (s2, w4)" by fastforce
  note e = leave_firmware_def [of fw handle entry info w, unfolded 1 prod.case 2 3 4]
  show ?thesis
  proof (cases "EFI_ERROR s1")
    case True
    then show ?thesis using no_map [OF 1 2 3] e by auto
  next
    case s1: False
    then show ?thesis
      using no_exit [OF 1 2 3 s1 4] gone [OF 1 2 3 s1 4] e by (cases "EFI_ERROR s2") auto
  qed
qed

lemma start_kernel_loads:
  assumes "held w" "elf_safe (efi_ram fw w) buffer n" "elf_magic (e_ident (get_ehdr (efi_ram fw w) buffer))"
    and own: "{unat buffer ..< unat buffer + n} \<subseteq> P"
  defines "m \<equiv> efi_ram fw w"
  shows "\<exists>r. start_kernel fw handle gop0 buffer w = Some r \<and>
    loader_ends fw P handle gop0 m buffer
      (efi_print fw ''Kernel ELF valid. Entry point: 0x%lx'' [e_entry (get_ehdr m buffer)] (efi_set_ram fw (loaded m buffer) w)) r"
proof -
  have load: "load_segments buffer 0 m = Some (loaded m buffer)"
    using load_segments_places [OF assms(2) agree_refl, of 0] by (simp add: loaded_def m_def)
  note hd = loaded_header [OF assms(2), folded m_def]
  note sr = set_ram [OF assms(1), of "loaded m buffer"]
  define w1 where "w1 = efi_print fw ''Kernel ELF valid. Entry point: 0x%lx'' [e_entry (get_ehdr m buffer)]
    (efi_set_ram fw (loaded m buffer) w)"
  have w1: "held w1" "\<And>a. a \<in> P \<Longrightarrow> efi_ram fw w1 a = loaded m buffer a"
    using printed [OF conjunct1 [OF sr]] sr by (simp_all add: w1_def)
  obtain status g w2 where g: "efi_locate_gop fw w1 = (status, g, w2)" by (metis prod_cases3)
  define gop where "gop = (if EFI_ERROR status then gop0 else g)"
  define w3 where "w3 = (if EFI_ERROR status then w2 else efi_set_mode fw gop 0 w2)"
  have dis: "display fw gop0 w1 gop w3" by (auto simp: display_def g gop_def w3_def)
  have w3: "held w3" "\<And>a. a \<in> P \<Longrightarrow> efi_ram fw w3 a = loaded m buffer a"
    using display_keeps [OF w1(1) dis] w1(2) by simp_all
  have "get_ehdr (efi_ram fw w3) buffer = get_ehdr (loaded m buffer) buffer"
  proof (rule agree_ehdr)
    show "agree (unat buffer) n (efi_ram fw w3) (loaded m buffer)"
      unfolding agree_def using own by (auto intro!: w3(2))
  qed (use assms(2) in \<open>simp_all add: elf_safe_def\<close>)
  then have entry: "e_entry (get_ehdr (efi_ram fw w3) buffer) = e_entry (get_ehdr m buffer)"
    using hd by simp
  define info where "info = read_gop fw gop w3"
  define r where "r = leave_firmware fw handle (e_entry (get_ehdr m buffer)) info w3"
  have "start_kernel fw handle gop0 buffer w = Some r"
    using assms(3) g sr hd entry
    by (cases "EFI_ERROR status") (simp_all add: start_kernel_def m_def [symmetric] load Let_def w1_def [symmetric]
        gop_def w3_def r_def info_def)
  moreover have "efi_gop_mode fw gop w3 = (framebuffer info, width info, height info, pixels_per_scanline info)"
    by (simp add: info_def read_gop_def split: prod.splits)
  with leave_firmware_departs [of handle "e_entry (get_ehdr m buffer)" info w3] departs_keeps [OF _ w3(1)] w3(2)
  have "loader_ends fw P handle gop0 m buffer w1 r"
    unfolding loader_ends_def r_def by (intro exI [of _ gop] exI [of _ w3] conjI dis) (auto, blast)
  ultimately show ?thesis unfolding w1_def by blast
qed

end

text \<open>C15: on a firmware whose services keep out of the loader's memory, GetMemoryMap's buffer apart, once
  kernel.elf is read, is an ELF file and can be loaded, efi_main ends in one of two ways. When
  GetMemoryMap or ExitBootServices (called with the key of that map) fails, it returns the status
  that call gave; otherwise it jumps to the file's entry point with the memory of the loader as
  the program headers describe it and a BootInfo that holds the mode of the display.\<close>

theorem efi_main_loads:
  assumes "uefi_services fw held P"
    and "read_kernel fw handle (efi_print fw ''Hello from Simplr!'' [] (efi_print fw ''SimplrOS bootloader starting...'' [] w)) = (Inr buffer, w1)"
    and "held w1" "elf_safe (efi_ram fw w1) buffer n" "elf_magic (e_ident (get_ehdr (efi_ram fw w1) buffer))"
    and "{unat buffer ..< unat buffer + n} \<subseteq> P"
  shows "\<exists>r. efi_main fw handle gop0 w = Some r \<and>
    loader_ends fw P handle gop0 (efi_ram fw w1) buffer
      (efi_print fw ''Kernel ELF valid. Entry point: 0x%lx'' [e_entry (get_ehdr (efi_ram fw w1) buffer)]
        (efi_set_ram fw (loaded (efi_ram fw w1) buffer) w1)) r"
  using uefi_services.start_kernel_loads [OF assms(1,3-6)] by (simp add: efi_main_def assms(2))

text \<open>The EDK2 copy of the loader, which prints the entry point before loading instead of after and
  adds a debug print, ends exactly as the other on a firmware whose console does not change the
  state, whatever the file is.\<close>

theorem efi_main_copies_agree:
  assumes "\<forall>s xs w. efi_print fw s xs w = w"
  shows "efi_main_pkg fw handle gop0 w = efi_main fw handle gop0 w"
proof -
  have "start_kernel_pkg fw handle gop0 buffer v = start_kernel fw handle gop0 buffer v" for buffer v
    by (simp add: start_kernel_def start_kernel_pkg_def assms Let_def split: option.splits prod.splits)
  then show ?thesis by (simp add: efi_main_def efi_main_pkg_def split: prod.splits sum.splits)
qed

section \<open>A firmware\<close>

text \<open>
  A firmware whose world is the memory and the next free address of its pool, with \<open>tiny_elf\<close> as
  kernel.elf. The pool starts at 0x200000 and ends at 0x1000000; GetMemoryMap writes ten descriptors of 48
  bytes to its buffer.
\<close>

record demo =
  d_ram :: mem
  d_next :: nat

definition demo_pool :: "u64 \<Rightarrow> demo \<Rightarrow> u64 \<times> demo" where
  "demo_pool n w =
     (if d_next w + unat n \<le> 0x1000000 then (of_nat (d_next w), w\<lparr>d_next := d_next w + unat n\<rparr>) else (0, w))"

definition demo_map :: "u64 \<Rightarrow> u64 \<Rightarrow> demo \<Rightarrow> u64 \<times> u64 \<times> u64 \<times> u64 \<times> demo" where
  "demo_map n p w =
     (if n < 480 then (0x8000000000000005, 480, 6, 48, w)
      else if p = 0 then (0x8000000000000002, n, 6, 48, w)
      else (0, 480, 6, 48, w\<lparr>d_ram := put_bytes (d_ram w) (unat p) (replicate 480 7)\<rparr>))"

definition demo_fw :: "demo uefi" where
  "demo_fw = \<lparr>
     efi_print = (\<lambda>s xs w. w),
     efi_handle_protocol = (\<lambda>h g w. (0, 1, w)),
     efi_device_handle = (\<lambda>l w. 2),
     efi_open_volume = (\<lambda>fs w. (0, 3, w)),
     efi_open = (\<lambda>root name w. (if name = ''kernel.elf'' then 0 else 0x800000000000000E, 4, w)),
     efi_get_info = (\<lambda>f b w. (0, w)),
     efi_sizeof_file_info = 88,
     efi_file_size = (\<lambda>b w. 122),
     efi_read = (\<lambda>f n b w. (0, w\<lparr>d_ram := put_bytes (d_ram w) (unat b) (take (unat n) tiny_elf)\<rparr>)),
     efi_close = (\<lambda>f w. w),
     efi_allocate_pool = demo_pool,
     efi_free_pool = (\<lambda>p w. w\<lparr>d_next := unat p\<rparr>),
     efi_locate_gop = (\<lambda>w. (0, 5, w)),
     efi_set_mode = (\<lambda>gop n w. w),
     efi_gop_mode = (\<lambda>gop w. (0x80000000, 800, 600, 800)),
     efi_get_memory_map = demo_map,
     efi_exit_boot_services = (\<lambda>h k w. (if k = 6 then 0 else 0x8000000000000002, w)),
     efi_ram = d_ram,
     efi_set_ram = (\<lambda>m w. w\<lparr>d_ram := m\<rparr>)\<rparr>"

definition demo_start :: demo where
  "demo_start = \<lparr>d_ram = (\<lambda>_. 0xCC), d_next = 0x200000\<rparr>"

text \<open>The file buffer of 122 bytes and the kernel's four bytes.\<close>

definition demo_own :: "nat set" where
  "demo_own = {0x200000 ..< 0x20007A} \<union> {0x100000 ..< 0x100004}"

interpretation demo: uefi_services demo_fw "\<lambda>w. 0x20007A \<le> d_next w" demo_own
proof
  fix w w' :: demo and n p :: u64
  assume w: "0x20007A \<le> d_next w" and p: "efi_allocate_pool demo_fw n w = (p, w')"
  show "0x20007A \<le> d_next w' \<and> (\<forall>a \<in> demo_own. efi_ram demo_fw w' a = efi_ram demo_fw w a) \<and>
    (p \<noteq> 0 \<longrightarrow> (\<forall>a \<in> demo_own. a < unat p \<or> unat p + unat n \<le> a))"
  proof (cases "d_next w + unat n \<le> 0x1000000")
    case True
    then have "unat (of_nat (d_next w) :: u64) = d_next w"
      by (simp add: unat_of_nat)
    with True w p show ?thesis by (auto simp: demo_fw_def demo_pool_def demo_own_def)
  next
    case False
    with w p show ?thesis by (auto simp: demo_fw_def demo_pool_def)
  qed
next
  fix w w' :: demo and n p status sz key desc :: u64
  assume w: "0x20007A \<le> d_next w" and m: "efi_get_memory_map demo_fw n p w = (status, sz, key, desc, w')"
  show "0x20007A \<le> d_next w' \<and>
    (\<forall>a \<in> demo_own. p = 0 \<or> a < unat p \<or> unat p + unat n \<le> a \<longrightarrow> efi_ram demo_fw w' a = efi_ram demo_fw w a)"
  proof (cases "n < 480 \<or> p = 0")
    case True
    with w m show ?thesis by (auto simp: demo_fw_def demo_map_def split: if_splits)
  next
    case False
    then have "480 \<le> unat n" by (simp add: word_less_nat_alt)
    with False w m show ?thesis by (auto simp: demo_fw_def demo_map_def put_bytes_other)
  qed
qed (auto simp: demo_fw_def)

text \<open>After reading, the memory around the file is as it was at the start.\<close>

lemma demo_read: "read_kernel demo_fw 0 demo_start = (Inr 0x200000, \<lparr>d_ram = tiny_ram, d_next = 0x20007A\<rparr>)"
  by (simp add: read_kernel_def demo_fw_def demo_start_def demo_pool_def EFI_ERROR_def tiny_ram_def tiny_length Let_def)

lemma demo_departs: "departs demo_fw 0 w r v \<Longrightarrow> d_next w = 0x20007A \<Longrightarrow> r = None"
  by (erule departs.cases) (auto simp: demo_fw_def demo_map_def demo_pool_def EFI_ERROR_def split: if_splits)

theorem efi_main_loads_witness:
  "\<exists>w'. efi_main demo_fw 0 0xDEAD demo_start =
     Some (Jump 0x100000 \<lparr>framebuffer = 0x80000000, width = 800, height = 600, pixels_per_scanline = 800\<rparr> w') \<and>
   get_bytes (d_ram w') 0x100000 4 = [0xEB, 0xFE, 0, 0]"
proof -
  have p: "efi_print demo_fw s xs w = w" "efi_ram demo_fw w = d_ram w" "efi_set_ram demo_fw m w = w\<lparr>d_ram := m\<rparr>"
    "\<lparr>d_ram = m, d_next = k\<rparr>\<lparr>d_ram := m'\<rparr> = \<lparr>d_ram = m', d_next = k\<rparr>" for s xs w m m' k
    by (simp_all add: demo_fw_def)
  let ?w = "\<lparr>d_ram = put_bytes tiny_ram 0x100000 [0xEB, 0xFE, 0, 0], d_next = 0x20007A\<rparr>"
  obtain r where r: "efi_main demo_fw 0 0xDEAD demo_start = Some r"
    "loader_ends demo_fw demo_own 0 0xDEAD tiny_ram 0x200000 ?w r"
    using efi_main_loads [OF demo.uefi_services_axioms, of 0 demo_start "0x200000" "\<lparr>d_ram = tiny_ram, d_next = 0x20007A\<rparr>" 122 "0xDEAD"]
      demo_read tiny_safe tiny_headers(5) by (auto simp: p tiny_loaded demo_own_def)
  obtain gop v where v: "display demo_fw 0xDEAD ?w gop v" and c: "case r of
      Return status w' \<Rightarrow> (\<exists>u msg. departs demo_fw 0 v (Some status) u \<and> w' = efi_print demo_fw msg [] u)
      | Jump entry info w' \<Rightarrow> departs demo_fw 0 v None w' \<and> entry = e_entry (get_ehdr tiny_ram 0x200000) \<and>
          efi_gop_mode demo_fw gop v = (framebuffer info, width info, height info, pixels_per_scanline info) \<and>
          (\<forall>a \<in> demo_own. efi_ram demo_fw w' a = loaded tiny_ram 0x200000 a)"
    using r(2) unfolding loader_ends_def by blast
  have "v = ?w" using v by (auto simp: display_def demo_fw_def EFI_ERROR_def)
  then have "\<not> departs demo_fw 0 v (Some status) u" for status u using demo_departs [of v "Some status" u] by auto
  with c obtain info w' where j: "r = Jump 0x100000 info w'"
    "efi_gop_mode demo_fw gop v = (framebuffer info, width info, height info, pixels_per_scanline info)"
    "\<forall>a \<in> demo_own. d_ram w' a = put_bytes tiny_ram 0x100000 [0xEB, 0xFE, 0, 0] a"
    by (cases r) (auto simp: tiny_headers tiny_loaded p)
  have "info = \<lparr>framebuffer = 0x80000000, width = 800, height = 600, pixels_per_scanline = 800\<rparr>"
    using j(2) by (simp add: demo_fw_def)
  moreover have "get_bytes (d_ram w') 0x100000 4 = get_bytes (put_bytes tiny_ram 0x100000 [0xEB, 0xFE, 0, 0]) 0x100000 4"
    using j(3) by (intro get_bytes_cong) (simp add: demo_own_def)
  ultimately show ?thesis using r(1) j(1) by (simp add: get_bytes_put_bytes)
qed

theorem efi_main_copies_agree_witness:
  "efi_main_pkg demo_fw 0 0xDEAD demo_start = efi_main demo_fw 0 0xDEAD demo_start"
  by (rule efi_main_copies_agree) (simp add: demo_fw_def)

theorem efi_main_returns_errors_witness:
  "\<exists>w'. efi_main (demo_fw\<lparr>efi_open := (\<lambda>root name w. (0x800000000000000E, 4, w))\<rparr>) 0 0 demo_start =
     Some (Return 0x800000000000000E w') \<and> EFI_ERROR 0x800000000000000E"
proof -
  have "efi_main (demo_fw\<lparr>efi_open := (\<lambda>root name w. (0x800000000000000E, 4, w))\<rparr>) 0 0 demo_start =
      Some (Return 0x800000000000000E demo_start)"
    by (simp add: efi_main_def read_kernel_def demo_fw_def EFI_ERROR_def)
  with efi_main_returns_errors [OF this] show ?thesis by blast
qed

end
