(* ===== verification/Hash_Stream.thy ===== *)
theory Hash_Stream
  imports Prelude
begin

text \<open>
  What the two message digests of the toolchain, \<^verbatim>\<open>src/binutils-2.42/libiberty/sha1.c\<close> and
  \<^verbatim>\<open>md5.c\<close>, share: a context with a chaining value, a 64-bit byte count in two 32-bit halves and
  a buffer of 128 bytes, and the arithmetic of cutting a message into 64-byte blocks. The locale
  \<open>digest\<close> is the contract of a buffering routine; inside it, feeding a message in any pieces is
  shown to be the same as feeding it at once.
\<close>

unbundle bit_operations_syntax

section \<open>Contexts\<close>

record 'h hash_ctx =
  h_state :: 'h
  h_total0 :: u32
  h_total1 :: u32
  h_buflen :: nat
  h_buffer :: bytes

text \<open>\<^verbatim>\<open>memcpy\<close> of bytes to an offset of an array.\<close>

definition overwrite :: "bytes \<Rightarrow> nat \<Rightarrow> bytes \<Rightarrow> bytes" where
  "overwrite buf off data = take off buf @ data @ drop (off + length data) buf"

lemma length_overwrite: "off + length data \<le> length buf \<Longrightarrow> length (overwrite buf off data) = length buf"
  by (simp add: overwrite_def)

lemma take_overwrite: "off + length data \<le> length buf \<Longrightarrow>
   take (off + length data) (overwrite buf off data) = take off buf @ data"
  by (cases data) (auto simp: overwrite_def min_def)

section \<open>Words and padding\<close>

definition SWAP :: "u32 \<Rightarrow> u32" where
  "SWAP n = push_bit 24 n OR push_bit 8 (n AND 0xff00) OR (drop_bit 8 n AND 0xff00) OR drop_bit 24 n"

text \<open>The bytes of a word as they lie in memory, and most significant first.\<close>

definition le_bytes :: "u32 \<Rightarrow> bytes" where
  "le_bytes w = map (\<lambda>i. ucast (drop_bit (8 * i) w)) [0, 1, 2, 3]"

definition be_bytes :: "u32 \<Rightarrow> bytes" where
  "be_bytes w = rev (le_bytes w)"

text \<open>The constant bytes of the padding.\<close>

definition fillbuf :: bytes where
  "fillbuf = 0x80 # replicate 63 0"

lemma length_le_bytes [simp]: "length (le_bytes w) = 4" "length (be_bytes w) = 4"
  by (simp_all add: le_bytes_def be_bytes_def)

lemma le_bytes_SWAP: "le_bytes (SWAP w) = be_bytes w"
  unfolding SWAP_def be_bytes_def le_bytes_def
  by (auto intro!: u8_eqI simp: bit_simps)

lemma take_fillbuf: "0 < k \<Longrightarrow> k \<le> 64 \<Longrightarrow> take k fillbuf = 0x80 # replicate (k - 1) 0"
  by (cases k) (auto simp: fillbuf_def min_def)

lemma padded_buffer:
  assumes "length buf = 128" "n \<le> 64" "k = (if n < 56 then 64 else 128)" "length m mod 64 = n mod 64"
    and "length a = 4" "length b = 4"
  shows "take k (overwrite (overwrite (overwrite buf (k - 8) a) (k - 4) b) n (take (k - 8 - n) fillbuf)) =
    take n buf @ 0x80 # replicate ((119 - length m mod 64) mod 64) 0 @ a @ b"
proof -
  have pad: "take (k - 8 - n) fillbuf = 0x80 # replicate ((119 - length m mod 64) mod 64) 0"
    "length (take (k - 8 - n) fillbuf) = k - 8 - n"
  proof -
    have "k - 8 - n - 1 = (119 - length m mod 64) mod 64"
      unfolding assms(3,4) using assms(2) by (cases "n < 56"; cases "n = 64") (simp_all add: mod_if)
    then show "take (k - 8 - n) fillbuf = 0x80 # replicate ((119 - length m mod 64) mod 64) 0"
      using take_fillbuf [of "k - 8 - n"] assms(2,3) by (auto split: if_splits)
    show "length (take (k - 8 - n) fillbuf) = k - 8 - n" using assms(2,3) by (simp add: fillbuf_def)
  qed
  have k: "k \<le> 128" "n + 8 \<le> k" using assms(2,3) by auto
  define Y where "Y = overwrite (overwrite buf (k - 8) a) (k - 4) b"
  have Y: "take k Y = take (k - 8) buf @ a @ b"
    using take_overwrite [of "k - 4" b "overwrite buf (k - 8) a"] take_overwrite [of "k - 8" a buf] assms(1,5,6) k
    by (simp add: Y_def length_overwrite)
  have "take k (overwrite Y n d) = take n buf @ d @ a @ b" if d: "length d = k - 8 - n" for d
  proof -
    have "take k (overwrite Y n d) = take n (take k Y) @ d @ drop (k - 8) (take k Y)"
      using d assms(1,5,6) k by (simp add: overwrite_def [of _ n] min_def drop_take Y_def length_overwrite)
    then show ?thesis using assms(1) k by (simp add: Y)
  qed
  from this [OF pad(2)] show ?thesis
    unfolding Y_def pad(1) by (simp only: append.simps append_assoc)
qed

section \<open>Blocks\<close>

fun blocks :: "(bytes \<Rightarrow> 'h \<Rightarrow> 'h) \<Rightarrow> bytes \<Rightarrow> 'h \<Rightarrow> 'h" where
  "blocks compress bs h = (if length bs < 64 then h else blocks compress (drop 64 bs) (compress (take 64 bs) h))"

declare blocks.simps [simp del]

lemma blocks_Nil [simp]: "blocks compress [] h = h"
  by (simp add: blocks.simps)

lemma blocks_append:
  "64 dvd length xs \<Longrightarrow> blocks compress (xs @ ys) h = blocks compress ys (blocks compress xs h)"
proof (induction compress xs h rule: blocks.induct)
  case (1 compress xs h)
  show ?case
  proof (cases "length xs < 64")
    case True
    with "1.prems" have "xs = []" by (auto dest: dvd_imp_le)
    then show ?thesis by simp
  next
    case False
    with "1.prems" have "64 dvd length (drop 64 xs)" by (simp add: dvd_diff_nat)
    with "1.IH" False show ?thesis
      by (simp add: blocks.simps [of compress xs] blocks.simps [of compress "xs @ ys"])
  qed
qed

text \<open>Bytes after the last whole block do not count.\<close>

lemma blocks_take: "blocks compress (take (64 * (length bs div 64)) bs) h = blocks compress bs h"
proof -
  let ?n = "64 * (length bs div 64)"
  have "blocks compress (drop ?n bs) g = g" for g
    by (subst blocks.simps) (simp add: minus_mult_div_eq_mod)
  moreover have "length (take ?n bs) = ?n" by (simp add: min_absorb2)
  then have "64 dvd length (take ?n bs)" by simp
  ultimately show ?thesis
    using blocks_append [of "take ?n bs" compress "drop ?n bs" h] by simp
qed

section \<open>The byte count\<close>

text \<open>
  \<^verbatim>\<open>total[0] += len; total[1] += ((len >> 31) >> 1) + (total[0] < len)\<close>, with \<open>len\<close> a \<^verbatim>\<open>size_t\<close>: the
  comparison is one of 64-bit numbers.
\<close>

definition add_count :: "nat \<Rightarrow> 'h hash_ctx \<Rightarrow> 'h hash_ctx" where
  "add_count len ctx =
     (let t0 = h_total0 ctx + of_nat len in
      ctx\<lparr>h_total0 := t0, h_total1 := h_total1 ctx + (of_nat (len div 2 ^ 32) + (if unat t0 < len then 1 else 0))\<rparr>)"

text \<open>The count as one number.\<close>

definition count :: "'h hash_ctx \<Rightarrow> nat" where
  "count ctx = unat (h_total1 ctx) * 2 ^ 32 + unat (h_total0 ctx)"

lemma count_less: "count ctx < 2 ^ 64"
proof -
  have "unat (h_total1 ctx) \<le> 2 ^ 32 - 1" "unat (h_total0 ctx) \<le> 2 ^ 32 - 1"
    using unat_u32_less [of "h_total1 ctx"] unat_u32_less [of "h_total0 ctx"] by auto
  then have "count ctx \<le> (2 ^ 32 - 1) * 2 ^ 32 + (2 ^ 32 - 1)"
    unfolding count_def by (intro add_mono mult_right_mono) auto
  then show ?thesis by simp
qed

lemma carry:
  fixes a b :: nat
  assumes "a < N" "b < N"
  shows "(a + b) mod N < b \<longleftrightarrow> N \<le> a + b" "(a + b) mod N + N * (if N \<le> a + b then 1 else 0) = a + b"
proof -
  have "(a + b) mod N = (if N \<le> a + b then a + b - N else a + b)"
    using assms by (simp add: mod_if)
  then show "(a + b) mod N < b \<longleftrightarrow> N \<le> a + b" "(a + b) mod N + N * (if N \<le> a + b then 1 else 0) = a + b"
    using assms by auto
qed

lemma count_add:
  assumes "len < 2 ^ 32"
  shows "count (add_count len ctx) = (count ctx + len) mod 2 ^ 64"
proof -
  define a b where "a = unat (h_total0 ctx)" and "b = unat (h_total1 ctx)"
  define c where "c = (if 2 ^ 32 \<le> a + len then 1 else 0 :: nat)"
  have a: "a < 2 ^ 32" and b: "b < 2 ^ 32"
    using unat_u32_less [of "h_total0 ctx"] unat_u32_less [of "h_total1 ctx"] by (simp_all add: a_def b_def)
  have t0: "unat (h_total0 ctx + of_nat len) = (a + len) mod 2 ^ 32"
    using assms by (simp add: a_def unat_word_ariths unat_of_nat)
  note cy = carry [OF a assms]
  have "h_total1 (add_count len ctx) = h_total1 ctx + of_nat c"
    using assms cy(1) by (simp add: add_count_def Let_def t0 c_def)
  then have t1: "unat (h_total1 (add_count len ctx)) = (b + c) mod 2 ^ 32"
    by (simp add: b_def unat_word_ariths unat_of_nat mod_add_right_eq c_def)
  have "count (add_count len ctx) = (b + c) mod 2 ^ 32 * 2 ^ 32 + (a + len) mod 2 ^ 32"
    by (simp add: count_def t1) (simp add: add_count_def Let_def t0)
  also have "\<dots> = ((b + c) * 2 ^ 32 + (a + len) mod 2 ^ 32) mod 2 ^ 64"
  proof -
    have "(x mod 2 ^ 32 * 2 ^ 32 + y) = (x * 2 ^ 32 + y) mod 2 ^ 64" if "y < 2 ^ 32" for x y :: nat
    proof -
      have "x * 2 ^ 32 + y = 2 ^ 64 * (x div 2 ^ 32) + (x mod 2 ^ 32 * 2 ^ 32 + y)"
      proof -
        have "(q * 2 ^ 32 + r) * 2 ^ 32 + y = 2 ^ 64 * q + (r * 2 ^ 32 + y)" for q r :: nat
          by (simp add: algebra_simps)
        from this [of "x div 2 ^ 32" "x mod 2 ^ 32"] show ?thesis by (simp only: div_mult_mod_eq)
      qed
      moreover have "x mod 2 ^ 32 * 2 ^ 32 + y < 2 ^ 64"
      proof -
        have "x mod 2 ^ 32 \<le> 2 ^ 32 - 1" using mod_less_divisor [of "2 ^ 32" x] by simp
        then have "x mod 2 ^ 32 * 2 ^ 32 \<le> (2 ^ 32 - 1) * 2 ^ 32" by (rule mult_right_mono) simp
        with that show ?thesis by simp
      qed
      ultimately show ?thesis by (simp only: mod_mult_self4 mod_less)
    qed
    then show ?thesis by simp
  qed
  also have "(b + c) * 2 ^ 32 + (a + len) mod 2 ^ 32 = count ctx + len"
    using cy(2) by (simp add: count_def a_def [symmetric] b_def [symmetric] c_def algebra_simps)
  finally show ?thesis .
qed

lemma count_finish: "n < 2 ^ 32 \<Longrightarrow>
  (let ctx = ctx\<lparr>h_total0 := h_total0 ctx + of_nat n\<rparr>
   in if unat (h_total0 ctx) < n then ctx\<lparr>h_total1 := h_total1 ctx + 1\<rparr> else ctx) = add_count n ctx"
  by (cases ctx) (simp add: add_count_def Let_def)

text \<open>The bit count of a message from its byte count, in two words.\<close>

lemma bit_count_words:
  assumes "count ctx = n mod 2 ^ 64"
  shows "push_bit 3 (h_total0 ctx) = of_nat (8 * n)"
    "push_bit 3 (h_total1 ctx) OR drop_bit 29 (h_total0 ctx) = of_nat (8 * n div 2 ^ 32)"
proof -
  define q where "q = n div 2 ^ 64"
  have n: "n = 2 ^ 64 * q + (unat (h_total1 ctx) * 2 ^ 32 + unat (h_total0 ctx))"
    using assms unfolding count_def q_def by (metis mult_div_mod_eq)
  have t0: "unat (h_total0 ctx) < 2 ^ 32" using unat_u32_less [of "h_total0 ctx"] by simp
  have "n mod 2 ^ 32 = unat (h_total0 ctx)"
  proof -
    have "n = 2 ^ 32 * (2 ^ 32 * q + unat (h_total1 ctx)) + unat (h_total0 ctx)" unfolding n by simp
    then show ?thesis using t0 by (metis mod_less mod_mult_self4)
  qed
  then have "(of_nat n :: u32) = h_total0 ctx" by (simp add: word_unat_eq_iff unat_of_nat)
  then show "push_bit 3 (h_total0 ctx) = of_nat (8 * n)"
    by (simp add: push_bit_eq_mult mult.commute)
  have "8 * n div 2 ^ 32 = 2 ^ 32 * (8 * q) + (8 * unat (h_total1 ctx) + unat (h_total0 ctx) div 2 ^ 29)"
  proof -
    have "8 * n = 2 ^ 32 * (2 ^ 32 * (8 * q) + 8 * unat (h_total1 ctx)) + 8 * unat (h_total0 ctx)"
      unfolding n by simp
    moreover have "8 * unat (h_total0 ctx) div 2 ^ 32 = unat (h_total0 ctx) div 2 ^ 29"
      using div_mult_mult1 [of 8 "unat (h_total0 ctx)" "2 ^ 29"] by simp
    ultimately show ?thesis by simp
  qed
  moreover have "(of_nat (unat (h_total0 ctx) div 2 ^ 29) :: u32) = drop_bit 29 (h_total0 ctx)"
    by (simp only: unat_drop_bit [symmetric]) simp
  moreover have "(of_nat (2 ^ 32 * (8 * q) + r) :: u32) = of_nat r" for r
    unfolding word_of_nat_eq_iff take_bit_eq_mod using mod_mult_self4 [of "2 ^ 32" "8 * q" r] by simp
  ultimately have "of_nat (8 * n div 2 ^ 32) = push_bit 3 (h_total1 ctx) + drop_bit 29 (h_total0 ctx)"
    by (simp add: push_bit_eq_mult mult.commute)
  also have "\<dots> = push_bit 3 (h_total1 ctx) OR drop_bit 29 (h_total0 ctx)"
  proof (rule disjunctive_add_eq_or)
    show "push_bit 3 (h_total1 ctx) AND drop_bit 29 (h_total0 ctx) = 0"
      by (rule bit_word_eqI) (auto simp: bit_simps dest: bit_imp_le_length)
  qed
  finally show "push_bit 3 (h_total1 ctx) OR drop_bit 29 (h_total0 ctx) = of_nat (8 * n div 2 ^ 32)" by simp
qed

section \<open>Files\<close>

text \<open>
  A \<^verbatim>\<open>FILE\<close> as stdio shows it to a reader: the bytes that can still be read, whether reading past
  them is an error or the end of the file, and the two sticky indicators. \<open>fread\<close> returns fewer
  bytes than asked for only then.
\<close>

record c_file =
  f_data :: bytes
  f_fails :: bool
  f_eof :: bool
  f_error :: bool

definition fread :: "nat \<Rightarrow> c_file \<Rightarrow> bytes \<times> c_file" where
  "fread n f =
     (let f' = f\<lparr>f_data := drop n (f_data f)\<rparr>
      in (take n (f_data f),
          if length (f_data f) < n then if f_fails f then f'\<lparr>f_error := True\<rparr> else f'\<lparr>f_eof := True\<rparr> else f'))"

definition opened :: "bytes \<Rightarrow> bool \<Rightarrow> c_file" where
  "opened data fails = \<lparr>f_data = data, f_fails = fails, f_eof = False, f_error = False\<rparr>"

section \<open>What a context stands for\<close>

text \<open>Counting and compressing whole blocks.\<close>

definition absorb :: "(bytes \<Rightarrow> 'h \<Rightarrow> 'h) \<Rightarrow> bytes \<Rightarrow> 'h hash_ctx \<Rightarrow> 'h hash_ctx" where
  "absorb compress bs ctx = (add_count (length bs) ctx)\<lparr>h_state := blocks compress bs (h_state ctx)\<rparr>"

lemma absorb_fields [simp]:
  "h_buffer (absorb compress bs ctx) = h_buffer ctx" "h_buflen (absorb compress bs ctx) = h_buflen ctx"
  "h_state (absorb compress bs ctx) = blocks compress bs (h_state ctx)"
  by (simp_all add: absorb_def add_count_def Let_def)

lemma count_absorb: "length bs < 2 ^ 32 \<Longrightarrow> count (absorb compress bs ctx) = (count ctx + length bs) mod 2 ^ 64"
  using count_add [of "length bs" ctx] by (simp add: count_def absorb_def)

lemma absorb_buflen: "absorb compress bs (ctx\<lparr>h_buflen := n\<rparr>) = (absorb compress bs ctx)\<lparr>h_buflen := n\<rparr>"
  by (simp add: absorb_def add_count_def Let_def)

lemma buflen_buffer: "ctx\<lparr>h_buflen := n, h_buffer := b\<rparr> = ctx\<lparr>h_buffer := b, h_buflen := n\<rparr>"
  by (cases ctx) simp

text \<open>The context of a message: whole blocks are compressed and counted, the rest is in the buffer.\<close>

definition absorbed :: "(bytes \<Rightarrow> 'h \<Rightarrow> 'h) \<Rightarrow> 'h \<Rightarrow> 'h hash_ctx \<Rightarrow> bytes \<Rightarrow> bool" where
  "absorbed compress init ctx m \<longleftrightarrow> length (h_buffer ctx) = 128 \<and> h_buflen ctx \<le> 64 \<and>
     (\<exists>done. 64 dvd length done \<and> m = done @ take (h_buflen ctx) (h_buffer ctx) \<and>
        h_state ctx = blocks compress done init \<and> count ctx = length done mod 2 ^ 64)"

text \<open>\<open>absorbed_buf\<close> is the same for any number of buffered bytes, up to 128.\<close>

definition absorbed_buf :: "(bytes \<Rightarrow> 'h \<Rightarrow> 'h) \<Rightarrow> 'h \<Rightarrow> 'h hash_ctx \<Rightarrow> bytes \<Rightarrow> bool" where
  "absorbed_buf compress init ctx m \<longleftrightarrow> length (h_buffer ctx) = 128 \<and> h_buflen ctx \<le> 128 \<and>
     (\<exists>done. 64 dvd length done \<and> m = done @ take (h_buflen ctx) (h_buffer ctx) \<and>
        h_state ctx = blocks compress done init \<and> count ctx = length done mod 2 ^ 64)"

lemma absorbed_bufI: "absorbed compress init ctx m \<Longrightarrow> absorbed_buf compress init ctx m"
  by (auto simp: absorbed_def absorbed_buf_def)

lemma absorbed_bufD: "absorbed_buf compress init ctx m \<Longrightarrow> h_buflen ctx \<le> 64 \<Longrightarrow> absorbed compress init ctx m"
  by (auto simp: absorbed_def absorbed_buf_def)

lemma absorbed_fill:
  assumes "absorbed_buf compress init ctx m" "h_buflen ctx + length d \<le> 128"
  shows "absorbed_buf compress init
    (ctx\<lparr>h_buffer := overwrite (h_buffer ctx) (h_buflen ctx) d, h_buflen := h_buflen ctx + length d\<rparr>) (m @ d)"
proof -
  from assms(1) obtain dn where dn: "64 dvd length dn" "m = dn @ take (h_buflen ctx) (h_buffer ctx)"
    "h_state ctx = blocks compress dn init" "count ctx = length dn mod 2 ^ 64" "length (h_buffer ctx) = 128"
    by (auto simp: absorbed_buf_def)
  then show ?thesis
    using assms(2) unfolding absorbed_buf_def
    by (auto simp: length_overwrite take_overwrite count_def intro!: exI [of _ dn])
qed

text \<open>The whole blocks of the buffer, compressed; the rest moved to its front.\<close>

lemma absorbed_flush:
  assumes "absorbed_buf compress init ctx m" "n = 64 * (h_buflen ctx div 64)" "r = h_buflen ctx mod 64"
  shows "absorbed compress init
    ((absorb compress (take n (h_buffer ctx)) ctx)\<lparr>h_buflen := r,
       h_buffer := overwrite (h_buffer ctx) 0 (take r (drop n (h_buffer ctx)))\<rparr>) m"
proof -
  from assms(1) obtain dn where dn: "64 dvd length dn" "m = dn @ take (h_buflen ctx) (h_buffer ctx)"
    "h_state ctx = blocks compress dn init" "count ctx = length dn mod 2 ^ 64" "length (h_buffer ctx) = 128"
    and le: "h_buflen ctx \<le> 128"
    by (auto simp: absorbed_buf_def)
  let ?b = "take n (h_buffer ctx)"
  have nr: "n + r = h_buflen ctx" "n \<le> 128" "r < 64" using le by (simp_all add: assms(2,3))
  have len: "length ?b = n" using nr(2) dn(5) by simp
  have "64 dvd length (dn @ ?b)" using dn(1) unfolding length_append len by (simp add: assms(2))
  moreover have "take r (overwrite (h_buffer ctx) 0 (take r (drop n (h_buffer ctx)))) = take r (drop n (h_buffer ctx))"
    using nr dn(5) le by (simp add: overwrite_def)
  moreover have "take (h_buflen ctx) (h_buffer ctx) = ?b @ take r (drop n (h_buffer ctx))"
    using nr(1) by (metis take_add)
  moreover have "blocks compress (dn @ ?b) init = blocks compress ?b (h_state ctx)"
    by (simp add: blocks_append dn)
  moreover have "count (absorb compress ?b ctx) = length (dn @ ?b) mod 2 ^ 64"
    using nr(2) len dn(4) by (simp add: count_absorb mod_add_left_eq)
  ultimately show ?thesis
    using nr dn(2,5) le unfolding absorbed_def
    by (auto simp: length_overwrite count_def intro!: exI [of _ "dn @ ?b"])
qed

text \<open>Whole blocks taken directly while the buffer is empty.\<close>

lemma absorbed_direct:
  assumes "absorbed compress init ctx m" "h_buflen ctx = 0" "64 dvd length d" "length d < 2 ^ 32"
  shows "absorbed compress init (absorb compress d ctx) (m @ d)"
proof -
  from assms(1,2) have m: "64 dvd length m" "h_state ctx = blocks compress m init" "count ctx = length m mod 2 ^ 64"
    "length (h_buffer ctx) = 128" by (auto simp: absorbed_def)
  have "count (absorb compress d ctx) = length (m @ d) mod 2 ^ 64"
    using m(3) assms(4) by (simp add: count_absorb mod_add_left_eq)
  with m assms(2,3) show ?thesis
    unfolding absorbed_def by (auto simp: blocks_append intro!: exI [of _ "m @ d"])
qed

lemma absorbed_buffer:
  assumes "absorbed compress init ctx m" "h_buflen ctx = 0" "length b = 128"
  shows "absorbed compress init (ctx\<lparr>h_buffer := b\<rparr>) m"
  using assms by (auto simp: absorbed_def count_def)

section \<open>The contract of a digest\<close>

text \<open>
  \<open>process\<close> gets each piece of the message with the alignment of its address; \<open>finish\<close> turns the
  context of a message into its digest.
\<close>

locale digest =
  fixes compress :: "bytes \<Rightarrow> 'h \<Rightarrow> 'h" and init :: 'h
    and start :: "'h hash_ctx \<Rightarrow> 'h hash_ctx"
    and process :: "bool \<Rightarrow> bytes \<Rightarrow> 'h hash_ctx \<Rightarrow> 'h hash_ctx"
    and finish :: "'h hash_ctx \<Rightarrow> bytes"
    and spec :: "bytes \<Rightarrow> bytes"
  assumes start: "length (h_buffer ctx) = 128 \<Longrightarrow> absorbed compress init (start ctx) []"
    and process: "absorbed compress init ctx m \<Longrightarrow> length bs < 2 ^ 32 \<Longrightarrow>
      absorbed compress init (process unaligned bs ctx) (m @ bs)"
    and finish: "absorbed compress init ctx m \<Longrightarrow> finish ctx = spec m"
begin

lemma process_pieces:
  "absorbed compress init ctx m \<Longrightarrow> \<forall>(u, bs) \<in> set pieces. length bs < 2 ^ 32 \<Longrightarrow>
   absorbed compress init (fold (\<lambda>(u, bs). process u bs) pieces ctx) (m @ concat (map snd pieces))"
proof (induction pieces arbitrary: ctx m)
  case (Cons p pieces)
  obtain u bs where p: "p = (u, bs)" by fastforce
  have "absorbed compress init (process u bs ctx) (m @ bs)"
    using Cons.prems p by (intro process) auto
  from Cons.IH [OF this] Cons.prems(2) p show ?case by simp
qed simp

lemma digest_pieces:
  "length (h_buffer ctx) = 128 \<Longrightarrow> \<forall>(u, bs) \<in> set pieces. length bs < 2 ^ 32 \<Longrightarrow>
   finish (fold (\<lambda>(u, bs). process u bs) pieces (start ctx)) = spec (concat (map snd pieces))"
  using finish [OF process_pieces [OF start]] by simp

end

end
