(* ===== verification/Sha1.thy ===== *)
theory Sha1
  imports Hash_Stream
begin

text \<open>
  SHA-1 as \<^verbatim>\<open>src/binutils-2.42/libiberty/sha1.c\<close> computes it: \<open>sha1_process_block\<close> with its 80
  unrolled rounds (the macro \<open>R\<close> on renamed registers, the macro \<open>M\<close> on a circular array of 16
  words), the buffering of \<open>sha1_process_bytes\<close>, the padding of \<open>sha1_finish_ctx\<close>, on a little-endian
  machine with aligned and unaligned input. \<open>len\<close> arguments are the lengths of lists. The reference
  is FIPS 180 written with its own recurrences.
\<close>

unbundle bit_operations_syntax

section \<open>Words\<close>

definition rol :: "u32 \<Rightarrow> nat \<Rightarrow> u32" where
  "rol x n = push_bit n x OR drop_bit (32 - n) x"

definition be32 :: "bytes \<Rightarrow> nat \<Rightarrow> u32" where
  "be32 bs i = push_bit 24 (ucast (bs ! i)) OR push_bit 16 (ucast (bs ! (i + 1))) OR
     push_bit 8 (ucast (bs ! (i + 2))) OR ucast (bs ! (i + 3))"

section \<open>sha1.c\<close>

type_synonym sha1_state = "u32 \<times> u32 \<times> u32 \<times> u32 \<times> u32"
type_synonym sha1_ctx = "sha1_state hash_ctx"

definition sha1_init :: sha1_state where
  "sha1_init = (0x67452301, 0xefcdab89, 0x98badcfe, 0x10325476, 0xc3d2e1f0)"

definition sha1_init_ctx :: "sha1_ctx \<Rightarrow> sha1_ctx" where
  "sha1_init_ctx ctx = ctx\<lparr>h_state := sha1_init, h_total0 := 0, h_total1 := 0, h_buflen := 0\<rparr>"

definition sha1_read_ctx :: "sha1_ctx \<Rightarrow> bytes" where
  "sha1_read_ctx ctx = (case h_state ctx of (A, B, C, D, E) \<Rightarrow>
     le_bytes (SWAP A) @ le_bytes (SWAP B) @ le_bytes (SWAP C) @ le_bytes (SWAP D) @ le_bytes (SWAP E))"

definition F1 :: "u32 \<Rightarrow> u32 \<Rightarrow> u32 \<Rightarrow> u32" where "F1 B C D = D XOR (B AND (C XOR D))"
definition F2 :: "u32 \<Rightarrow> u32 \<Rightarrow> u32 \<Rightarrow> u32" where "F2 B C D = B XOR C XOR D"
definition F3 :: "u32 \<Rightarrow> u32 \<Rightarrow> u32 \<Rightarrow> u32" where "F3 B C D = (B AND C) OR (D AND (B OR C))"
definition F4 :: "u32 \<Rightarrow> u32 \<Rightarrow> u32 \<Rightarrow> u32" where "F4 B C D = B XOR C XOR D"

definition sha1_FK :: "nat \<Rightarrow> (u32 \<Rightarrow> u32 \<Rightarrow> u32 \<Rightarrow> u32) \<times> u32" where
  "sha1_FK t = (if t < 20 then (F1, 0x5a827999) else if t < 40 then (F2, 0x6ed9eba1)
     else if t < 60 then (F3, 0x8f1bbcdc) else (F4, 0xca62c1d6))"

text \<open>
  Line \<open>t\<close> of the unrolled rounds is \<^verbatim>\<open>R( A, B, C, D, E, F, K, M )\<close> with the registers \<open>a\<close> to \<open>e\<close>
  (a list of five here) rotated by \<open>t\<close> places: argument \<open>j\<close> of the macro is register \<open>(j + 4 t) mod 5\<close>.
\<close>

definition R :: "nat \<Rightarrow> (u32 \<Rightarrow> u32 \<Rightarrow> u32 \<Rightarrow> u32) \<Rightarrow> u32 \<Rightarrow> u32 \<Rightarrow> u32 list \<Rightarrow> u32 list" where
  "R t F K m v =
     (let arg = (\<lambda>j. (j + 4 * t) mod 5);
          v = v[arg 4 := v ! arg 4 + (rol (v ! arg 0) 5 + F (v ! arg 1) (v ! arg 2) (v ! arg 3) + K + m)]
      in v[arg 1 := rol (v ! arg 1) 30])"

text \<open>The macro \<open>M\<close> updates the circular array \<open>x\<close> and yields the new word.\<close>

definition M :: "nat \<Rightarrow> u32 list \<Rightarrow> u32 list" where
  "M i x = x[i mod 16 := rol (x ! (i mod 16) XOR x ! ((i - 14) mod 16) XOR x ! ((i - 8) mod 16) XOR x ! ((i - 3) mod 16)) 1]"

definition sha1_round :: "nat \<Rightarrow> u32 list \<times> u32 list \<Rightarrow> u32 list \<times> u32 list" where
  "sha1_round t = (\<lambda>(v, x).
     let x = (if t < 16 then x else M t x); (F, K) = sha1_FK t in (R t F K (x ! (t mod 16)) v, x))"

definition sha1_compress :: "bytes \<Rightarrow> sha1_state \<Rightarrow> sha1_state" where
  "sha1_compress words = (\<lambda>(A, B, C, D, E).
     let x = map (\<lambda>t. SWAP (get32 ((!) words) (4 * t))) [0..<16];
         (v, x) = fold sha1_round [0..<80] ([A, B, C, D, E], x)
     in (A + v ! 0, B + v ! 1, C + v ! 2, D + v ! 3, E + v ! 4))"

definition sha1_process_block :: "bytes \<Rightarrow> sha1_ctx \<Rightarrow> sha1_ctx" where
  "sha1_process_block buffer ctx = absorb sha1_compress buffer ctx"

definition sha1_finish_ctx :: "sha1_ctx \<Rightarrow> bytes" where
  "sha1_finish_ctx ctx =
     (let bytes = h_buflen ctx;
          size = (if bytes < 56 then 64 div 4 else 64 * 2 div 4);
          ctx = ctx\<lparr>h_total0 := h_total0 ctx + of_nat bytes\<rparr>;
          ctx = (if unat (h_total0 ctx) < bytes then ctx\<lparr>h_total1 := h_total1 ctx + 1\<rparr> else ctx);
          buffer = overwrite (h_buffer ctx) (4 * (size - 2))
            (le_bytes (SWAP (push_bit 3 (h_total1 ctx) OR drop_bit 29 (h_total0 ctx))));
          buffer = overwrite buffer (4 * (size - 1)) (le_bytes (SWAP (push_bit 3 (h_total0 ctx))));
          buffer = overwrite buffer bytes (take ((size - 2) * 4 - bytes) fillbuf);
          ctx = sha1_process_block (take (size * 4) buffer) (ctx\<lparr>h_buffer := buffer\<rparr>)
      in sha1_read_ctx ctx)"

text \<open>The loop for unaligned input, block by block through the buffer; it leaves 1 to 64 bytes.\<close>

fun sha1_unaligned :: "bytes \<Rightarrow> sha1_ctx \<Rightarrow> bytes \<times> sha1_ctx" where
  "sha1_unaligned bs ctx =
     (if length bs > 64 then
        (let ctx = ctx\<lparr>h_buffer := overwrite (h_buffer ctx) 0 (take 64 bs)\<rparr>
         in sha1_unaligned (drop 64 bs) (sha1_process_block (take 64 (h_buffer ctx)) ctx))
      else (bs, ctx))"

declare sha1_unaligned.simps [simp del]

text \<open>The three parts of \<open>sha1_process_bytes\<close>: fill the buffer, take whole blocks, keep the rest.\<close>

definition sha1_fill :: "bytes \<Rightarrow> sha1_ctx \<Rightarrow> bytes \<times> sha1_ctx" where
  "sha1_fill buffer ctx =
     (if h_buflen ctx \<noteq> 0 then
        (let left_over = h_buflen ctx;
             add = (if 128 - left_over > length buffer then length buffer else 128 - left_over);
             ctx = ctx\<lparr>h_buffer := overwrite (h_buffer ctx) left_over (take add buffer), h_buflen := left_over + add\<rparr>;
             ctx =
               (if h_buflen ctx > 64 then
                  (let ctx = sha1_process_block (take (64 * (h_buflen ctx div 64)) (h_buffer ctx)) ctx;
                       ctx = ctx\<lparr>h_buflen := h_buflen ctx mod 64\<rparr>
                   in ctx\<lparr>h_buffer := overwrite (h_buffer ctx) 0
                        (take (h_buflen ctx) (drop (64 * ((left_over + add) div 64)) (h_buffer ctx)))\<rparr>)
                else ctx)
         in (drop add buffer, ctx))
      else (buffer, ctx))"

definition sha1_whole :: "bool \<Rightarrow> bytes \<Rightarrow> sha1_ctx \<Rightarrow> bytes \<times> sha1_ctx" where
  "sha1_whole unaligned buffer ctx =
     (if length buffer \<ge> 64 then
        (if unaligned then sha1_unaligned buffer ctx
         else
           (let n = 64 * (length buffer div 64) in
            (drop n buffer, sha1_process_block (take n buffer) ctx)))
      else (buffer, ctx))"

definition sha1_rest :: "bytes \<Rightarrow> sha1_ctx \<Rightarrow> sha1_ctx" where
  "sha1_rest buffer ctx =
     (if length buffer > 0 then
        (let left_over = h_buflen ctx;
             ctx = ctx\<lparr>h_buffer := overwrite (h_buffer ctx) left_over buffer\<rparr>;
             left_over = left_over + length buffer
         in if left_over \<ge> 64 then
              (let ctx = sha1_process_block (take 64 (h_buffer ctx)) ctx;
                   left_over = left_over - 64
               in ctx\<lparr>h_buffer := overwrite (h_buffer ctx) 0 (take left_over (drop 64 (h_buffer ctx))), h_buflen := left_over\<rparr>)
            else ctx\<lparr>h_buflen := left_over\<rparr>)
      else ctx)"

definition sha1_process_bytes :: "bool \<Rightarrow> bytes \<Rightarrow> sha1_ctx \<Rightarrow> sha1_ctx" where
  "sha1_process_bytes unaligned buffer ctx =
     (let (buffer, ctx) = sha1_fill buffer ctx;
          (buffer, ctx) = sha1_whole unaligned buffer ctx
      in sha1_rest buffer ctx)"

definition sha1_buffer :: "bool \<Rightarrow> bytes \<Rightarrow> sha1_ctx \<Rightarrow> bytes" where
  "sha1_buffer unaligned buffer ctx =
     sha1_finish_ctx (sha1_process_bytes unaligned buffer (sha1_init_ctx ctx))"

section \<open>FIPS 180\<close>

fun fips_W :: "bytes \<Rightarrow> nat \<Rightarrow> u32" where
  "fips_W bs t = (if t < 16 then be32 bs (4 * t)
     else rol (fips_W bs (t - 3) XOR fips_W bs (t - 8) XOR fips_W bs (t - 14) XOR fips_W bs (t - 16)) 1)"

declare fips_W.simps [simp del]

definition fips_f :: "nat \<Rightarrow> u32 \<Rightarrow> u32 \<Rightarrow> u32 \<Rightarrow> u32" where
  "fips_f t x y z =
     (if t < 20 then (x AND y) XOR (NOT x AND z)
      else if t < 40 then x XOR y XOR z
      else if t < 60 then (x AND y) XOR (x AND z) XOR (y AND z)
      else x XOR y XOR z)"

definition fips_K :: "nat \<Rightarrow> u32" where
  "fips_K t = (if t < 20 then 0x5a827999 else if t < 40 then 0x6ed9eba1 else if t < 60 then 0x8f1bbcdc else 0xca62c1d6)"

definition fips_step :: "bytes \<Rightarrow> nat \<Rightarrow> sha1_state \<Rightarrow> sha1_state" where
  "fips_step bs t = (\<lambda>(a, b, c, d, e). (rol a 5 + fips_f t b c d + e + fips_K t + fips_W bs t, a, rol b 30, c, d))"

definition fips_compress :: "bytes \<Rightarrow> sha1_state \<Rightarrow> sha1_state" where
  "fips_compress bs = (\<lambda>(A, B, C, D, E).
     case fold (fips_step bs) [0..<80] (A, B, C, D, E) of (a, b, c, d, e) \<Rightarrow> (A + a, B + b, C + c, D + d, E + e))"

text \<open>A one bit, zeros, and the length in bits as a 64-bit number, most significant byte first.\<close>

definition fips_pad :: "bytes \<Rightarrow> bytes" where
  "fips_pad m = m @ 0x80 # replicate ((119 - length m mod 64) mod 64) 0 @
     be_bytes (of_nat (8 * length m div 2 ^ 32)) @ be_bytes (of_nat (8 * length m))"

definition fips_sha1 :: "bytes \<Rightarrow> bytes" where
  "fips_sha1 m = (case blocks fips_compress (fips_pad m) sha1_init of (a, b, c, d, e) \<Rightarrow>
     be_bytes a @ be_bytes b @ be_bytes c @ be_bytes d @ be_bytes e)"

section \<open>Buffering\<close>

lemma sha1_fill_absorbs:
  assumes "absorbed sha1_compress init ctx m"
  shows "\<exists>d. bs = d @ fst (sha1_fill bs ctx) \<and> absorbed sha1_compress init (snd (sha1_fill bs ctx)) (m @ d) \<and>
    (fst (sha1_fill bs ctx) = [] \<or> h_buflen (snd (sha1_fill bs ctx)) = 0)"
proof (cases "h_buflen ctx = 0")
  case True
  with assms show ?thesis by (simp add: sha1_fill_def)
next
  case False
  define add where "add = (if 128 - h_buflen ctx > length bs then length bs else 128 - h_buflen ctx)"
  let ?c = "ctx\<lparr>h_buffer := overwrite (h_buffer ctx) (h_buflen ctx) (take add bs), h_buflen := h_buflen ctx + add\<rparr>"
  have lo: "h_buflen ctx \<le> 64" using assms by (simp add: absorbed_def)
  then have len: "length (take add bs) = add" "h_buflen ctx + add \<le> 128" by (auto simp: add_def min_def)
  have buf: "absorbed_buf sha1_compress init ?c (m @ take add bs)"
    using absorbed_fill [OF absorbed_bufI [OF assms], of "take add bs"] len by simp
  show ?thesis
  proof (cases "h_buflen ctx + add > 64")
    case True
    have "fst (sha1_fill bs ctx) = drop add bs"
      using False True by (simp add: sha1_fill_def Let_def add_def)
    moreover have "absorbed sha1_compress init (snd (sha1_fill bs ctx)) (m @ take add bs)"
      using absorbed_flush [OF buf refl refl] False True
      by (simp add: sha1_fill_def Let_def add_def [symmetric] sha1_process_block_def)
    moreover have "drop add bs = [] \<or> h_buflen (snd (sha1_fill bs ctx)) = 0"
      using False True lo by (simp add: sha1_fill_def Let_def add_def [symmetric] sha1_process_block_def) (simp add: add_def)
    ultimately show ?thesis by (intro exI [of _ "take add bs"]) simp
  next
    case small: False
    with False have "sha1_fill bs ctx = (drop add bs, ?c)"
      by (simp add: sha1_fill_def Let_def add_def [symmetric])
    moreover have "drop add bs = []" using small lo by (auto simp: add_def split: if_splits)
    moreover have "absorbed sha1_compress init ?c (m @ take add bs)"
      using buf small by (intro absorbed_bufD) auto
    ultimately show ?thesis by (intro exI [of _ "take add bs"]) simp
  qed
qed

lemma sha1_unaligned_absorbs:
  "absorbed sha1_compress init ctx m \<Longrightarrow> h_buflen ctx = 0 \<Longrightarrow> length bs \<ge> 64 \<Longrightarrow>
   \<exists>d. bs = d @ fst (sha1_unaligned bs ctx) \<and> length (fst (sha1_unaligned bs ctx)) \<le> 64 \<and>
     absorbed sha1_compress init (snd (sha1_unaligned bs ctx)) (m @ d) \<and> h_buflen (snd (sha1_unaligned bs ctx)) = 0"
proof (induction bs ctx arbitrary: m rule: sha1_unaligned.induct)
  case (1 bs ctx)
  show ?case
  proof (cases "length bs > 64")
    case True
    let ?c = "ctx\<lparr>h_buffer := overwrite (h_buffer ctx) 0 (take 64 bs)\<rparr>"
    let ?p = "sha1_process_block (take 64 (h_buffer ?c)) ?c"
    have buf: "length (h_buffer ctx) = 128" using "1.prems"(1) by (simp add: absorbed_def)
    then have "take 64 (h_buffer ?c) = take 64 bs"
      using True take_overwrite [of 0 "take 64 bs" "h_buffer ctx"] by simp
    moreover have "absorbed sha1_compress init ?c m"
      using "1.prems" buf True by (intro absorbed_buffer) (simp_all add: length_overwrite)
    ultimately have p: "absorbed sha1_compress init ?p (m @ take 64 bs)" "h_buflen ?p = 0"
      using True "1.prems"(2) by (auto simp: sha1_process_block_def intro!: absorbed_direct)
    have "length (drop 64 bs) \<ge> 64 \<or> sha1_unaligned (drop 64 bs) ?p = (drop 64 bs, ?p)"
      by (subst sha1_unaligned.simps) auto
    then obtain d where "drop 64 bs = d @ fst (sha1_unaligned (drop 64 bs) ?p)"
      "length (fst (sha1_unaligned (drop 64 bs) ?p)) \<le> 64"
      "absorbed sha1_compress init (snd (sha1_unaligned (drop 64 bs) ?p)) (m @ take 64 bs @ d)"
      "h_buflen (snd (sha1_unaligned (drop 64 bs) ?p)) = 0"
      using "1.IH" [OF True refl p] p by fastforce
    moreover have eq: "sha1_unaligned bs ctx = sha1_unaligned (drop 64 bs) ?p"
      using True by (subst sha1_unaligned.simps) (simp add: Let_def)
    moreover have "bs = take 64 bs @ drop 64 bs" by simp
    ultimately show ?thesis unfolding eq by (metis append.assoc)
  next
    case False
    with "1.prems" show ?thesis by (simp add: sha1_unaligned.simps)
  qed
qed

lemma sha1_whole_absorbs:
  assumes "absorbed sha1_compress init ctx m" "h_buflen ctx = 0" "length bs < 2 ^ 32"
  shows "\<exists>d. bs = d @ fst (sha1_whole u bs ctx) \<and> length (fst (sha1_whole u bs ctx)) \<le> 64 \<and>
     absorbed sha1_compress init (snd (sha1_whole u bs ctx)) (m @ d) \<and> h_buflen (snd (sha1_whole u bs ctx)) = 0"
proof (cases "length bs \<ge> 64 \<and> \<not> u")
  case True
  let ?n = "64 * (length bs div 64)"
  have "absorbed sha1_compress init (sha1_process_block (take ?n bs) ctx) (m @ take ?n bs)"
    using assms unfolding sha1_process_block_def by (intro absorbed_direct) (auto simp: min_absorb2)
  then show ?thesis
    using True assms(2)
    by (auto simp: sha1_whole_def Let_def sha1_process_block_def minus_mult_div_eq_mod intro!: exI [of _ "take ?n bs"])
qed (use assms sha1_unaligned_absorbs [OF assms(1,2)] in \<open>auto simp: sha1_whole_def\<close>)

lemma sha1_rest_absorbs:
  assumes "absorbed sha1_compress init ctx m" "bs = [] \<or> h_buflen ctx = 0" "length bs \<le> 64"
  shows "absorbed sha1_compress init (sha1_rest bs ctx) (m @ bs)"
proof (cases "bs = []")
  case False
  let ?c = "ctx\<lparr>h_buffer := overwrite (h_buffer ctx) (h_buflen ctx) bs, h_buflen := h_buflen ctx + length bs\<rparr>"
  have buf: "absorbed_buf sha1_compress init ?c (m @ bs)"
    using False assms by (intro absorbed_fill absorbed_bufI) auto
  show ?thesis
  proof (cases "length bs = 64")
    case True
    have "absorbed sha1_compress init (sha1_rest bs ctx) (m @ bs) \<longleftrightarrow>
      absorbed sha1_compress init ((absorb sha1_compress (take 64 (h_buffer ?c)) ?c)\<lparr>h_buflen := 0,
       h_buffer := overwrite (h_buffer ?c) 0 (take 0 (drop 64 (h_buffer ?c)))\<rparr>) (m @ bs)"
      using True False assms(2) by (simp add: sha1_rest_def Let_def sha1_process_block_def absorb_buflen buflen_buffer)
    then show ?thesis using absorbed_flush [OF buf, of 64 0] True False assms(2) by simp
  next
    case small: False
    with False assms have "sha1_rest bs ctx = ?c" by (auto simp: sha1_rest_def Let_def)
    with buf show ?thesis using small False assms by (auto intro!: absorbed_bufD)
  qed
qed (use assms in \<open>simp add: sha1_rest_def\<close>)

lemma sha1_process_bytes_absorbs:
  assumes "absorbed sha1_compress init ctx m" "length bs < 2 ^ 32"
  shows "absorbed sha1_compress init (sha1_process_bytes u bs ctx) (m @ bs)"
proof -
  obtain r c where f: "sha1_fill bs ctx = (r, c)" by fastforce
  obtain d where d: "bs = d @ r" "absorbed sha1_compress init c (m @ d)" "r = [] \<or> h_buflen c = 0"
    using sha1_fill_absorbs [OF assms(1), of bs] f by auto
  show ?thesis
  proof (cases "r = []")
    case True
    then show ?thesis unfolding sha1_process_bytes_def f
      using d by (simp add: sha1_whole_def sha1_rest_def)
  next
    case False
    with d assms(2) obtain e where "r = e @ fst (sha1_whole u r c)" "length (fst (sha1_whole u r c)) \<le> 64"
      "absorbed sha1_compress init (snd (sha1_whole u r c)) (m @ d @ e)" "h_buflen (snd (sha1_whole u r c)) = 0"
      using sha1_whole_absorbs [of init c "m @ d" r u] by auto
    then show ?thesis
      using sha1_rest_absorbs [of init "snd (sha1_whole u r c)" "m @ d @ e" "fst (sha1_whole u r c)"] d(1)
      unfolding sha1_process_bytes_def f by (simp add: split_beta)
  qed
qed

section \<open>The compression function\<close>

lemma get32_bytes:
  "get32 f a = ucast (f a) OR push_bit 8 (ucast (f (a + 1)) OR push_bit 8 (ucast (f (a + 2)) OR push_bit 8 (ucast (f (a + 3)))))"
  by (simp add: numeral_eq_Suc)

lemma bit_ucast8: "n < 8 \<Longrightarrow> bit (ucast (b :: u8) :: u32) n = bit b n" "8 \<le> n \<Longrightarrow> bit (ucast (b :: u8) :: u32) n = False"
  by (auto simp: bit_simps dest: bit_imp_le_length)

lemma SWAP_get32: "SWAP (get32 ((!) bs) a) = be32 bs a"
proof (rule bit_word_eqI)
  have ff: "(0xff00 :: u32) = push_bit 8 (mask 8)" by (simp add: mask_eq_exp_minus_1)
  fix n assume "n < LENGTH(32)"
  then consider "n < 8" | k where "n = 8 + k" "k < 8" | k where "n = 16 + k" "k < 8" | k where "n = 24 + k" "k < 8"
    by (cases "n < 8"; cases "n < 16"; cases "n < 24") (auto simp: nat_le_iff_add not_less)
  then show "bit (SWAP (get32 ((!) bs) a)) n = bit (be32 bs a) n"
    unfolding SWAP_def be32_def get32_bytes
    by cases (simp_all add: ff bit_or_iff bit_and_iff bit_push_bit_iff bit_drop_bit_eq bit_ucast8 bit_mask_iff)
qed

lemma sha1_FK_fips: "sha1_FK t = (F, K) \<Longrightarrow> F b c d = fips_f t b c d \<and> K = fips_K t"
proof -
  have "F1 b c d = (b AND c) XOR (NOT b AND d)" "F3 b c d = (b AND c) XOR (b AND d) XOR (c AND d)"
    by (auto intro!: bit_word_eqI simp: F1_def F3_def bit_simps)
  then show "sha1_FK t = (F, K) \<Longrightarrow> F b c d = fips_f t b c d \<and> K = fips_K t"
    by (auto simp: sha1_FK_def fips_f_def fips_K_def F2_def F4_def split: if_splits)
qed

definition in_registers :: "nat \<Rightarrow> u32 list \<Rightarrow> sha1_state \<Rightarrow> bool" where
  "in_registers t v s \<longleftrightarrow> length v = 5 \<and>
     s = (v ! (4 * t mod 5), v ! ((1 + 4 * t) mod 5), v ! ((2 + 4 * t) mod 5), v ! ((3 + 4 * t) mod 5), v ! ((4 + 4 * t) mod 5))"

definition in_window :: "(nat \<Rightarrow> u32) \<Rightarrow> nat \<Rightarrow> u32 list \<Rightarrow> bool" where
  "in_window W t x \<longleftrightarrow> length x = 16 \<and> (\<forall>i. i < max t 16 \<and> max t 16 \<le> i + 16 \<longrightarrow> x ! (i mod 16) = W i)"

lemma R_registers:
  assumes "in_registers t v (a, b, c, d, e)"
  shows "in_registers (Suc t) (R t F K m v) (e + (rol a 5 + F b c d + K + m), a, rol b 30, c, d)"
proof -
  have "length v = Suc (Suc (Suc (Suc (Suc 0))))" using assms by (simp add: in_registers_def)
  then obtain v0 v1 v2 v3 v4 where v: "v = [v0, v1, v2, v3, v4]" by (auto simp: length_Suc_conv)
  have main: "?thesis" if k: "t mod 5 = k" "k \<in> {0, 1, 2, 3, 4}" for k
  proof -
    have rt: "(j + 4 * t) mod 5 = (j + 4 * k) mod 5" for j
      unfolding k(1) [symmetric] by (metis mod_add_right_eq mod_mult_right_eq)
    then have r: "(j + 4 * t) mod 5 = (j + 4 * k) mod 5" "(j + 4 * Suc t) mod 5 = (j + 4 + 4 * k) mod 5" for j
      using rt [of "j + 4"] by (simp_all add: add.assoc)
    have r0: "4 * t mod 5 = 4 * k mod 5" "4 * Suc t mod 5 = (4 + 4 * k) mod 5"
      using r [of 0] by simp_all
    have v': "(a, b, c, d, e) = (v ! (4 * k mod 5), v ! ((1 + 4 * k) mod 5), v ! ((2 + 4 * k) mod 5),
        v ! ((3 + 4 * k) mod 5), v ! ((4 + 4 * k) mod 5))"
      using assms unfolding in_registers_def r r0 by simp
    have "R t F K m v = v[(4 + 4 * k) mod 5 := e + (rol a 5 + F b c d + K + m), (1 + 4 * k) mod 5 := rol b 30]"
      using v' k(2) unfolding R_def Let_def r r0 add_0 v by (elim insertE) simp_all
    then show ?thesis
      using v' k(2) unfolding in_registers_def r r0 v by (elim insertE) simp_all
  qed
  have "n = 0 \<or> n = 1 \<or> n = 2 \<or> n = 3 \<or> n = 4" if "n < 5" for n :: nat
    using that by (auto simp: eval_nat_numeral less_Suc_eq)
  then have "t mod 5 \<in> {0, 1, 2, 3, 4}" using mod_less_divisor [of 5 t] by simp
  from main [OF refl this] show ?thesis .
qed

lemma M_window:
  assumes "in_window W t x" "t \<ge> 16"
    "W t = rol (W (t - 3) XOR W (t - 8) XOR W (t - 14) XOR W (t - 16)) 1"
  shows "in_window W (Suc t) (M t x)"
proof -
  have x: "x ! (i mod 16) = W i" if "i < t" "t \<le> i + 16" for i
    using assms(1,2) that by (auto simp: in_window_def max_def)
  have "t mod 16 = (t - 16) mod 16" using assms(2) by (simp add: le_mod_geq)
  then have "x ! (t mod 16) = W (t - 16)" using x [of "t - 16"] assms(2) by simp
  then have new: "M t x = x[t mod 16 := W t]"
    using assms(2) by (simp add: M_def x assms(3) ac_simps)
  have "t mod 16 \<noteq> i mod 16" if "i < t" "t < i + 16" for i
    using that by (metis dvd_imp_le linorder_not_less mod_eq_dvd_iff_nat less_diff_conv2 add.commute less_imp_le zero_less_diff)
  then have "M t x ! (i mod 16) = W i" if "i < Suc t" "Suc t \<le> i + 16" for i
    using that assms(1) x [of i] by (cases "i = t") (simp_all add: new in_window_def)
  moreover have "length (M t x) = 16" using assms(1) by (simp add: M_def in_window_def)
  ultimately show ?thesis using assms(2) by (simp add: in_window_def max_def)
qed

lemma sha1_round_fips:
  assumes "in_registers t v s" "in_window (fips_W bs) t x"
  shows "case sha1_round t (v, x) of (v', x') \<Rightarrow>
    in_registers (Suc t) v' (fips_step bs t s) \<and> in_window (fips_W bs) (Suc t) x'"
proof -
  obtain a b c d e where s: "s = (a, b, c, d, e)" by (cases s) auto
  define x' where "x' = (if t < 16 then x else M t x)"
  have x': "in_window (fips_W bs) (Suc t) x'"
  proof (cases "t < 16")
    case True
    with assms(2) show ?thesis by (simp add: x'_def in_window_def max_def)
  next
    case False
    with M_window [OF assms(2)] show ?thesis by (simp add: x'_def fips_W.simps [of bs t])
  qed
  then have "x' ! (t mod 16) = fips_W bs t" by (simp add: in_window_def)
  with x' R_registers [OF assms(1) [unfolded s]] sha1_FK_fips [of t _ _ b c d] show ?thesis
    by (auto simp: add.assoc add.left_commute sha1_round_def Let_def x'_def [symmetric] s fips_step_def split: prod.split)
qed

lemma sha1_compress_fips: "sha1_compress = fips_compress"
proof (intro ext)
  fix bs :: bytes and h :: sha1_state
  obtain A B C D E where h: "h = (A, B, C, D, E)" by (cases h) auto
  let ?x = "map (\<lambda>t. SWAP (get32 ((!) bs) (4 * t))) [0..<16]"
  have "case fold sha1_round [0..<n] ([A, B, C, D, E], ?x) of (v, x) \<Rightarrow>
     in_registers n v (fold (fips_step bs) [0..<n] (A, B, C, D, E)) \<and> in_window (fips_W bs) n x" for n
  proof (induction n)
    case 0
    show ?case by (auto simp: in_registers_def in_window_def SWAP_get32 fips_W.simps)
  next
    case (Suc n)
    obtain v x where vx: "fold sha1_round [0..<n] ([A, B, C, D, E], ?x) = (v, x)" by fastforce
    with Suc.IH have "in_registers n v (fold (fips_step bs) [0..<n] (A, B, C, D, E))" "in_window (fips_W bs) n x"
      by simp_all
    from sha1_round_fips [OF this] show ?case by (simp add: vx)
  qed
  from this [of 80] show "sha1_compress bs h = fips_compress bs h"
    by (auto simp: sha1_compress_def fips_compress_def h in_registers_def Let_def simp del: upt_rec_numeral split: prod.splits)
qed

section \<open>The digest\<close>

lemma sha1_finish_fips:
  assumes "absorbed sha1_compress sha1_init ctx m"
  shows "sha1_finish_ctx ctx = fips_sha1 m"
proof -
  define n where "n = h_buflen ctx"
  define k where "k = (if n < 56 then 64 else 128 :: nat)"
  from assms obtain dn where dn: "64 dvd length dn" "m = dn @ take n (h_buffer ctx)"
    "h_state ctx = blocks sha1_compress dn sha1_init" "count ctx = length dn mod 2 ^ 64" "length (h_buffer ctx) = 128"
    and n: "n \<le> 64" by (auto simp: absorbed_def n_def)
  define c where "c = add_count n ctx"
  define hi lo where "hi = push_bit 3 (h_total1 c) OR drop_bit 29 (h_total0 c)" and "lo = push_bit 3 (h_total0 c)"
  define b where "b = take k (overwrite (overwrite (overwrite (h_buffer ctx) (k - 8) (be_bytes hi)) (k - 4) (be_bytes lo)) n
    (take (k - 8 - n) fillbuf))"
  have len: "length m = length dn + n" using dn(2,5) n by simp
  have "length m mod 64 = n mod 64" using dn(1) unfolding len by (metis add.commute dvd_imp_mod_0 mod_add_right_eq add.right_neutral)
  note pad = padded_buffer [OF dn(5) n k_def this length_le_bytes(2) length_le_bytes(2), of hi lo]
  have "count c = length m mod 2 ^ 64"
    using count_add [of n ctx] n dn(4) by (simp add: c_def len mod_add_left_eq)
  note bits = bit_count_words [OF this, folded hi_def lo_def]
  have "b = take n (h_buffer ctx) @ 0x80 # replicate ((119 - length m mod 64) mod 64) 0 @ be_bytes hi @ be_bytes lo"
    unfolding b_def by (rule pad)
  then have "fips_pad m = dn @ b"
    unfolding fips_pad_def bits(1) [symmetric] bits(2) [symmetric] by (subst dn(2)) simp
  then have spec: "blocks fips_compress (fips_pad m) sha1_init = blocks sha1_compress b (h_state ctx)"
    by (simp add: \<open>fips_pad m = dn @ b\<close> blocks_append [OF dn(1)] dn(3) sha1_compress_fips)
  have c: "h_buffer c = h_buffer ctx" "h_state c = h_state ctx" by (simp_all add: c_def add_count_def Let_def)
  have "\<exists>B. sha1_finish_ctx ctx = sha1_read_ctx (sha1_process_block b (c\<lparr>h_buffer := B\<rparr>))"
  proof -
    have cf: "(if unat (h_total0 (ctx\<lparr>h_total0 := h_total0 ctx + of_nat n\<rparr>)) < n
      then ctx\<lparr>h_total0 := h_total0 ctx + of_nat n\<rparr>\<lparr>h_total1 := h_total1 (ctx\<lparr>h_total0 := h_total0 ctx + of_nat n\<rparr>) + 1\<rparr>
      else ctx\<lparr>h_total0 := h_total0 ctx + of_nat n\<rparr>) = c"
      using count_finish [of n ctx] n by (simp add: c_def Let_def)
    show ?thesis
      unfolding sha1_finish_ctx_def Let_def n_def [symmetric] cf
      unfolding le_bytes_SWAP hi_def [symmetric] lo_def [symmetric] c(1) b_def k_def
      by (cases "n < 56") auto
  qed
  then show ?thesis
    by (auto simp: sha1_read_ctx_def sha1_process_block_def fips_sha1_def spec c(2) le_bytes_SWAP split: prod.split)
qed

interpretation sha1: digest sha1_compress sha1_init sha1_init_ctx sha1_process_bytes sha1_finish_ctx fips_sha1
proof
  show "length (h_buffer ctx) = 128 \<Longrightarrow> absorbed sha1_compress sha1_init (sha1_init_ctx ctx) []" for ctx
    by (auto simp: absorbed_def sha1_init_ctx_def count_def intro: exI [of _ "[]"])
qed (simp_all add: sha1_process_bytes_absorbs sha1_finish_fips)

text \<open>C26: Feeding the bytes of a message to \<open>sha1_process_bytes\<close> in any division into calls, after
  \<open>sha1_init_ctx\<close> and before \<open>sha1_finish_ctx\<close>, gives the SHA-1 digest of FIPS 180 of the whole message.\<close>

theorem sha1_pieces:
  "length (h_buffer ctx) = 128 \<Longrightarrow> \<forall>(u, bs) \<in> set pieces. length bs < 2 ^ 32 \<Longrightarrow>
   sha1_finish_ctx (fold (\<lambda>(u, bs). sha1_process_bytes u bs) pieces (sha1_init_ctx ctx)) =
     fips_sha1 (concat (map snd pieces))"
  by (rule sha1.digest_pieces)

definition fresh :: sha1_ctx where
  "fresh = \<lparr>h_state = (0, 0, 0, 0, 0), h_total0 = 0, h_total1 = 0, h_buflen = 0, h_buffer = replicate 128 0\<rparr>"

lemma sha1_pieces_witness:
  "sha1_finish_ctx (fold (\<lambda>(u, bs). sha1_process_bytes u bs) [(False, of_string ''a''), (True, of_string ''bc'')] (sha1_init_ctx fresh)) =
    fips_sha1 (of_string ''abc'')"
  by (subst sha1_pieces) (simp_all add: fresh_def of_string_def)


section \<open>Streams\<close>

text \<open>
  \<open>sha1_stream\<close> in blocks of 4096 bytes. The inner loop adds to the \<open>sum\<close> bytes of \<open>buffer\<close> and leaves it
  with a full block, at the end of the file (\<^verbatim>\<open>goto process_partial_block\<close>) or with an error.
\<close>

datatype block_end = Full | Partial | Failed

function sha1_read_block :: "bytes \<Rightarrow> c_file \<Rightarrow> block_end \<times> bytes \<times> c_file" where
  "sha1_read_block buffer stream =
     (let (bs, stream) = fread (4096 - length buffer) stream;
          buffer = buffer @ bs
      in if length buffer = 4096 then (Full, buffer, stream)
         else if bs = [] then (if f_error stream then Failed else Partial, buffer, stream)
         else if f_eof stream then (Partial, buffer, stream)
         else sha1_read_block buffer stream)"
  by pat_completeness auto
termination
  by (relation "measure (\<lambda>(buffer, _). 4096 - length buffer)") (auto simp: fread_def Let_def min_def split: if_splits simp flip: length_greater_0_conv)

declare sha1_read_block.simps [simp del]

lemma sha1_read_block_full:
  "sha1_read_block buffer stream = (Full, buffer', stream') \<Longrightarrow>
   length (f_data stream') + 4096 = length buffer + length (f_data stream) \<and> length buffer' = 4096"
proof (induction buffer stream rule: sha1_read_block.induct)
  case (1 buffer stream)
  obtain bs s where f: "fread (4096 - length buffer) stream = (bs, s)" by fastforce
  then have "length (f_data s) + length bs = length (f_data stream)"
    by (auto simp: fread_def Let_def split: if_splits)
  with "1.IH" [OF f [symmetric] refl] "1.prems" f show ?case
    by (subst (asm) (2) sha1_read_block.simps) (auto simp: Let_def split: if_splits)
qed

function sha1_stream_loop :: "c_file \<Rightarrow> sha1_ctx \<Rightarrow> bytes option" where
  "sha1_stream_loop stream ctx =
     (case sha1_read_block [] stream of
        (Full, buffer, stream) \<Rightarrow> sha1_stream_loop stream (sha1_process_block buffer ctx)
      | (Partial, buffer, stream) \<Rightarrow>
          Some (sha1_finish_ctx (if length buffer > 0 then sha1_process_bytes False buffer ctx else ctx))
      | (Failed, buffer, stream) \<Rightarrow> None)"
  by pat_completeness auto
termination
  by (relation "measure (\<lambda>(stream, _). length (f_data stream))") (auto dest: sha1_read_block_full [OF sym])

declare sha1_stream_loop.simps [simp del]

text \<open>The result is the digest, or \<open>None\<close> where the code returns 1.\<close>

definition sha1_stream :: "c_file \<Rightarrow> sha1_ctx \<Rightarrow> bytes option" where
  "sha1_stream stream ctx = sha1_stream_loop stream (sha1_init_ctx ctx)"

lemma sha1_read_block_opened:
  "sha1_read_block [] (opened data fails) =
    (if length data \<ge> 4096 then (Full, take 4096 data, opened (drop 4096 data) fails)
     else if fails then (Failed, data, (opened [] True)\<lparr>f_error := True\<rparr>)
     else (Partial, data, (opened [] False)\<lparr>f_eof := True\<rparr>))"
proof -
  have empty: "sha1_read_block data ((opened [] True)\<lparr>f_error := True\<rparr>) = (Failed, data, (opened [] True)\<lparr>f_error := True\<rparr>)"
    if "length data < 4096" for data
    using that by (subst sha1_read_block.simps) (simp add: fread_def Let_def opened_def)
  show ?thesis
    by (subst sha1_read_block.simps) (simp add: fread_def Let_def opened_def empty [unfolded opened_def, simplified] min_def)
qed

lemma sha1_stream_loop_reads:
  "absorbed sha1_compress sha1_init ctx m \<Longrightarrow> h_buflen ctx = 0 \<Longrightarrow>
   sha1_stream_loop (opened data fails) ctx = (if fails then None else Some (fips_sha1 (m @ data)))"
proof (induction "length data" arbitrary: data ctx m rule: less_induct)
  case less
  show ?case
  proof (cases "length data \<ge> 4096")
    case True
    let ?c = "sha1_process_block (take 4096 data) ctx"
    have "absorbed sha1_compress sha1_init ?c (m @ take 4096 data)" "h_buflen ?c = 0"
      using True less.prems by (auto simp: sha1_process_block_def intro!: absorbed_direct)
    with less.hyps [of "drop 4096 data"] True show ?thesis
      by (subst sha1_stream_loop.simps) (simp add: sha1_read_block_opened)
  next
    case False
    have "sha1_finish_ctx (if length data > 0 then sha1_process_bytes False data ctx else ctx) = fips_sha1 (m @ data)"
      using sha1_process_bytes_absorbs [OF less.prems(1), of data] less.prems(1) False by (auto intro!: sha1_finish_fips)
    with False show ?thesis
      by (subst sha1_stream_loop.simps) (simp add: sha1_read_block_opened)
  qed
qed

text \<open>\<open>sha1_stream\<close> stores the SHA-1 digest of the whole stream, however \<open>fread\<close> divides it, and
  fails with 1 exactly when reading fails.\<close>

theorem sha1_stream_correct:
  "length (h_buffer ctx) = 128 \<Longrightarrow>
   sha1_stream (opened data fails) ctx = (if fails then None else Some (fips_sha1 data))"
  unfolding sha1_stream_def
  by (subst sha1_stream_loop_reads [OF sha1.start]) (simp_all add: sha1_init_ctx_def)

lemma sha1_stream_correct_witness:
  "sha1_stream (opened (replicate 5000 7) False) fresh = Some (fips_sha1 (replicate 5000 7)) \<and>
   sha1_stream (opened (replicate 5000 7) True) fresh = None"
  by (simp add: sha1_stream_correct fresh_def)
end
