(* ===== verification/Md5.thy ===== *)
theory Md5
  imports Hash_Stream
begin

text \<open>
  MD5 as \<^verbatim>\<open>src/binutils-2.42/libiberty/md5.c\<close> computes it, on a little-endian machine: the 64
  unrolled operations of \<open>md5_process_block\<close> as a table of their arguments, run by the macro \<open>OP\<close> on
  renamed registers, the buffering of \<open>md5_process_bytes\<close> and the padding of \<open>md5_finish_ctx\<close>. The
  reference is RFC 1321 with its own index patterns, round functions and register shift. The
  64 constants are shared by the two: the sines they come from are not computed here.
\<close>

unbundle bit_operations_syntax

section \<open>md5.c\<close>

type_synonym md5_state = "u32 \<times> u32 \<times> u32 \<times> u32"
type_synonym md5_ctx = "md5_state hash_ctx"

definition md5_init :: md5_state where
  "md5_init = (0x67452301, 0xefcdab89, 0x98badcfe, 0x10325476)"

definition md5_init_ctx :: "md5_ctx \<Rightarrow> md5_ctx" where
  "md5_init_ctx ctx = ctx\<lparr>h_state := md5_init, h_total0 := 0, h_total1 := 0, h_buflen := 0\<rparr>"

definition md5_read_ctx :: "md5_ctx \<Rightarrow> bytes" where
  "md5_read_ctx ctx = (case h_state ctx of (A, B, C, D) \<Rightarrow> le_bytes A @ le_bytes B @ le_bytes C @ le_bytes D)"

definition FF :: "u32 \<Rightarrow> u32 \<Rightarrow> u32 \<Rightarrow> u32" where "FF b c d = d XOR (b AND (c XOR d))"
definition FG :: "u32 \<Rightarrow> u32 \<Rightarrow> u32 \<Rightarrow> u32" where "FG b c d = FF d b c"
definition FH :: "u32 \<Rightarrow> u32 \<Rightarrow> u32 \<Rightarrow> u32" where "FH b c d = b XOR c XOR d"
definition FI :: "u32 \<Rightarrow> u32 \<Rightarrow> u32 \<Rightarrow> u32" where "FI b c d = c XOR (b OR NOT d)"

definition CYCLIC :: "u32 \<Rightarrow> nat \<Rightarrow> u32" where
  "CYCLIC w s = push_bit s w OR drop_bit (32 - s) w"

text \<open>
  Line \<open>t\<close> of the 64 has its four registers rotated by \<open>t\<close> places: argument \<open>j\<close> of the macro is
  register \<open>(j + 3 t) mod 4\<close> of \<open>A\<close> to \<open>D\<close> (a list of four here).
\<close>

definition OP :: "nat \<Rightarrow> (u32 \<Rightarrow> u32 \<Rightarrow> u32 \<Rightarrow> u32) \<Rightarrow> u32 \<Rightarrow> nat \<Rightarrow> u32 \<Rightarrow> u32 list \<Rightarrow> u32 list" where
  "OP t FX w s T v =
     (let arg = (\<lambda>j. (j + 3 * t) mod 4);
          v = v[arg 0 := v ! arg 0 + (FX (v ! arg 1) (v ! arg 2) (v ! arg 3) + w + T)];
          v = v[arg 0 := CYCLIC (v ! arg 0) s]
      in v[arg 0 := v ! arg 0 + v ! arg 1])"

text \<open>The word index, the shift and the constant of each line; round 1 takes the words in order.\<close>

definition md5_table :: "(nat \<times> nat \<times> u32) list" where
  "md5_table = [
    (0, 7, 0xd76aa478), (1, 12, 0xe8c7b756), (2, 17, 0x242070db), (3, 22, 0xc1bdceee),
    (4, 7, 0xf57c0faf), (5, 12, 0x4787c62a), (6, 17, 0xa8304613), (7, 22, 0xfd469501),
    (8, 7, 0x698098d8), (9, 12, 0x8b44f7af), (10, 17, 0xffff5bb1), (11, 22, 0x895cd7be),
    (12, 7, 0x6b901122), (13, 12, 0xfd987193), (14, 17, 0xa679438e), (15, 22, 0x49b40821),
    (1, 5, 0xf61e2562), (6, 9, 0xc040b340), (11, 14, 0x265e5a51), (0, 20, 0xe9b6c7aa),
    (5, 5, 0xd62f105d), (10, 9, 0x02441453), (15, 14, 0xd8a1e681), (4, 20, 0xe7d3fbc8),
    (9, 5, 0x21e1cde6), (14, 9, 0xc33707d6), (3, 14, 0xf4d50d87), (8, 20, 0x455a14ed),
    (13, 5, 0xa9e3e905), (2, 9, 0xfcefa3f8), (7, 14, 0x676f02d9), (12, 20, 0x8d2a4c8a),
    (5, 4, 0xfffa3942), (8, 11, 0x8771f681), (11, 16, 0x6d9d6122), (14, 23, 0xfde5380c),
    (1, 4, 0xa4beea44), (4, 11, 0x4bdecfa9), (7, 16, 0xf6bb4b60), (10, 23, 0xbebfbc70),
    (13, 4, 0x289b7ec6), (0, 11, 0xeaa127fa), (3, 16, 0xd4ef3085), (6, 23, 0x04881d05),
    (9, 4, 0xd9d4d039), (12, 11, 0xe6db99e5), (15, 16, 0x1fa27cf8), (2, 23, 0xc4ac5665),
    (0, 6, 0xf4292244), (7, 10, 0x432aff97), (14, 15, 0xab9423a7), (5, 21, 0xfc93a039),
    (12, 6, 0x655b59c3), (3, 10, 0x8f0ccc92), (10, 15, 0xffeff47d), (1, 21, 0x85845dd1),
    (8, 6, 0x6fa87e4f), (15, 10, 0xfe2ce6e0), (6, 15, 0xa3014314), (13, 21, 0x4e0811a1),
    (4, 6, 0xf7537e82), (11, 10, 0xbd3af235), (2, 15, 0x2ad7d2bb), (9, 21, 0xeb86d391)]"

definition FX :: "nat \<Rightarrow> u32 \<Rightarrow> u32 \<Rightarrow> u32 \<Rightarrow> u32" where
  "FX t = (if t < 16 then FF else if t < 32 then FG else if t < 48 then FH else FI)"

definition md5_op :: "u32 list \<Rightarrow> nat \<Rightarrow> u32 list \<Rightarrow> u32 list" where
  "md5_op correct_words t v = (case md5_table ! t of (k, s, T) \<Rightarrow> OP t (FX t) (correct_words ! k) s T v)"

definition md5_compress :: "bytes \<Rightarrow> md5_state \<Rightarrow> md5_state" where
  "md5_compress words = (\<lambda>(A, B, C, D).
     let correct_words = map (\<lambda>i. get32 ((!) words) (4 * i)) [0..<16];
         v = fold (md5_op correct_words) [0..<64] [A, B, C, D]
     in (v ! 0 + A, v ! 1 + B, v ! 2 + C, v ! 3 + D))"

definition md5_process_block :: "bytes \<Rightarrow> md5_ctx \<Rightarrow> md5_ctx" where
  "md5_process_block buffer ctx = absorb md5_compress buffer ctx"

definition md5_finish_ctx :: "md5_ctx \<Rightarrow> bytes" where
  "md5_finish_ctx ctx =
     (let bytes = h_buflen ctx;
          ctx = ctx\<lparr>h_total0 := h_total0 ctx + of_nat bytes\<rparr>;
          ctx = (if unat (h_total0 ctx) < bytes then ctx\<lparr>h_total1 := h_total1 ctx + 1\<rparr> else ctx);
          pad = (if bytes \<ge> 56 then 64 + 56 - bytes else 56 - bytes);
          buffer = overwrite (h_buffer ctx) bytes (take pad fillbuf);
          buffer = overwrite buffer (bytes + pad) (le_bytes (push_bit 3 (h_total0 ctx)));
          buffer = overwrite buffer (bytes + pad + 4)
            (le_bytes (push_bit 3 (h_total1 ctx) OR drop_bit 29 (h_total0 ctx)));
          ctx = md5_process_block (take (bytes + pad + 8) buffer) (ctx\<lparr>h_buffer := buffer\<rparr>)
      in md5_read_ctx ctx)"

text \<open>The loop for unaligned input, block by block through the buffer; it leaves 1 to 64 bytes.\<close>

fun md5_unaligned :: "bytes \<Rightarrow> md5_ctx \<Rightarrow> bytes \<times> md5_ctx" where
  "md5_unaligned bs ctx =
     (if length bs > 64 then
        (let ctx = ctx\<lparr>h_buffer := overwrite (h_buffer ctx) 0 (take 64 bs)\<rparr>
         in md5_unaligned (drop 64 bs) (md5_process_block (take 64 (h_buffer ctx)) ctx))
      else (bs, ctx))"

declare md5_unaligned.simps [simp del]

text \<open>The three parts of \<open>md5_process_bytes\<close>: fill the buffer, take whole blocks, keep the rest.\<close>

definition md5_fill :: "bytes \<Rightarrow> md5_ctx \<Rightarrow> bytes \<times> md5_ctx" where
  "md5_fill buffer ctx =
     (if h_buflen ctx \<noteq> 0 then
        (let left_over = h_buflen ctx;
             add = (if 128 - left_over > length buffer then length buffer else 128 - left_over);
             ctx = ctx\<lparr>h_buffer := overwrite (h_buffer ctx) left_over (take add buffer), h_buflen := left_over + add\<rparr>;
             ctx =
               (if left_over + add > 64 then
                  (let n = 64 * ((left_over + add) div 64);
                       ctx = md5_process_block (take n (h_buffer ctx)) ctx;
                       r = (left_over + add) mod 64
                   in ctx\<lparr>h_buffer := overwrite (h_buffer ctx) 0 (take r (drop n (h_buffer ctx))), h_buflen := r\<rparr>)
                else ctx)
         in (drop add buffer, ctx))
      else (buffer, ctx))"

definition md5_whole :: "bool \<Rightarrow> bytes \<Rightarrow> md5_ctx \<Rightarrow> bytes \<times> md5_ctx" where
  "md5_whole unaligned buffer ctx =
     (if length buffer > 64 then
        (if unaligned then md5_unaligned buffer ctx
         else
           (let n = 64 * (length buffer div 64) in
            (drop n buffer, md5_process_block (take n buffer) ctx)))
      else (buffer, ctx))"

definition md5_rest :: "bytes \<Rightarrow> md5_ctx \<Rightarrow> md5_ctx" where
  "md5_rest buffer ctx =
     (if length buffer > 0
      then ctx\<lparr>h_buffer := overwrite (h_buffer ctx) 0 buffer, h_buflen := length buffer\<rparr>
      else ctx)"

definition md5_process_bytes :: "bool \<Rightarrow> bytes \<Rightarrow> md5_ctx \<Rightarrow> md5_ctx" where
  "md5_process_bytes unaligned buffer ctx =
     (let (buffer, ctx) = md5_fill buffer ctx;
          (buffer, ctx) = md5_whole unaligned buffer ctx
      in md5_rest buffer ctx)"

definition md5_buffer :: "bool \<Rightarrow> bytes \<Rightarrow> md5_ctx \<Rightarrow> bytes" where
  "md5_buffer unaligned buffer ctx =
     md5_finish_ctx (md5_process_bytes unaligned buffer (md5_init_ctx ctx))"

section \<open>RFC 1321\<close>

text \<open>Step \<open>[abcd k s i]\<close> is \<open>a = b + ((a + f(b,c,d) + X[k] + T[i]) <<< s)\<close>; the registers then shift.\<close>

definition rfc_f :: "nat \<Rightarrow> u32 \<Rightarrow> u32 \<Rightarrow> u32 \<Rightarrow> u32" where
  "rfc_f t x y z =
     (if t < 16 then (x AND y) OR (NOT x AND z)
      else if t < 32 then (x AND z) OR (y AND NOT z)
      else if t < 48 then x XOR y XOR z
      else y XOR (x OR NOT z))"

definition rfc_k :: "nat \<Rightarrow> nat" where
  "rfc_k t = (if t < 16 then t else if t < 32 then (1 + 5 * t) mod 16 else if t < 48 then (5 + 3 * t) mod 16 else 7 * t mod 16)"

definition rfc_s :: "nat \<Rightarrow> nat" where
  "rfc_s t = (if t < 16 then [7, 12, 17, 22] else if t < 32 then [5, 9, 14, 20]
     else if t < 48 then [4, 11, 16, 23] else [6, 10, 15, 21]) ! (t mod 4)"

definition rfc_T :: "nat \<Rightarrow> u32" where
  "rfc_T t = map (\<lambda>(k, s, T). T) md5_table ! t"

definition rfc_step :: "bytes \<Rightarrow> nat \<Rightarrow> md5_state \<Rightarrow> md5_state" where
  "rfc_step bs t = (\<lambda>(a, b, c, d).
     (d, b + CYCLIC (a + rfc_f t b c d + get32 ((!) bs) (4 * rfc_k t) + rfc_T t) (rfc_s t), b, c))"

definition rfc_compress :: "bytes \<Rightarrow> md5_state \<Rightarrow> md5_state" where
  "rfc_compress bs = (\<lambda>(A, B, C, D).
     case fold (rfc_step bs) [0..<64] (A, B, C, D) of (a, b, c, d) \<Rightarrow> (A + a, B + b, C + c, D + d))"

text \<open>A one bit, zeros, and the length in bits as a 64-bit number, least significant byte first.\<close>

definition rfc_pad :: "bytes \<Rightarrow> bytes" where
  "rfc_pad m = m @ 0x80 # replicate ((119 - length m mod 64) mod 64) 0 @
     le_bytes (of_nat (8 * length m)) @ le_bytes (of_nat (8 * length m div 2 ^ 32))"

definition rfc_md5 :: "bytes \<Rightarrow> bytes" where
  "rfc_md5 m = (case blocks rfc_compress (rfc_pad m) md5_init of (a, b, c, d) \<Rightarrow>
     le_bytes a @ le_bytes b @ le_bytes c @ le_bytes d)"

section \<open>Buffering\<close>

lemma md5_fill_absorbs:
  assumes "absorbed md5_compress init ctx m"
  shows "\<exists>d. bs = d @ fst (md5_fill bs ctx) \<and> absorbed md5_compress init (snd (md5_fill bs ctx)) (m @ d) \<and>
    (fst (md5_fill bs ctx) = [] \<or> h_buflen (snd (md5_fill bs ctx)) = 0)"
proof (cases "h_buflen ctx = 0")
  case True
  with assms show ?thesis by (simp add: md5_fill_def)
next
  case False
  define add where "add = (if 128 - h_buflen ctx > length bs then length bs else 128 - h_buflen ctx)"
  let ?c = "ctx\<lparr>h_buffer := overwrite (h_buffer ctx) (h_buflen ctx) (take add bs), h_buflen := h_buflen ctx + add\<rparr>"
  have lo: "h_buflen ctx \<le> 64" using assms by (simp add: absorbed_def)
  then have len: "length (take add bs) = add" "h_buflen ctx + add \<le> 128" by (auto simp: add_def min_def)
  have buf: "absorbed_buf md5_compress init ?c (m @ take add bs)"
    using absorbed_fill [OF absorbed_bufI [OF assms], of "take add bs"] len by simp
  show ?thesis
  proof (cases "h_buflen ctx + add > 64")
    case True
    have "fst (md5_fill bs ctx) = drop add bs"
      using False True by (simp add: md5_fill_def Let_def add_def)
    moreover have "absorbed md5_compress init (snd (md5_fill bs ctx)) (m @ take add bs)"
      using absorbed_flush [OF buf refl refl] False True
      by (simp add: md5_fill_def Let_def add_def [symmetric] md5_process_block_def buflen_buffer)
    moreover have "drop add bs = [] \<or> h_buflen (snd (md5_fill bs ctx)) = 0"
      using False True lo by (simp add: md5_fill_def Let_def add_def [symmetric] md5_process_block_def) (simp add: add_def)
    ultimately show ?thesis by (intro exI [of _ "take add bs"]) simp
  next
    case small: False
    with False have "md5_fill bs ctx = (drop add bs, ?c)"
      by (simp add: md5_fill_def Let_def add_def [symmetric])
    moreover have "drop add bs = []" using small lo by (auto simp: add_def split: if_splits)
    moreover have "absorbed md5_compress init ?c (m @ take add bs)"
      using buf small by (intro absorbed_bufD) auto
    ultimately show ?thesis by (intro exI [of _ "take add bs"]) simp
  qed
qed

lemma md5_unaligned_absorbs:
  "absorbed md5_compress init ctx m \<Longrightarrow> h_buflen ctx = 0 \<Longrightarrow> length bs \<ge> 64 \<Longrightarrow>
   \<exists>d. bs = d @ fst (md5_unaligned bs ctx) \<and> length (fst (md5_unaligned bs ctx)) \<le> 64 \<and>
     absorbed md5_compress init (snd (md5_unaligned bs ctx)) (m @ d) \<and> h_buflen (snd (md5_unaligned bs ctx)) = 0"
proof (induction bs ctx arbitrary: m rule: md5_unaligned.induct)
  case (1 bs ctx)
  show ?case
  proof (cases "length bs > 64")
    case True
    let ?c = "ctx\<lparr>h_buffer := overwrite (h_buffer ctx) 0 (take 64 bs)\<rparr>"
    let ?p = "md5_process_block (take 64 (h_buffer ?c)) ?c"
    have buf: "length (h_buffer ctx) = 128" using "1.prems"(1) by (simp add: absorbed_def)
    then have "take 64 (h_buffer ?c) = take 64 bs"
      using True take_overwrite [of 0 "take 64 bs" "h_buffer ctx"] by simp
    moreover have "absorbed md5_compress init ?c m"
      using "1.prems" buf True by (intro absorbed_buffer) (simp_all add: length_overwrite)
    ultimately have p: "absorbed md5_compress init ?p (m @ take 64 bs)" "h_buflen ?p = 0"
      using True "1.prems"(2) by (auto simp: md5_process_block_def intro!: absorbed_direct)
    have "length (drop 64 bs) \<ge> 64 \<or> md5_unaligned (drop 64 bs) ?p = (drop 64 bs, ?p)"
      by (subst md5_unaligned.simps) auto
    then obtain d where "drop 64 bs = d @ fst (md5_unaligned (drop 64 bs) ?p)"
      "length (fst (md5_unaligned (drop 64 bs) ?p)) \<le> 64"
      "absorbed md5_compress init (snd (md5_unaligned (drop 64 bs) ?p)) (m @ take 64 bs @ d)"
      "h_buflen (snd (md5_unaligned (drop 64 bs) ?p)) = 0"
      using "1.IH" [OF True refl p] p by fastforce
    moreover have eq: "md5_unaligned bs ctx = md5_unaligned (drop 64 bs) ?p"
      using True by (subst md5_unaligned.simps) (simp add: Let_def)
    moreover have "bs = take 64 bs @ drop 64 bs" by simp
    ultimately show ?thesis unfolding eq by (metis append.assoc)
  next
    case False
    with "1.prems" show ?thesis by (simp add: md5_unaligned.simps)
  qed
qed

lemma md5_whole_absorbs:
  assumes "absorbed md5_compress init ctx m" "h_buflen ctx = 0" "length bs < 2 ^ 32"
  shows "\<exists>d. bs = d @ fst (md5_whole u bs ctx) \<and> length (fst (md5_whole u bs ctx)) \<le> 64 \<and>
     absorbed md5_compress init (snd (md5_whole u bs ctx)) (m @ d) \<and> h_buflen (snd (md5_whole u bs ctx)) = 0"
proof (cases "length bs > 64 \<and> \<not> u")
  case True
  let ?n = "64 * (length bs div 64)"
  have "absorbed md5_compress init (md5_process_block (take ?n bs) ctx) (m @ take ?n bs)"
    using assms unfolding md5_process_block_def by (intro absorbed_direct) (auto simp: min_absorb2)
  then show ?thesis
    using True assms(2)
    by (auto simp: md5_whole_def Let_def md5_process_block_def minus_mult_div_eq_mod intro!: exI [of _ "take ?n bs"])
qed (use assms md5_unaligned_absorbs [OF assms(1,2)] in \<open>auto simp: md5_whole_def\<close>)

lemma md5_rest_absorbs:
  assumes "absorbed md5_compress init ctx m" "bs = [] \<or> h_buflen ctx = 0" "length bs \<le> 64"
  shows "absorbed md5_compress init (md5_rest bs ctx) (m @ bs)"
proof (cases "bs = []")
  case False
  with assms have "absorbed_buf md5_compress init
      (ctx\<lparr>h_buffer := overwrite (h_buffer ctx) (h_buflen ctx) bs, h_buflen := h_buflen ctx + length bs\<rparr>) (m @ bs)"
    by (intro absorbed_fill absorbed_bufI) auto
  with False assms show ?thesis by (auto simp: md5_rest_def intro!: absorbed_bufD)
qed (use assms in \<open>simp add: md5_rest_def\<close>)

lemma md5_process_bytes_absorbs:
  assumes "absorbed md5_compress init ctx m" "length bs < 2 ^ 32"
  shows "absorbed md5_compress init (md5_process_bytes u bs ctx) (m @ bs)"
proof -
  obtain r c where f: "md5_fill bs ctx = (r, c)" by fastforce
  obtain d where d: "bs = d @ r" "absorbed md5_compress init c (m @ d)" "r = [] \<or> h_buflen c = 0"
    using md5_fill_absorbs [OF assms(1), of bs] f by auto
  show ?thesis
  proof (cases "r = []")
    case True
    then show ?thesis unfolding md5_process_bytes_def f
      using d by (simp add: md5_whole_def md5_rest_def)
  next
    case False
    with d assms(2) obtain e where "r = e @ fst (md5_whole u r c)" "length (fst (md5_whole u r c)) \<le> 64"
      "absorbed md5_compress init (snd (md5_whole u r c)) (m @ d @ e)" "h_buflen (snd (md5_whole u r c)) = 0"
      using md5_whole_absorbs [of init c "m @ d" r u] by auto
    then show ?thesis
      using md5_rest_absorbs [of init "snd (md5_whole u r c)" "m @ d @ e" "fst (md5_whole u r c)"] d(1)
      unfolding md5_process_bytes_def f by (simp add: split_beta)
  qed
qed


section \<open>The compression function\<close>

definition in_places :: "nat \<Rightarrow> u32 list \<Rightarrow> md5_state \<Rightarrow> bool" where
  "in_places t v s \<longleftrightarrow> length v = 4 \<and>
     s = (v ! (3 * t mod 4), v ! ((1 + 3 * t) mod 4), v ! ((2 + 3 * t) mod 4), v ! ((3 + 3 * t) mod 4))"

lemma OP_places:
  assumes "in_places t v (a, b, c, d)"
  shows "in_places (Suc t) (OP t F w s T v) (d, b + CYCLIC (a + (F b c d + w + T)) s, b, c)"
proof -
  have "length v = Suc (Suc (Suc (Suc 0)))" using assms by (simp add: in_places_def)
  then obtain v0 v1 v2 v3 where v: "v = [v0, v1, v2, v3]" by (auto simp: length_Suc_conv)
  have main: "?thesis" if k: "t mod 4 = k" "k \<in> {0, 1, 2, 3}" for k
  proof -
    have rt: "(j + 3 * t) mod 4 = (j + 3 * k) mod 4" for j
      unfolding k(1) [symmetric] by (metis mod_add_right_eq mod_mult_right_eq)
    then have r: "(j + 3 * t) mod 4 = (j + 3 * k) mod 4" "(j + 3 * Suc t) mod 4 = (j + 3 + 3 * k) mod 4" for j
      using rt [of "j + 3"] by (simp_all add: add.assoc)
    have r0: "3 * t mod 4 = 3 * k mod 4" "3 * Suc t mod 4 = (3 + 3 * k) mod 4"
      using r [of 0] by simp_all
    have v': "(a, b, c, d) = (v ! (3 * k mod 4), v ! ((1 + 3 * k) mod 4), v ! ((2 + 3 * k) mod 4), v ! ((3 + 3 * k) mod 4))"
      using assms unfolding in_places_def r r0 by simp
    have "OP t F w s T v = v[3 * k mod 4 := b + CYCLIC (a + (F b c d + w + T)) s]"
      using v' k(2) unfolding OP_def Let_def r r0 add_0 v by (elim insertE) (simp_all add: add.commute)
    then show ?thesis
      using v' k(2) unfolding in_places_def r r0 v by (elim insertE) simp_all
  qed
  have "n = 0 \<or> n = 1 \<or> n = 2 \<or> n = 3" if "n < 4" for n :: nat
    using that by (auto simp: eval_nat_numeral less_Suc_eq)
  then have "t mod 4 \<in> {0, 1, 2, 3}" using mod_less_divisor [of 4 t] by simp
  from main [OF refl this] show ?thesis .
qed

lemma FX_rfc: "FX t = rfc_f t"
proof -
  have "FF b c d = (b AND c) OR (NOT b AND d)" "FG b c d = (b AND d) OR (c AND NOT d)" for b c d
    by (auto intro!: bit_word_eqI simp: FF_def FG_def bit_simps)
  then show ?thesis by (intro ext) (simp add: FX_def rfc_f_def FH_def FI_def)
qed

lemma md5_table_rfc: "t < 64 \<Longrightarrow> md5_table ! t = (rfc_k t, rfc_s t, rfc_T t)"
proof -
  have "\<forall>t \<in> set [0..<64]. (fst (md5_table ! t), fst (snd (md5_table ! t))) = (rfc_k t, rfc_s t)"
    by code_simp
  moreover have "length md5_table = 64" by (simp add: md5_table_def)
  then have "t < 64 \<Longrightarrow> rfc_T t = snd (snd (md5_table ! t))" by (simp add: rfc_T_def split: prod.split)
  ultimately show "t < 64 \<Longrightarrow> md5_table ! t = (rfc_k t, rfc_s t, rfc_T t)"
    by (metis atLeastLessThan_iff prod.collapse prod.inject set_upt zero_le)
qed

lemma md5_op_rfc:
  assumes "in_places t v s" "t < 64" "x = map (\<lambda>i. get32 ((!) bs) (4 * i)) [0..<16]"
  shows "in_places (Suc t) (md5_op x t v) (rfc_step bs t s)"
proof -
  obtain a b c d where s: "s = (a, b, c, d)" by (cases s) auto
  have "rfc_k t < 16" by (simp add: rfc_k_def)
  then have "x ! rfc_k t = get32 ((!) bs) (4 * rfc_k t)" by (simp add: assms(3) del: upt_rec_numeral)
  then show ?thesis
    using OP_places [OF assms(1) [unfolded s], of "FX t" "x ! rfc_k t" "rfc_s t" "rfc_T t"] assms(2)
    by (simp add: md5_op_def md5_table_rfc rfc_step_def s FX_rfc add.assoc)
qed

lemma md5_compress_rfc: "md5_compress = rfc_compress"
proof (intro ext)
  fix bs :: bytes and h :: md5_state
  obtain A B C D where h: "h = (A, B, C, D)" by (cases h) auto
  define x where "x = map (\<lambda>i. get32 ((!) bs) (4 * i)) [0..<16]"
  have "n \<le> 64 \<Longrightarrow> in_places n (fold (md5_op x) [0..<n] [A, B, C, D]) (fold (rfc_step bs) [0..<n] (A, B, C, D))" for n
  proof (induction n)
    case (Suc n)
    then show ?case using md5_op_rfc [OF _ _ x_def] by simp
  qed (simp add: in_places_def)
  from this [of 64] show "md5_compress bs h = rfc_compress bs h"
    by (auto simp: md5_compress_def rfc_compress_def h in_places_def Let_def x_def [symmetric] add.commute numeral_2_eq_2 numeral_3_eq_3
        simp del: upt_rec_numeral split: prod.splits)
qed

section \<open>The digest\<close>

lemma md5_padded_buffer:
  assumes "length buf = 128" "n \<le> 64" "pad = (if n \<ge> 56 then 64 + 56 - n else 56 - n)" "length m mod 64 = n mod 64"
    and "length a = 4" "length b = 4"
  shows "take (n + pad + 8) (overwrite (overwrite (overwrite buf n (take pad fillbuf)) (n + pad) a) (n + pad + 4) b) =
    take n buf @ 0x80 # replicate ((119 - length m mod 64) mod 64) 0 @ a @ b"
proof -
  have "pad - 1 = (119 - length m mod 64) mod 64"
    unfolding assms(3,4) using assms(2) by (cases "n < 56"; cases "n = 64") (simp_all add: mod_if)
  then have p: "take pad fillbuf = 0x80 # replicate ((119 - length m mod 64) mod 64) 0"
    using take_fillbuf [of pad] assms(2,3) by (auto split: if_splits)
  have len: "length (take pad fillbuf) = pad" "n + pad + 8 \<le> 128" using assms(2,3) by (auto simp: fillbuf_def)
  show ?thesis
    using take_overwrite [of n "take pad fillbuf" buf] len assms(1,5,6)
      take_overwrite [of "n + pad" a "overwrite buf n (take pad fillbuf)"]
      take_overwrite [of "n + pad + 4" b "overwrite (overwrite buf n (take pad fillbuf)) (n + pad) a"]
    by (simp add: length_overwrite p [symmetric] add.commute [of 8])
qed

lemma md5_finish_rfc:
  assumes "absorbed md5_compress md5_init ctx m"
  shows "md5_finish_ctx ctx = rfc_md5 m"
proof -
  define n where "n = h_buflen ctx"
  define pad where "pad = (if n \<ge> 56 then 64 + 56 - n else 56 - n)"
  from assms obtain dn where dn: "64 dvd length dn" "m = dn @ take n (h_buffer ctx)"
    "h_state ctx = blocks md5_compress dn md5_init" "count ctx = length dn mod 2 ^ 64" "length (h_buffer ctx) = 128"
    and n: "n \<le> 64" by (auto simp: absorbed_def n_def)
  define c where "c = add_count n ctx"
  define hi lo where "hi = push_bit 3 (h_total1 c) OR drop_bit 29 (h_total0 c)" and "lo = push_bit 3 (h_total0 c)"
  define B where "B = overwrite (overwrite (overwrite (h_buffer ctx) n (take pad fillbuf)) (n + pad) (le_bytes lo))
    (n + pad + 4) (le_bytes hi)"
  have len: "length m = length dn + n" using dn(2,5) n by simp
  have "length m mod 64 = n mod 64" using dn(1) unfolding len by (metis add.commute dvd_imp_mod_0 mod_add_right_eq add.right_neutral)
  note p = md5_padded_buffer [OF dn(5) n pad_def this length_le_bytes(1) length_le_bytes(1), of lo hi, folded B_def]
  have "count c = length m mod 2 ^ 64"
    using count_add [of n ctx] n dn(4) by (simp add: c_def len mod_add_left_eq)
  note bits = bit_count_words [OF this, folded hi_def lo_def]
  have "rfc_pad m = dn @ take (n + pad + 8) B"
    unfolding p rfc_pad_def bits(1) [symmetric] bits(2) [symmetric] by (subst dn(2)) simp
  then have spec: "blocks rfc_compress (rfc_pad m) md5_init = blocks md5_compress (take (n + pad + 8) B) (h_state ctx)"
    by (simp add: blocks_append [OF dn(1)] dn(3) md5_compress_rfc)
  have c: "h_buffer c = h_buffer ctx" "h_state c = h_state ctx" by (simp_all add: c_def add_count_def Let_def)
  have cf: "(if unat (h_total0 (ctx\<lparr>h_total0 := h_total0 ctx + of_nat n\<rparr>)) < n
      then ctx\<lparr>h_total0 := h_total0 ctx + of_nat n\<rparr>\<lparr>h_total1 := h_total1 (ctx\<lparr>h_total0 := h_total0 ctx + of_nat n\<rparr>) + 1\<rparr>
      else ctx\<lparr>h_total0 := h_total0 ctx + of_nat n\<rparr>) = c"
    using count_finish [of n ctx] n by (simp add: c_def Let_def)
  have "md5_finish_ctx ctx = md5_read_ctx (md5_process_block (take (n + pad + 8) B) (c\<lparr>h_buffer := B\<rparr>))"
    unfolding md5_finish_ctx_def Let_def n_def [symmetric] cf pad_def [symmetric] c(1)
    unfolding hi_def [symmetric] lo_def [symmetric] B_def ..
  then show ?thesis
    by (auto simp: md5_read_ctx_def md5_process_block_def rfc_md5_def spec c(2) split: prod.split)
qed

interpretation md5: digest md5_compress md5_init md5_init_ctx md5_process_bytes md5_finish_ctx rfc_md5
proof
  show "length (h_buffer ctx) = 128 \<Longrightarrow> absorbed md5_compress md5_init (md5_init_ctx ctx) []" for ctx
    by (auto simp: absorbed_def md5_init_ctx_def count_def intro: exI [of _ "[]"])
qed (simp_all add: md5_process_bytes_absorbs md5_finish_rfc)

text \<open>MD5 of a message fed to \<open>md5_process_bytes\<close> in any pieces of less than 4 GB each, at any
  alignments, is the digest RFC 1321 defines for their concatenation.
\<close>

theorem md5_pieces:
  "length (h_buffer ctx) = 128 \<Longrightarrow> \<forall>(u, bs) \<in> set pieces. length bs < 2 ^ 32 \<Longrightarrow>
   md5_finish_ctx (fold (\<lambda>(u, bs). md5_process_bytes u bs) pieces (md5_init_ctx ctx)) =
     rfc_md5 (concat (map snd pieces))"
  by (rule md5.digest_pieces)

definition md5_fresh :: md5_ctx where
  "md5_fresh = \<lparr>h_state = (0, 0, 0, 0), h_total0 = 0, h_total1 = 0, h_buflen = 0, h_buffer = replicate 128 0\<rparr>"

lemma md5_pieces_witness:
  "md5_finish_ctx (fold (\<lambda>(u, bs). md5_process_bytes u bs) [(False, of_string ''a''), (True, of_string ''bc'')] (md5_init_ctx md5_fresh)) =
    rfc_md5 (of_string ''abc'')"
  by (subst md5_pieces) (simp_all add: md5_fresh_def of_string_def)

section \<open>Streams\<close>

text \<open>
  \<open>md5_stream\<close> in blocks of 4096 bytes. The inner loop fills \<open>buffer\<close> until it is full or a read
  gives nothing; \<open>n\<close> is what the last read gave.
\<close>

function md5_read_block :: "bytes \<Rightarrow> c_file \<Rightarrow> nat \<times> bytes \<times> c_file" where
  "md5_read_block buffer stream =
     (let (bs, stream) = fread (4096 - length buffer) stream;
          buffer = buffer @ bs
      in if length buffer < 4096 \<and> bs \<noteq> [] then md5_read_block buffer stream else (length bs, buffer, stream))"
  by pat_completeness auto
termination
  by (relation "measure (\<lambda>(buffer, _). 4096 - length buffer)") (auto simp: fread_def Let_def simp flip: length_greater_0_conv)

declare md5_read_block.simps [simp del]

lemma md5_read_block_reads:
  "md5_read_block buffer stream = (n, buffer', stream') \<Longrightarrow> n \<noteq> 0 \<Longrightarrow> length (f_data stream') < length (f_data stream)"
proof (induction buffer stream rule: md5_read_block.induct)
  case (1 buffer stream)
  obtain bs s where f: "fread (4096 - length buffer) stream = (bs, s)" by fastforce
  then have "length (f_data s) + length bs = length (f_data stream)"
    by (auto simp: fread_def Let_def split: if_splits)
  with "1.IH" [OF f [symmetric] refl] "1.prems" f show ?case
    by (subst (asm) (2) md5_read_block.simps) (auto simp: Let_def split: if_splits)
qed

function md5_stream_loop :: "c_file \<Rightarrow> md5_ctx \<Rightarrow> bytes option" where
  "md5_stream_loop stream ctx =
     (let (n, buffer, stream) = md5_read_block [] stream
      in if n = 0 \<and> f_error stream then None
         else if n = 0 then Some (md5_finish_ctx (if length buffer > 0 then md5_process_bytes False buffer ctx else ctx))
         else md5_stream_loop stream (md5_process_block buffer ctx))"
  by pat_completeness auto
termination
  by (relation "measure (\<lambda>(stream, _). length (f_data stream))") (auto dest: md5_read_block_reads [OF sym])

declare md5_stream_loop.simps [simp del]

text \<open>The result is the digest, or \<open>None\<close> where the code returns 1.\<close>

definition md5_stream :: "c_file \<Rightarrow> md5_ctx \<Rightarrow> bytes option" where
  "md5_stream stream ctx = md5_stream_loop stream (md5_init_ctx ctx)"

lemma md5_read_block_opened:
  "md5_read_block [] (opened data fails) =
    (if length data \<ge> 4096 then (4096, take 4096 data, opened (drop 4096 data) fails)
     else if fails then (0, data, (opened [] True)\<lparr>f_error := True\<rparr>)
     else (0, data, (opened [] False)\<lparr>f_eof := True\<rparr>))"
proof -
  have "md5_read_block data (f\<lparr>f_data := []\<rparr>) = (0, data, if f_fails f then f\<lparr>f_data := [], f_error := True\<rparr> else f\<lparr>f_data := [], f_eof := True\<rparr>)"
    if "length data < 4096" for f data
    using that by (subst md5_read_block.simps) (simp add: fread_def Let_def)
  from this [of _ "\<lparr>f_data = [], f_fails = fails, f_eof = \<not> fails, f_error = fails\<rparr>"] show ?thesis
    by (subst md5_read_block.simps) (auto simp: fread_def Let_def opened_def min_def)
qed

lemma md5_stream_loop_reads:
  "absorbed md5_compress md5_init ctx m \<Longrightarrow> h_buflen ctx = 0 \<Longrightarrow>
   md5_stream_loop (opened data fails) ctx = (if fails then None else Some (rfc_md5 (m @ data)))"
proof (induction "length data" arbitrary: data ctx m rule: less_induct)
  case less
  show ?case
  proof (cases "length data \<ge> 4096")
    case True
    let ?c = "md5_process_block (take 4096 data) ctx"
    have "absorbed md5_compress md5_init ?c (m @ take 4096 data)" "h_buflen ?c = 0"
      using True less.prems by (auto simp: md5_process_block_def intro!: absorbed_direct)
    with less.hyps [of "drop 4096 data"] True show ?thesis
      by (subst md5_stream_loop.simps) (simp add: md5_read_block_opened)
  next
    case False
    have "md5_finish_ctx (if length data > 0 then md5_process_bytes False data ctx else ctx) = rfc_md5 (m @ data)"
      using md5_process_bytes_absorbs [OF less.prems(1), of data] less.prems(1) False by (auto intro!: md5_finish_rfc)
    with False show ?thesis
      by (subst md5_stream_loop.simps) (simp add: md5_read_block_opened, simp add: opened_def)
  qed
qed

text \<open>\<open>md5_stream\<close> of a file gives the MD5 of all its bytes, whatever their number, and returns 1
  exactly when reading ends in an error.
\<close>

theorem md5_stream_correct:
  "length (h_buffer ctx) = 128 \<Longrightarrow>
   md5_stream (opened data fails) ctx = (if fails then None else Some (rfc_md5 data))"
  unfolding md5_stream_def
  by (subst md5_stream_loop_reads [OF md5.start]) (simp_all add: md5_init_ctx_def)

lemma md5_stream_correct_witness:
  "md5_stream (opened (replicate 5000 7) False) md5_fresh = Some (rfc_md5 (replicate 5000 7)) \<and>
   md5_stream (opened (replicate 5000 7) True) md5_fresh = None"
  by (simp add: md5_stream_correct md5_fresh_def)

end
