(* ===== verification/Splay_Tree.thy ===== *)
theory Splay_Tree
  imports Prelude
begin

text \<open>
  The splay trees of \<^verbatim>\<open>src/binutils-2.42/libiberty/splay-tree.c\<close>: a map ordered by a comparison function,
  whose every access moves the key it looks for to the root. Nodes are owned by the tree alone, so
  a tree of pointers is a \<open>splay_node\<close> value and a changed pointer is a new tree; the calls of the
  client's \<open>delete_key\<close> and \<open>delete_value\<close> are a log. The locale \<open>comparator\<close> is what the client promises
  of its comparison function; the functions of the file are interpreted as instances of it.
\<close>

section \<open>Data\<close>

datatype ('k, 'v) splay_node = NULL | Node (node_left: "('k, 'v) splay_node") (node_key: 'k) (node_value: 'v)
    (node_right: "('k, 'v) splay_node")
  where "node_left NULL = NULL" | "node_right NULL = NULL"

datatype ('k, 'v) event = Allocate | Delete_key 'k | Delete_value 'v | Deallocate

record ('k, 'v) splay_tree =
  root :: "('k, 'v) splay_node"
  comp :: "'k \<Rightarrow> 'k \<Rightarrow> int"
  delete_key :: bool
  delete_value :: bool
  trace :: "('k, 'v) event list"

text \<open>The entries of a tree from left to right.\<close>

fun entries :: "('k, 'v) splay_node \<Rightarrow> ('k \<times> 'v) list" where
  "entries NULL = []"
| "entries (Node l k v r) = entries l @ (k, v) # entries r"

section \<open>Splaying\<close>

text \<open>\<open>rotate_left\<close> lifts the left child \<open>n\<close> of \<open>p\<close> over it, \<open>rotate_right\<close> the right child.\<close>

fun rotate_left :: "('k, 'v) splay_node \<Rightarrow> ('k, 'v) splay_node" where
  "rotate_left (Node (Node a nk nv tmp) pk pv b) = Node a nk nv (Node tmp pk pv b)"
| "rotate_left p = p"

fun rotate_right :: "('k, 'v) splay_node \<Rightarrow> ('k, 'v) splay_node" where
  "rotate_right (Node a pk pv (Node tmp nk nv b)) = Node (Node a pk pv tmp) nk nv b"
| "rotate_right p = p"

text \<open>The two rotations of the double cases: one at a child of the root, then one at the root.\<close>

fun at_left :: "(('k, 'v) splay_node \<Rightarrow> ('k, 'v) splay_node) \<Rightarrow> ('k, 'v) splay_node \<Rightarrow> ('k, 'v) splay_node" where
  "at_left f (Node l k v r) = Node (f l) k v r"
| "at_left f NULL = NULL"

fun at_right :: "(('k, 'v) splay_node \<Rightarrow> ('k, 'v) splay_node) \<Rightarrow> ('k, 'v) splay_node \<Rightarrow> ('k, 'v) splay_node" where
  "at_right f (Node l k v r) = Node l k v (f r)"
| "at_right f NULL = NULL"

text \<open>The number of nodes a search for a key meets.\<close>

fun path :: "('k \<Rightarrow> 'k \<Rightarrow> int) \<Rightarrow> 'k \<Rightarrow> ('k, 'v) splay_node \<Rightarrow> nat" where
  "path cmp key NULL = 0"
| "path cmp key (Node l k v r) =
     Suc (if cmp key k = 0 then 0 else if cmp key k < 0 then path cmp key l else path cmp key r)"

text \<open>Whether the first two steps of the search are in the same direction.\<close>

definition straight :: "('k \<Rightarrow> 'k \<Rightarrow> int) \<Rightarrow> 'k \<Rightarrow> ('k, 'v) splay_node \<Rightarrow> bool" where
  "straight cmp key t = (case t of NULL \<Rightarrow> False | Node l k v r \<Rightarrow>
     (case (if cmp key k < 0 then l else r) of NULL \<Rightarrow> False | Node l' k' v' r' \<Rightarrow> (cmp key k < 0) = (cmp key k' < 0)))"

function splay :: "('k \<Rightarrow> 'k \<Rightarrow> int) \<Rightarrow> 'k \<Rightarrow> ('k, 'v) splay_node \<Rightarrow> ('k, 'v) splay_node" where
  "splay cmp key n =
     (case n of NULL \<Rightarrow> n
      | Node nl nk nv nr \<Rightarrow>
          let cmp1 = cmp key nk in
          if cmp1 = 0 then n
          else (case (if cmp1 < 0 then nl else nr) of NULL \<Rightarrow> n
                | Node cl ck cv cr \<Rightarrow>
                    let cmp2 = cmp key ck in
                    if cmp2 = 0 \<or> cmp2 < 0 \<and> cl = NULL \<or> cmp2 > 0 \<and> cr = NULL
                    then if cmp1 < 0 then rotate_left n else rotate_right n
                    else if cmp1 < 0 \<and> cmp2 < 0 then splay cmp key (rotate_left (at_left rotate_left n))
                    else if cmp1 > 0 \<and> cmp2 > 0 then splay cmp key (rotate_right (at_right rotate_right n))
                    else if cmp1 < 0 \<and> cmp2 > 0 then splay cmp key (rotate_left (at_left rotate_right n))
                    else splay cmp key (rotate_right (at_right rotate_left n))))"
  by pat_completeness auto
termination
proof (relation "measure (\<lambda>(cmp, key, n). 2 * path cmp key n + (if straight cmp key n then 1 else 0))", goal_cases)
  case (2 cmp key n nl nk nv nr x cl ck cv cr xb)
  then have n: "n = Node (Node cl ck cv cr) nk nv nr" "cl \<noteq> NULL" by auto
  then show ?case using 2 by (cases cl) (auto simp: straight_def split: splay_node.split)
next
  case (3 cmp key n nl nk nv nr x cl ck cv cr xb)
  then have n: "n = Node nl nk nv (Node cl ck cv cr)" "cr \<noteq> NULL" by auto
  then show ?case using 3 by (cases cr) (auto simp: straight_def split: splay_node.split)
next
  case (4 cmp key n nl nk nv nr x cl ck cv cr xb)
  then have n: "n = Node (Node cl ck cv cr) nk nv nr" "cr \<noteq> NULL" by auto
  then show ?case using 4 by (cases cr) (auto simp: straight_def split: splay_node.split)
next
  case (5 cmp key n nl nk nv nr x cl ck cv cr xb)
  then have n: "n = Node nl nk nv (Node cl ck cv cr)" "cl \<noteq> NULL" by (auto split: if_splits)
  then show ?case using 5 by (cases cl) (auto simp: straight_def split: splay_node.split)
qed simp

declare splay.simps [simp del]

definition splay_tree_splay :: "('k, 'v) splay_tree \<Rightarrow> 'k \<Rightarrow> ('k, 'v) splay_tree" where
  "splay_tree_splay sp key = sp\<lparr>root := splay (comp sp) key (root sp)\<rparr>"

section \<open>Operations\<close>

definition splay_tree_new :: "('k \<Rightarrow> 'k \<Rightarrow> int) \<Rightarrow> bool \<Rightarrow> bool \<Rightarrow> ('k, 'v) splay_tree" where
  "splay_tree_new compare_fn delete_key_fn delete_value_fn =
     \<lparr>root = NULL, comp = compare_fn, delete_key = delete_key_fn, delete_value = delete_value_fn, trace = [Allocate]\<rparr>"

definition call :: "('k, 'v) event list \<Rightarrow> ('k, 'v) splay_tree \<Rightarrow> ('k, 'v) splay_tree" where
  "call es sp = sp\<lparr>trace := trace sp @ es\<rparr>"

text \<open>The calls that drop a key and a value, where the client has set the two functions.\<close>

definition drops :: "('k, 'v) splay_tree \<Rightarrow> 'k \<Rightarrow> 'v \<Rightarrow> ('k, 'v) event list" where
  "drops sp k v = (if delete_key sp then [Delete_key k] else []) @ (if delete_value sp then [Delete_value v] else [])"

definition splay_tree_insert :: "('k, 'v) splay_tree \<Rightarrow> 'k \<Rightarrow> 'v \<Rightarrow> ('k, 'v) splay_tree" where
  "splay_tree_insert sp key value =
     (let sp = splay_tree_splay sp key
      in case root sp of
           NULL \<Rightarrow> call [Allocate] (sp\<lparr>root := Node NULL key value NULL\<rparr>)
         | Node l k v r \<Rightarrow>
             let comparison = comp sp k key
             in if comparison = 0 then call (drops sp k v) (sp\<lparr>root := Node l key value r\<rparr>)
                else if comparison < 0 then call [Allocate] (sp\<lparr>root := Node (Node l k v NULL) key value r\<rparr>)
                else call [Allocate] (sp\<lparr>root := Node l key value (Node NULL k v r)\<rparr>))"

text \<open>\<open>right\<close> hung off the right-most node of a tree.\<close>

fun hang :: "('k, 'v) splay_node \<Rightarrow> ('k, 'v) splay_node \<Rightarrow> ('k, 'v) splay_node" where
  "hang (Node l k v r) right = (if r \<noteq> NULL then Node l k v (hang r right) else Node l k v right)"
| "hang NULL right = NULL"

definition splay_tree_remove :: "('k, 'v) splay_tree \<Rightarrow> 'k \<Rightarrow> ('k, 'v) splay_tree" where
  "splay_tree_remove sp key =
     (let sp = splay_tree_splay sp key
      in case root sp of
           NULL \<Rightarrow> sp
         | Node l k v r \<Rightarrow>
             if comp sp k key = 0
             then call (drops sp k v @ [Deallocate])
               (sp\<lparr>root := (if l \<noteq> NULL then if r \<noteq> NULL then hang l r else l else r)\<rparr>)
             else sp)"

text \<open>A returned node is its key and value.\<close>

definition splay_tree_lookup :: "('k, 'v) splay_tree \<Rightarrow> 'k \<Rightarrow> ('k \<times> 'v) option \<times> ('k, 'v) splay_tree" where
  "splay_tree_lookup sp key =
     (let sp = splay_tree_splay sp key
      in case root sp of
           NULL \<Rightarrow> (None, sp)
         | Node l k v r \<Rightarrow> (if comp sp k key = 0 then Some (k, v) else None, sp))"

fun rightmost :: "('k, 'v) splay_node \<Rightarrow> ('k \<times> 'v) option" where
  "rightmost NULL = None"
| "rightmost (Node l k v r) = (if r \<noteq> NULL then rightmost r else Some (k, v))"

fun leftmost :: "('k, 'v) splay_node \<Rightarrow> ('k \<times> 'v) option" where
  "leftmost NULL = None"
| "leftmost (Node l k v r) = (if l \<noteq> NULL then leftmost l else Some (k, v))"

definition splay_tree_max :: "('k, 'v) splay_tree \<Rightarrow> ('k \<times> 'v) option" where
  "splay_tree_max sp = rightmost (root sp)"

definition splay_tree_min :: "('k, 'v) splay_tree \<Rightarrow> ('k \<times> 'v) option" where
  "splay_tree_min sp = leftmost (root sp)"

definition splay_tree_predecessor :: "('k, 'v) splay_tree \<Rightarrow> 'k \<Rightarrow> ('k \<times> 'v) option \<times> ('k, 'v) splay_tree" where
  "splay_tree_predecessor sp key =
     (if root sp = NULL then (None, sp)
      else
        (let sp = splay_tree_splay sp key
         in case root sp of
              NULL \<Rightarrow> (None, sp)
            | Node l k v r \<Rightarrow> (if comp sp k key < 0 then Some (k, v) else rightmost l, sp)))"

definition splay_tree_successor :: "('k, 'v) splay_tree \<Rightarrow> 'k \<Rightarrow> ('k \<times> 'v) option \<times> ('k, 'v) splay_tree" where
  "splay_tree_successor sp key =
     (if root sp = NULL then (None, sp)
      else
        (let sp = splay_tree_splay sp key
         in case root sp of
              NULL \<Rightarrow> (None, sp)
            | Node l k v r \<Rightarrow> (if comp sp k key > 0 then Some (k, v) else leftmost r, sp)))"

text \<open>
  The traversal of \<open>splay_tree_foreach\<close>: down the left edge onto the stack, then the node on top, then
  its right child. \<open>fn\<close> gets the client's data and may stop the traversal.
\<close>

fun push_left :: "('k, 'v) splay_node \<Rightarrow> ('k, 'v) splay_node list \<Rightarrow> ('k, 'v) splay_node list" where
  "push_left NULL stack = stack"
| "push_left (Node l k v r) stack = push_left l (Node l k v r # stack)"

definition pending_size :: "('k, 'v) splay_node list \<Rightarrow> nat" where
  "pending_size stack = sum_list (map (\<lambda>n. Suc (length (entries (node_right n)))) stack)"

lemma pending_size_push_left:
  "pending_size (push_left node stack) = length (entries node) + pending_size stack"
  by (induction node stack rule: push_left.induct) (auto simp: pending_size_def)

function foreach_loop :: "('k \<Rightarrow> 'v \<Rightarrow> 's \<Rightarrow> int \<times> 's) \<Rightarrow> ('k, 'v) splay_node \<Rightarrow> ('k, 'v) splay_node list \<Rightarrow> 's \<Rightarrow> int \<times> 's" where
  "foreach_loop fn node stack data =
     (case push_left node stack of
        [] \<Rightarrow> (0, data)
      | node # stack \<Rightarrow>
          (case fn (node_key node) (node_value node) data of
             (val, data) \<Rightarrow> if val \<noteq> 0 then (val, data) else foreach_loop fn (node_right node) stack data))"
  by pat_completeness auto
termination
proof (relation "measure (\<lambda>(fn, node, stack, data). length (entries node) + pending_size stack)", goal_cases)
  case (2 fn node stack data top rest)
  from 2(1) pending_size_push_left [of node stack] show ?case by (simp add: pending_size_def)
qed simp

declare foreach_loop.simps [simp del]

definition splay_tree_foreach :: "('k, 'v) splay_tree \<Rightarrow> ('k \<Rightarrow> 'v \<Rightarrow> 's \<Rightarrow> int \<times> 's) \<Rightarrow> 's \<Rightarrow> int \<times> 's" where
  "splay_tree_foreach sp fn data = foreach_loop fn (root sp) [] data"

text \<open>
  The deletion of a whole tree. A node whose key and value are already dropped is in a list (its key
  field is the link); \<open>delete_active\<close> works off the list \<open>active\<close>, putting the children on \<open>pending\<close>.
\<close>

definition visit :: "('k, 'v) splay_node \<Rightarrow> ('k, 'v) splay_node list \<times> ('k, 'v) splay_tree \<Rightarrow> ('k, 'v) splay_node list \<times> ('k, 'v) splay_tree" where
  "visit node = (\<lambda>(pending, sp).
     case node of NULL \<Rightarrow> (pending, sp) | Node l k v r \<Rightarrow> (node # pending, call (drops sp k v) sp))"

fun delete_active :: "('k, 'v) splay_node list \<Rightarrow> ('k, 'v) splay_node list \<times> ('k, 'v) splay_tree \<Rightarrow> ('k, 'v) splay_node list \<times> ('k, 'v) splay_tree" where
  "delete_active [] st = st"
| "delete_active (temp # active) st =
     (case visit (node_right temp) (visit (node_left temp) st) of
        (pending, sp) \<Rightarrow> delete_active active (pending, call [Deallocate] sp))"

definition sizes :: "('k, 'v) splay_node list \<Rightarrow> nat" where
  "sizes ns = sum_list (map (\<lambda>n. length (entries n)) ns)"

lemma sizes_delete_active:
  "sizes (fst (delete_active active (pending, sp))) + length (filter (\<lambda>n. n \<noteq> NULL) active) = sizes active + sizes pending"
proof (induction active arbitrary: pending sp)
  case (Cons temp active)
  then show ?case
    by (cases temp) (auto simp: sizes_def visit_def split: splay_node.split prod.split)
qed (simp add: sizes_def)

lemma NULL_delete_active: "NULL \<in> set (fst (delete_active active (pending, sp))) \<longleftrightarrow> NULL \<in> set pending"
  by (induction active arbitrary: pending sp) (auto simp: visit_def split: splay_node.split prod.split)

function delete_pending :: "('k, 'v) splay_node list \<times> ('k, 'v) splay_tree \<Rightarrow> ('k, 'v) splay_tree" where
  "delete_pending (pending, sp) = (if pending = [] then sp else delete_pending (delete_active pending ([], sp)))"
  by pat_completeness auto
termination
proof (relation "measure (\<lambda>(pending, sp). sizes pending + (if NULL \<in> set pending then 1 else 0))", goal_cases)
  case (2 pending sp)
  obtain ns sp' where ns: "delete_active pending ([], sp) = (ns, sp')" by fastforce
  from sizes_delete_active [of pending "[]" sp] NULL_delete_active [of pending "[]" sp] 2 show ?case
    by (cases "filter (\<lambda>n. n \<noteq> NULL) pending") (auto simp: sizes_def filter_empty_conv ns neq_Nil_conv)
qed simp

declare delete_pending.simps [simp del]

definition splay_tree_delete :: "('k, 'v) splay_tree \<Rightarrow> ('k, 'v) event list" where
  "splay_tree_delete sp = trace (call [Deallocate] (delete_pending (visit (root sp) ([], sp))))"

section \<open>Comparison functions\<close>

definition splay_tree_compare_ints :: "u64 \<Rightarrow> u64 \<Rightarrow> int" where
  "splay_tree_compare_ints k1 k2 =
     (if sint (ucast k1 :: u32) < sint (ucast k2 :: u32) then -1
      else if sint (ucast k1 :: u32) > sint (ucast k2 :: u32) then 1 else 0)"

definition splay_tree_compare_pointers :: "u64 \<Rightarrow> u64 \<Rightarrow> int" where
  "splay_tree_compare_pointers k1 k2 = (if k1 < k2 then -1 else if k1 > k2 then 1 else 0)"

section \<open>The order of the entries\<close>

lemma entries_Nil [simp]: "entries t = [] \<longleftrightarrow> t = NULL"
  by (cases t) auto

end
