(* ===== verification/Splay_Order.thy ===== *)
theory Splay_Order
  imports Splay_Tree
begin

text \<open>
  The effect of the splay tree operations on the entries of the tree in their order: splaying keeps
  them and splits them at the key, so that insertion, removal and the searches are those of a sorted list.
\<close>


text \<open>
  Induction along a splay: it stops at the root, rotates once, or brings the grandchild \<open>g\<close> to the root in
  one of four ways and goes on.
\<close>

lemma splay_induct [case_names empty stop left right left_left right_right left_right right_left]:
  assumes "P NULL NULL"
    and stop: "\<And>l k v r. cmp key k = 0 \<or> cmp key k < 0 \<and> l = NULL \<or> cmp key k > 0 \<and> r = NULL \<Longrightarrow>
      P (Node l k v r) (Node l k v r)"
    and left: "\<And>a ck cv b nk nv d. cmp key nk < 0 \<Longrightarrow>
      cmp key ck = 0 \<or> cmp key ck < 0 \<and> a = NULL \<or> cmp key ck > 0 \<and> b = NULL \<Longrightarrow>
      P (Node (Node a ck cv b) nk nv d) (Node a ck cv (Node b nk nv d))"
    and right: "\<And>a nk nv b ck cv d. cmp key nk > 0 \<Longrightarrow>
      cmp key ck = 0 \<or> cmp key ck < 0 \<and> b = NULL \<or> cmp key ck > 0 \<and> d = NULL \<Longrightarrow>
      P (Node a nk nv (Node b ck cv d)) (Node (Node a nk nv b) ck cv d)"
    and left_left: "\<And>a gk gv b ck cv c nk nv d t. cmp key nk < 0 \<Longrightarrow> cmp key ck < 0 \<Longrightarrow>
      P (Node a gk gv (Node (Node b ck cv c) nk nv d)) t \<Longrightarrow> P (Node (Node (Node a gk gv b) ck cv c) nk nv d) t"
    and right_right: "\<And>a nk nv b ck cv c gk gv d t. cmp key nk > 0 \<Longrightarrow> cmp key ck > 0 \<Longrightarrow>
      P (Node (Node a nk nv (Node b ck cv c)) gk gv d) t \<Longrightarrow> P (Node a nk nv (Node b ck cv (Node c gk gv d))) t"
    and left_right: "\<And>a ck cv b gk gv c nk nv d t. cmp key nk < 0 \<Longrightarrow> cmp key ck > 0 \<Longrightarrow>
      P (Node (Node a ck cv b) gk gv (Node c nk nv d)) t \<Longrightarrow> P (Node (Node a ck cv (Node b gk gv c)) nk nv d) t"
    and right_left: "\<And>a nk nv b gk gv c ck cv d t. cmp key nk > 0 \<Longrightarrow> cmp key ck < 0 \<Longrightarrow>
      P (Node (Node a nk nv b) gk gv (Node c ck cv d)) t \<Longrightarrow> P (Node a nk nv (Node (Node b gk gv c) ck cv d)) t"
  shows "P t (splay cmp key t)"
  using assms
proof (induction cmp key t rule: splay.induct)
  case (1 cmp key n)
  note P = "1.prems"
  show ?case
  proof (cases n)
    case NULL
    with P(1) show ?thesis by (simp add: splay.simps)
  next
    case n: (Node nl nk nv nr)
    show ?thesis
    proof (cases "cmp key nk = 0 \<or> (if cmp key nk < 0 then nl else nr) = NULL")
      case True
      then have "splay cmp key n = n" by (subst splay.simps) (auto simp: n Let_def)
      moreover have "cmp key nk = 0 \<or> cmp key nk < 0 \<and> nl = NULL \<or> cmp key nk > 0 \<and> nr = NULL"
        using True by (cases "cmp key nk" "0 :: int" rule: linorder_cases) auto
      ultimately show ?thesis using P(2) [of nk nl nr nv] by (simp add: n)
    next
      case False
      then obtain cl ck cv cr where c: "(if cmp key nk < 0 then nl else nr) = Node cl ck cv cr" by (cases "if cmp key nk < 0 then nl else nr") auto
      consider (once) "cmp key ck = 0 \<or> cmp key ck < 0 \<and> cl = NULL \<or> cmp key ck > 0 \<and> cr = NULL"
        | (ll) a gk gv b where "cmp key nk < 0" "cmp key ck < 0" "cl = Node a gk gv b"
        | (rr) a gk gv b where "cmp key nk > 0" "cmp key ck > 0" "cr = Node a gk gv b"
        | (lr) a gk gv b where "cmp key nk < 0" "cmp key ck > 0" "cr = Node a gk gv b"
        | (rl) a gk gv b where "cmp key nk > 0" "cmp key ck < 0" "cl = Node a gk gv b"
        using False by (cases cl; cases cr; cases "cmp key ck" "0 :: int" rule: linorder_cases) (auto simp: linorder_neq_iff)
      then show ?thesis
      proof cases
        case once
        then show ?thesis
          using False c P(3) [of nk ck cl cr cv nv nr] P(4) [of nk ck cl cr nl nv cv] 
          by (subst splay.simps) (auto simp: n split: if_splits)
      next
        case ll
        have "splay cmp key n = splay cmp key (Node a gk gv (Node (Node b ck cv cr) nk nv nr))"
          using ll c by (subst splay.simps) (simp add: n)
        moreover have "P (Node a gk gv (Node (Node b ck cv cr) nk nv nr)) (splay cmp key (Node a gk gv (Node (Node b ck cv cr) nk nv nr)))"
          using "1.IH"(1) [OF n refl _ c refl _ _ P] ll c n by simp
        moreover have "n = Node (Node (Node a gk gv b) ck cv cr) nk nv nr" using ll c n by simp
        ultimately show ?thesis using P(5) ll by simp
      next
        case rr
        have "splay cmp key n = splay cmp key (Node (Node nl nk nv (Node cl ck cv a)) gk gv b)"
          using rr c by (subst splay.simps) (simp add: n)
        moreover have "P (Node (Node nl nk nv (Node cl ck cv a)) gk gv b) (splay cmp key (Node (Node nl nk nv (Node cl ck cv a)) gk gv b))"
          using "1.IH"(2) [OF n refl _ c refl _ _ _ P] rr c n by simp
        moreover have "n = Node nl nk nv (Node cl ck cv (Node a gk gv b))" using rr c n by simp
        ultimately show ?thesis using P(6) rr by simp
      next
        case lr
        have "splay cmp key n = splay cmp key (Node (Node cl ck cv a) gk gv (Node b nk nv nr))"
          using lr c by (subst splay.simps) (simp add: n)
        moreover have "P (Node (Node cl ck cv a) gk gv (Node b nk nv nr)) (splay cmp key (Node (Node cl ck cv a) gk gv (Node b nk nv nr)))"
          using "1.IH"(3) [OF n refl _ c refl _ _ _ _ P] lr c n by simp
        moreover have "n = Node (Node cl ck cv (Node a gk gv b)) nk nv nr" using lr c n by simp
        ultimately show ?thesis using P(7) lr by simp
      next
        case rl
        have "splay cmp key n = splay cmp key (Node (Node nl nk nv a) gk gv (Node b ck cv cr))"
          using rl c by (subst splay.simps) (simp add: n)
        moreover have "P (Node (Node nl nk nv a) gk gv (Node b ck cv cr)) (splay cmp key (Node (Node nl nk nv a) gk gv (Node b ck cv cr)))"
          using "1.IH"(4) [OF n refl _ c refl _ _ _ _ P] rl c n by simp
        moreover have "n = Node nl nk nv (Node (Node a gk gv b) ck cv cr)" using rl c n by simp
        ultimately show ?thesis using P(8) rl by simp
      qed
    qed
  qed
qed

text \<open>Splaying keeps the entries, whatever the comparison function does.\<close>

lemma entries_splay [simp]: "entries (splay cmp key t) = entries t"
  by (induction t rule: splay_induct [where cmp = cmp and key = key]) auto

lemma splay_NULL [simp]: "splay cmp key t = NULL \<longleftrightarrow> t = NULL"
  using entries_Nil [of "splay cmp key t"] entries_Nil [of t] by simp

lemma splay_Node: "splay cmp key t = Node l k v r \<Longrightarrow> entries l @ (k, v) # entries r = entries t"
  using entries_splay [of cmp key t] by simp

lemma splay_empty [simp]: "splay cmp key NULL = NULL"
  by simp

lemma entries_hang: "l \<noteq> NULL \<Longrightarrow> entries (hang l r) = entries l @ entries r"
  by (induction l r rule: hang.induct) auto

lemma rightmost_entries: "rightmost t = (if t = NULL then None else Some (last (entries t)))"
  by (induction t) auto

lemma leftmost_entries: "leftmost t = (if t = NULL then None else Some (hd (entries t)))"
  by (induction t) (auto simp: hd_append)

section \<open>What the client promises of its comparison function\<close>

text \<open>
  The reference: entries in the order of a rank of the keys, split at a key.
\<close>

definition ordered :: "('k \<Rightarrow> 'r::linorder) \<Rightarrow> ('k \<times> 'v) list \<Rightarrow> bool" where
  "ordered rank es \<longleftrightarrow> sorted_wrt (\<lambda>d e. rank (fst d) < rank (fst e)) es"

definition below :: "('k \<Rightarrow> 'r::linorder) \<Rightarrow> 'k \<Rightarrow> ('k \<times> 'v) list \<Rightarrow> ('k \<times> 'v) list" where
  "below rank key es = filter (\<lambda>e. rank (fst e) < rank key) es"

definition above :: "('k \<Rightarrow> 'r::linorder) \<Rightarrow> 'k \<Rightarrow> ('k \<times> 'v) list \<Rightarrow> ('k \<times> 'v) list" where
  "above rank key es = filter (\<lambda>e. rank key < rank (fst e)) es"

definition entry :: "('k \<Rightarrow> 'r::linorder) \<Rightarrow> 'k \<Rightarrow> ('k \<times> 'v) list \<Rightarrow> ('k \<times> 'v) option" where
  "entry rank key es = find (\<lambda>e. rank (fst e) = rank key) es"

definition last_of :: "'e list \<Rightarrow> 'e option" where
  "last_of es = (if es = [] then None else Some (last es))"

definition first_of :: "'e list \<Rightarrow> 'e option" where
  "first_of es = (if es = [] then None else Some (hd es))"

text \<open>A tree of the client: its comparison function, and keys in order.\<close>

definition valid :: "('k \<Rightarrow> 'k \<Rightarrow> int) \<Rightarrow> ('k \<Rightarrow> 'r::linorder) \<Rightarrow> ('k, 'v) splay_tree \<Rightarrow> bool" where
  "valid cmp rank sp \<longleftrightarrow> comp sp = cmp \<and> ordered rank (entries (root sp))"

lemma validD: "valid cmp rank sp \<Longrightarrow> comp sp = cmp" "valid cmp rank sp \<Longrightarrow> ordered rank (entries (root sp))"
  by (simp_all add: valid_def)

locale comparator =
  fixes cmp :: "'k \<Rightarrow> 'k \<Rightarrow> int" and rank :: "'k \<Rightarrow> 'r::linorder"
  assumes less: "cmp a b < 0 \<longleftrightarrow> rank a < rank b"
    and same: "cmp a b = 0 \<longleftrightarrow> rank a = rank b"
begin

lemma greater: "cmp a b > 0 \<longleftrightarrow> rank b < rank a"
  using less [of a b] same [of a b] by auto

lemma ordered_append:
  "ordered rank (ds @ es) \<longleftrightarrow> ordered rank ds \<and> ordered rank es \<and> (\<forall>d \<in> set ds. \<forall>e \<in> set es. rank (fst d) < rank (fst e))"
  by (simp add: ordered_def sorted_wrt_append)

lemma ordered_Cons: "ordered rank (d # es) \<longleftrightarrow> ordered rank es \<and> (\<forall>e \<in> set es. rank (fst d) < rank (fst e))"
  by (auto simp: ordered_def)

lemma ordered_Nil [simp]: "ordered rank []"
  by (simp add: ordered_def)

lemmas ordered_simps = ordered_append ordered_Cons

text \<open>After a splay only the root is not on its side of the key.\<close>

lemma splay_splits:
  "ordered rank (entries t) \<Longrightarrow>
   case splay cmp key t of NULL \<Rightarrow> True
   | Node l k v r \<Rightarrow> (\<forall>e \<in> set (entries l). rank (fst e) < rank key) \<and> (\<forall>e \<in> set (entries r). rank key < rank (fst e))"
proof (induction t rule: splay_induct [where cmp = cmp and key = key])
  case (stop l k v r)
  then show ?case by (auto simp: ordered_simps same less greater)
next
  case (left a ck cv b nk nv d)
  then show ?case by (auto simp: ordered_simps same less greater) (metis UnI1 fst_conv less_trans)+
next
  case (right a nk nv b ck cv d)
  then show ?case by (auto simp: ordered_simps same less greater)
qed (auto simp: ordered_simps)

lemma filter_side:
  "(\<forall>e \<in> set es. rank (fst e) < rank key) \<Longrightarrow> below rank key es = es \<and> above rank key es = [] \<and> entry rank key es = None"
  "(\<forall>e \<in> set es. rank key < rank (fst e)) \<Longrightarrow> below rank key es = [] \<and> above rank key es = es \<and> entry rank key es = None"
  by (auto simp: below_def above_def entry_def find_None_iff filter_id_conv filter_empty_conv dest: less_asym)

lemma filter_append:
  "below rank key (ds @ es) = below rank key ds @ below rank key es" "above rank key (ds @ es) = above rank key ds @ above rank key es"
  "entry rank key (ds @ es) = (case entry rank key ds of None \<Rightarrow> entry rank key es | Some e \<Rightarrow> Some e)"
  by (simp_all add: below_def above_def) (induction ds; simp add: entry_def)

lemma filter_Cons:
  "below rank key (e # es) = (if rank (fst e) < rank key then e # below rank key es else below rank key es)"
  "above rank key (e # es) = (if rank key < rank (fst e) then e # above rank key es else above rank key es)"
  "entry rank key (e # es) = (if rank (fst e) = rank key then Some e else entry rank key es)"
  by (simp_all add: below_def above_def entry_def)

lemma splay_parts:
  assumes "ordered rank (entries t)" "splay cmp key t = Node l k v r"
  shows "below rank key (entries t) = entries l @ (if rank k < rank key then [(k, v)] else [])"
    "above rank key (entries t) = (if rank key < rank k then [(k, v)] else []) @ entries r"
    "entry rank key (entries t) = (if rank k = rank key then Some (k, v) else None)"
proof -
  have e: "entries t = entries l @ (k, v) # entries r"
    using entries_splay [of cmp key t] assms(2) by simp
  have "\<forall>e \<in> set (entries l). rank (fst e) < rank key" "\<forall>e \<in> set (entries r). rank key < rank (fst e)"
    using splay_splits [OF assms(1), of key] assms(2) by simp_all
  note filter_side(1) [OF this(1)] filter_side(2) [OF this(2)]
  then show "below rank key (entries t) = entries l @ (if rank k < rank key then [(k, v)] else [])"
    "above rank key (entries t) = (if rank key < rank k then [(k, v)] else []) @ entries r"
    "entry rank key (entries t) = (if rank k = rank key then Some (k, v) else None)"
    unfolding e by (simp_all add: filter_append filter_Cons)
qed

lemma parts_NULL [simp]: "below rank key [] = []" "above rank key [] = []" "entry rank key [] = None"
  by (simp_all add: below_def above_def entry_def)

lemma insert_entries:
  assumes "valid cmp rank sp"
  shows "entries (root (splay_tree_insert sp key value)) =
    below rank key (entries (root sp)) @ (key, value) # above rank key (entries (root sp))"
proof (cases "splay cmp key (root sp)")
  case NULL
  then show ?thesis
    using validD [OF assms] by (simp add: splay_tree_insert_def splay_tree_splay_def call_def Let_def)
next
  case (Node l k v r)
  note splay_parts [OF validD(2) [OF assms] Node]
  then show ?thesis
    using validD(1) [OF assms] Node less [of k key] same [of k key]
    by (auto simp: splay_tree_insert_def splay_tree_splay_def call_def Let_def)
qed

lemma remove_entries:
  assumes "valid cmp rank sp"
  shows "entries (root (splay_tree_remove sp key)) = below rank key (entries (root sp)) @ above rank key (entries (root sp))"
proof (cases "splay cmp key (root sp)")
  case NULL
  then show ?thesis
    using validD [OF assms] by (simp add: splay_tree_remove_def splay_tree_splay_def Let_def)
next
  case (Node l k v r)
  have "entries (root sp) = entries l @ (k, v) # entries r"
    using entries_splay [of cmp key "root sp"] Node by simp
  then show ?thesis
    using validD(1) [OF assms] Node less [of k key] same [of k key] splay_parts [OF validD(2) [OF assms] Node]
    by (auto simp: splay_tree_remove_def splay_tree_splay_def call_def Let_def entries_hang)
qed

lemma lookup_entry:
  assumes "valid cmp rank sp"
  shows "fst (splay_tree_lookup sp key) = entry rank key (entries (root sp))"
    "entries (root (snd (splay_tree_lookup sp key))) = entries (root sp)"
proof -
  show "fst (splay_tree_lookup sp key) = entry rank key (entries (root sp))"
    using validD [OF assms] splay_parts(3) [of "root sp" key] 
    by (auto simp: splay_tree_lookup_def splay_tree_splay_def Let_def same split: splay_node.split)
  show "entries (root (snd (splay_tree_lookup sp key))) = entries (root sp)"
    using validD [OF assms]
    by (auto dest: splay_Node simp: splay_tree_lookup_def splay_tree_splay_def Let_def split: splay_node.split)
qed

lemma predecessor_entry:
  assumes "valid cmp rank sp"
  shows "fst (splay_tree_predecessor sp key) = last_of (below rank key (entries (root sp)))"
    "entries (root (snd (splay_tree_predecessor sp key))) = entries (root sp)"
proof -
  show "fst (splay_tree_predecessor sp key) = last_of (below rank key (entries (root sp)))"
    using validD [OF assms] splay_parts(1) [of "root sp" key]
    by (auto simp: splay_tree_predecessor_def splay_tree_splay_def Let_def less last_of_def rightmost_entries split: splay_node.split)
  show "entries (root (snd (splay_tree_predecessor sp key))) = entries (root sp)"
    using validD [OF assms]
    by (auto dest: splay_Node simp: splay_tree_predecessor_def splay_tree_splay_def Let_def split: splay_node.split)
qed

lemma successor_entry:
  assumes "valid cmp rank sp"
  shows "fst (splay_tree_successor sp key) = first_of (above rank key (entries (root sp)))"
    "entries (root (snd (splay_tree_successor sp key))) = entries (root sp)"
proof -
  show "fst (splay_tree_successor sp key) = first_of (above rank key (entries (root sp)))"
    using validD [OF assms] splay_parts(2) [of "root sp" key]
    by (auto simp: splay_tree_successor_def splay_tree_splay_def Let_def greater first_of_def leftmost_entries split: splay_node.split)
  show "entries (root (snd (splay_tree_successor sp key))) = entries (root sp)"
    using validD [OF assms]
    by (auto dest: splay_Node simp: splay_tree_successor_def splay_tree_splay_def Let_def split: splay_node.split)
qed

end
end
