(* ===== verification/Splay_Session.thy ===== *)
theory Splay_Session
  imports Splay_Order "HOL-Library.Multiset"
begin

text \<open>
  Sequences of operations on a splay tree: their results are those of a sorted list, and the deletion of
  the tree at the end leaves no node allocated and has dropped every inserted key and value once.
\<close>

section \<open>Sessions\<close>

datatype ('k, 'v) op = Insert 'k 'v | Remove 'k | Lookup 'k | Max | Min | Predecessor 'k | Successor 'k

fun node_entry :: "('k, 'v) splay_node \<Rightarrow> ('k \<times> 'v) option" where
  "node_entry NULL = None"
| "node_entry (Node l k v r) = Some (k, v)"

text \<open>One call and the node it returns; \<open>splay_tree_insert\<close> returns the root.\<close>

fun perform :: "('k, 'v) op \<Rightarrow> ('k, 'v) splay_tree \<Rightarrow> ('k \<times> 'v) option \<times> ('k, 'v) splay_tree" where
  "perform (Insert k v) sp = (let sp = splay_tree_insert sp k v in (node_entry (root sp), sp))"
| "perform (Remove k) sp = (None, splay_tree_remove sp k)"
| "perform (Lookup k) sp = splay_tree_lookup sp k"
| "perform Max sp = (splay_tree_max sp, sp)"
| "perform Min sp = (splay_tree_min sp, sp)"
| "perform (Predecessor k) sp = splay_tree_predecessor sp k"
| "perform (Successor k) sp = splay_tree_successor sp k"

text \<open>The same on a list in the order of the ranks.\<close>

fun perform_list :: "('k \<Rightarrow> 'r::linorder) \<Rightarrow> ('k, 'v) op \<Rightarrow> ('k \<times> 'v) list \<Rightarrow> ('k \<times> 'v) option \<times> ('k \<times> 'v) list" where
  "perform_list rank (Insert k v) es = (Some (k, v), below rank k es @ (k, v) # above rank k es)"
| "perform_list rank (Remove k) es = (None, below rank k es @ above rank k es)"
| "perform_list rank (Lookup k) es = (entry rank k es, es)"
| "perform_list rank Max es = (last_of es, es)"
| "perform_list rank Min es = (first_of es, es)"
| "perform_list rank (Predecessor k) es = (last_of (below rank k es), es)"
| "perform_list rank (Successor k) es = (first_of (above rank k es), es)"

fun in_turn :: "('o \<Rightarrow> 's \<Rightarrow> 'a \<times> 's) \<Rightarrow> 'o list \<Rightarrow> 's \<Rightarrow> 'a list \<times> 's" where
  "in_turn f [] s = ([], s)"
| "in_turn f (x # xs) s = (case f x s of (a, s) \<Rightarrow> case in_turn f xs s of (as, s) \<Rightarrow> (a # as, s))"

lemma comp_perform [simp]: "comp (snd (perform x sp)) = comp sp"
  by (cases x) (auto simp: splay_tree_insert_def splay_tree_remove_def splay_tree_lookup_def splay_tree_predecessor_def
    splay_tree_successor_def splay_tree_splay_def call_def Let_def split: splay_node.split)

lemma node_entry_insert: "node_entry (root (splay_tree_insert sp k v)) = Some (k, v)"
  by (auto simp: splay_tree_insert_def splay_tree_splay_def call_def Let_def split: splay_node.split)

context comparator
begin

lemma ordered_parts:
  assumes "ordered rank es"
  shows "ordered rank (below rank k es @ (k, v) # above rank k es)" "ordered rank (below rank k es @ above rank k es)"
proof -
  have "ordered rank (below rank k es)" "ordered rank (above rank k es)"
    using assms by (simp_all add: ordered_def below_def above_def sorted_wrt_filter)
  then show "ordered rank (below rank k es @ (k, v) # above rank k es)" "ordered rank (below rank k es @ above rank k es)"
    by (auto simp: ordered_simps below_def above_def intro: less_trans)
qed

lemma entry_parts:
  "entry rank k' (below rank k es) = (if rank k' < rank k then entry rank k' es else None)"
  "entry rank k' (above rank k es) = (if rank k < rank k' then entry rank k' es else None)"
  by (induction es) (auto simp: entry_def below_def above_def)

lemma perform_refines:
  assumes "valid cmp rank sp"
  shows "perform_list rank x (entries (root sp)) =
      (fst (perform x sp), entries (root (snd (perform x sp))))"
    and "valid cmp rank (snd (perform x sp))"
proof -
  show eq: "perform_list rank x (entries (root sp)) =
      (fst (perform x sp), entries (root (snd (perform x sp))))"
    using assms by (cases x)
      (simp_all add: Let_def node_entry_insert insert_entries remove_entries lookup_entry predecessor_entry successor_entry
        splay_tree_max_def splay_tree_min_def rightmost_entries leftmost_entries last_of_def first_of_def)
  have "ordered rank (snd (perform_list rank x (entries (root sp))))"
    using validD(2) [OF assms] by (cases x) (simp_all add: ordered_parts)
  with eq validD(1) [OF assms] show "valid cmp rank (snd (perform x sp))" by (simp add: valid_def)
qed

lemma session_refines:
  "valid cmp rank sp \<Longrightarrow> fst (in_turn perform xs sp) = fst (in_turn (perform_list rank) xs (entries (root sp))) \<and>
    entries (root (snd (in_turn perform xs sp))) = snd (in_turn (perform_list rank) xs (entries (root sp))) \<and>
    valid cmp rank (snd (in_turn perform xs sp))"
proof (induction xs arbitrary: sp)
  case (Cons x xs)
  from Cons.IH [OF perform_refines(2) [OF Cons.prems]] show ?case
    by (simp add: perform_refines(1) [OF Cons.prems] split_beta)
qed simp

lemma valid_new: "valid cmp rank (splay_tree_new cmp dk dv)"
  by (simp add: valid_def splay_tree_new_def)

lemma lookup_insert:
  assumes "valid cmp rank sp"
  shows "fst (splay_tree_lookup (splay_tree_insert sp k v) k') =
    (if rank k' = rank k then Some (k, v) else fst (splay_tree_lookup sp k'))"
proof -
  have valid: "valid cmp rank (splay_tree_insert sp k v)"
    using perform_refines(2) [OF assms, of "Insert k v"] by (simp add: Let_def)
  show ?thesis
    using linorder_less_linear [of "rank k" "rank k'"]
    by (auto simp: lookup_entry [OF valid] lookup_entry [OF assms] insert_entries [OF assms]
        filter_append filter_Cons entry_parts split: option.splits)
qed

end

section \<open>Keys, values and nodes are dropped once\<close>

text \<open>The calls that are still to come for the entries of a tree, and the balance of a tree.\<close>

definition owed :: "('k, 'v) splay_tree \<Rightarrow> ('k \<times> 'v) list \<Rightarrow> ('k, 'v) event multiset" where
  "owed sp es = mset (concat (map (\<lambda>(k, v). drops sp k v @ [Deallocate]) es))"

definition balance :: "('k, 'v) splay_tree \<Rightarrow> ('k, 'v) event multiset" where
  "balance sp = mset (trace sp) + owed sp (entries (root sp))"

lemma owed_simps [simp]:
  "owed sp [] = {#}"
  "owed sp ((k, v) # es) = mset (drops sp k v) + {#Deallocate#} + owed sp es"
  "owed sp (ds @ es) = owed sp ds + owed sp es"
  by (simp_all add: owed_def)

lemma drops_cong: "delete_key sp = delete_key sp' \<Longrightarrow> delete_value sp = delete_value sp' \<Longrightarrow> drops sp = drops sp'"
  by (simp add: drops_def fun_eq_iff)

lemma drops_call [simp]: "drops (call es sp) = drops sp" "drops (sp\<lparr>root := t\<rparr>) = drops sp"
  by (rule drops_cong; simp add: call_def)+

lemma owed_call [simp]: "owed (call es sp) = owed sp" "owed (sp\<lparr>root := t\<rparr>) = owed sp"
  by (simp_all add: owed_def fun_eq_iff)

lemma trace_call [simp]: "trace (call es sp) = trace sp @ es" "root (call es sp) = root sp" "comp (call es sp) = comp sp"
  by (simp_all add: call_def)

definition pays :: "('k, 'v) op \<Rightarrow> ('k, 'v) splay_tree \<Rightarrow> ('k, 'v) event multiset" where
  "pays x sp = (case x of Insert k v \<Rightarrow> mset (drops sp k v) | _ \<Rightarrow> {#})"

definition a_node :: "('k, 'v) event multiset" where
  "a_node = {#Allocate, Deallocate#}"

lemma balance_insert:
  "\<exists>n. balance (splay_tree_insert sp k v) = balance sp + mset (drops sp k v) + repeat_mset n a_node"
proof (cases "splay (comp sp) k (root sp)")
  case NULL
  then have "balance (splay_tree_insert sp k v) = balance sp + mset (drops sp k v) + repeat_mset 1 a_node"
    by (simp add: splay_tree_insert_def splay_tree_splay_def Let_def balance_def a_node_def)
  then show ?thesis ..
next
  case (Node l k' v' r)
  note [simp] = splay_Node [OF Node, symmetric]
  let ?n = "if comp sp k' k = 0 then 0 else 1 :: nat"
  have "balance (splay_tree_insert sp k v) = balance sp + mset (drops sp k v) + repeat_mset ?n a_node"
    using Node by (simp add: splay_tree_insert_def splay_tree_splay_def Let_def balance_def a_node_def)
  then show ?thesis ..
qed

lemma balance_remove: "balance (splay_tree_remove sp k) = balance sp"
proof (cases "splay (comp sp) k (root sp)")
  case (Node l k' v' r)
  note [simp] = splay_Node [OF Node, symmetric]
  show ?thesis
    using Node by (simp add: splay_tree_remove_def splay_tree_splay_def Let_def balance_def entries_hang)
qed (simp add: splay_tree_remove_def splay_tree_splay_def Let_def balance_def)

lemma balance_splay: "balance (splay_tree_splay sp k) = balance sp"
  by (simp add: balance_def splay_tree_splay_def)

lemma snd_searches:
  "snd (splay_tree_lookup sp k) = splay_tree_splay sp k"
  "snd (splay_tree_predecessor sp k) = (if root sp = NULL then sp else splay_tree_splay sp k)"
  "snd (splay_tree_successor sp k) = (if root sp = NULL then sp else splay_tree_splay sp k)"
  by (simp_all add: splay_tree_lookup_def splay_tree_predecessor_def splay_tree_successor_def Let_def split: splay_node.split)

lemma balance_perform: "\<exists>n. balance (snd (perform x sp)) = balance sp + pays x sp + repeat_mset n a_node"
proof (cases x)
  case (Insert k v)
  then show ?thesis using balance_insert [of sp k v] by (simp add: pays_def Let_def)
qed (auto simp: pays_def balance_remove balance_splay snd_searches intro: exI [of _ 0])

lemma drops_perform: "drops (snd (perform x sp)) = drops sp"
  by (rule drops_cong; cases x) (auto simp: splay_tree_insert_def splay_tree_remove_def splay_tree_lookup_def splay_tree_predecessor_def
    splay_tree_successor_def splay_tree_splay_def call_def Let_def split: splay_node.split)

definition inserted :: "('k, 'v) op list \<Rightarrow> ('k \<times> 'v) list" where
  "inserted xs = concat (map (\<lambda>x. case x of Insert k v \<Rightarrow> [(k, v)] | _ \<Rightarrow> []) xs)"

lemma balance_session:
  "\<exists>n. balance (snd (in_turn perform xs sp)) =
    balance sp + mset (concat (map (\<lambda>(k, v). drops sp k v) (inserted xs))) + repeat_mset n a_node"
proof (induction xs arbitrary: sp)
  case (Cons x xs)
  obtain n where "balance (snd (perform x sp)) = balance sp + pays x sp + repeat_mset n a_node"
    using balance_perform by blast
  moreover obtain n' where "balance (snd (in_turn perform xs (snd (perform x sp)))) =
    balance (snd (perform x sp)) + mset (concat (map (\<lambda>(k, v). drops sp k v) (inserted xs))) + repeat_mset n' a_node"
    using Cons.IH [of "snd (perform x sp)"] by (auto simp: drops_perform)
  ultimately have "balance (snd (in_turn perform (x # xs) sp)) =
    balance sp + mset (concat (map (\<lambda>(k, v). drops sp k v) (inserted (x # xs)))) + repeat_mset (n + n') a_node"
    by (cases x) (simp_all add: split_beta inserted_def pays_def repeat_mset_distrib)
  then show ?case ..
qed (auto simp: inserted_def intro: exI [of _ 0])

text \<open>The worklist of the deletion: what is still to be called for the nodes on it.\<close>

definition owed_nodes :: "('k, 'v) splay_tree \<Rightarrow> ('k, 'v) splay_node list \<Rightarrow> ('k, 'v) event multiset" where
  "owed_nodes sp ns = (\<Sum>n \<leftarrow> ns. owed sp (entries (node_left n)) + owed sp (entries (node_right n)) + {#Deallocate#})"

lemma owed_nodes_simps [simp]:
  "owed_nodes sp [] = {#}" "owed_nodes (call es sp) = owed_nodes sp"
  "owed_nodes sp (n # ns) = owed sp (entries (node_left n)) + owed sp (entries (node_right n)) + {#Deallocate#} + owed_nodes sp ns"
  by (simp_all add: owed_nodes_def fun_eq_iff)

lemma visit_owed:
  "visit n (ns, sp) = (ns', sp') \<Longrightarrow>
   mset (trace sp') + owed_nodes sp ns' = mset (trace sp) + owed_nodes sp ns + owed sp (entries n) \<and>
   owed sp' = owed sp \<and> owed_nodes sp' = owed_nodes sp"
  by (cases n) (auto simp: visit_def)

lemma delete_active_owed:
  "delete_active active (ns, sp) = (ns', sp') \<Longrightarrow>
   mset (trace sp') + owed_nodes sp ns' = mset (trace sp) + owed_nodes sp ns + owed_nodes sp active \<and>
   owed_nodes sp' = owed_nodes sp"
proof (induction active arbitrary: ns sp)
  case (Cons temp active)
  obtain ns1 sp1 where 1: "visit (node_left temp) (ns, sp) = (ns1, sp1)" by fastforce
  obtain ns2 sp2 where 2: "visit (node_right temp) (ns1, sp1) = (ns2, sp2)" by fastforce
  have "delete_active active (ns2, call [Deallocate] sp2) = (ns', sp')" using Cons.prems 1 2 by simp
  from Cons.IH [OF this] visit_owed [OF 1] visit_owed [OF 2] show ?case
    by simp
qed simp

lemma delete_pending_owed:
  "mset (trace (delete_pending (ns, sp))) = mset (trace sp) + owed_nodes sp ns"
proof (induction "(ns, sp)" arbitrary: ns sp rule: delete_pending.induct)
  case (1 ns sp)
  obtain ns' sp' where d: "delete_active ns ([], sp) = (ns', sp')" by fastforce
  show ?case
  proof (cases "ns = []")
    case False
    with 1 [OF False, of ns' sp'] delete_active_owed [OF d] show ?thesis
      by (subst delete_pending.simps) (simp add: d)
  qed (simp add: delete_pending.simps)
qed

lemma delete_balance: "mset (splay_tree_delete sp) = balance sp + {#Deallocate#}"
proof -
  obtain ns sp' where v: "visit (root sp) ([], sp) = (ns, sp')" by fastforce
  show ?thesis
    using visit_owed [OF v] by (simp add: splay_tree_delete_def v delete_pending_owed balance_def)
qed

section \<open>The traversal\<close>

fun until :: "('k \<Rightarrow> 'v \<Rightarrow> 's \<Rightarrow> int \<times> 's) \<Rightarrow> ('k \<times> 'v) list \<Rightarrow> 's \<Rightarrow> int \<times> 's" where
  "until fn [] data = (0, data)"
| "until fn ((k, v) # es) data = (case fn k v data of (val, data) \<Rightarrow> if val \<noteq> 0 then (val, data) else until fn es data)"

definition rest :: "('k, 'v) splay_node list \<Rightarrow> ('k \<times> 'v) list" where
  "rest stack = concat (map (\<lambda>n. (node_key n, node_value n) # entries (node_right n)) stack)"

lemma rest_push_left: "rest (push_left node stack) = entries node @ rest stack"
  by (induction node stack rule: push_left.induct) (simp_all add: rest_def)

lemma foreach_loop_until: "foreach_loop fn node stack data = until fn (entries node @ rest stack) data"
proof (induction fn node stack data rule: foreach_loop.induct)
  case (1 fn node stack data)
  show ?case
  proof (cases "push_left node stack")
    case Nil
    then have "entries node @ rest stack = []" using rest_push_left [of node stack] by (simp add: rest_def)
    with Nil show ?thesis by (subst foreach_loop.simps) simp
  next
    case (Cons top stack')
    then have "entries node @ rest stack = (node_key top, node_value top) # entries (node_right top) @ rest stack'"
      using rest_push_left [of node stack] by (simp add: rest_def)
    with 1 [OF Cons] Cons show ?thesis
      by (subst foreach_loop.simps) (auto split: prod.split)
  qed
qed

section \<open>The comparison functions of the file\<close>

definition int_rank :: "u64 \<Rightarrow> int" where
  "int_rank k = sint (ucast k :: u32)"

interpretation ints: comparator splay_tree_compare_ints int_rank
  by unfold_locales (auto simp: splay_tree_compare_ints_def int_rank_def)

interpretation pointers: comparator splay_tree_compare_pointers "\<lambda>k. k"
  by unfold_locales (auto simp: splay_tree_compare_pointers_def)

section \<open>Properties\<close>

text \<open>C36: Any sequence of calls on a new tree of pointer keys returns the entries that a list in the order of
  the addresses returns, and leaves the tree with the entries of that list.
\<close>

theorem splay_tree_is_sorted_list:
  "fst (in_turn perform ops (splay_tree_new splay_tree_compare_pointers dk dv)) =
     fst (in_turn (perform_list (\<lambda>k. k)) ops []) \<and>
   entries (root (snd (in_turn perform ops (splay_tree_new splay_tree_compare_pointers dk dv)))) =
     snd (in_turn (perform_list (\<lambda>k. k)) ops [])"
  using pointers.session_refines [OF pointers.valid_new, of ops dk dv] by (simp add: splay_tree_new_def)

text \<open>After an insertion under the comparison of keys as ints a lookup finds the new entry for every key
  with the same low 32 bits, and what it found before for every other key.
\<close>

theorem splay_tree_lookup_insert:
  "valid splay_tree_compare_ints int_rank sp \<Longrightarrow>
   fst (splay_tree_lookup (splay_tree_insert sp k v) k') =
     (if (ucast k' :: u32) = ucast k then Some (k, v) else fst (splay_tree_lookup sp k'))"
  using ints.lookup_insert [of sp k v k'] by (auto simp: int_rank_def dest: signed_word_eqI)

lemma splay_tree_lookup_insert_witness:
  "fst (splay_tree_lookup (splay_tree_insert (splay_tree_new splay_tree_compare_ints True True) 5 ''a'') 0x100000005) = Some (5, ''a'')"
  by (subst splay_tree_lookup_insert [OF ints.valid_new]) simp

text \<open>When a tree is deleted after any sequence of calls, every key and value that was inserted has been
  dropped once, where the client set the functions for it, and every allocation (of the \<open>n\<close> nodes and
  of the tree itself) has been deallocated: for every comparison function.
\<close>

theorem splay_tree_drops_once:
  "\<exists>n. mset (splay_tree_delete (snd (in_turn perform ops (splay_tree_new cmp dk dv)))) =
     mset (concat (map (\<lambda>(k, v). (if dk then [Delete_key k] else []) @ (if dv then [Delete_value v] else [])) (inserted ops)))
     + repeat_mset (Suc n) {#Allocate, Deallocate#}"
proof -
  let ?sp = "splay_tree_new cmp dk dv"
  have new: "balance ?sp = {#Allocate#}" "drops ?sp = (\<lambda>k v. (if dk then [Delete_key k] else []) @ (if dv then [Delete_value v] else []))"
    by (simp_all add: balance_def splay_tree_new_def drops_def fun_eq_iff)
  obtain n where "balance (snd (in_turn perform ops ?sp)) =
    balance ?sp + mset (concat (map (\<lambda>(k, v). drops ?sp k v) (inserted ops))) + repeat_mset n a_node"
    using balance_session by blast
  then show ?thesis
    unfolding delete_balance new by (intro exI [of _ n]) (simp add: a_node_def)
qed

text \<open>The traversal calls the client's function on the entries in order until it returns a non-zero value.\<close>

theorem splay_tree_foreach_in_order:
  "splay_tree_foreach sp fn data = until fn (entries (root sp)) data"
  by (simp add: splay_tree_foreach_def foreach_loop_until rest_def)

end
