(* ===== verification/Crc32.thy ===== *)
theory Crc32
  imports Prelude
begin

text \<open>
  The CRC of \<^verbatim>\<open>src/binutils-2.42/libiberty/crc32.c\<close>: the table of 256 words and the loop that takes
  a byte per step. The reference is the shift register that takes a bit per step, as in the
  program quoted in the file; from it come the laws of the checksum and what it detects.
\<close>

unbundle bit_operations_syntax

section \<open>crc32.c\<close>

definition crc32_table :: "u32 list" where
  "crc32_table = [
    0x00000000, 0x04c11db7, 0x09823b6e, 0x0d4326d9, 0x130476dc, 0x17c56b6b, 0x1a864db2, 0x1e475005,
    0x2608edb8, 0x22c9f00f, 0x2f8ad6d6, 0x2b4bcb61, 0x350c9b64, 0x31cd86d3, 0x3c8ea00a, 0x384fbdbd,
    0x4c11db70, 0x48d0c6c7, 0x4593e01e, 0x4152fda9, 0x5f15adac, 0x5bd4b01b, 0x569796c2, 0x52568b75,
    0x6a1936c8, 0x6ed82b7f, 0x639b0da6, 0x675a1011, 0x791d4014, 0x7ddc5da3, 0x709f7b7a, 0x745e66cd,
    0x9823b6e0, 0x9ce2ab57, 0x91a18d8e, 0x95609039, 0x8b27c03c, 0x8fe6dd8b, 0x82a5fb52, 0x8664e6e5,
    0xbe2b5b58, 0xbaea46ef, 0xb7a96036, 0xb3687d81, 0xad2f2d84, 0xa9ee3033, 0xa4ad16ea, 0xa06c0b5d,
    0xd4326d90, 0xd0f37027, 0xddb056fe, 0xd9714b49, 0xc7361b4c, 0xc3f706fb, 0xceb42022, 0xca753d95,
    0xf23a8028, 0xf6fb9d9f, 0xfbb8bb46, 0xff79a6f1, 0xe13ef6f4, 0xe5ffeb43, 0xe8bccd9a, 0xec7dd02d,
    0x34867077, 0x30476dc0, 0x3d044b19, 0x39c556ae, 0x278206ab, 0x23431b1c, 0x2e003dc5, 0x2ac12072,
    0x128e9dcf, 0x164f8078, 0x1b0ca6a1, 0x1fcdbb16, 0x018aeb13, 0x054bf6a4, 0x0808d07d, 0x0cc9cdca,
    0x7897ab07, 0x7c56b6b0, 0x71159069, 0x75d48dde, 0x6b93dddb, 0x6f52c06c, 0x6211e6b5, 0x66d0fb02,
    0x5e9f46bf, 0x5a5e5b08, 0x571d7dd1, 0x53dc6066, 0x4d9b3063, 0x495a2dd4, 0x44190b0d, 0x40d816ba,
    0xaca5c697, 0xa864db20, 0xa527fdf9, 0xa1e6e04e, 0xbfa1b04b, 0xbb60adfc, 0xb6238b25, 0xb2e29692,
    0x8aad2b2f, 0x8e6c3698, 0x832f1041, 0x87ee0df6, 0x99a95df3, 0x9d684044, 0x902b669d, 0x94ea7b2a,
    0xe0b41de7, 0xe4750050, 0xe9362689, 0xedf73b3e, 0xf3b06b3b, 0xf771768c, 0xfa325055, 0xfef34de2,
    0xc6bcf05f, 0xc27dede8, 0xcf3ecb31, 0xcbffd686, 0xd5b88683, 0xd1799b34, 0xdc3abded, 0xd8fba05a,
    0x690ce0ee, 0x6dcdfd59, 0x608edb80, 0x644fc637, 0x7a089632, 0x7ec98b85, 0x738aad5c, 0x774bb0eb,
    0x4f040d56, 0x4bc510e1, 0x46863638, 0x42472b8f, 0x5c007b8a, 0x58c1663d, 0x558240e4, 0x51435d53,
    0x251d3b9e, 0x21dc2629, 0x2c9f00f0, 0x285e1d47, 0x36194d42, 0x32d850f5, 0x3f9b762c, 0x3b5a6b9b,
    0x0315d626, 0x07d4cb91, 0x0a97ed48, 0x0e56f0ff, 0x1011a0fa, 0x14d0bd4d, 0x19939b94, 0x1d528623,
    0xf12f560e, 0xf5ee4bb9, 0xf8ad6d60, 0xfc6c70d7, 0xe22b20d2, 0xe6ea3d65, 0xeba91bbc, 0xef68060b,
    0xd727bbb6, 0xd3e6a601, 0xdea580d8, 0xda649d6f, 0xc423cd6a, 0xc0e2d0dd, 0xcda1f604, 0xc960ebb3,
    0xbd3e8d7e, 0xb9ff90c9, 0xb4bcb610, 0xb07daba7, 0xae3afba2, 0xaafbe615, 0xa7b8c0cc, 0xa379dd7b,
    0x9b3660c6, 0x9ff77d71, 0x92b45ba8, 0x9675461f, 0x8832161a, 0x8cf30bad, 0x81b02d74, 0x857130c3,
    0x5d8a9099, 0x594b8d2e, 0x5408abf7, 0x50c9b640, 0x4e8ee645, 0x4a4ffbf2, 0x470cdd2b, 0x43cdc09c,
    0x7b827d21, 0x7f436096, 0x7200464f, 0x76c15bf8, 0x68860bfd, 0x6c47164a, 0x61043093, 0x65c52d24,
    0x119b4be9, 0x155a565e, 0x18197087, 0x1cd86d30, 0x029f3d35, 0x065e2082, 0x0b1d065b, 0x0fdc1bec,
    0x3793a651, 0x3352bbe6, 0x3e119d3f, 0x3ad08088, 0x2497d08d, 0x2056cd3a, 0x2d15ebe3, 0x29d4f654,
    0xc5a92679, 0xc1683bce, 0xcc2b1d17, 0xc8ea00a0, 0xd6ad50a5, 0xd26c4d12, 0xdf2f6bcb, 0xdbee767c,
    0xe3a1cbc1, 0xe760d676, 0xea23f0af, 0xeee2ed18, 0xf0a5bd1d, 0xf464a0aa, 0xf9278673, 0xfde69bc4,
    0x89b8fd09, 0x8d79e0be, 0x803ac667, 0x84fbdbd0, 0x9abc8bd5, 0x9e7d9662, 0x933eb0bb, 0x97ffad0c,
    0xafb010b1, 0xab710d06, 0xa6322bdf, 0xa2f33668, 0xbcb4666d, 0xb8757bda, 0xb5365d03, 0xb1f740b4]"

fun xcrc32 :: "bytes \<Rightarrow> u32 \<Rightarrow> u32" where
  "xcrc32 [] crc = crc"
| "xcrc32 (b # buf) crc =
     xcrc32 buf (push_bit 8 crc XOR crc32_table ! unat ((drop_bit 24 crc XOR ucast b) AND 255))"

section \<open>The shift register\<close>

text \<open>One bit: the register shifted, and the polynomial added when the bit that leaves it is set.\<close>

definition shift :: "u32 \<Rightarrow> u32" where
  "shift c = (if bit c 31 then push_bit 1 c XOR 0x04c11db7 else push_bit 1 c)"

text \<open>A byte is added at the top, then eight shifts.\<close>

definition feed :: "u8 \<Rightarrow> u32 \<Rightarrow> u32" where
  "feed b c = (shift ^^ 8) (c XOR push_bit 24 (ucast b))"

lemma shift_xor: "shift (a XOR b) = shift a XOR shift b"
  by (rule bit_word_eqI) (auto simp: shift_def bit_simps)

lemma shifts_xor: "(shift ^^ n) (a XOR b) = (shift ^^ n) a XOR (shift ^^ n) b"
  by (induction n) (simp_all add: shift_xor)

lemma shifts_small: "n \<le> 32 \<Longrightarrow> (\<And>i. 32 - n \<le> i \<Longrightarrow> \<not> bit c i) \<Longrightarrow> (shift ^^ n) c = push_bit n c"
proof (induction n)
  case (Suc n)
  then have "(shift ^^ n) c = push_bit n c" by simp
  moreover have "\<not> bit (push_bit n c) 31" using Suc.prems(1) Suc.prems(2) [of "31 - n"] by (auto simp: bit_simps)
  ultimately show ?case by (simp add: shift_def [of "push_bit n c"])
qed simp

text \<open>The entries from index \<open>i\<close> on, with \<open>c\<close> the byte \<open>i\<close> at the top of the register.\<close>

fun is_table :: "u32 \<Rightarrow> u32 list \<Rightarrow> bool" where
  "is_table c [] = True"
| "is_table c (x # xs) = (shift (shift (shift (shift (shift (shift (shift (shift c))))))) = x \<and> is_table (c + 0x1000000) xs)"

lemma is_table_nth: "is_table c xs \<Longrightarrow> i < length xs \<Longrightarrow> xs ! i = (shift ^^ 8) (c + 0x1000000 * of_nat i)"
proof (induction xs arbitrary: c i)
  case (Cons x xs)
  then show ?case by (cases i) (auto simp: numeral_eq_Suc add.assoc algebra_simps)
qed simp

lemma is_table: "is_table 0 crc32_table"
  unfolding crc32_table_def by (simp add: shift_def)

lemma table_shifts: "i < 256 \<Longrightarrow> crc32_table ! i = (shift ^^ 8) (push_bit 24 (of_nat i))"
proof -
  have "length crc32_table = 256" by (simp add: crc32_table_def)
  then show "i < 256 \<Longrightarrow> crc32_table ! i = (shift ^^ 8) (push_bit 24 (of_nat i))"
    using is_table_nth [OF is_table, of i] by (simp add: push_bit_eq_mult mult.commute)
qed

text \<open>The top byte goes through the table, the rest is shifted.\<close>

lemma shifts_byte: "(shift ^^ 8) c = push_bit 8 c XOR crc32_table ! unat (drop_bit 24 c)"
proof -
  have "unat (drop_bit 24 c) < 256"
    using unat_u32_less [of c] by (simp add: unat_drop_bit)
  then have "crc32_table ! unat (drop_bit 24 c) = (shift ^^ 8) (push_bit 24 (drop_bit 24 c))"
    by (simp add: table_shifts)
  moreover have "(shift ^^ 8) (take_bit 24 c) = push_bit 8 (take_bit 24 c)"
    by (rule shifts_small) (auto simp: bit_simps)
  moreover have "push_bit 8 (take_bit 24 c) = push_bit 8 c" "take_bit 24 c XOR push_bit 24 (drop_bit 24 c) = c"
    by (auto intro!: bit_word_eqI simp: bit_simps)
  ultimately show ?thesis using shifts_xor [of 8 "take_bit 24 c" "push_bit 24 (drop_bit 24 c)"] by simp
qed

lemma xcrc32_Cons: "xcrc32 (b # buf) crc = xcrc32 buf (feed b crc)"
proof -
  have "push_bit 8 (crc XOR push_bit 24 (ucast b)) = push_bit 8 crc"
    "drop_bit 24 (crc XOR push_bit 24 (ucast b)) = (drop_bit 24 crc XOR ucast b) AND 255"
  proof -
    have byte: "(255 :: u32) = mask 8" by (simp add: mask_eq_exp_minus_1)
    show "drop_bit 24 (crc XOR push_bit 24 (ucast b)) = (drop_bit 24 crc XOR ucast b) AND 255"
    proof (rule bit_word_eqI)
      fix n
      have "bit crc (24 + n) \<Longrightarrow> n < 8" using bit_imp_le_length [of crc "24 + n"] by simp
      then show "bit (drop_bit 24 (crc XOR push_bit 24 (ucast b))) n = bit ((drop_bit 24 crc XOR ucast b) AND 255) n"
        unfolding byte by (auto simp: bit_simps dest: bit_imp_le_length)
    qed
  qed (auto intro!: bit_word_eqI simp: bit_simps)
  then show ?thesis by (simp add: feed_def shifts_byte)
qed

lemma xcrc32_feeds: "xcrc32 buf crc = fold feed buf crc"
  by (induction buf arbitrary: crc) (simp_all add: xcrc32_Cons del: xcrc32.simps(2))

section \<open>What the checksum detects\<close>

text \<open>A shift loses nothing: the polynomial has a constant term.\<close>

lemma shift_inj: "shift a = shift b \<Longrightarrow> a = b"
proof -
  assume eq: "shift a = shift b"
  have low: "bit (shift c) 0 = bit c 31" for c
  proof -
    have "\<not> bit (push_bit 1 c) 0" by (simp only: bit_push_bit_iff) simp
    then show ?thesis by (simp only: shift_def bit_xor_iff split: if_split) simp
  qed
  then have top: "bit a 31 = bit b 31" using eq by metis
  have "push_bit 1 a = push_bit 1 b"
  proof (cases "bit a 31")
    case True
    with top eq have "(push_bit 1 a XOR 0x04c11db7) XOR 0x04c11db7 = (push_bit 1 b XOR 0x04c11db7) XOR 0x04c11db7"
      by (simp only: shift_def if_True)
    then show ?thesis by (simp only: xor.assoc xor_self_eq xor.right_neutral)
  next
    case False
    with top eq show ?thesis by (simp only: shift_def if_False)
  qed
  then have lower: "bit a n = bit b n" if "n < 31" for n
    using that bit_push_bit_iff [of 1 a "Suc n"] bit_push_bit_iff [of 1 b "Suc n"] by auto
  show "a = b"
  proof (rule bit_word_eqI)
    fix n assume "n < LENGTH(32)"
    then have "n < 31 \<or> n = 31" by auto
    with lower top show "bit a n = bit b n" by blast
  qed
qed

lemma shifts_inj: "(shift ^^ n) a = (shift ^^ n) b \<Longrightarrow> a = b"
  by (induction n) (auto dest: shift_inj)

lemma feeds_inj: "fold feed ys a = fold feed ys b \<Longrightarrow> a = b"
proof (induction ys arbitrary: a b)
  case (Cons y ys)
  then have "feed y a = feed y b" by simp
  then have "a XOR push_bit 24 (ucast y) = b XOR push_bit 24 (ucast y)" unfolding feed_def by (rule shifts_inj)
  then have "(a XOR push_bit 24 (ucast y)) XOR push_bit 24 (ucast y) = (b XOR push_bit 24 (ucast y)) XOR push_bit 24 (ucast y)"
    by simp
  then show ?case by (simp only: xor.assoc xor_self_eq xor.right_neutral)
qed simp

text \<open>Up to four bytes, as the word they fill from the top.\<close>

fun top_bytes :: "bytes \<Rightarrow> u32" where
  "top_bytes [] = 0"
| "top_bytes (b # bs) = push_bit 24 (ucast b) XOR drop_bit 8 (top_bytes bs)"

lemma top_bytes_low: "i + 8 * length bs < 32 \<Longrightarrow> \<not> bit (top_bytes bs) i"
proof (induction bs arbitrary: i)
  case (Cons b bs)
  then show ?case using Cons.IH [of "8 + i"] by (auto simp: bit_simps)
qed simp

lemma feeds_top_bytes: "length bs \<le> 4 \<Longrightarrow> fold feed bs c = (shift ^^ (8 * length bs)) (c XOR top_bytes bs)"
proof (induction bs arbitrary: c)
  case (Cons b bs)
  have low: "\<not> bit (top_bytes bs) i" if "i < 8" for i
    using that Cons.prems by (intro top_bytes_low) auto
  have "(shift ^^ 8) (drop_bit 8 (top_bytes bs)) = push_bit 8 (drop_bit 8 (top_bytes bs))"
    by (rule shifts_small) (auto simp: bit_simps dest: bit_imp_le_length)
  also have "\<dots> = top_bytes bs"
  proof (rule bit_word_eqI)
    fix n
    have "bit (top_bytes bs) n \<Longrightarrow> 8 \<le> n" using low not_le by blast
    then show "bit (push_bit 8 (drop_bit 8 (top_bytes bs))) n = bit (top_bytes bs) n"
      by (auto simp: bit_simps dest: bit_imp_le_length)
  qed
  finally have "feed b c XOR top_bytes bs = (shift ^^ 8) (c XOR top_bytes (b # bs))"
    by (simp add: feed_def shifts_xor xor.assoc)
  moreover have "(shift ^^ (8 * length (b # bs))) x = (shift ^^ (8 * length bs)) ((shift ^^ 8) x)" for x
    using funpow_add [of "8 * length bs" 8 shift] by (simp add: add.commute)
  ultimately show ?case using Cons.IH [of "feed b c"] Cons.prems by simp
qed simp

lemma top_bytes_inj: "length us = length vs \<Longrightarrow> length us \<le> 4 \<Longrightarrow> top_bytes us = top_bytes vs \<Longrightarrow> us = vs"
proof (induction us vs rule: list_induct2)
  case (Cons u us v vs)
  have low: "\<not> bit (top_bytes us) i" "\<not> bit (top_bytes vs) i" if "i < 8" for i
    using that Cons.hyps Cons.prems(1) by (auto intro!: top_bytes_low)
  have top: "drop_bit 24 (top_bytes (b # bs)) = ucast b" "take_bit 24 (top_bytes (b # bs)) = drop_bit 8 (top_bytes bs)" for b bs
  proof -
    have b: "bit b n \<Longrightarrow> n < 8" for n using bit_imp_le_length [of b n] by simp
    have w: "bit (top_bytes bs) (8 + n) \<Longrightarrow> n < 24" for n using bit_imp_le_length [of "top_bytes bs" "8 + n"] by simp
    show "drop_bit 24 (top_bytes (b # bs)) = ucast b" "take_bit 24 (top_bytes (b # bs)) = drop_bit 8 (top_bytes bs)"
      by (intro bit_word_eqI; use b w in \<open>force simp: bit_simps\<close>)+
  qed
  have "(ucast u :: u32) = ucast v" "drop_bit 8 (top_bytes us) = drop_bit 8 (top_bytes vs)"
    using Cons.prems(2) top by metis+
  moreover from this(2) have "bit (top_bytes us) i = bit (top_bytes vs) i" if "8 \<le> i" for i
    using that bit_drop_bit_eq [of 8 "top_bytes us"] bit_drop_bit_eq [of 8 "top_bytes vs"]
    by (metis comp_apply le_add_diff_inverse)
  with low have "top_bytes us = top_bytes vs" by (intro bit_word_eqI) (metis not_le)
  moreover have "u = v"
  proof (rule bit_word_eqI)
    fix n assume "n < LENGTH(8)"
    moreover have "bit (ucast u :: u32) n = bit (ucast v :: u32) n" using \<open>(ucast u :: u32) = ucast v\<close> by simp
    ultimately show "bit u n = bit v n" by (simp add: bit_unsigned_iff)
  qed
  ultimately show ?case using Cons.IH Cons.prems(1) by simp
qed simp

section \<open>Properties\<close>

text \<open>The table-driven loop computes the checksum of the bit-by-bit shift register.\<close>

theorem xcrc32_shift_register:
  "xcrc32 buf init = fold (\<lambda>b c. (shift ^^ 8) (c XOR push_bit 24 (ucast b))) buf init"
  unfolding xcrc32_feeds by (rule arg_cong [of _ _ "\<lambda>f. fold f buf init"]) (simp add: feed_def fun_eq_iff)

text \<open>C37: Two messages that differ in a burst of at most four bytes have different checksums, whatever the
  starting value and the bytes around the burst.
\<close>

theorem xcrc32_detects_bursts:
  "length us = length vs \<Longrightarrow> length us \<le> 4 \<Longrightarrow> us \<noteq> vs \<Longrightarrow> xcrc32 (xs @ us @ ys) init \<noteq> xcrc32 (xs @ vs @ ys) init"
proof
  assume len: "length us = length vs" "length us \<le> 4" and "us \<noteq> vs"
    and "xcrc32 (xs @ us @ ys) init = xcrc32 (xs @ vs @ ys) init"
  then have "fold feed ys (fold feed us (fold feed xs init)) = fold feed ys (fold feed vs (fold feed xs init))"
    by (simp add: xcrc32_feeds)
  then have "fold feed us (fold feed xs init) = fold feed vs (fold feed xs init)" by (rule feeds_inj)
  then have "(shift ^^ (8 * length us)) (fold feed xs init XOR top_bytes us) =
      (shift ^^ (8 * length us)) (fold feed xs init XOR top_bytes vs)"
    unfolding feeds_top_bytes [OF len(2)] feeds_top_bytes [OF len(2) [unfolded len(1)]] len(1) .
  then have "fold feed xs init XOR top_bytes us = fold feed xs init XOR top_bytes vs" by (rule shifts_inj)
  then have "fold feed xs init XOR (fold feed xs init XOR top_bytes us) = fold feed xs init XOR (fold feed xs init XOR top_bytes vs)"
    by (simp only:)
  then have "top_bytes us = top_bytes vs" by (simp only: xor.assoc [symmetric] xor_self_eq xor.left_neutral)
  with top_bytes_inj [OF len] \<open>us \<noteq> vs\<close> show False by blast
qed

lemma xcrc32_detects_bursts_witness: "xcrc32 [1, 2, 3, 4] 0xffffffff \<noteq> xcrc32 [1, 9, 3, 4] 0xffffffff"
  using xcrc32_detects_bursts [of "[2]" "[9]" "[1]" "[3, 4]" "0xffffffff"] by (simp del: xcrc32.simps)

end
