(* ===== verification/Adler32.thy ===== *)
theory Adler32
  imports Prelude
begin

text \<open>
  Adler-32 as \<^verbatim>\<open>src/binutils-2.42/zlib/adler32.c\<close> computes it: sums in \<^verbatim>\<open>unsigned long\<close> (64 bits), reduced
  modulo 65521 only every \<open>NMAX\<close> bytes, and the combination of the checksums of two messages. The
  reference is the two sums over the natural numbers.
\<close>

unbundle bit_operations_syntax

section \<open>adler32.c\<close>

type_synonym sums = "u64 \<times> u64"

definition BASE :: u64 where "BASE = 65521"
definition NMAX :: nat where "NMAX = 5552"

definition DO1 :: "u8 \<Rightarrow> sums \<Rightarrow> sums" where
  "DO1 b = (\<lambda>(adler, sum2). let adler = adler + ucast b in (adler, sum2 + adler))"

definition DO16 :: "bytes \<Rightarrow> sums \<Rightarrow> sums" where
  "DO16 buf st = fold (\<lambda>i. DO1 (buf ! i)) [0..<16] st"

definition MODs :: "sums \<Rightarrow> sums" where
  "MODs = (\<lambda>(adler, sum2). (adler mod BASE, sum2 mod BASE))"

text \<open>The unrolled loop of \<open>n\<close> rounds, and the loop over whole \<open>NMAX\<close> blocks.\<close>

fun unrolled :: "nat \<Rightarrow> bytes \<times> sums \<Rightarrow> bytes \<times> sums" where
  "unrolled 0 st = st"
| "unrolled (Suc n) (buf, st) = unrolled n (drop 16 buf, DO16 buf st)"

fun nmax_blocks :: "bytes \<Rightarrow> sums \<Rightarrow> bytes \<times> sums" where
  "nmax_blocks buf st =
     (if length buf \<ge> NMAX \<and> NMAX > 0 then
        (case unrolled (NMAX div 16) (buf, st) of (_, st) \<Rightarrow> nmax_blocks (drop NMAX buf) (MODs st))
      else (buf, st))"

declare nmax_blocks.simps [simp del]

fun sixteens :: "bytes \<Rightarrow> sums \<Rightarrow> bytes \<times> sums" where
  "sixteens buf st = (if length buf \<ge> 16 then sixteens (drop 16 buf) (DO16 buf st) else (buf, st))"

declare sixteens.simps [simp del]

definition recombine :: "sums \<Rightarrow> u64" where
  "recombine = (\<lambda>(adler, sum2). adler OR push_bit 16 sum2)"

text \<open>A null \<open>buf\<close> is \<open>None\<close>.\<close>

definition adler32_z :: "u64 \<Rightarrow> bytes option \<Rightarrow> u64" where
  "adler32_z adler buf =
     (let sum2 = drop_bit 16 adler AND 0xffff;
          adler = adler AND 0xffff
      in case buf of
           None \<Rightarrow> 1
         | Some buf \<Rightarrow>
             if length buf = 1 then
               (let adler = adler + ucast (buf ! 0);
                    adler = (if adler \<ge> BASE then adler - BASE else adler);
                    sum2 = sum2 + adler;
                    sum2 = (if sum2 \<ge> BASE then sum2 - BASE else sum2)
                in recombine (adler, sum2))
             else if length buf < 16 then
               (let (adler, sum2) = fold DO1 buf (adler, sum2);
                    adler = (if adler \<ge> BASE then adler - BASE else adler)
                in recombine (adler, sum2 mod BASE))
             else
               (let (buf, st) = nmax_blocks buf (adler, sum2)
                in recombine (if buf \<noteq> [] then (let (buf, st) = sixteens buf st in MODs (fold DO1 buf st)) else st)))"

definition adler32 :: "u64 \<Rightarrow> bytes option \<Rightarrow> u64" where
  "adler32 adler buf = adler32_z adler buf"

text \<open>The length of the second message is a signed 64-bit number.\<close>

definition adler32_combine :: "u64 \<Rightarrow> u64 \<Rightarrow> int \<Rightarrow> u64" where
  "adler32_combine adler1 adler2 len2 =
     (if len2 < 0 then 0xffffffff
      else
        (let len2 = len2 mod uint BASE;
             rem = (word_of_int len2 :: u64);
             sum1 = adler1 AND 0xffff;
             sum2 = rem * sum1;
             sum2 = sum2 mod BASE;
             sum1 = sum1 + ((adler2 AND 0xffff) + BASE - 1);
             sum2 = sum2 + ((drop_bit 16 adler1 AND 0xffff) + (drop_bit 16 adler2 AND 0xffff) + BASE - rem);
             sum1 = (if sum1 \<ge> BASE then sum1 - BASE else sum1);
             sum1 = (if sum1 \<ge> BASE then sum1 - BASE else sum1);
             sum2 = (if sum2 \<ge> push_bit 1 BASE then sum2 - push_bit 1 BASE else sum2);
             sum2 = (if sum2 \<ge> BASE then sum2 - BASE else sum2)
         in sum1 OR push_bit 16 sum2))"

section \<open>The reference\<close>

definition add_byte :: "u8 \<Rightarrow> nat \<times> nat \<Rightarrow> nat \<times> nat" where
  "add_byte b = (\<lambda>(a, s). (a + unat b, s + (a + unat b)))"

definition adler_sums :: "bytes \<Rightarrow> nat \<times> nat" where
  "adler_sums bs = (case fold add_byte bs (1, 0) of (a, s) \<Rightarrow> (a mod 65521, s mod 65521))"

definition checksum :: "bytes \<Rightarrow> u64" where
  "checksum bs = (case adler_sums bs of (a, s) \<Rightarrow> of_nat (s * 65536 + a))"

section \<open>Sums that do not wrap\<close>

definition nats :: "sums \<Rightarrow> nat \<times> nat" where
  "nats = (\<lambda>(a, s). (unat a, unat s))"

lemma add_byte_pair [simp]: "add_byte b (a, s) = (a + unat b, s + (a + unat b))"
  by (simp add: add_byte_def)

lemma fold_add_byte_mono: "fst st \<le> fst (fold add_byte bs st) \<and> snd st \<le> snd (fold add_byte bs st)"
proof (induction bs arbitrary: st)
  case (Cons b bs)
  from Cons.IH [of "add_byte b st"] show ?case by (cases st) auto
qed simp

lemma fold_DO1:
  "fst (fold add_byte bs (nats st)) < 2 ^ 64 \<Longrightarrow> snd (fold add_byte bs (nats st)) < 2 ^ 64 \<Longrightarrow>
   nats (fold DO1 bs st) = fold add_byte bs (nats st)"
proof (induction bs arbitrary: st)
  case (Cons b bs)
  obtain a s where st: "st = (a, s)" by fastforce
  let ?n = "add_byte b (nats st)"
  have less: "unat a + unat b < 2 ^ 64" "unat s + (unat a + unat b) < 2 ^ 64"
    using fold_add_byte_mono [of ?n bs] Cons.prems by (auto simp: st nats_def)
  have "unat (ucast b :: u64) = unat b" using unat_u8_less [of b] by (simp add: unsigned_ucast_eq take_bit_eq_mod)
  then have "nats (DO1 b st) = ?n"
    using less by (simp add: st nats_def DO1_def Let_def unat_add_no_wrap)
  with Cons show ?case by simp
qed simp

text \<open>Both sums after \<open>n\<close> bytes.\<close>

lemma fold_add_byte_bound:
  "fst (fold add_byte bs (a, s)) \<le> a + 255 * length bs"
  "2 * snd (fold add_byte bs (a, s)) \<le> 2 * s + 2 * length bs * a + 255 * length bs * Suc (length bs)"
proof -
  show "fst (fold add_byte bs (a, s)) \<le> a + 255 * length bs"
  proof (induction bs arbitrary: a s)
    case (Cons b bs)
    show ?case using Cons.IH [of "a + unat b" "s + (a + unat b)"] unat_u8_less [of b] by simp
  qed simp
  show "2 * snd (fold add_byte bs (a, s)) \<le> 2 * s + 2 * length bs * a + 255 * length bs * Suc (length bs)"
  proof (induction bs arbitrary: a s)
    case (Cons b bs)
    have "2 * snd (fold add_byte (b # bs) (a, s)) \<le>
      2 * (s + (a + unat b)) + 2 * length bs * (a + unat b) + 255 * length bs * Suc (length bs)"
      using Cons.IH [of "a + unat b" "s + (a + unat b)"] by simp
    also have "\<dots> \<le> 2 * (s + (a + 255)) + 2 * length bs * (a + 255) + 255 * length bs * Suc (length bs)"
      using unat_u8_less [of b] by (intro add_mono mult_mono) auto
    also have "\<dots> = 2 * s + 2 * length (b # bs) * a + 255 * length (b # bs) * Suc (length (b # bs))"
      by (simp add: algebra_simps)
    finally show ?case .
  qed simp
qed

lemma sums_fit:
  assumes "length bs \<le> 5552" "a < 65536" "s < 65536"
  shows "fst (fold add_byte bs (a, s)) < 2 ^ 32" "snd (fold add_byte bs (a, s)) < 2 ^ 33"
proof -
  have "fst (fold add_byte bs (a, s)) \<le> 65535 + 255 * 5552"
    using fold_add_byte_bound(1) [of bs a s] assms by simp
  then show "fst (fold add_byte bs (a, s)) < 2 ^ 32" by simp
  have "2 * s + 2 * length bs * a + 255 * length bs * Suc (length bs) \<le> 2 * 65535 + 2 * 5552 * 65535 + 255 * 5552 * Suc 5552"
    using assms by (intro add_mono mult_mono) auto
  then have "2 * snd (fold add_byte bs (a, s)) \<le> 2 * 65535 + 2 * 5552 * 65535 + 255 * 5552 * Suc 5552"
    using fold_add_byte_bound(2) [of bs a s] by linarith
  then show "snd (fold add_byte bs (a, s)) < 2 ^ 33" by simp
qed

section \<open>The loops\<close>

lemma DO16_fold: "16 \<le> length buf \<Longrightarrow> DO16 buf st = fold DO1 (take 16 buf) st"
proof -
  assume "16 \<le> length buf"
  then have "take 16 buf = map ((!) buf) [0..<16]" by (intro nth_equalityI) simp_all
  then show ?thesis by (simp only: DO16_def fold_map o_def)
qed

lemma unrolled_fold: "16 * n \<le> length buf \<Longrightarrow> unrolled n (buf, st) = (drop (16 * n) buf, fold DO1 (take (16 * n) buf) st)"
proof (induction n arbitrary: buf st)
  case (Suc n)
  have "take (16 * Suc n) buf = take 16 buf @ take (16 * n) (drop 16 buf)"
    by (simp add: take_add)
  with Suc show ?case by (simp add: DO16_fold add.commute)
qed simp

lemma sixteens_fold: "case sixteens buf st of (r, st') \<Rightarrow> fold DO1 r st' = fold DO1 buf st"
proof (induction buf st rule: sixteens.induct)
  case (1 buf st)
  show ?case
  proof (cases "16 \<le> length buf")
    case True
    have "fold DO1 buf st = fold DO1 (drop 16 buf) (fold DO1 (take 16 buf) st)"
      using fun_cong [OF fold_append [of DO1 "take 16 buf" "drop 16 buf"], of st] by simp
    with 1 [OF True] True show ?thesis by (subst sixteens.simps) (simp add: DO16_fold)
  qed (simp add: sixteens.simps)
qed

section \<open>Sums modulo 65521\<close>

definition reduce :: "nat \<times> nat \<Rightarrow> nat \<times> nat" where
  "reduce = (\<lambda>(a, s). (a mod 65521, s mod 65521))"

lemma nats_MODs: "nats (MODs st) = reduce (nats st)"
  by (cases st) (simp add: nats_def MODs_def reduce_def BASE_def unat_mod)

lemma reduce_idem [simp]: "reduce (reduce st) = reduce st"
  by (cases st) (simp add: reduce_def)

lemma reduce_add_byte: "reduce (add_byte b (reduce st)) = reduce (add_byte b st)"
  by (cases st) (auto simp: reduce_def mod_simps, metis mod_add_left_eq mod_add_right_eq)

lemma reduce_fold: "reduce (fold add_byte bs (reduce st)) = reduce (fold add_byte bs st)"
proof (induction bs arbitrary: st)
  case (Cons b bs)
  show ?case
    using Cons.IH [of "add_byte b (reduce st)"] Cons.IH [of "add_byte b st"] by (simp add: reduce_add_byte)
qed simp

lemma nats_fold:
  assumes "nats st = reduce st'" "length bs \<le> 5552"
  shows "nats (fold DO1 bs st) = fold add_byte bs (nats st)"
proof -
  obtain a s where as: "nats st = (a, s)" by fastforce
  with assms(1) have "a < 65536" "s < 65536" by (auto simp: reduce_def split_beta)
  from sums_fit [OF assms(2) this] show ?thesis by (intro fold_DO1) (simp_all add: as)
qed

lemma nmax_blocks_fold:
  "nats st = reduce x \<Longrightarrow> nmax_blocks buf st = (r, st') \<Longrightarrow>
   \<exists>d. buf = d @ r \<and> length r < 5552 \<and> nats st' = reduce (fold add_byte d (nats st))"
proof (induction buf st arbitrary: x rule: nmax_blocks.induct)
  case (1 buf st)
  show ?case
  proof (cases "NMAX \<le> length buf")
    case True
    let ?st = "MODs (fold DO1 (take 5552 buf) st)"
    have u: "unrolled (NMAX div 16) (buf, st) = (drop 5552 buf, fold DO1 (take 5552 buf) st)"
      using True unrolled_fold [of 347 buf st] by (simp add: NMAX_def)
    have n: "nats ?st = reduce (fold add_byte (take 5552 buf) (nats st))"
      using nats_fold [OF "1.prems"(1), of "take 5552 buf"] by (simp add: nats_MODs)
    have "nmax_blocks (drop NMAX buf) ?st = (r, st')"
      using "1.prems"(2) True u by (subst (asm) nmax_blocks.simps) (simp add: NMAX_def)
    from "1.IH" [OF _ u [symmetric] n this] True obtain d where
      d: "drop 5552 buf = d @ r" "length r < 5552" "nats st' = reduce (fold add_byte d (nats ?st))"
      by (auto simp: NMAX_def)
    have "nats st' = reduce (fold add_byte (take 5552 buf @ d) (nats st))"
      using d(3) by (simp add: n reduce_fold)
    with d(1,2) show ?thesis by (intro exI [of _ "take 5552 buf @ d"]) (metis append.assoc append_take_drop_id)
  next
    case False
    with "1.prems" show ?thesis by (auto simp: nmax_blocks.simps NMAX_def intro!: exI [of _ "[]"])
  qed
qed

section \<open>Two sums in one word\<close>

definition packed :: "nat \<times> nat \<Rightarrow> u64" where
  "packed = (\<lambda>(a, s). of_nat (s * 65536 + a))"

lemma checksum_packed: "checksum bs = packed (adler_sums bs)"
  by (simp add: checksum_def packed_def)

lemma adler_sums_less: "adler_sums bs = (a, s) \<Longrightarrow> a < 65521 \<and> s < 65521"
  by (auto simp: adler_sums_def split: prod.splits)

lemma adler_low16: "unat (w AND 0xffff :: u64) = unat w mod 65536"
proof -
  have "(0xffff :: u64) = mask 16" by (simp add: mask_eq_exp_minus_1)
  then have e: "w AND 0xffff = take_bit 16 w" by (simp only: take_bit_eq_mask)
  show ?thesis unfolding e take_bit_eq_mod by (simp add: unat_mod)
qed

lemma unpack:
  assumes "a < 65521" "s < 65521"
  shows "unat (packed (a, s) AND 0xffff) = a" "unat (drop_bit 16 (packed (a, s)) AND 0xffff) = s"
proof -
  have "unat (packed (a, s)) = s * 65536 + a"
    using assms by (simp only: packed_def prod.case unat_of_nat) simp
  then show "unat (packed (a, s) AND 0xffff) = a" "unat (drop_bit 16 (packed (a, s)) AND 0xffff) = s"
    using assms by (simp_all add: adler_low16 unat_drop_bit)
qed

lemma recombine_packed: "nats st = (a, s) \<Longrightarrow> a < 65521 \<Longrightarrow> s < 65521 \<Longrightarrow> recombine st = packed (a, s)"
proof -
  assume st: "nats st = (a, s)" "a < 65521" "s < 65521"
  obtain x y where xy: "st = (x, y)" by fastforce
  have "x AND push_bit 16 y = 0"
  proof (rule bit_word_eqI)
    fix n
    have "unat (take_bit 16 x) = unat x"
      unfolding take_bit_eq_mod using st by (simp add: xy nats_def unat_mod)
    then have "take_bit 16 x = x" by (simp only: word_unat_eq_iff)
    then have "bit x n \<Longrightarrow> n < 16" by (metis bit_take_bit_iff)
    then show "bit (x AND push_bit 16 y) n = bit (0 :: u64) n" by (auto simp: bit_simps)
  qed
  then have "recombine st = x + push_bit 16 y"
    by (simp add: recombine_def xy disjunctive_add_eq_or)
  also have "\<dots> = of_nat (unat y * 65536 + unat x)" by (simp add: push_bit_eq_mult add.commute)
  finally show ?thesis using st by (auto simp: packed_def xy nats_def)
qed

lemma recombine_reduced: "nats st = reduce x \<Longrightarrow> recombine st = packed (reduce x)"
  by (cases "reduce x") (auto simp: reduce_def split_beta intro!: recombine_packed)

lemma adler_sums_reduce: "adler_sums bs = reduce (fold add_byte bs (1, 0))"
  by (simp add: adler_sums_def reduce_def)

lemma adler_sums_append: "reduce (fold add_byte ys (adler_sums xs)) = adler_sums (xs @ ys)"
  by (simp add: adler_sums_reduce reduce_fold)

lemma subtract_once: "unat (x :: u64) < 2 * 65521 \<Longrightarrow> unat (if x \<ge> BASE then x - BASE else x) = unat x mod 65521"
  by (auto simp: BASE_def word_le_nat_alt unat_sub mod_if)

lemma adler32_z_appends: "adler32_z (checksum xs) (Some bs) = checksum (xs @ bs)"
proof -
  obtain a s where as: "adler_sums xs = (a, s)" by fastforce
  note less = adler_sums_less [OF as]
  define x y where "x = checksum xs AND 0xffff" and "y = drop_bit 16 (checksum xs) AND 0xffff"
  have xy: "nats (x, y) = (a, s)"
    using unpack [of a s] less by (simp add: x_def y_def checksum_packed as nats_def)
  then have ax: "unat x = a" "unat y = s" by (simp_all add: nats_def)
  have red: "nats (x, y) = reduce (a, s)" using xy less by (simp add: reduce_def)
  have goal: "checksum (xs @ bs) = packed (reduce (fold add_byte bs (nats (x, y))))"
    by (simp add: checksum_packed xy as [symmetric] adler_sums_append)
  consider (one) "length bs = 1" | (short) "length bs \<noteq> 1" "length bs < 16" | (long) "length bs \<ge> 16" by linarith
  then show ?thesis
  proof cases
    case one
    then obtain b where b: "bs = [b]" by (cases bs) auto
    let ?x = "if x + ucast b \<ge> BASE then x + ucast b - BASE else x + ucast b"
    let ?y = "if y + ?x \<ge> BASE then y + ?x - BASE else y + ?x"
    have ub: "unat (ucast b :: u64) = unat b" "unat b < 256"
      using unat_u8_less [of b] by (simp_all add: unsigned_ucast_eq take_bit_eq_mod)
    have x: "unat (x + ucast b) = a + unat b" using xy less ub by (simp add: nats_def unat_add_no_wrap)
    then have x': "unat ?x = (a + unat b) mod 65521" using subtract_once [of "x + ucast b"] less ub by simp
    then have "unat (y + ?x) = s + (a + unat b) mod 65521"
      using xy less mod_less_divisor [of 65521 "a + unat b"] by (simp add: nats_def unat_add_no_wrap del: mod_less_divisor)
    then have "unat ?y = (s + (a + unat b)) mod 65521"
      using subtract_once [of "y + ?x"] less mod_less_divisor [of 65521 "a + unat b"] by (simp add: mod_simps del: mod_less_divisor)
    with x' have "nats (?x, ?y) = reduce (fold add_byte bs (nats (x, y)))"
      by (simp add: b ax reduce_def nats_def)
    from recombine_reduced [OF this] show ?thesis
      by (simp add: adler32_z_def b Let_def goal [unfolded b] x_def [symmetric] y_def [symmetric])
  next
    case short
    obtain x' y' where f: "fold DO1 bs (x, y) = (x', y')" by fastforce
    have n: "nats (x', y') = fold add_byte bs (a, s)"
      using nats_fold [OF red, of bs] short by (simp add: f xy)
    have "unat x' \<le> a + 255 * length bs" using fold_add_byte_bound(1) [of bs a s] by (simp flip: n) (simp add: nats_def)
    then have "nats (if x' \<ge> BASE then x' - BASE else x', y' mod BASE) = reduce (fold add_byte bs (nats (x, y)))"
      unfolding xy n [symmetric]
      using subtract_once [of x'] less short by (simp add: nats_def reduce_def BASE_def unat_mod)
    from recombine_reduced [OF this] show ?thesis
      using short by (simp add: adler32_z_def Let_def goal x_def [symmetric] y_def [symmetric] f)
  next
    case long
    obtain r st where nb: "nmax_blocks bs (x, y) = (r, st)" by (cases "nmax_blocks bs (x, y)")
    obtain d where d: "bs = d @ r" "length r < 5552" "nats st = reduce (fold add_byte d (nats (x, y)))"
      using nmax_blocks_fold [OF red nb] by auto
    obtain r' st' where six: "sixteens r st = (r', st')" by (cases "sixteens r st")
    have "fold DO1 r' st' = fold DO1 r st" using sixteens_fold [of r st] by (simp add: six)
    then have "nats (MODs (fold DO1 r' st')) = reduce (fold add_byte bs (nats (x, y)))"
      using nats_fold [OF d(3)] d(2) by (simp add: nats_MODs d(1)) (simp add: d(3) reduce_fold)
    then have "nats (if r \<noteq> [] then MODs (fold DO1 r' st') else st) = reduce (fold add_byte bs (nats (x, y)))"
      using d by simp
    from recombine_reduced [OF this] show ?thesis
      using long by (cases "r = []") (simp_all add: adler32_z_def Let_def goal x_def [symmetric] y_def [symmetric] nb six)
  qed
qed

section \<open>Combination\<close>

lemma fold_add_byte_shift:
  "fold add_byte bs (a + c, s) = (fst (fold add_byte bs (a, 0)) + c, snd (fold add_byte bs (a, 0)) + s + length bs * c)"
proof (induction bs arbitrary: a s c)
  case (Cons b bs)
  show ?case
    using Cons.IH [of "a + unat b" c "s + (a + c + unat b)"] Cons.IH [of "a + unat b" 0 "a + unat b"]
    by (simp add: add_ac)
qed simp

lemma mod_parts: "(a + (b mod m + c mod m + m - d mod m)) mod m = (a + (b + c + m - d)) mod (m :: int)"
proof -
  have "a + (b mod m + c mod m + m - d mod m) = a + (b + c + m - d) + m * (d div m - b div m - c div m)"
    by (simp add: minus_mult_div_eq_mod [symmetric] right_diff_distrib)
  then show ?thesis by (simp only: mod_mult_self2)
qed

lemma combined_sums:
  assumes "adler_sums xs = (a1, s1)" "adler_sums ys = (a2, s2)" "r = length ys mod 65521"
  shows "adler_sums (xs @ ys) = ((a1 + a2 + 65520) mod 65521, (r * a1 mod 65521 + (s1 + s2 + 65521 - r)) mod 65521)"
proof -
  obtain A1 S1 where 1: "fold add_byte xs (1, 0) = (A1, S1)" by (cases "fold add_byte xs (1, 0)")
  obtain A2 S2 where 2: "fold add_byte ys (1, 0) = (A2, S2)" by (cases "fold add_byte ys (1, 0)")
  have pos: "1 \<le> A1" using fold_add_byte_mono [of "(1, 0)" xs] by (simp add: 1 [simplified])
  let ?n = "length ys"
  have sums: "adler_sums (xs @ ys) = reduce (A2 + (A1 - 1), S2 + S1 + ?n * (A1 - 1))"
    using fold_add_byte_shift [of ys 1 "A1 - 1" S1] pos 1 2 by (simp add: adler_sums_reduce)
  have parts: "a1 = A1 mod 65521" "s1 = S1 mod 65521" "a2 = A2 mod 65521" "s2 = S2 mod 65521"
    using assms(1,2) 1 [simplified] 2 [simplified] by (simp_all add: adler_sums_reduce reduce_def)
  have "(a1 + a2 + 65520) mod 65521 = (A1 + A2 + 65520) mod 65521"
    unfolding parts by (metis mod_add_eq mod_add_left_eq)
  also have "A1 + A2 + 65520 = A2 + (A1 - 1) + 65521" using pos by simp
  finally have first: "(a1 + a2 + 65520) mod 65521 = (A2 + (A1 - 1)) mod 65521" by simp
  have "r < 65521" by (simp add: assms(3))
  then have le: "r \<le> s1 + s2 + 65521" by simp
  then have "int (s1 + s2 + 65521 - r) = int s1 + int s2 + 65521 - int r" by (subst of_nat_diff) simp_all
  then have "int ((r * a1 mod 65521 + (s1 + s2 + 65521 - r)) mod 65521) =
    (int r * int a1 mod 65521 + (int s1 + int s2 + 65521 - int r)) mod 65521"
    by (simp only: zmod_int of_nat_add of_nat_mult of_nat_numeral)
  also have "\<dots> = (int ?n mod 65521 * (int A1 mod 65521) mod 65521 + (int S1 mod 65521 + int S2 mod 65521 + 65521 - int ?n mod 65521)) mod 65521"
    by (simp only: assms(3) parts zmod_int of_nat_numeral)
  also have "\<dots> = (int ?n * int A1 + (int S1 + int S2 + 65521 - int ?n)) mod 65521"
    by (simp only: mod_parts) (simp only: mod_simps)
  also have "int ?n * int A1 + (int S1 + int S2 + 65521 - int ?n) = int (S2 + S1 + ?n * (A1 - 1)) + 65521"
    using pos by (cases A1) (simp_all add: algebra_simps)
  also have "\<dots> mod 65521 = int ((S2 + S1 + ?n * (A1 - 1)) mod 65521)" by (simp add: zmod_int)
  finally have second: "(r * a1 mod 65521 + (s1 + s2 + 65521 - r)) mod 65521 = (S2 + S1 + ?n * (A1 - 1)) mod 65521"
    by (simp only: of_nat_eq_iff)
  show ?thesis by (simp only: sums reduce_def prod.case first second)
qed

lemma subtract_thrice:
  assumes "unat (x :: u64) < 4 * 65521"
  shows "unat (let x = if x \<ge> push_bit 1 BASE then x - push_bit 1 BASE else x in if x \<ge> BASE then x - BASE else x) = unat x mod 65521"
proof -
  define y where "y = (if x \<ge> push_bit 1 BASE then x - push_bit 1 BASE else x)"
  have "unat y = (if unat x \<ge> 131042 then unat x - 131042 else unat x)"
    by (simp add: y_def BASE_def word_le_nat_alt unat_sub)
  with assms have "unat y < 2 * 65521" "unat y mod 65521 = unat x mod 65521"
    by (auto simp: le_mod_geq)
  then show ?thesis using subtract_once [of y] unfolding Let_def y_def [symmetric] by simp
qed

lemma subtract_twice:
  assumes "unat (x :: u64) < 3 * 65521"
  shows "unat (let x = if x \<ge> BASE then x - BASE else x in if x \<ge> BASE then x - BASE else x) = unat x mod 65521"
proof -
  define y where "y = (if x \<ge> BASE then x - BASE else x)"
  have "unat y = (if unat x \<ge> 65521 then unat x - 65521 else unat x)"
    by (simp add: y_def BASE_def word_le_nat_alt unat_sub)
  with assms have "unat y < 2 * 65521" "unat y mod 65521 = unat x mod 65521"
    by (auto simp: le_mod_geq)
  then show ?thesis using subtract_once [of y] unfolding Let_def y_def [symmetric] by simp
qed

lemma combine_first:
  assumes "unat x1 < 65521" "unat x2 < 65521"
  shows "unat (let x = x1 + (x2 + BASE - 1); x = (if x \<ge> BASE then x - BASE else x) in if x \<ge> BASE then x - BASE else x) =
    (unat x1 + unat x2 + 65520) mod 65521"
proof -
  have "unat (x2 + BASE) = unat x2 + 65521" using assms by (simp add: BASE_def unat_add_no_wrap)
  then have "unat (x2 + BASE - 1) = unat x2 + 65520" by (simp add: unat_sub word_le_nat_alt)
  then have sum: "unat (x1 + (x2 + BASE - 1)) = unat x1 + unat x2 + 65520" using assms by (simp add: unat_add_no_wrap)
  with subtract_twice [of "x1 + (x2 + BASE - 1)"] assms show ?thesis by (simp add: Let_def)
qed

lemma combine_second:
  assumes "unat x1 < 65521" "unat y1 < 65521" "unat y2 < 65521" "unat rem < 65521"
  shows "unat (let x = (rem * x1) mod BASE + (y1 + y2 + BASE - rem);
      x = (if x \<ge> push_bit 1 BASE then x - push_bit 1 BASE else x) in if x \<ge> BASE then x - BASE else x) =
    (unat rem * unat x1 mod 65521 + (unat y1 + unat y2 + 65521 - unat rem)) mod 65521"
proof -
  have "unat rem * unat x1 \<le> 65521 * 65521" using assms by (intro mult_mono) auto
  then have "unat (rem * x1) = unat rem * unat x1" by (simp add: unat_mult_no_wrap)
  then have p: "unat (rem * x1 mod BASE) = unat rem * unat x1 mod 65521" by (simp add: unat_mod BASE_def)
  have "unat (y1 + y2) = unat y1 + unat y2" using assms by (simp add: unat_add_no_wrap)
  then have "unat (y1 + y2 + BASE) = unat y1 + unat y2 + 65521" using assms by (simp add: BASE_def unat_add_no_wrap)
  then have q: "unat (y1 + y2 + BASE - rem) = unat y1 + unat y2 + 65521 - unat rem"
    using assms by (simp add: unat_sub word_le_nat_alt)
  have less: "unat (rem * x1 mod BASE) < 65521" "unat (y1 + y2 + BASE - rem) < 3 * 65521"
    unfolding p q using assms by auto
  then have sum: "unat (rem * x1 mod BASE + (y1 + y2 + BASE - rem)) = unat rem * unat x1 mod 65521 + (unat y1 + unat y2 + 65521 - unat rem)"
    unfolding p [symmetric] q [symmetric] by (intro unat_add_no_wrap) simp
  moreover have "unat (rem * x1 mod BASE + (y1 + y2 + BASE - rem)) < 4 * 65521"
    using less unfolding sum p [symmetric] q [symmetric] by linarith
  ultimately show ?thesis using subtract_thrice by (metis (no_types, lifting) Let_def)
qed

section \<open>Properties\<close>

text \<open>C39: \<open>adler32\<close> started from the checksum of a message goes on to the checksum of the message with the
  new bytes appended, for any number of bytes; with no buffer it gives the checksum of the empty message.
\<close>

theorem adler32_appends:
  "adler32 (checksum xs) (Some bs) = checksum (xs @ bs) \<and> adler32 adler None = checksum []"
proof -
  have "checksum [] = 1" by (simp add: checksum_def adler_sums_def)
  then show ?thesis by (simp add: adler32_def adler32_z_appends) (simp add: adler32_z_def Let_def)
qed

text \<open>C38: \<open>adler32_combine\<close> gives the checksum of a message from those of its two parts and the length of the second.\<close>

theorem adler32_combine_correct:
  "adler32_combine (checksum xs) (checksum ys) (int (length ys)) = checksum (xs @ ys)"
proof -
  obtain a1 s1 where 1: "adler_sums xs = (a1, s1)" by (cases "adler_sums xs")
  obtain a2 s2 where 2: "adler_sums ys = (a2, s2)" by (cases "adler_sums ys")
  note less = adler_sums_less [OF 1] adler_sums_less [OF 2]
  define r where "r = length ys mod 65521"
  define rem :: u64 where "rem = word_of_int (int (length ys) mod uint BASE)"
  have "int (length ys) mod uint BASE = int r" by (simp add: BASE_def r_def zmod_int)
  moreover have r: "r < 65521" by (simp add: r_def)
  ultimately have rem: "unat rem = r" by (simp add: rem_def unat_of_nat)
  define x1 y1 x2 y2 where xy: "x1 = checksum xs AND 0xffff" "y1 = drop_bit 16 (checksum xs) AND 0xffff"
    "x2 = checksum ys AND 0xffff" "y2 = drop_bit 16 (checksum ys) AND 0xffff"
  then have u: "unat x1 = a1" "unat y1 = s1" "unat x2 = a2" "unat y2 = s2"
    using unpack [of a1 s1] unpack [of a2 s2] less by (simp_all add: checksum_packed 1 2)
  define Z1 Z2 where Z:
    "Z1 = (let x = x1 + (x2 + BASE - 1); x = (if x \<ge> BASE then x - BASE else x) in if x \<ge> BASE then x - BASE else x)"
    "Z2 = (let x = (rem * x1) mod BASE + (y1 + y2 + BASE - rem);
      x = (if x \<ge> push_bit 1 BASE then x - push_bit 1 BASE else x) in if x \<ge> BASE then x - BASE else x)"
  have "nats (Z1, Z2) = adler_sums (xs @ ys)"
    using combine_first [of x1 x2] combine_second [of x1 y1 y2 rem] less r
    by (simp only: nats_def prod.case Z u rem combined_sums [OF 1 2 r_def])
  moreover have "adler_sums (xs @ ys) = reduce (adler_sums (xs @ ys))" by (simp add: adler_sums_reduce)
  ultimately have "recombine (Z1, Z2) = checksum (xs @ ys)"
    using recombine_reduced by (metis checksum_packed)
  moreover have "\<not> int (length ys) < 0" by simp
  then have "adler32_combine (checksum xs) (checksum ys) (int (length ys)) = recombine (Z1, Z2)"
    unfolding adler32_combine_def recombine_def Z rem_def xy Let_def prod.case by (simp only: if_False)
  ultimately show ?thesis by simp
qed

end
