(* ===== verification/Ctype.thy ===== *)
theory Ctype
  imports Prelude
begin

text \<open>
  Character classification in the toolchain: the tables of \<^verbatim>\<open>src/binutils-2.42/libiberty/safe-ctype.c\<close>
  with the macros of \<^verbatim>\<open>include/safe-ctype.h\<close>, and the hexadecimal digits of \<^verbatim>\<open>libiberty/hex.c\<close>, for a
  host with the ASCII character set. The tables are compared with the ranges of characters they stand for.
\<close>

unbundle bit_operations_syntax

section \<open>Categories\<close>

definition sch_isblank :: u16 where "sch_isblank = 0x0001"
definition sch_iscntrl :: u16 where "sch_iscntrl = 0x0002"
definition sch_isdigit :: u16 where "sch_isdigit = 0x0004"
definition sch_islower :: u16 where "sch_islower = 0x0008"
definition sch_isprint :: u16 where "sch_isprint = 0x0010"
definition sch_ispunct :: u16 where "sch_ispunct = 0x0020"
definition sch_isspace :: u16 where "sch_isspace = 0x0040"
definition sch_isupper :: u16 where "sch_isupper = 0x0080"
definition sch_isxdigit :: u16 where "sch_isxdigit = 0x0100"
definition sch_isidst :: u16 where "sch_isidst = 0x0200"
definition sch_isvsp :: u16 where "sch_isvsp = 0x0400"
definition sch_isnvsp :: u16 where "sch_isnvsp = 0x0800"

definition sch_isalpha :: u16 where "sch_isalpha = sch_isupper OR sch_islower"
definition sch_isalnum :: u16 where "sch_isalnum = sch_isalpha OR sch_isdigit"
definition sch_isidnum :: u16 where "sch_isidnum = sch_isidst OR sch_isdigit"
definition sch_isgraph :: u16 where "sch_isgraph = sch_isalnum OR sch_ispunct"
definition sch_iscppsp :: u16 where "sch_iscppsp = sch_isvsp OR sch_isnvsp"
definition sch_isbasic :: u16 where "sch_isbasic = sch_isprint OR sch_iscppsp"

section \<open>safe-ctype.c\<close>

text \<open>The masks the table is written with; \<open>m_us\<close> is the underscore.\<close>

definition m_L :: u16 where "m_L = sch_islower OR sch_isidst OR sch_isprint"
definition m_XL :: u16 where "m_XL = sch_islower OR sch_isidst OR sch_isxdigit OR sch_isprint"
definition m_U :: u16 where "m_U = sch_isupper OR sch_isidst OR sch_isprint"
definition m_XU :: u16 where "m_XU = sch_isupper OR sch_isidst OR sch_isxdigit OR sch_isprint"
definition m_D :: u16 where "m_D = sch_isdigit OR sch_isxdigit OR sch_isprint"
definition m_P :: u16 where "m_P = sch_ispunct OR sch_isprint"
definition m_us :: u16 where "m_us = sch_ispunct OR sch_isidst OR sch_isprint"
definition m_C :: u16 where "m_C = sch_iscntrl"
definition m_Z :: u16 where "m_Z = sch_isnvsp OR sch_iscntrl"
definition m_M :: u16 where "m_M = sch_isnvsp OR sch_isspace OR sch_iscntrl"
definition m_V :: u16 where "m_V = sch_isvsp OR sch_isspace OR sch_iscntrl"
definition m_T :: u16 where "m_T = sch_isnvsp OR sch_isspace OR sch_isblank OR sch_iscntrl"
definition m_S :: u16 where "m_S = sch_isnvsp OR sch_isspace OR sch_isblank OR sch_isprint"

definition sch_istable :: "u16 list" where
  "sch_istable = [
    m_Z, m_C, m_C, m_C, m_C, m_C, m_C, m_C, m_C, m_T, m_V, m_M, m_M, m_V, m_C, m_C,
    m_C, m_C, m_C, m_C, m_C, m_C, m_C, m_C, m_C, m_C, m_C, m_C, m_C, m_C, m_C, m_C,
    m_S, m_P, m_P, m_P, m_P, m_P, m_P, m_P, m_P, m_P, m_P, m_P, m_P, m_P, m_P, m_P,
    m_D, m_D, m_D, m_D, m_D, m_D, m_D, m_D, m_D, m_D, m_P, m_P, m_P, m_P, m_P, m_P,
    m_P, m_XU, m_XU, m_XU, m_XU, m_XU, m_XU, m_U, m_U, m_U, m_U, m_U, m_U, m_U, m_U, m_U,
    m_U, m_U, m_U, m_U, m_U, m_U, m_U, m_U, m_U, m_U, m_U, m_P, m_P, m_P, m_P, m_us,
    m_P, m_XL, m_XL, m_XL, m_XL, m_XL, m_XL, m_L, m_L, m_L, m_L, m_L, m_L, m_L, m_L, m_L,
    m_L, m_L, m_L, m_L, m_L, m_L, m_L, m_L, m_L, m_L, m_L, m_P, m_P, m_P, m_P, m_C,
    0, 0, 0, 0, 0, 0, 0, 0, 0, 0, 0, 0, 0, 0, 0, 0,
    0, 0, 0, 0, 0, 0, 0, 0, 0, 0, 0, 0, 0, 0, 0, 0,
    0, 0, 0, 0, 0, 0, 0, 0, 0, 0, 0, 0, 0, 0, 0, 0,
    0, 0, 0, 0, 0, 0, 0, 0, 0, 0, 0, 0, 0, 0, 0, 0,
    0, 0, 0, 0, 0, 0, 0, 0, 0, 0, 0, 0, 0, 0, 0, 0,
    0, 0, 0, 0, 0, 0, 0, 0, 0, 0, 0, 0, 0, 0, 0, 0,
    0, 0, 0, 0, 0, 0, 0, 0, 0, 0, 0, 0, 0, 0, 0, 0,
    0, 0, 0, 0, 0, 0, 0, 0, 0, 0, 0, 0, 0, 0, 0, 0]"

definition sch_tolower :: "u8 list" where
  "sch_tolower = [
    0, 1, 2, 3, 4, 5, 6, 7, 8, 9, 10, 11, 12, 13, 14, 15,
    16, 17, 18, 19, 20, 21, 22, 23, 24, 25, 26, 27, 28, 29, 30, 31,
    32, 33, 34, 35, 36, 37, 38, 39, 40, 41, 42, 43, 44, 45, 46, 47,
    48, 49, 50, 51, 52, 53, 54, 55, 56, 57, 58, 59, 60, 61, 62, 63,
    64, 97, 98, 99, 100, 101, 102, 103, 104, 105, 106, 107, 108, 109, 110, 111,
    112, 113, 114, 115, 116, 117, 118, 119, 120, 121, 122, 91, 92, 93, 94, 95,
    96, 97, 98, 99, 100, 101, 102, 103, 104, 105, 106, 107, 108, 109, 110, 111,
    112, 113, 114, 115, 116, 117, 118, 119, 120, 121, 122, 123, 124, 125, 126, 127,
    128, 129, 130, 131, 132, 133, 134, 135, 136, 137, 138, 139, 140, 141, 142, 143,
    144, 145, 146, 147, 148, 149, 150, 151, 152, 153, 154, 155, 156, 157, 158, 159,
    160, 161, 162, 163, 164, 165, 166, 167, 168, 169, 170, 171, 172, 173, 174, 175,
    176, 177, 178, 179, 180, 181, 182, 183, 184, 185, 186, 187, 188, 189, 190, 191,
    192, 193, 194, 195, 196, 197, 198, 199, 200, 201, 202, 203, 204, 205, 206, 207,
    208, 209, 210, 211, 212, 213, 214, 215, 216, 217, 218, 219, 220, 221, 222, 223,
    224, 225, 226, 227, 228, 229, 230, 231, 232, 233, 234, 235, 236, 237, 238, 239,
    240, 241, 242, 243, 244, 245, 246, 247, 248, 249, 250, 251, 252, 253, 254, 255]"

definition sch_toupper :: "u8 list" where
  "sch_toupper = [
    0, 1, 2, 3, 4, 5, 6, 7, 8, 9, 10, 11, 12, 13, 14, 15,
    16, 17, 18, 19, 20, 21, 22, 23, 24, 25, 26, 27, 28, 29, 30, 31,
    32, 33, 34, 35, 36, 37, 38, 39, 40, 41, 42, 43, 44, 45, 46, 47,
    48, 49, 50, 51, 52, 53, 54, 55, 56, 57, 58, 59, 60, 61, 62, 63,
    64, 65, 66, 67, 68, 69, 70, 71, 72, 73, 74, 75, 76, 77, 78, 79,
    80, 81, 82, 83, 84, 85, 86, 87, 88, 89, 90, 91, 92, 93, 94, 95,
    96, 65, 66, 67, 68, 69, 70, 71, 72, 73, 74, 75, 76, 77, 78, 79,
    80, 81, 82, 83, 84, 85, 86, 87, 88, 89, 90, 123, 124, 125, 126, 127,
    128, 129, 130, 131, 132, 133, 134, 135, 136, 137, 138, 139, 140, 141, 142, 143,
    144, 145, 146, 147, 148, 149, 150, 151, 152, 153, 154, 155, 156, 157, 158, 159,
    160, 161, 162, 163, 164, 165, 166, 167, 168, 169, 170, 171, 172, 173, 174, 175,
    176, 177, 178, 179, 180, 181, 182, 183, 184, 185, 186, 187, 188, 189, 190, 191,
    192, 193, 194, 195, 196, 197, 198, 199, 200, 201, 202, 203, 204, 205, 206, 207,
    208, 209, 210, 211, 212, 213, 214, 215, 216, 217, 218, 219, 220, 221, 222, 223,
    224, 225, 226, 227, 228, 229, 230, 231, 232, 233, 234, 235, 236, 237, 238, 239,
    240, 241, 242, 243, 244, 245, 246, 247, 248, 249, 250, 251, 252, 253, 254, 255]"

text \<open>The argument of the macros is an \<^verbatim>\<open>int\<close>, which may be negative.\<close>

definition low_byte :: "u32 \<Rightarrow> nat" where
  "low_byte c = unat (c AND 0xff)"

definition sch_test :: "u32 \<Rightarrow> u16 \<Rightarrow> bool" where
  "sch_test c bits \<longleftrightarrow> sch_istable ! low_byte c AND bits \<noteq> 0"

definition TOUPPER :: "u32 \<Rightarrow> u8" where
  "TOUPPER c = sch_toupper ! low_byte c"

definition TOLOWER :: "u32 \<Rightarrow> u8" where
  "TOLOWER c = sch_tolower ! low_byte c"

section \<open>hex.c\<close>

definition hex_bad :: u8 where "hex_bad = 99"

definition hex_values :: "u8 list" where
  "hex_values = [
    hex_bad, hex_bad, hex_bad, hex_bad, hex_bad, hex_bad, hex_bad, hex_bad, hex_bad, hex_bad, hex_bad, hex_bad, hex_bad, hex_bad, hex_bad, hex_bad,
    hex_bad, hex_bad, hex_bad, hex_bad, hex_bad, hex_bad, hex_bad, hex_bad, hex_bad, hex_bad, hex_bad, hex_bad, hex_bad, hex_bad, hex_bad, hex_bad,
    hex_bad, hex_bad, hex_bad, hex_bad, hex_bad, hex_bad, hex_bad, hex_bad, hex_bad, hex_bad, hex_bad, hex_bad, hex_bad, hex_bad, hex_bad, hex_bad,
    0, 1, 2, 3, 4, 5, 6, 7, 8, 9, hex_bad, hex_bad, hex_bad, hex_bad, hex_bad, hex_bad,
    hex_bad, 10, 11, 12, 13, 14, 15, hex_bad, hex_bad, hex_bad, hex_bad, hex_bad, hex_bad, hex_bad, hex_bad, hex_bad,
    hex_bad, hex_bad, hex_bad, hex_bad, hex_bad, hex_bad, hex_bad, hex_bad, hex_bad, hex_bad, hex_bad, hex_bad, hex_bad, hex_bad, hex_bad, hex_bad,
    hex_bad, 10, 11, 12, 13, 14, 15, hex_bad, hex_bad, hex_bad, hex_bad, hex_bad, hex_bad, hex_bad, hex_bad, hex_bad,
    hex_bad, hex_bad, hex_bad, hex_bad, hex_bad, hex_bad, hex_bad, hex_bad, hex_bad, hex_bad, hex_bad, hex_bad, hex_bad, hex_bad, hex_bad, hex_bad,
    hex_bad, hex_bad, hex_bad, hex_bad, hex_bad, hex_bad, hex_bad, hex_bad, hex_bad, hex_bad, hex_bad, hex_bad, hex_bad, hex_bad, hex_bad, hex_bad,
    hex_bad, hex_bad, hex_bad, hex_bad, hex_bad, hex_bad, hex_bad, hex_bad, hex_bad, hex_bad, hex_bad, hex_bad, hex_bad, hex_bad, hex_bad, hex_bad,
    hex_bad, hex_bad, hex_bad, hex_bad, hex_bad, hex_bad, hex_bad, hex_bad, hex_bad, hex_bad, hex_bad, hex_bad, hex_bad, hex_bad, hex_bad, hex_bad,
    hex_bad, hex_bad, hex_bad, hex_bad, hex_bad, hex_bad, hex_bad, hex_bad, hex_bad, hex_bad, hex_bad, hex_bad, hex_bad, hex_bad, hex_bad, hex_bad,
    hex_bad, hex_bad, hex_bad, hex_bad, hex_bad, hex_bad, hex_bad, hex_bad, hex_bad, hex_bad, hex_bad, hex_bad, hex_bad, hex_bad, hex_bad, hex_bad,
    hex_bad, hex_bad, hex_bad, hex_bad, hex_bad, hex_bad, hex_bad, hex_bad, hex_bad, hex_bad, hex_bad, hex_bad, hex_bad, hex_bad, hex_bad, hex_bad,
    hex_bad, hex_bad, hex_bad, hex_bad, hex_bad, hex_bad, hex_bad, hex_bad, hex_bad, hex_bad, hex_bad, hex_bad, hex_bad, hex_bad, hex_bad, hex_bad,
    hex_bad, hex_bad, hex_bad, hex_bad, hex_bad, hex_bad, hex_bad, hex_bad, hex_bad, hex_bad, hex_bad, hex_bad, hex_bad, hex_bad, hex_bad, hex_bad]"

definition hex_value :: "u32 \<Rightarrow> u32" where
  "hex_value c = ucast (hex_values ! low_byte c)"

definition hex_p :: "u32 \<Rightarrow> bool" where
  "hex_p c \<longleftrightarrow> hex_value c \<noteq> ucast hex_bad"

text \<open>The loop that \<open>hex_init\<close> runs on hosts without the table: what it stores for a character.\<close>

definition hex_init_value :: "nat \<Rightarrow> u8" where
  "hex_init_value i =
     (if i = of_char (CHR ''0'') then 0 else if i = of_char (CHR ''1'') then 1 else if i = of_char (CHR ''2'') then 2
      else if i = of_char (CHR ''3'') then 3 else if i = of_char (CHR ''4'') then 4 else if i = of_char (CHR ''5'') then 5
      else if i = of_char (CHR ''6'') then 6 else if i = of_char (CHR ''7'') then 7 else if i = of_char (CHR ''8'') then 8
      else if i = of_char (CHR ''9'') then 9
      else if i = of_char (CHR ''a'') \<or> i = of_char (CHR ''A'') then 10 else if i = of_char (CHR ''b'') \<or> i = of_char (CHR ''B'') then 11
      else if i = of_char (CHR ''c'') \<or> i = of_char (CHR ''C'') then 12 else if i = of_char (CHR ''d'') \<or> i = of_char (CHR ''D'') then 13
      else if i = of_char (CHR ''e'') \<or> i = of_char (CHR ''E'') then 14 else if i = of_char (CHR ''f'') \<or> i = of_char (CHR ''F'') then 15
      else hex_bad)"

definition hex_init :: "u8 list" where
  "hex_init = map hex_init_value [0..<256]"

section \<open>The classes as ranges of characters\<close>

definition upper :: "nat \<Rightarrow> bool" where "upper b \<longleftrightarrow> 65 \<le> b \<and> b \<le> 90"
definition lower :: "nat \<Rightarrow> bool" where "lower b \<longleftrightarrow> 97 \<le> b \<and> b \<le> 122"
definition digit :: "nat \<Rightarrow> bool" where "digit b \<longleftrightarrow> 48 \<le> b \<and> b \<le> 57"
definition printing :: "nat \<Rightarrow> bool" where "printing b \<longleftrightarrow> 32 \<le> b \<and> b \<le> 126"
definition hex_letter :: "nat \<Rightarrow> bool" where "hex_letter b \<longleftrightarrow> 65 \<le> b \<and> b \<le> 70 \<or> 97 \<le> b \<and> b \<le> 102"

text \<open>The classes in the order of their bits.\<close>

definition classes :: "nat \<Rightarrow> bool list" where
  "classes b = [
     b = 32 \<or> b = 9,
     b < 32 \<or> b = 127,
     digit b,
     lower b,
     printing b,
     printing b \<and> \<not> upper b \<and> \<not> lower b \<and> \<not> digit b \<and> b \<noteq> 32,
     b = 32 \<or> 9 \<le> b \<and> b \<le> 13,
     upper b,
     digit b \<or> hex_letter b,
     upper b \<or> lower b \<or> b = 95,
     b = 10 \<or> b = 13,
     b = 32 \<or> b = 9 \<or> b = 11 \<or> b = 12 \<or> b = 0]"

lemma mask_values [code]: "m_L = 536" "m_XL = 792" "m_U = 656" "m_XU = 912" "m_D = 276" "m_P = 48" "m_us = 560" "m_C = 2" "m_Z = 2050" "m_M = 2114" "m_V = 1090" "m_T = 2115" "m_S = 2129"
  by (simp_all add: m_L_def m_XL_def m_U_def m_XU_def m_D_def m_P_def m_us_def m_C_def m_Z_def m_M_def m_V_def m_T_def m_S_def
    sch_isblank_def sch_iscntrl_def sch_isdigit_def sch_islower_def sch_isprint_def sch_ispunct_def sch_isspace_def
    sch_isupper_def sch_isxdigit_def sch_isidst_def sch_isvsp_def sch_isnvsp_def)

text \<open>A word from its bits, lowest first.\<close>

fun of_bits :: "bool list \<Rightarrow> u16" where
  "of_bits [] = 0"
| "of_bits (x # xs) = of_bool x OR push_bit 1 (of_bits xs)"

text \<open>A table against a function of the index, entry by entry from index \<open>b\<close> on.\<close>

fun tabulated :: "(nat \<Rightarrow> 'a) \<Rightarrow> nat \<Rightarrow> 'a list \<Rightarrow> bool" where
  "tabulated f b [] = True"
| "tabulated f b (x # xs) = (x = f b \<and> tabulated f (Suc b) xs)"

lemma tabulated_nth: "tabulated f b xs \<Longrightarrow> i < length xs \<Longrightarrow> xs ! i = f (b + i)"
proof (induction xs arbitrary: b i)
  case (Cons x xs)
  then show ?case by (cases i) auto
qed simp

definition class_word :: "nat \<Rightarrow> u16" where
  "class_word b = (if b < 128 then of_bits (classes b) else 0)"

lemma of_bits_add: "of_bits (x # xs) = of_bool x + 2 * of_bits xs"
proof -
  have "(of_bool x :: u16) AND push_bit 1 w = 0" for w
    by (rule bit_word_eqI) (auto simp: bit_and_iff bit_push_bit_iff bit_1_iff bit_0)
  then have "of_bits (x # xs) = of_bool x + push_bit 1 (of_bits xs)" by (simp only: of_bits.simps disjunctive_add_eq_or)
  then show ?thesis by (simp add: push_bit_eq_mult)
qed

lemma istable_tabulated: "tabulated class_word 0 sch_istable"
  unfolding sch_istable_def mask_values
  by (simp del: of_bits.simps(2) add: of_bits_add class_word_def classes_def upper_def lower_def digit_def printing_def hex_letter_def)

lemma toupper_tabulated: "tabulated (\<lambda>b. of_nat (if lower b then b - 32 else b)) 0 sch_toupper"
  by (simp add: sch_toupper_def lower_def)

lemma tolower_tabulated: "tabulated (\<lambda>b. of_nat (if upper b then b + 32 else b)) 0 sch_tolower"
  by (simp add: sch_tolower_def upper_def)

lemma hex_init_value_ranges: "hex_init_value i =
  (if 48 \<le> i \<and> i \<le> 57 then of_nat (i - 48) else if 65 \<le> i \<and> i \<le> 70 then of_nat (i - 55)
   else if 97 \<le> i \<and> i \<le> 102 then of_nat (i - 87) else 99)"
proof -
  have "48 \<le> i \<and> i \<le> 57 \<Longrightarrow> i \<in> {48, 49, 50, 51, 52, 53, 54, 55, 56, 57}"
    "65 \<le> i \<and> i \<le> 70 \<Longrightarrow> i \<in> {65, 66, 67, 68, 69, 70}" "97 \<le> i \<and> i \<le> 102 \<Longrightarrow> i \<in> {97, 98, 99, 100, 101, 102}"
    unfolding insert_iff empty_iff by presburger+
  then show ?thesis unfolding hex_init_value_def hex_bad_def by (auto split: if_splits)
qed

lemma hex_tabulated: "tabulated hex_init_value 0 hex_values"
  by (simp add: hex_values_def hex_init_value_ranges hex_bad_def)

lemma table_lengths: "length sch_istable = 256" "length sch_toupper = 256" "length sch_tolower = 256" "length hex_values = 256"
  by (simp_all add: sch_istable_def sch_toupper_def sch_tolower_def hex_values_def)

lemma low_byte_less: "low_byte c < 256"
proof -
  have e: "(0xff :: u32) = mask 8" by (simp add: mask_eq_exp_minus_1)
  show ?thesis unfolding low_byte_def e take_bit_eq_mask [symmetric] take_bit_eq_mod by (simp add: unat_mod)
qed

lemmas istable_nth = tabulated_nth [OF istable_tabulated, unfolded table_lengths, simplified]
lemmas toupper_nth = tabulated_nth [OF toupper_tabulated, unfolded table_lengths, simplified]
lemmas tolower_nth = tabulated_nth [OF tolower_tabulated, unfolded table_lengths, simplified]
lemmas hex_nth = tabulated_nth [OF hex_tabulated, unfolded table_lengths, simplified]

lemma bit_of_bits: "bit (of_bits xs) k \<longleftrightarrow> k < 16 \<and> k < length xs \<and> xs ! k"
proof (induction xs arbitrary: k)
  case (Cons x xs)
  have "bit (of_bool x :: u16) k \<longleftrightarrow> x \<and> k = 0" by (auto simp: bit_1_iff)
  moreover have "bit (push_bit 1 w) k \<longleftrightarrow> k < 16 \<and> 0 < k \<and> bit w (k - 1)" for w :: u16
    unfolding bit_push_bit_iff possible_bit_word by (cases k) auto
  ultimately show ?case unfolding of_bits.simps bit_or_iff by (cases k) (auto simp: Cons.IH)
qed simp

lemma length_classes: "length (classes b) = 12"
  by (simp add: classes_def)

lemma bit_table: "bit (sch_istable ! low_byte c) k \<longleftrightarrow> low_byte c < 128 \<and> k < 12 \<and> classes (low_byte c) ! k"
  unfolding istable_nth [OF low_byte_less] class_word_def by (auto simp: bit_of_bits length_classes)

lemma sch_test_or: "sch_test c (a OR b) \<longleftrightarrow> sch_test c a \<or> sch_test c b"
proof -
  have "w AND (a OR b) = 0 \<longleftrightarrow> w AND a = 0 \<and> w AND b = 0" for w :: u16
    by (auto simp: bit_eq_iff bit_simps)
  then show ?thesis by (auto simp: sch_test_def)
qed

lemma sch_test_bit: "k < 16 \<Longrightarrow> sch_test c (push_bit k 1) \<longleftrightarrow> bit (sch_istable ! low_byte c) k"
proof -
  assume k: "k < 16"
  have "w AND push_bit k 1 = 0 \<longleftrightarrow> \<not> bit w k" for w :: u16
    using k by (simp only: push_bit_of_1 and_exp_eq_0_iff_not_bit)
  then show ?thesis by (simp only: sch_test_def) simp
qed

section \<open>Properties\<close>

lemma category_bits:
  "sch_isblank = push_bit 0 1" "sch_iscntrl = push_bit 1 1" "sch_isdigit = push_bit 2 1" "sch_islower = push_bit 3 1"
  "sch_isprint = push_bit 4 1" "sch_ispunct = push_bit 5 1" "sch_isspace = push_bit 6 1" "sch_isupper = push_bit 7 1"
  "sch_isxdigit = push_bit 8 1" "sch_isidst = push_bit 9 1" "sch_isvsp = push_bit 10 1" "sch_isnvsp = push_bit 11 1"
  by (simp_all add: sch_isblank_def sch_iscntrl_def sch_isdigit_def sch_islower_def sch_isprint_def sch_ispunct_def
    sch_isspace_def sch_isupper_def sch_isxdigit_def sch_isidst_def sch_isvsp_def sch_isnvsp_def)

lemma sch_test_category: "k < 12 \<Longrightarrow> sch_test c (push_bit k 1) \<longleftrightarrow> low_byte c < 128 \<and> classes (low_byte c) ! k"
  by (simp add: sch_test_bit bit_table del: push_bit_of_1)

lemmas class_ranges = upper_def lower_def digit_def printing_def hex_letter_def

lemma single_categories:
  fixes c :: u32
  defines "b \<equiv> low_byte c"
  shows "sch_test c sch_isblank \<longleftrightarrow> b = 32 \<or> b = 9"
    "sch_test c sch_iscntrl \<longleftrightarrow> b < 32 \<or> b = 127"
    "sch_test c sch_isdigit \<longleftrightarrow> digit b"
    "sch_test c sch_islower \<longleftrightarrow> lower b"
    "sch_test c sch_isprint \<longleftrightarrow> printing b"
    "sch_test c sch_ispunct \<longleftrightarrow> printing b \<and> \<not> upper b \<and> \<not> lower b \<and> \<not> digit b \<and> b \<noteq> 32"
    "sch_test c sch_isspace \<longleftrightarrow> b = 32 \<or> 9 \<le> b \<and> b \<le> 13"
    "sch_test c sch_isupper \<longleftrightarrow> upper b"
    "sch_test c sch_isxdigit \<longleftrightarrow> digit b \<or> hex_letter b"
    "sch_test c sch_isidst \<longleftrightarrow> upper b \<or> lower b \<or> b = 95"
    "sch_test c sch_isvsp \<longleftrightarrow> b = 10 \<or> b = 13"
    "sch_test c sch_isnvsp \<longleftrightarrow> b = 32 \<or> b = 9 \<or> b = 11 \<or> b = 12 \<or> b = 0"
  unfolding b_def category_bits
  by (subst sch_test_category; auto simp: classes_def class_ranges)+

lemma unat_hex_value:
  "unat (hex_value c) = (if digit (low_byte c) then low_byte c - 48
     else if 65 \<le> low_byte c \<and> low_byte c \<le> 70 then low_byte c - 55
     else if 97 \<le> low_byte c \<and> low_byte c \<le> 102 then low_byte c - 87 else 99)"
proof -
  have up: "unat (ucast x :: u32) = unat x" for x :: u8
    using unat_u8_less [of x] by (simp add: unsigned_ucast_eq take_bit_eq_mod)
  have m: "(low_byte c - n) mod 256 = low_byte c - n" for n using low_byte_less [of c] by simp
  show ?thesis
    unfolding hex_value_def up hex_nth [OF low_byte_less] hex_init_value_ranges
    by (simp add: unat_of_nat digit_def m del: of_nat_diff)
qed

section \<open>Properties\<close>

text \<open>The classification macros hold of exactly the characters they name, for any \<^verbatim>\<open>int\<close> argument: only
  its low byte counts, and bytes of 128 and more are in no class.
\<close>

theorem classification_correct:
  "(sch_test c sch_isalpha \<longleftrightarrow> upper (low_byte c) \<or> lower (low_byte c)) \<and>
   (sch_test c sch_isalnum \<longleftrightarrow> upper (low_byte c) \<or> lower (low_byte c) \<or> digit (low_byte c)) \<and>
   (sch_test c sch_isidnum \<longleftrightarrow> upper (low_byte c) \<or> lower (low_byte c) \<or> digit (low_byte c) \<or> low_byte c = 95) \<and>
   (sch_test c sch_isgraph \<longleftrightarrow> 33 \<le> low_byte c \<and> low_byte c \<le> 126) \<and>
   (sch_test c sch_isprint \<longleftrightarrow> 32 \<le> low_byte c \<and> low_byte c \<le> 126) \<and>
   (sch_test c sch_ispunct \<longleftrightarrow> sch_test c sch_isgraph \<and> \<not> sch_test c sch_isalnum) \<and>
   (sch_test c sch_isspace \<longleftrightarrow> low_byte c \<in> {9, 10, 11, 12, 13, 32}) \<and>
   (sch_test c sch_iscppsp \<longleftrightarrow> low_byte c \<in> {0, 9, 10, 11, 12, 13, 32}) \<and>
   (sch_test c sch_isxdigit \<longleftrightarrow> hex_p c) \<and>
   (sch_test c sch_iscntrl \<longleftrightarrow> low_byte c < 128 \<and> \<not> sch_test c sch_isprint) \<and>
   (sch_test c sch_isbasic \<longleftrightarrow> sch_test c sch_isprint \<or> sch_test c sch_iscppsp)"
proof -
  have "hex_p c \<longleftrightarrow> digit (low_byte c) \<or> hex_letter (low_byte c)"
  proof -
    have "unat (ucast hex_bad :: u32) = 99" by (simp add: hex_bad_def)
    then show ?thesis unfolding hex_p_def word_unat_eq_iff unat_hex_value by (auto simp: class_ranges)
  qed
  moreover have "n \<in> {9, 10, 11, 12, 13, 32} \<longleftrightarrow> n = 32 \<or> 9 \<le> n \<and> n \<le> 13" for n :: nat by auto
  ultimately show ?thesis
    by (simp only: sch_isalpha_def sch_isalnum_def sch_isidnum_def sch_isgraph_def sch_iscppsp_def sch_isbasic_def
      sch_test_or single_categories class_ranges insert_iff empty_iff) (intro conjI; presburger)
qed

text \<open>\<open>TOUPPER\<close> and \<open>TOLOWER\<close> change exactly the letters of the other case, by 32, and undo one another on letters.
\<close>

theorem case_mapping_correct:
  "unat (TOUPPER c) = (if lower (low_byte c) then low_byte c - 32 else low_byte c) \<and>
   unat (TOLOWER c) = (if upper (low_byte c) then low_byte c + 32 else low_byte c) \<and>
   TOLOWER (ucast (TOUPPER c)) = TOLOWER c \<and> TOUPPER (ucast (TOLOWER c)) = TOUPPER c"
proof -
  have to_up: "unat (TOUPPER c) = (if lower (low_byte c) then low_byte c - 32 else low_byte c)" for c
    using low_byte_less [of c] by (simp add: TOUPPER_def toupper_nth unat_of_nat)
  have to_low: "unat (TOLOWER c) = (if upper (low_byte c) then low_byte c + 32 else low_byte c)" for c
    using low_byte_less [of c] by (simp add: TOLOWER_def tolower_nth unat_of_nat upper_def)
  have "low_byte (ucast x) = unat x" for x :: u8
  proof -
    have e: "(0xff :: u32) = mask 8" by (simp add: mask_eq_exp_minus_1)
    show ?thesis unfolding low_byte_def e take_bit_eq_mask [symmetric]
      using unat_u8_less [of x] by (simp add: unsigned_take_bit_eq unsigned_ucast_eq take_bit_eq_mod unat_mod)
  qed
  then have "unat (TOLOWER (ucast (TOUPPER c))) = unat (TOLOWER c)" "unat (TOUPPER (ucast (TOLOWER c))) = unat (TOUPPER c)"
    unfolding to_up to_low by (auto simp: to_up to_low class_ranges)
  with to_up to_low show ?thesis by (simp add: word_unat_eq_iff)
qed

text \<open>The table of hexadecimal digits is what the loop of \<open>hex_init\<close> stores on hosts without a table, and the value
  of a digit is its place among the sixteen, in either case.
\<close>

theorem hex_table_correct:
  "hex_values = hex_init \<and>
   (\<forall>k < 16. hex_value (ucast (of_string ''0123456789abcdef'' ! k)) = of_nat k \<and>
      hex_value (ucast (of_string ''0123456789ABCDEF'' ! k)) = of_nat k)"
proof
  show "hex_values = hex_init"
    by (rule nth_equalityI) (simp_all add: hex_init_def table_lengths hex_nth)
  have "k < 16 \<Longrightarrow> k \<in> {0, 1, 2, 3, 4, 5, 6, 7, 8, 9, 10, 11, 12, 13, 14, 15}" for k :: nat
    unfolding insert_iff empty_iff by presburger
  moreover have "hex_value (ucast (of_string ''0123456789abcdef'' ! k)) = of_nat k \<and>
      hex_value (ucast (of_string ''0123456789ABCDEF'' ! k)) = of_nat k"
    if "k \<in> {0, 1, 2, 3, 4, 5, 6, 7, 8, 9, 10, 11, 12, 13, 14, 15}" for k
    using that by (auto simp: hex_value_def low_byte_def hex_nth hex_init_value_ranges of_string_def)
  ultimately show "\<forall>k < 16. hex_value (ucast (of_string ''0123456789abcdef'' ! k)) = of_nat k \<and>
      hex_value (ucast (of_string ''0123456789ABCDEF'' ! k)) = of_nat k" by blast
qed

lemma hex_table_correct_witness: "hex_value (ucast (of_string ''0123456789abcdef'' ! 13)) = 13"
  using hex_table_correct by simp

end
