(* ===== verification/Sort_Pointers.thy ===== *)
theory Sort_Pointers
  imports Prelude "HOL-Library.Multiset"
begin

text \<open>
  The radix sort of \<^verbatim>\<open>src/binutils-2.42/libiberty/sort.c\<close> on a little-endian machine: eight passes of a
  counting sort on the bytes of 64-bit pointers, from the least significant, between two arrays.
  The counters are \<^verbatim>\<open>unsigned int\<close>.
\<close>

unbundle bit_operations_syntax

section \<open>sort.c\<close>

text \<open>Byte \<open>j\<close> of a pointer, as it lies in memory.\<close>

definition digit :: "nat \<Rightarrow> u64 \<Rightarrow> nat" where
  "digit j p = unat (ucast (drop_bit (8 * j) p) :: u8)"

definition tally :: "nat \<Rightarrow> u64 list \<Rightarrow> u32 list" where
  "tally j pointers = fold (\<lambda>p counts. counts[digit j p := counts ! digit j p + 1]) pointers (replicate 256 0)"

definition accumulate :: "u32 list \<Rightarrow> u32 list" where
  "accumulate counts = fold (\<lambda>k counts. counts[k := counts ! k + counts ! (k - 1)]) [1..<256] counts"

definition place :: "nat \<Rightarrow> u64 \<Rightarrow> u64 list \<times> u32 list \<Rightarrow> u64 list \<times> u32 list" where
  "place j p = (\<lambda>(work, counts).
     let counts = counts[digit j p := counts ! digit j p - 1]
     in (work[unat (counts ! digit j p) := p], counts))"

text \<open>The arrays are swapped after a pass.\<close>

definition pass :: "nat \<Rightarrow> u64 list \<times> u64 list \<Rightarrow> u64 list \<times> u64 list" where
  "pass j = (\<lambda>(pointers, work).
     (fst (fold (place j) (rev pointers) (work, accumulate (tally j pointers))), pointers))"

definition sort_pointers :: "u64 list \<Rightarrow> u64 list \<Rightarrow> u64 list" where
  "sort_pointers pointers work = fst (fold pass [0..<8] (pointers, work))"

section \<open>Buckets\<close>

definition bucket :: "nat \<Rightarrow> nat \<Rightarrow> u64 list \<Rightarrow> u64 list" where
  "bucket j k ps = filter (\<lambda>p. digit j p = k) ps"

definition start :: "nat \<Rightarrow> u64 list \<Rightarrow> nat \<Rightarrow> nat" where
  "start j ps k = length (concat (map (\<lambda>k. bucket j k ps) [0..<k]))"

lemma digit_less: "digit j p < 256"
  by (simp add: digit_def unat_u8_less)

lemma start_simps [simp]: "start j ps 0 = 0" "start j ps (Suc k) = start j ps k + length (bucket j k ps)"
  by (simp_all add: start_def)

lemma start_mono: "k \<le> l \<Longrightarrow> start j ps k \<le> start j ps l"
  by (rule lift_Suc_mono_le [of "start j ps"]) simp_all

lemma mset_buckets: "mset (concat (map (\<lambda>k. bucket j k ps) [0..<n])) = filter_mset (\<lambda>p. digit j p < n) (mset ps)"
proof (induction n)
  case (Suc n)
  have "filter_mset (\<lambda>p. digit j p < Suc n) (mset ps) =
    filter_mset (\<lambda>p. digit j p < n) (mset ps) + filter_mset (\<lambda>p. digit j p = n) (mset ps)"
    by (induction ps) (auto simp: less_Suc_eq)
  with Suc show ?case by (simp add: bucket_def)
qed simp

lemma mset_all_buckets: "mset (concat (map (\<lambda>k. bucket j k ps) [0..<256])) = mset ps"
  using digit_less by (simp add: mset_buckets del: upt_rec_numeral)

lemma start_256: "start j ps 256 = length ps"
  using arg_cong [OF mset_all_buckets, of size j ps] unfolding start_def size_mset .

section \<open>One pass\<close>

lemma tally_counts:
  assumes "length ps < 2 ^ 32"
  shows "length (tally j ps) = 256 \<and> (\<forall>k < 256. unat (tally j ps ! k) = length (bucket j k ps))"
proof -
  have "length c = 256 \<Longrightarrow> (\<forall>k < 256. unat (c ! k) + length (bucket j k ps) < 2 ^ 32) \<Longrightarrow>
    length (fold (\<lambda>p counts. counts[digit j p := counts ! digit j p + 1]) ps c) = 256 \<and>
    (\<forall>k < 256. unat (fold (\<lambda>p counts. counts[digit j p := counts ! digit j p + 1]) ps c ! k) = unat (c ! k) + length (bucket j k ps))"
    for c :: "u32 list"
  proof (induction ps arbitrary: c)
    case (Cons p ps)
    let ?c = "c[digit j p := c ! digit j p + 1]"
    have "unat (c ! digit j p) + length (bucket j (digit j p) (p # ps)) < 2 ^ 32" using Cons.prems(2) digit_less by blast
    then have "unat (c ! digit j p + 1) = unat (c ! digit j p) + 1"
      by (intro trans [OF unat_add_no_wrap]) (simp_all add: bucket_def)
    then have c: "unat (?c ! k) = unat (c ! k) + (if k = digit j p then 1 else 0)" if "k < 256" for k
      using that Cons.prems(1) by (simp add: nth_list_update)
    have "\<forall>k < 256. unat (?c ! k) + length (bucket j k ps) < 2 ^ 32"
      using Cons.prems(2) by (auto simp: c bucket_def)
    from Cons.IH [OF _ this] Cons.prems(1) show ?case by (auto simp: c bucket_def)
  qed (simp add: bucket_def)
  moreover have "length (bucket j k ps) < 2 ^ 32" for k
    using le_less_trans [OF length_filter_le assms] by (simp add: bucket_def)
  ultimately show ?thesis unfolding tally_def by simp
qed

lemma accumulate_starts:
  assumes "length ps < 2 ^ 32" "length c = 256" "\<forall>k < 256. unat (c ! k) = length (bucket j k ps)"
  shows "length (accumulate c) = 256 \<and> (\<forall>k < 256. unat (accumulate c ! k) = start j ps (Suc k))"
proof -
  have le: "start j ps k < 2 ^ 32" if "k \<le> 256" for k
    using start_mono [OF that, of j ps] start_256 [of j ps] assms(1) by simp
  have "m \<le> 256 \<Longrightarrow> 1 \<le> m \<Longrightarrow> length (fold (\<lambda>k counts. counts[k := counts ! k + counts ! (k - 1)]) [1..<m] c) = 256 \<and>
    (\<forall>k < 256. unat (fold (\<lambda>k counts. counts[k := counts ! k + counts ! (k - 1)]) [1..<m] c ! k) =
       (if k < m then start j ps (Suc k) else length (bucket j k ps)))" for m
  proof (induction m)
    case (Suc m)
    show ?case
    proof (cases "m = 0")
      case True
      then show ?thesis using assms(2,3) by auto
    next
      case False
      define c' where "c' = fold (\<lambda>k counts. counts[k := counts ! k + counts ! (k - 1)]) [1..<m] c"
      have c': "length c' = 256" "unat (c' ! (m - 1)) = start j ps m" "unat (c' ! m) = length (bucket j m ps)"
        "\<forall>k < 256. unat (c' ! k) = (if k < m then start j ps (Suc k) else length (bucket j k ps))"
        using Suc False by (auto simp: c'_def)
      then have "unat (c' ! m + c' ! (m - 1)) = start j ps (Suc m)"
        using le [of "Suc m"] Suc.prems(1) by (subst unat_add_no_wrap) simp_all
      moreover have "fold (\<lambda>k counts. counts[k := counts ! k + counts ! (k - 1)]) [1..<Suc m] c = c'[m := c' ! m + c' ! (m - 1)]"
        using False by (simp add: c'_def)
      ultimately show ?thesis
        using c' Suc.prems(1) by (auto simp: nth_list_update less_Suc_eq)
    qed
  qed simp
  from this [of 256] show ?thesis by (simp add: accumulate_def del: upt_rec_numeral)
qed

text \<open>
  While the last pointers \<open>dn\<close> are placed, the counter of a bucket stands where the placed part of the
  bucket begins.
\<close>

definition placed :: "nat \<Rightarrow> u64 list \<Rightarrow> u64 list \<Rightarrow> u64 list \<times> u32 list \<Rightarrow> bool" where
  "placed j ps dn = (\<lambda>(work, counts). length work = length ps \<and> length counts = 256 \<and>
     (\<forall>k < 256. unat (counts ! k) + length (bucket j k dn) = start j ps (Suc k) \<and>
       take (length (bucket j k dn)) (drop (unat (counts ! k)) work) = bucket j k dn))"

lemma bucket_append: "bucket j k (xs @ ys) = bucket j k xs @ bucket j k ys"
  by (simp add: bucket_def)

lemma bucket_Cons: "bucket j k (x # ys) = (if digit j x = k then x # bucket j k ys else bucket j k ys)"
  by (simp add: bucket_def)

lemma take_drop_update_other: "i < n \<or> n + m \<le> i \<Longrightarrow> take m (drop n (xs[i := x])) = take m (drop n xs)"
  by (auto simp: drop_update_swap list_eq_iff_nth_eq nth_list_update)

lemma placed_place:
  assumes "placed j (qs @ x # dn) dn st"
  shows "placed j (qs @ x # dn) (x # dn) (place j x st)"
proof -
  obtain w c where st: "st = (w, c)" by fastforce
  let ?ps = "qs @ x # dn" and ?d = "digit j x"
  let ?i = "unat (c ! ?d) - 1"
  have inv: "length w = length ?ps" "length c = 256"
    "\<And>k. k < 256 \<Longrightarrow> unat (c ! k) + length (bucket j k dn) = start j ?ps (Suc k)"
    "\<And>k. k < 256 \<Longrightarrow> take (length (bucket j k dn)) (drop (unat (c ! k)) w) = bucket j k dn"
    using assms by (simp_all add: placed_def st)
  have at: "unat (c ! k) = start j ?ps k + length (bucket j k qs) + (if k = ?d then 1 else 0)" if "k < 256" for k
    using inv(3) [OF that] by (auto simp: bucket_append bucket_Cons)
  have pos: "unat (c ! ?d - 1) = ?i"
    using at [OF digit_less, of j x] by (simp add: unat_sub word_le_nat_alt)
  have place: "place j x st = (w[?i := x], c[?d := c ! ?d - 1])"
    by (simp add: place_def st Let_def pos inv(2) digit_less)
  have len: "?i < length w"
    using inv(3) [OF digit_less, of j x] start_mono [of "Suc ?d" 256 j ?ps] digit_less [of j x] start_256 [of j ?ps] inv(1)
      at [OF digit_less, of j x] by simp
  have "unat (c[?d := c ! ?d - 1] ! k) + length (bucket j k (x # dn)) = start j ?ps (Suc k) \<and>
       take (length (bucket j k (x # dn))) (drop (unat (c[?d := c ! ?d - 1] ! k)) (w[?i := x])) = bucket j k (x # dn)"
    if k: "k < 256" for k
  proof (cases "k = ?d")
    case True
    have c: "unat (c ! k) = Suc ?i" using at [OF k] True by simp
    have "take (length (bucket j k dn)) (drop (Suc ?i) w) = bucket j k dn" using inv(4) [OF k] unfolding c .
    moreover have "drop ?i (w[?i := x]) = x # drop (Suc ?i) w"
      using len by (simp add: drop_update_swap Cons_nth_drop_Suc [symmetric] list_update_append drop_update_cancel)
    ultimately show ?thesis using inv(3) [OF k] c True pos inv(2) k by (simp add: bucket_Cons)
  next
    case False
    have "?i < unat (c ! k) \<or> unat (c ! k) + length (bucket j k dn) \<le> ?i"
    proof (cases "?d < k")
      case True
      then have "start j ?ps (Suc ?d) \<le> start j ?ps k" by (intro start_mono) simp
      then show ?thesis using at [OF k] at [OF digit_less, of j x] by (simp add: bucket_append bucket_Cons)
    next
      case False
      with \<open>k \<noteq> ?d\<close> have "start j ?ps (Suc k) \<le> start j ?ps ?d" by (intro start_mono) simp
      then show ?thesis using inv(3) [OF k] at [OF digit_less, of j x] by simp
    qed
    with False inv(3,4) [OF k] show ?thesis by (simp add: bucket_Cons take_drop_update_other)
  qed
  with inv(1,2) show ?thesis by (simp add: placed_def place)
qed

lemma placed_all: "placed j (qs @ dn) dn st \<Longrightarrow> placed j (qs @ dn) (qs @ dn) (fold (place j) (rev qs) st)"
proof (induction qs arbitrary: dn st rule: rev_induct)
  case (snoc x qs)
  from placed_place [of j qs x dn st] snoc.prems snoc.IH [of "x # dn" "place j x st"] show ?case by simp
qed simp

lemma placed_end:
  assumes "placed j ps ps (w, c)"
  shows "w = concat (map (\<lambda>k. bucket j k ps) [0..<256])"
proof -
  have inv: "length w = length ps" "\<And>k. k < 256 \<Longrightarrow> take (length (bucket j k ps)) (drop (start j ps k) w) = bucket j k ps"
    using assms by (auto simp: placed_def)
  have "n \<le> 256 \<Longrightarrow> take (start j ps n) w = concat (map (\<lambda>k. bucket j k ps) [0..<n])" for n
  proof (induction n)
    case (Suc n)
    then show ?case using inv(2) [of n] by (simp add: take_add)
  qed simp
  from this [of 256] inv(1) show ?thesis by (simp add: start_256 del: upt_rec_numeral)
qed

lemma pass_buckets:
  assumes "length ps < 2 ^ 32" "length work = length ps"
  shows "pass j (ps, work) = (concat (map (\<lambda>k. bucket j k ps) [0..<256]), ps)"
proof -
  have "placed j (ps @ []) [] (work, accumulate (tally j ps))"
    using assms accumulate_starts [OF assms(1), of "tally j ps" j] tally_counts [OF assms(1), of j]
    by (simp add: placed_def bucket_def del: start_simps(2))
  from placed_all [OF this] show ?thesis
    by (cases "fold (place j) (rev ps) (work, accumulate (tally j ps))") (simp add: pass_def placed_end del: upt_rec_numeral)
qed

section \<open>All passes\<close>

lemma digit_eq: "digit j p = unat p div 256 ^ j mod 256"
  by (simp add: digit_def unsigned_ucast_eq take_bit_eq_mod unat_drop_bit power_mult)

lemma mod_Suc_digit: "unat p mod 256 ^ Suc j = unat p mod 256 ^ j + 256 ^ j * digit j p"
  unfolding digit_eq using mod_mult2_eq [of "unat p" "256 ^ j" 256] by (simp only: power_Suc mult.commute add.commute)

lemma sorted_bucket:
  assumes "sorted (map (\<lambda>p. unat p mod 256 ^ j) ps)"
  shows "sorted (map (\<lambda>p. unat p mod 256 ^ Suc j) (bucket j n ps))"
proof -
  have "sorted (map (\<lambda>p. unat p mod 256 ^ j) (bucket j n ps))"
    using sorted_filter [OF assms] by (simp add: bucket_def)
  then have "sorted (map (\<lambda>c. c + 256 ^ j * n) (map (\<lambda>p. unat p mod 256 ^ j) (bucket j n ps)))"
    by (simp only: sorted_map) (simp add: sorted_wrt_map)
  moreover have "map (\<lambda>p. unat p mod 256 ^ Suc j) (bucket j n ps) =
      map (\<lambda>c. c + 256 ^ j * n) (map (\<lambda>p. unat p mod 256 ^ j) (bucket j n ps))"
    by (auto simp: bucket_def mod_Suc_digit simp del: power_Suc)
  ultimately show ?thesis by (simp only:)
qed

lemma sorted_buckets:
  assumes "sorted (map (\<lambda>p. unat p mod 256 ^ j) ps)"
  shows "sorted (map (\<lambda>p. unat p mod 256 ^ Suc j) (concat (map (\<lambda>k. bucket j k ps) [0..<n])))"
proof (induction n)
  case (Suc n)
  have less: "unat p mod 256 ^ Suc j \<le> unat q mod 256 ^ Suc j" if "digit j p < n" "digit j q = n" for p q
  proof -
    have "unat p mod 256 ^ j + 256 ^ j * digit j p \<le> 256 ^ j + 256 ^ j * digit j p"
      using mod_less_divisor [of "256 ^ j" "unat p"] by simp
    also have "\<dots> = 256 ^ j * Suc (digit j p)" by simp
    also have "\<dots> \<le> 256 ^ j * digit j q" using that by (intro mult_le_mono2) simp
    finally show ?thesis by (simp add: mod_Suc_digit del: power_Suc)
  qed
  have low: "p \<in> set (concat (map (\<lambda>k. bucket j k ps) [0..<n])) \<Longrightarrow> digit j p < n"
    and this_one: "p \<in> set (bucket j n ps) \<Longrightarrow> digit j p = n" for p
    by (auto simp: bucket_def)
  have "sorted (map (\<lambda>p. unat p mod 256 ^ Suc j) (concat (map (\<lambda>k. bucket j k ps) [0..<n]) @ bucket j n ps))"
    unfolding map_append sorted_append using Suc.IH sorted_bucket [OF assms, of n] less low this_one
    by (auto simp del: power_Suc set_concat)
  then show ?case by (simp del: power_Suc)
qed simp

lemma passes:
  assumes "length ps < 2 ^ 32" "length work = length ps" "j \<le> 8"
  shows "case fold pass [0..<j] (ps, work) of (ps', work') \<Rightarrow>
    mset ps' = mset ps \<and> length work' = length ps \<and> sorted (map (\<lambda>p. unat p mod 256 ^ j) ps')"
  using assms(3)
proof (induction j)
  case 0
  show ?case using assms(2) by (simp add: sorted_iff_nth_mono)
next
  case (Suc j)
  obtain ps' work' where f: "fold pass [0..<j] (ps, work) = (ps', work')" by fastforce
  with Suc have IH: "mset ps' = mset ps" "length work' = length ps" "sorted (map (\<lambda>p. unat p mod 256 ^ j) ps')" by auto
  then have len: "length ps' = length ps" by (metis size_mset)
  have "fold pass [0..<Suc j] (ps, work) = (concat (map (\<lambda>k. bucket j k ps') [0..<256]), ps')"
    using pass_buckets [of ps' work' j] assms(1) IH(2) len by (simp add: f del: upt_rec_numeral)
  then show ?case
    using sorted_buckets [OF IH(3), of 256] mset_all_buckets [of j ps'] IH(1) len by (simp del: upt_rec_numeral power_Suc)
qed

section \<open>Property\<close>

text \<open>C40: On arrays of fewer than \<^verbatim>\<open>2^32\<close> pointers (the counters have 32 bits) \<open>sort_pointers\<close> leaves the pointers
  in ascending order of their addresses, whatever the work array held.
\<close>

theorem sort_pointers_sorts:
  assumes "length pointers < 2 ^ 32" "length work = length pointers"
  shows "sort_pointers pointers work = sort pointers"
proof -
  obtain ps w where f: "fold pass [0..<8] (pointers, work) = (ps, w)" by (cases "fold pass [0..<8] (pointers, work)")
  have p: "mset ps = mset pointers" "sorted (map (\<lambda>p. unat p mod 256 ^ 8) ps)"
    using passes [OF assms, of 8] by (simp_all add: f del: upt_rec_numeral)
  have "unat p mod 256 ^ 8 = unat p" for p :: u64
    using unat_less_power [of p] by simp
  then have "sorted (map unat ps)" using p(2) by simp
  then have "sorted ps" by (simp add: sorted_iff_nth_mono word_le_nat_alt)
  then have "ps = sort pointers" using p(1) by (metis properties_for_sort)
  then show ?thesis by (simp add: sort_pointers_def f del: upt_rec_numeral)
qed

lemma sort_pointers_sorts_witness: "sort_pointers [0x1000, 0x20, 0x1000, 7] [0, 0, 0, 0] = [7, 0x20, 0x1000, 0x1000]"
  by (subst sort_pointers_sorts) simp_all

end
