(* ===== verification/Bfd_Bytes.thy ===== *)
theory Bfd_Bytes
  imports Prelude
begin

text \<open>
  The byte swapping routines of \<^verbatim>\<open>src/binutils-2.42/bfd/libbfd.c\<close>: integers of 16, 24, 32 and 64 bits,
  signed and unsigned, stored in either byte order in a memory at any address, and \<open>bfd_log2\<close>.
  \<open>bfd_vma\<close> and \<open>bfd_signed_vma\<close> have 64 bits, \<^verbatim>\<open>int\<close> and \<^verbatim>\<open>uint32_t\<close> have 32: the operators on bytes work
  at the width C promotes them to, and the result is converted.
\<close>

unbundle bit_operations_syntax

section \<open>libbfd.c: reading\<close>

definition COERCE16 :: "u64 \<Rightarrow> u64" where
  "COERCE16 x = (x XOR 0x8000) - 0x8000"

definition COERCE32 :: "u64 \<Rightarrow> u64" where
  "COERCE32 x = (x XOR 0x80000000) - 0x80000000"

definition COERCE64 :: "u64 \<Rightarrow> u64" where
  "COERCE64 x = (x XOR push_bit 63 1) - push_bit 63 1"

definition bfd_getb16 :: "mem \<Rightarrow> nat \<Rightarrow> u64" where
  "bfd_getb16 m p = scast (push_bit 8 (ucast (m p)) OR ucast (m (p + 1)) :: u32)"

definition bfd_getl16 :: "mem \<Rightarrow> nat \<Rightarrow> u64" where
  "bfd_getl16 m p = scast (push_bit 8 (ucast (m (p + 1))) OR ucast (m p) :: u32)"

definition bfd_getb_signed_16 :: "mem \<Rightarrow> nat \<Rightarrow> u64" where
  "bfd_getb_signed_16 m p = COERCE16 (scast (push_bit 8 (ucast (m p)) OR ucast (m (p + 1)) :: u32))"

definition bfd_getl_signed_16 :: "mem \<Rightarrow> nat \<Rightarrow> u64" where
  "bfd_getl_signed_16 m p = COERCE16 (scast (push_bit 8 (ucast (m (p + 1))) OR ucast (m p) :: u32))"

definition bfd_getb24 :: "mem \<Rightarrow> nat \<Rightarrow> u64" where
  "bfd_getb24 m p =
     (let v = push_bit 16 (ucast (m p)) :: u32;
          v = v OR push_bit 8 (ucast (m (p + 1)));
          v = v OR ucast (m (p + 2))
      in ucast v)"

definition bfd_getl24 :: "mem \<Rightarrow> nat \<Rightarrow> u64" where
  "bfd_getl24 m p =
     (let v = ucast (m p) :: u32;
          v = v OR push_bit 8 (ucast (m (p + 1)));
          v = v OR push_bit 16 (ucast (m (p + 2)))
      in ucast v)"

definition bfd_getb32 :: "mem \<Rightarrow> nat \<Rightarrow> u64" where
  "bfd_getb32 m p =
     (let v = push_bit 24 (ucast (m p)) :: u32;
          v = v OR push_bit 16 (ucast (m (p + 1)));
          v = v OR push_bit 8 (ucast (m (p + 2)));
          v = v OR ucast (m (p + 3))
      in ucast v)"

definition bfd_getl32 :: "mem \<Rightarrow> nat \<Rightarrow> u64" where
  "bfd_getl32 m p =
     (let v = ucast (m p) :: u32;
          v = v OR push_bit 8 (ucast (m (p + 1)));
          v = v OR push_bit 16 (ucast (m (p + 2)));
          v = v OR push_bit 24 (ucast (m (p + 3)))
      in ucast v)"

definition bfd_getb_signed_32 :: "mem \<Rightarrow> nat \<Rightarrow> u64" where
  "bfd_getb_signed_32 m p =
     (let v = push_bit 24 (ucast (m p)) :: u32;
          v = v OR push_bit 16 (ucast (m (p + 1)));
          v = v OR push_bit 8 (ucast (m (p + 2)));
          v = v OR ucast (m (p + 3))
      in COERCE32 (ucast v))"

definition bfd_getl_signed_32 :: "mem \<Rightarrow> nat \<Rightarrow> u64" where
  "bfd_getl_signed_32 m p =
     (let v = ucast (m p) :: u32;
          v = v OR push_bit 8 (ucast (m (p + 1)));
          v = v OR push_bit 16 (ucast (m (p + 2)));
          v = v OR push_bit 24 (ucast (m (p + 3)))
      in COERCE32 (ucast v))"

text \<open>One step \<^verbatim>\<open>v |= addr[i]; v <<= 8;\<close> of the routines for 64 bits.\<close>

definition shift_in :: "u8 \<Rightarrow> u64 \<Rightarrow> u64" where
  "shift_in b v = push_bit 8 (v OR ucast b)"

definition bfd_getb64 :: "mem \<Rightarrow> nat \<Rightarrow> u64" where
  "bfd_getb64 m p =
     (let v = push_bit 8 (ucast (m p));
          v = shift_in (m (p + 1)) v;
          v = shift_in (m (p + 2)) v;
          v = shift_in (m (p + 3)) v;
          v = shift_in (m (p + 4)) v;
          v = shift_in (m (p + 5)) v;
          v = shift_in (m (p + 6)) v
      in v OR ucast (m (p + 7)))"

definition bfd_getl64 :: "mem \<Rightarrow> nat \<Rightarrow> u64" where
  "bfd_getl64 m p =
     (let v = push_bit 8 (ucast (m (p + 7)));
          v = shift_in (m (p + 6)) v;
          v = shift_in (m (p + 5)) v;
          v = shift_in (m (p + 4)) v;
          v = shift_in (m (p + 3)) v;
          v = shift_in (m (p + 2)) v;
          v = shift_in (m (p + 1)) v
      in v OR ucast (m p))"

definition bfd_getb_signed_64 :: "mem \<Rightarrow> nat \<Rightarrow> u64" where
  "bfd_getb_signed_64 m p =
     (let v = push_bit 8 (ucast (m p));
          v = shift_in (m (p + 1)) v;
          v = shift_in (m (p + 2)) v;
          v = shift_in (m (p + 3)) v;
          v = shift_in (m (p + 4)) v;
          v = shift_in (m (p + 5)) v;
          v = shift_in (m (p + 6)) v
      in COERCE64 (v OR ucast (m (p + 7))))"

definition bfd_getl_signed_64 :: "mem \<Rightarrow> nat \<Rightarrow> u64" where
  "bfd_getl_signed_64 m p =
     (let v = push_bit 8 (ucast (m (p + 7)));
          v = shift_in (m (p + 6)) v;
          v = shift_in (m (p + 5)) v;
          v = shift_in (m (p + 4)) v;
          v = shift_in (m (p + 3)) v;
          v = shift_in (m (p + 2)) v;
          v = shift_in (m (p + 1)) v
      in COERCE64 (v OR ucast (m p)))"

text \<open>\<^verbatim>\<open>abort\<close> on a number of bits that is no multiple of 8 is \<open>None\<close>.\<close>

definition bfd_get_bits :: "mem \<Rightarrow> nat \<Rightarrow> int \<Rightarrow> bool \<Rightarrow> u64 option" where
  "bfd_get_bits m p bits big_p =
     (if bits mod 8 \<noteq> 0 then None
      else
        (let n = nat (bits div 8)
         in Some (fold (\<lambda>i data. push_bit 8 data OR ucast (m (p + (if big_p then i else n - i - 1)))) [0..<n] 0)))"

section \<open>libbfd.c: writing\<close>

definition bfd_putb16 :: "u64 \<Rightarrow> mem \<Rightarrow> nat \<Rightarrow> mem" where
  "bfd_putb16 data m p = m(p := ucast (drop_bit 8 data AND 0xff), p + 1 := ucast (data AND 0xff))"

definition bfd_putl16 :: "u64 \<Rightarrow> mem \<Rightarrow> nat \<Rightarrow> mem" where
  "bfd_putl16 data m p = m(p := ucast (data AND 0xff), p + 1 := ucast (drop_bit 8 data AND 0xff))"

definition bfd_putb24 :: "u64 \<Rightarrow> mem \<Rightarrow> nat \<Rightarrow> mem" where
  "bfd_putb24 data m p =
     m(p := ucast (drop_bit 16 data AND 0xff), p + 1 := ucast (drop_bit 8 data AND 0xff), p + 2 := ucast (data AND 0xff))"

definition bfd_putl24 :: "u64 \<Rightarrow> mem \<Rightarrow> nat \<Rightarrow> mem" where
  "bfd_putl24 data m p =
     m(p := ucast (data AND 0xff), p + 1 := ucast (drop_bit 8 data AND 0xff), p + 2 := ucast (drop_bit 16 data AND 0xff))"

definition bfd_putb32 :: "u64 \<Rightarrow> mem \<Rightarrow> nat \<Rightarrow> mem" where
  "bfd_putb32 data m p =
     m(p := ucast (drop_bit 24 data AND 0xff), p + 1 := ucast (drop_bit 16 data AND 0xff),
       p + 2 := ucast (drop_bit 8 data AND 0xff), p + 3 := ucast (data AND 0xff))"

definition bfd_putl32 :: "u64 \<Rightarrow> mem \<Rightarrow> nat \<Rightarrow> mem" where
  "bfd_putl32 data m p =
     m(p := ucast (data AND 0xff), p + 1 := ucast (drop_bit 8 data AND 0xff),
       p + 2 := ucast (drop_bit 16 data AND 0xff), p + 3 := ucast (drop_bit 24 data AND 0xff))"

definition bfd_putb64 :: "u64 \<Rightarrow> mem \<Rightarrow> nat \<Rightarrow> mem" where
  "bfd_putb64 data m p =
     m(p := ucast (drop_bit (7 * 8) data AND 0xff), p + 1 := ucast (drop_bit (6 * 8) data AND 0xff),
       p + 2 := ucast (drop_bit (5 * 8) data AND 0xff), p + 3 := ucast (drop_bit (4 * 8) data AND 0xff),
       p + 4 := ucast (drop_bit (3 * 8) data AND 0xff), p + 5 := ucast (drop_bit (2 * 8) data AND 0xff),
       p + 6 := ucast (drop_bit (1 * 8) data AND 0xff), p + 7 := ucast (drop_bit (0 * 8) data AND 0xff))"

definition bfd_putl64 :: "u64 \<Rightarrow> mem \<Rightarrow> nat \<Rightarrow> mem" where
  "bfd_putl64 data m p =
     m(p + 7 := ucast (drop_bit (7 * 8) data AND 0xff), p + 6 := ucast (drop_bit (6 * 8) data AND 0xff),
       p + 5 := ucast (drop_bit (5 * 8) data AND 0xff), p + 4 := ucast (drop_bit (4 * 8) data AND 0xff),
       p + 3 := ucast (drop_bit (3 * 8) data AND 0xff), p + 2 := ucast (drop_bit (2 * 8) data AND 0xff),
       p + 1 := ucast (drop_bit (1 * 8) data AND 0xff), p := ucast (drop_bit (0 * 8) data AND 0xff))"

text \<open>One turn of the loop of \<open>bfd_put_bits\<close> over \<open>n\<close> bytes.\<close>

definition put_step :: "nat \<Rightarrow> bool \<Rightarrow> nat \<Rightarrow> nat \<Rightarrow> mem \<times> u64 \<Rightarrow> mem \<times> u64" where
  "put_step n big_p p i = (\<lambda>(m, data).
     let addr_index = (if big_p then n - i - 1 else i)
     in (m(p + addr_index := ucast (data AND 0xff)), drop_bit 8 data))"

definition bfd_put_bits :: "u64 \<Rightarrow> mem \<Rightarrow> nat \<Rightarrow> int \<Rightarrow> bool \<Rightarrow> mem option" where
  "bfd_put_bits data m p bits big_p =
     (if bits mod 8 \<noteq> 0 then None
      else (let n = nat (bits div 8) in Some (fst (fold (put_step n big_p p) [0..<n] (m, data)))))"

text \<open>The loop of \<open>bfd_log2\<close> counts the steps until \<open>x\<close> is 0.\<close>

function log2_loop :: "u32 \<Rightarrow> u64 \<Rightarrow> u32" where
  "log2_loop result x =
     (let result = result + 1; x = drop_bit 1 x
      in if x \<noteq> 0 then log2_loop result x else result)"
  by pat_completeness auto
termination
  by (relation "measure (\<lambda>(_, x). unat x)") (auto simp: unat_drop_bit unat_eq_0 simp flip: unat_gt_0)

declare log2_loop.simps [simp del]

definition bfd_log2 :: "u64 \<Rightarrow> u32" where
  "bfd_log2 x = (if x \<le> 1 then 0 else log2_loop 0 (x - 1))"

section \<open>The two byte orders as one\<close>

text \<open>The bytes of a number from the least significant, wherever the byte order puts them.\<close>

definition view :: "bool \<Rightarrow> nat \<Rightarrow> mem \<Rightarrow> nat \<Rightarrow> mem" where
  "view big_p n m p = (\<lambda>i. m (p + (if big_p then n - i - 1 else i)))"

lemma get_loop_little:
  "fold (\<lambda>i data. push_bit 8 data OR ucast (m (p + (n - i - 1)))) [0..<n] (0 :: u64) = get_le n m p"
proof (induction n arbitrary: p)
  case (Suc n)
  have "fold (\<lambda>i data. push_bit 8 data OR ucast (m (p + (Suc n - i - 1)))) [0..<n] (0 :: u64) =
      fold (\<lambda>i data. push_bit 8 data OR ucast (m (p + 1 + (n - i - 1)))) [0..<n] 0"
    by (rule fold_cong) (auto simp: Suc_diff_Suc)
  then have "fold (\<lambda>i data. push_bit 8 data OR ucast (m (p + (Suc n - i - 1)))) [0..<n] (0 :: u64) = get_le n m (p + 1)"
    unfolding Suc.IH .
  then show ?case by (simp add: or.commute)
qed simp

lemma bfd_get_bits_view:
  "bfd_get_bits m p (int (8 * n)) big_p = Some (get_le n (view big_p n m p) 0)"
proof -
  have "fold (\<lambda>i data. push_bit 8 data OR ucast (m (p + (if big_p then i else n - i - 1)))) [0..<n] (0 :: u64) =
      fold (\<lambda>i data. push_bit 8 data OR ucast (view big_p n m p (0 + (n - i - 1)))) [0..<n] 0"
    by (rule fold_cong) (auto simp: view_def)
  then show ?thesis unfolding get_loop_little by (simp add: bfd_get_bits_def)
qed

lemma byte_and: "(ucast (x AND 0xff) :: u8) = ucast (x :: u64)"
proof -
  have e: "(0xff :: u64) = mask 8" by (simp add: mask_eq_exp_minus_1)
  show ?thesis unfolding e by (auto intro!: bit_word_eqI simp: bit_simps)
qed

lemma put_loop:
  assumes "fold (put_step n big_p p) [0..<k] (m, data) = (m', d)" "k \<le> n"
  shows "d = drop_bit (8 * k) data \<and>
    (\<forall>j < n. view big_p n m' p j = (if j < k then ucast (drop_bit (8 * j) data) else view big_p n m p j)) \<and>
    (\<forall>a. a < p \<or> p + n \<le> a \<longrightarrow> m' a = m a)"
  using assms
proof (induction k arbitrary: m' d)
  case (Suc k)
  obtain w e where f: "fold (put_step n big_p p) [0..<k] (m, data) = (w, e)" by fastforce
  with Suc have IH: "e = drop_bit (8 * k) data" "\<forall>j < n. view big_p n w p j = (if j < k then ucast (drop_bit (8 * j) data) else view big_p n m p j)"
    "\<forall>a. a < p \<or> p + n \<le> a \<longrightarrow> w a = m a" by auto
  have m': "m' = w(p + (if big_p then n - k - 1 else k) := ucast e)" "d = drop_bit 8 e"
  proof -
    have "put_step n big_p p k (w, e) = (m', d)" using Suc.prems(1) f by simp
    then show "m' = w(p + (if big_p then n - k - 1 else k) := ucast e)" "d = drop_bit 8 e"
      by (auto simp: put_step_def byte_and)
  qed
  have at: "view big_p n m' p j = (if j = k then ucast e else view big_p n w p j)" if "j < n" for j
    using that Suc.prems(2) by (auto simp: m' view_def)
  have "m' a = m a" if "a < p \<or> p + n \<le> a" for a
    using that Suc.prems(2) IH(3) by (auto simp: m')
  with at IH(1,2) m'(2) show ?case by (auto simp: less_Suc_eq drop_bit_drop_bit add.commute)
qed (simp add: view_def)

text \<open>What \<open>bfd_put_bits\<close> does: the bytes of the number, and no others.\<close>

lemma bfd_put_bits_view:
  "\<exists>m'. bfd_put_bits data m p (int (8 * n)) big_p = Some m' \<and>
     (\<forall>j < n. view big_p n m' p j = ucast (drop_bit (8 * j) data)) \<and>
     (\<forall>a. a < p \<or> p + n \<le> a \<longrightarrow> m' a = m a)"
proof -
  obtain m' d where f: "fold (put_step n big_p p) [0..<n] (m, data) = (m', d)" by fastforce
  with put_loop [OF f] show ?thesis by (simp add: bfd_put_bits_def)
qed

lemma get_le_bytes:
  "(\<And>j. j < n \<Longrightarrow> m (a + j) = ucast (drop_bit (8 * j) data)) \<Longrightarrow> get_le n m a = take_bit (8 * n) (data :: 'a::len word)"
proof (induction n arbitrary: a data)
  case (Suc n)
  have "get_le n m (a + 1) = take_bit (8 * n) (drop_bit 8 data)"
    using Suc.prems [of "Suc _"] by (intro Suc.IH) (simp add: drop_bit_drop_bit add.commute)
  then have "get_le (Suc n) m a = take_bit 8 data OR push_bit 8 (take_bit (8 * n) (drop_bit 8 data))"
    using Suc.prems [of 0] by (simp add: ucast_byte_eq)
  then show ?case by (simp add: glue_fields)
qed simp

lemma bits_round_trip:
  "Option.bind (bfd_put_bits data m p (int (8 * n)) big_p) (\<lambda>m'. bfd_get_bits m' p (int (8 * n)) big_p) = Some (take_bit (8 * n) data)"
proof -
  obtain m' where m': "bfd_put_bits data m p (int (8 * n)) big_p = Some m'" "\<forall>j < n. view big_p n m' p j = ucast (drop_bit (8 * j) data)"
    using bfd_put_bits_view [of data m p n big_p] by blast
  have "get_le n (view big_p n m' p) 0 = take_bit (8 * n) data" using m'(2) by (intro get_le_bytes) simp
  then show ?thesis by (simp only: m'(1) bind.simps bfd_get_bits_view)
qed

section \<open>The routines for fixed sizes\<close>

lemma below_8: "n < 8 \<longleftrightarrow> n = 0 \<or> n = 1 \<or> n = 2 \<or> n = 3 \<or> n = 4 \<or> n = 5 \<or> n = 6 \<or> n = (7 :: nat)"
  by presburger

lemma fixed_gets:
  "bfd_get_bits m p 16 True = Some (bfd_getb16 m p)" "bfd_get_bits m p 16 False = Some (bfd_getl16 m p)"
  "bfd_get_bits m p 24 True = Some (bfd_getb24 m p)" "bfd_get_bits m p 24 False = Some (bfd_getl24 m p)"
  "bfd_get_bits m p 32 True = Some (bfd_getb32 m p)" "bfd_get_bits m p 32 False = Some (bfd_getl32 m p)"
  "bfd_get_bits m p 64 True = Some (bfd_getb64 m p)" "bfd_get_bits m p 64 False = Some (bfd_getl64 m p)"
proof -
  have up: "[0..<2] = [0, Suc 0]" "[0..<3] = [0, 1, 2 :: nat]" "[0..<4] = [0, 1, 2, 3 :: nat]" "[0..<8] = [0, 1, 2, 3, 4, 5, 6, 7 :: nat]"
    by (simp_all add: upt_rec)
  have u: "(ucast (x OR y :: u32) :: u64) = ucast x OR ucast y" for x y by (rule bit_word_eqI) (auto simp: bit_simps)
  have b: "(ucast (ucast c :: u32) :: u64) = ucast c" "(ucast (push_bit 8 (ucast c) :: u32) :: u64) = push_bit 8 (ucast c)"
    "(ucast (push_bit 16 (ucast c) :: u32) :: u64) = push_bit 16 (ucast c)" "(ucast (push_bit 24 (ucast c) :: u32) :: u64) = push_bit 24 (ucast c)" for c :: u8
    by (rule bit_word_eqI; auto simp: bit_simps dest: bit_imp_le_length)+
  have s: "(scast (push_bit 8 (ucast c) OR ucast d :: u32) :: u64) = push_bit 8 (ucast c) OR ucast d" for c d :: u8
    by (rule bit_word_eqI) (auto simp: bit_simps min_def split: if_splits dest: bit_imp_le_length)
  have s': "(scast (ucast d OR push_bit 8 (ucast c) :: u32) :: u64) = ucast d OR push_bit 8 (ucast c)" for c d :: u8
    using s [of c d] by (simp only: or.commute)
  note defs = bfd_get_bits_def bfd_getb16_def bfd_getl16_def bfd_getb24_def bfd_getl24_def bfd_getb32_def bfd_getl32_def
    bfd_getb64_def bfd_getl64_def shift_in_def Let_def
  show "bfd_get_bits m p 16 True = Some (bfd_getb16 m p)" "bfd_get_bits m p 16 False = Some (bfd_getl16 m p)"
    "bfd_get_bits m p 24 True = Some (bfd_getb24 m p)" "bfd_get_bits m p 24 False = Some (bfd_getl24 m p)"
    "bfd_get_bits m p 32 True = Some (bfd_getb32 m p)" "bfd_get_bits m p 32 False = Some (bfd_getl32 m p)"
    "bfd_get_bits m p 64 True = Some (bfd_getb64 m p)" "bfd_get_bits m p 64 False = Some (bfd_getl64 m p)"
    by (simp_all add: defs up u b s' push_bit_or ac_simps)
qed

lemma fixed_puts:
  "bfd_put_bits v m p 16 True = Some (bfd_putb16 v m p)" "bfd_put_bits v m p 16 False = Some (bfd_putl16 v m p)"
  "bfd_put_bits v m p 24 True = Some (bfd_putb24 v m p)" "bfd_put_bits v m p 24 False = Some (bfd_putl24 v m p)"
  "bfd_put_bits v m p 32 True = Some (bfd_putb32 v m p)" "bfd_put_bits v m p 32 False = Some (bfd_putl32 v m p)"
  "bfd_put_bits v m p 64 True = Some (bfd_putb64 v m p)" "bfd_put_bits v m p 64 False = Some (bfd_putl64 v m p)"
proof -
  have up: "[0..<2] = [0, Suc 0]" "[0..<3] = [0, 1, 2 :: nat]" "[0..<4] = [0, 1, 2, 3 :: nat]" "[0..<8] = [0, 1, 2, 3, 4, 5, 6, 7 :: nat]"
    by (simp_all add: upt_rec)
  note defs = bfd_put_bits_def put_step_def bfd_putb16_def bfd_putl16_def bfd_putb24_def bfd_putl24_def bfd_putb32_def bfd_putl32_def
    bfd_putb64_def bfd_putl64_def
  show "bfd_put_bits v m p 16 True = Some (bfd_putb16 v m p)" "bfd_put_bits v m p 16 False = Some (bfd_putl16 v m p)"
    "bfd_put_bits v m p 24 True = Some (bfd_putb24 v m p)" "bfd_put_bits v m p 24 False = Some (bfd_putl24 v m p)"
    "bfd_put_bits v m p 32 True = Some (bfd_putb32 v m p)" "bfd_put_bits v m p 32 False = Some (bfd_putl32 v m p)"
    "bfd_put_bits v m p 64 True = Some (bfd_putb64 v m p)" "bfd_put_bits v m p 64 False = Some (bfd_putl64 v m p)"
    by (simp_all add: defs up fun_eq_iff drop_bit_drop_bit)
qed

lemma coerce:
  assumes "take_bit (Suc n) x = x" "n < 64"
  shows "(x XOR 2 ^ n) - 2 ^ n = signed_take_bit n (x :: u64)"
proof (cases "bit x n")
  case True
  have "x XOR 2 ^ n = take_bit n x"
  proof (rule bit_word_eqI)
    fix i assume "i < LENGTH(64)"
    have "bit x i = bit (take_bit (Suc n) x) i" by (simp only: assms(1))
    with True \<open>i < LENGTH(64)\<close> show "bit (x XOR 2 ^ n) i = bit (take_bit n x) i" by (auto simp: bit_simps less_Suc_eq)
  qed
  moreover have "take_bit n x - 2 ^ n = take_bit n x + NOT (mask n)" by (simp add: minus_exp_eq_not_mask [symmetric])
  moreover have "take_bit n x AND NOT (mask n) = 0" by (rule bit_word_eqI) (auto simp: bit_simps)
  ultimately have "(x XOR 2 ^ n) - 2 ^ n = take_bit n x OR NOT (mask n)" by (simp add: disjunctive_add_eq_or)
  with True show ?thesis by (simp add: signed_take_bit_def)
next
  case False
  have "x AND 2 ^ n = 0" using False by (intro bit_word_eqI) (auto simp: bit_simps)
  then have "x XOR 2 ^ n = x + 2 ^ n" by (simp add: disjunctive_add_eq_or disjunctive_xor_eq_or)
  moreover have "take_bit n x = x"
  proof (rule bit_word_eqI)
    fix i assume "i < LENGTH(64)"
    have "bit x i = bit (take_bit (Suc n) x) i" by (simp only: assms(1))
    with False show "bit (take_bit n x) i = bit x i" by (auto simp: bit_simps less_Suc_eq)
  qed
  ultimately show ?thesis using False by (simp add: signed_take_bit_def)
qed

lemma signed_gets:
  "bfd_getb_signed_16 m p = signed_take_bit 15 (bfd_getb16 m p)" "bfd_getl_signed_16 m p = signed_take_bit 15 (bfd_getl16 m p)"
  "bfd_getb_signed_32 m p = signed_take_bit 31 (bfd_getb32 m p)" "bfd_getl_signed_32 m p = signed_take_bit 31 (bfd_getl32 m p)"
  "bfd_getb_signed_64 m p = bfd_getb64 m p" "bfd_getl_signed_64 m p = bfd_getl64 m p"
proof -
  have top: "signed_take_bit 63 x = x" for x :: u64
  proof (rule bit_word_eqI)
    fix n assume "n < LENGTH(64)"
    then have "min 63 n = n" by simp
    with \<open>n < LENGTH(64)\<close> show "bit (signed_take_bit 63 x) n = bit x n" by (simp add: bit_simps)
  qed
  have COERCE: "take_bit 16 x = x \<Longrightarrow> COERCE16 x = signed_take_bit 15 x" "take_bit 32 x = x \<Longrightarrow> COERCE32 x = signed_take_bit 31 x"
    "COERCE64 x = x" for x
    using coerce [of 15 x] coerce [of 31 x] coerce [of 63 x]
    by (simp_all add: COERCE16_def COERCE32_def COERCE64_def take_bit_word_eq_self top)
  have small: "take_bit (8 * n) (get_le n v a :: u64) = get_le n v a" for n v a
  proof (induction n arbitrary: a)
    case (Suc n)
    have "take_bit (8 * Suc n) (ucast (v a) OR push_bit 8 (get_le n v (a + 1)) :: u64) =
      ucast (v a) OR push_bit 8 (take_bit (8 * n) (get_le n v (a + 1)))"
      by (rule bit_word_eqI) (auto simp: bit_simps dest: bit_imp_le_length)
    with Suc show ?case by simp
  qed simp
  have fits: "bfd_get_bits m p (int (8 * n)) b = Some x \<Longrightarrow> take_bit (8 * n) x = x" for n b x
    unfolding bfd_get_bits_view using small by (metis option.inject)
  have 16: "take_bit 16 (bfd_getb16 m p) = bfd_getb16 m p" "take_bit 16 (bfd_getl16 m p) = bfd_getl16 m p"
    using fits [of 2 True] fits [of 2 False] by (simp_all add: fixed_gets)
  have 32: "take_bit 32 (bfd_getb32 m p) = bfd_getb32 m p" "take_bit 32 (bfd_getl32 m p) = bfd_getl32 m p"
    using fits [of 4 True] fits [of 4 False] by (simp_all add: fixed_gets)
  show "bfd_getb_signed_16 m p = signed_take_bit 15 (bfd_getb16 m p)" "bfd_getl_signed_16 m p = signed_take_bit 15 (bfd_getl16 m p)"
    using 16 [THEN COERCE(1)] by (simp_all add: bfd_getb_signed_16_def bfd_getl_signed_16_def bfd_getb16_def bfd_getl16_def)
  show "bfd_getb_signed_32 m p = signed_take_bit 31 (bfd_getb32 m p)" "bfd_getl_signed_32 m p = signed_take_bit 31 (bfd_getl32 m p)"
    using 32 [THEN COERCE(2)] by (simp_all add: bfd_getb_signed_32_def bfd_getl_signed_32_def bfd_getb32_def bfd_getl32_def Let_def)
  show "bfd_getb_signed_64 m p = bfd_getb64 m p" "bfd_getl_signed_64 m p = bfd_getl64 m p"
    by (simp_all add: COERCE(3) bfd_getb_signed_64_def bfd_getl_signed_64_def bfd_getb64_def bfd_getl64_def)
qed

section \<open>Logarithms\<close>

lemma log2_loop_steps:
  "0 < unat x \<Longrightarrow> \<exists>k. log2_loop r x = r + of_nat (Suc k) \<and> 2 ^ k \<le> unat x \<and> unat x < 2 ^ Suc k"
proof (induction r x rule: log2_loop.induct)
  case (1 r x)
  show ?case
  proof (cases "drop_bit 1 x = 0")
    case True
    then have "unat x div 2 = 0" using unat_drop_bit [of 1 x] by simp
    with 1 True show ?thesis by (subst log2_loop.simps) (auto intro!: exI [of _ 0] simp: Let_def)
  next
    case False
    with 1 obtain k where k: "log2_loop (r + 1) (drop_bit 1 x) = r + 1 + of_nat (Suc k)"
      "2 ^ k \<le> unat (drop_bit 1 x)" "unat (drop_bit 1 x) < 2 ^ Suc k" by (auto simp: unat_gt_0)
    then have "2 ^ Suc k \<le> unat x" "unat x < 2 ^ Suc (Suc k)" by (auto simp: unat_drop_bit)
    with k(1) False show ?thesis by (subst log2_loop.simps) (auto intro!: exI [of _ "Suc k"] simp: Let_def)
  qed
qed

section \<open>Properties\<close>

text \<open>C30: A number written by any of the routines is read back by the routine of the same size and byte order: cut to
  the size by the unsigned ones, sign-extended by the signed ones, and by \<open>bfd_get_bits\<close> for any number of whole bytes.
\<close>

theorem bfd_get_put:
  "bfd_getb16 (bfd_putb16 v m p) p = take_bit 16 v \<and> bfd_getl16 (bfd_putl16 v m p) p = take_bit 16 v \<and>
   bfd_getb24 (bfd_putb24 v m p) p = take_bit 24 v \<and> bfd_getl24 (bfd_putl24 v m p) p = take_bit 24 v \<and>
   bfd_getb32 (bfd_putb32 v m p) p = take_bit 32 v \<and> bfd_getl32 (bfd_putl32 v m p) p = take_bit 32 v \<and>
   bfd_getb64 (bfd_putb64 v m p) p = v \<and> bfd_getl64 (bfd_putl64 v m p) p = v \<and>
   bfd_getb_signed_16 (bfd_putb16 v m p) p = signed_take_bit 15 v \<and> bfd_getl_signed_16 (bfd_putl16 v m p) p = signed_take_bit 15 v \<and>
   bfd_getb_signed_32 (bfd_putb32 v m p) p = signed_take_bit 31 v \<and> bfd_getl_signed_32 (bfd_putl32 v m p) p = signed_take_bit 31 v \<and>
   bfd_getb_signed_64 (bfd_putb64 v m p) p = v \<and> bfd_getl_signed_64 (bfd_putl64 v m p) p = v \<and>
   Option.bind (bfd_put_bits v m p (int (8 * n)) big_p) (\<lambda>m'. bfd_get_bits m' p (int (8 * n)) big_p) = Some (take_bit (8 * n) v)"
proof -
  have rt: "b = int (8 * k) \<Longrightarrow> bfd_put_bits v m p b big = Some m' \<Longrightarrow> bfd_get_bits m' p b big = Some x \<Longrightarrow> x = take_bit (8 * k) v" for b k m' x big
    using bits_round_trip [of v m p k big] by simp
  note r = rt [OF _ fixed_puts(1) fixed_gets(1), of 2] rt [OF _ fixed_puts(2) fixed_gets(2), of 2]
    rt [OF _ fixed_puts(3) fixed_gets(3), of 3] rt [OF _ fixed_puts(4) fixed_gets(4), of 3]
    rt [OF _ fixed_puts(5) fixed_gets(5), of 4] rt [OF _ fixed_puts(6) fixed_gets(6), of 4]
    rt [OF _ fixed_puts(7) fixed_gets(7), of 8] rt [OF _ fixed_puts(8) fixed_gets(8), of 8]
  from r [simplified] show ?thesis
    by (simp add: signed_gets take_bit_word_eq_self signed_take_bit_take_bit bits_round_trip del: of_nat_mult)
qed

text \<open>The routines for fixed sizes are \<open>bfd_get_bits\<close> and \<open>bfd_put_bits\<close> for their size and byte order; a number of bits
  that is no multiple of 8 aborts. Writing changes the bytes of the number only.
\<close>

theorem bfd_fixed_are_bits:
  "bfd_get_bits m p 16 b = Some (if b then bfd_getb16 m p else bfd_getl16 m p) \<and>
   bfd_get_bits m p 24 b = Some (if b then bfd_getb24 m p else bfd_getl24 m p) \<and>
   bfd_get_bits m p 32 b = Some (if b then bfd_getb32 m p else bfd_getl32 m p) \<and>
   bfd_get_bits m p 64 b = Some (if b then bfd_getb64 m p else bfd_getl64 m p) \<and>
   bfd_put_bits v m p 16 b = Some (if b then bfd_putb16 v m p else bfd_putl16 v m p) \<and>
   bfd_put_bits v m p 24 b = Some (if b then bfd_putb24 v m p else bfd_putl24 v m p) \<and>
   bfd_put_bits v m p 32 b = Some (if b then bfd_putb32 v m p else bfd_putl32 v m p) \<and>
   bfd_put_bits v m p 64 b = Some (if b then bfd_putb64 v m p else bfd_putl64 v m p) \<and>
   (bfd_get_bits m p bits b = None \<longleftrightarrow> bits mod 8 \<noteq> 0) \<and> (bfd_put_bits v m p bits b = None \<longleftrightarrow> bits mod 8 \<noteq> 0)"
  by (cases b) (simp_all add: fixed_gets fixed_puts, simp_all add: bfd_get_bits_def bfd_put_bits_def Let_def)

text \<open>\<open>bfd_log2\<close> is the logarithm rounded up: the least \<open>k\<close> with \<^verbatim>\<open>x <= 2^k\<close>, and 0 of 0.\<close>

theorem bfd_log2_least:
  "unat (bfd_log2 x) = (LEAST k. unat x \<le> 2 ^ k)"
proof (cases "x \<le> 1")
  case True
  then show ?thesis by (simp add: bfd_log2_def word_le_nat_alt Least_eq_0)
next
  case False
  then have x: "unat (x - 1) = unat x - 1" "1 < unat x" by (simp_all add: word_le_nat_alt unat_sub)
  then obtain k where k: "log2_loop 0 (x - 1) = of_nat (Suc k)" "2 ^ k \<le> unat x - 1" "unat x - 1 < 2 ^ Suc k"
    using log2_loop_steps [of "x - 1" 0] by auto
  have "2 ^ k < (2 :: nat) ^ 64" using k(2) unat_less_power [of x] by simp
  then have "k < 64" by (simp add: power_strict_increasing_iff del: power_numeral)
  then have "unat (of_nat (Suc k) :: u32) = Suc k" by (simp only: unat_of_nat) simp
  moreover have "(LEAST k. unat x \<le> 2 ^ k) = Suc k"
  proof (rule Least_equality)
    show "unat x \<le> 2 ^ Suc k" using k(3) x(2) by linarith
    fix j assume "unat x \<le> 2 ^ j"
    then have "(2 :: nat) ^ k < 2 ^ j" using k(2) x(2) by linarith
    then show "Suc k \<le> j" by (simp add: power_strict_increasing_iff)
  qed
  ultimately show ?thesis using False k(1) by (simp add: bfd_log2_def)
qed

end
