(* ===== verification/Leb128.thy ===== *)
theory Leb128
  imports Prelude
begin

text \<open>
  Variable-length integers (LEB128) in the toolchain: the encoder of the assembler
  (\<^verbatim>\<open>src/binutils-2.42/gas/read.c\<close>) and the decoders of BFD (\<^verbatim>\<open>bfd/libbfd.c\<close>), of \<^verbatim>\<open>include/leb128.h\<close> and of
  readelf and objdump (\<^verbatim>\<open>binutils/dwarf.c\<close>). \<open>valueT\<close>, \<open>offsetT\<close>, \<open>bfd_vma\<close> and \<^verbatim>\<open>uint64_t\<close> have 64 bits. A buffer with
  a known end is the list of its bytes; the decoders without one read a memory. The toolchain has more
  decoders, which are not modelled: \<^verbatim>\<open>wasm_read_leb128\<close> in \<^verbatim>\<open>bfd\<close> and \<^verbatim>\<open>opcodes\<close>, those of \<^verbatim>\<open>bfd/elf-eh-frame.c\<close>, of
  \<^verbatim>\<open>gold\<close> and \<^verbatim>\<open>gprofng\<close> and of the IA-64 unwinder.
\<close>

unbundle bit_operations_syntax

section \<open>gas/read.c: encoding\<close>

function sizeof_uleb128 :: "u64 \<Rightarrow> nat" where
  "sizeof_uleb128 value =
     (let value = drop_bit 7 value in if value \<noteq> 0 then Suc (sizeof_uleb128 value) else 1)"
  by pat_completeness auto
termination
  by (relation "measure unat") (auto simp: unat_drop_bit simp flip: unat_gt_0 intro!: div_less_dividend)

text \<open>Some hosts shift in zeros; \<^verbatim>\<open>~(-(offsetT)1 >> 7)\<close> is 0 where they do not.\<close>

definition shift_right_7 :: "u64 \<Rightarrow> u64" where
  "shift_right_7 value = signed_drop_bit 7 value OR NOT (signed_drop_bit 7 (- 1))"

definition sleb_ends :: "u64 \<Rightarrow> u32 \<Rightarrow> bool" where
  "sleb_ends value byte \<longleftrightarrow> value = 0 \<and> byte AND 0x40 = 0 \<or> value = - 1 \<and> byte AND 0x40 \<noteq> 0"

lemma sint_shift_right_7: "sint (shift_right_7 value) = sint value div 128"
proof -
  have "signed_drop_bit 7 (- 1 :: u64) = - 1" by (rule bit_word_eqI) (simp add: bit_simps)
  then show ?thesis by (simp add: shift_right_7_def sint_signed_drop_bit_eq drop_bit_eq_div)
qed

lemma sleb_shrinks:
  assumes "\<not> sleb_ends (shift_right_7 value) (ucast value AND 0x7f)"
  shows "sint value \<noteq> 0 \<and> \<bar>sint (shift_right_7 value)\<bar> < \<bar>sint value\<bar>"
proof -
  have "(ucast (- 1 :: u64) :: u32) = - 1" by (rule bit_word_eqI) (simp add: bit_simps)
  moreover have "sleb_ends (shift_right_7 0) (0 AND 0x7f)" "sleb_ends (shift_right_7 (- 1)) (- 1 AND 0x7f)"
    by (simp_all add: sleb_ends_def shift_right_7_def)
  ultimately
have "value \<noteq> 0" "value \<noteq> - 1"
    using assms by auto
  then have "sint value \<noteq> 0" "sint value \<noteq> - 1"
    by (metis signed_0 signed_word_eqI, metis signed_minus_1 signed_word_eqI)
  then show ?thesis unfolding sint_shift_right_7 by linarith
qed

function sizeof_sleb128 :: "u64 \<Rightarrow> nat" where
  "sizeof_sleb128 value =
     (let byte = (ucast value AND 0x7f :: u32); value = shift_right_7 value
      in if sleb_ends value byte then 1 else Suc (sizeof_sleb128 value))"
  by pat_completeness auto
termination
  by (relation "measure (\<lambda>v. nat \<bar>sint v\<bar>)") (simp_all add: sleb_shrinks)

definition sizeof_leb128 :: "u64 \<Rightarrow> bool \<Rightarrow> nat" where
  "sizeof_leb128 value sign = (if sign then sizeof_sleb128 value else sizeof_uleb128 value)"

text \<open>The bytes stored from \<open>p\<close> on; the number returned is their number.\<close>

function output_uleb128 :: "u64 \<Rightarrow> bytes" where
  "output_uleb128 value =
     (let byte = (ucast value AND 0x7f :: u32); value = drop_bit 7 value
      in if value \<noteq> 0 then ucast (byte OR 0x80) # output_uleb128 value else [ucast byte])"
  by pat_completeness auto
termination
  by (relation "measure unat") (auto simp: unat_drop_bit simp flip: unat_gt_0 intro!: div_less_dividend)

function output_sleb128 :: "u64 \<Rightarrow> bytes" where
  "output_sleb128 value =
     (let byte = (ucast value AND 0x7f :: u32); value = shift_right_7 value;
          more = (\<not> sleb_ends value byte)
      in if more then ucast (byte OR 0x80) # output_sleb128 value else [ucast byte])"
  by pat_completeness auto
termination
  by (relation "measure (\<lambda>v. nat \<bar>sint v\<bar>)") (simp_all add: sleb_shrinks)

definition output_leb128 :: "u64 \<Rightarrow> bool \<Rightarrow> bytes" where
  "output_leb128 value sign = (if sign then output_sleb128 value else output_uleb128 value)"

declare sizeof_uleb128.simps [simp del] sizeof_sleb128.simps [simp del]
  output_uleb128.simps [simp del] output_sleb128.simps [simp del]

section \<open>libbfd.c: decoding\<close>

text \<open>What the loops do with a byte: \<open>result\<close> and \<open>shift\<close> change while \<open>shift\<close> is below the width of \<open>result\<close>.\<close>

definition take_byte :: "u8 \<Rightarrow> u64 \<times> u32 \<Rightarrow> u64 \<times> u32" where
  "take_byte byte = (\<lambda>(result, shift).
     if shift < 64 then (result OR push_bit (unat shift) (ucast byte AND 0x7f), shift + 7) else (result, shift))"

partial_function (option) read_leb_loop :: "mem \<Rightarrow> nat \<Rightarrow> u64 \<Rightarrow> u32 \<Rightarrow> u32 \<Rightarrow> (u64 \<times> u32 \<times> u8 \<times> u32) option" where
  "read_leb_loop m buf result shift num_read =
     (let byte = m buf; num_read = num_read + 1; (result, shift) = take_byte byte (result, shift)
      in if byte AND 0x80 \<noteq> 0 then read_leb_loop m (buf + 1) result shift num_read
         else Some (result, shift, byte, num_read))"

text \<open>The value and \<open>*bytes_read_ptr\<close>; no value where no byte of the memory ends the number.\<close>

definition bfd_read_unsigned_leb128 :: "mem \<Rightarrow> nat \<Rightarrow> (u64 \<times> u32) option" where
  "bfd_read_unsigned_leb128 m buf =
     map_option (\<lambda>(result, shift, byte, num_read). (result, num_read)) (read_leb_loop m buf 0 0 0)"

definition bfd_read_signed_leb128 :: "mem \<Rightarrow> nat \<Rightarrow> (u64 \<times> u32) option" where
  "bfd_read_signed_leb128 m buf =
     map_option (\<lambda>(result, shift, byte, num_read).
       (if shift < 64 \<and> byte AND 0x40 \<noteq> 0 then result OR push_bit (unat shift) (- 1) else result, num_read))
       (read_leb_loop m buf 0 0 0)"

fun safe_read_loop :: "bytes \<Rightarrow> u64 \<Rightarrow> u32 \<Rightarrow> u8 \<Rightarrow> u64 \<times> u32 \<times> u8 \<times> bytes" where
  "safe_read_loop [] result shift byte = (result, shift, byte, [])"
| "safe_read_loop (b # data) result shift byte =
     (let byte = b; (result, shift) = take_byte byte (result, shift)
      in if byte AND 0x80 = 0 then (result, shift, byte, data) else safe_read_loop data result shift byte)"

text \<open>The value and the bytes from the new \<open>*ptr\<close> on.\<close>

definition bfd_safe_read_leb128 :: "bytes \<Rightarrow> bool \<Rightarrow> u64 \<times> bytes" where
  "bfd_safe_read_leb128 ptr sign =
     (let (result, shift, byte, data) = safe_read_loop ptr 0 0 0
      in (if sign \<and> shift < 64 \<and> byte AND 0x40 \<noteq> 0 then result OR - push_bit (unat shift) 1 else result, data))"

text \<open>
  \<open>end\<close> is the last byte that may be written: \<open>space\<close> is the number of bytes up to it and with it. \<open>None\<close> is
  \<^verbatim>\<open>NULL\<close>, returned when the number does not fit.
\<close>

function bfd_write_unsigned_leb128 :: "nat \<Rightarrow> u64 \<Rightarrow> bytes option" where
  "bfd_write_unsigned_leb128 space val =
     (if space = 0 then None
      else
        (let c = ucast (val AND 0x7f); val = drop_bit 7 val
         in if val \<noteq> 0 then map_option (Cons (c OR 0x80)) (bfd_write_unsigned_leb128 (space - 1) val) else Some [c]))"
  by pat_completeness auto
termination by (relation "measure fst") auto

declare bfd_write_unsigned_leb128.simps [simp del]

section \<open>leb128.h: decoding\<close>

text \<open>
  The number of bytes read and the value stored, if any. To shift a 64-bit value by 64 and more is undefined in C:
  then the result is \<open>None\<close>.
\<close>

fun uleb128_loop :: "bytes \<Rightarrow> nat \<Rightarrow> u32 \<Rightarrow> u64 \<Rightarrow> (nat \<times> u64 option) option" where
  "uleb128_loop [] n shift result = Some (0, None)"
| "uleb128_loop (byte # p) n shift result =
     (if 64 \<le> shift then None
      else
        (let result = result OR push_bit (unat shift) (ucast (byte AND 0x7f))
         in if byte AND 0x80 = 0 then Some (Suc n, Some result) else uleb128_loop p (Suc n) (shift + 7) result))"

definition read_uleb128_to_uint64 :: "bytes \<Rightarrow> (nat \<times> u64 option) option" where
  "read_uleb128_to_uint64 buf = uleb128_loop buf 0 0 0"

fun sleb128_loop :: "bytes \<Rightarrow> nat \<Rightarrow> u32 \<Rightarrow> u64 \<Rightarrow> (nat \<times> u64 option) option" where
  "sleb128_loop [] n shift result = Some (0, None)"
| "sleb128_loop (byte # p) n shift result =
     (if 64 \<le> shift then None
      else
        (let result = result OR push_bit (unat shift) (ucast (byte AND 0x7f)); shift = shift + 7
         in if byte AND 0x80 = 0
            then Some (Suc n, Some (if shift < 64 \<and> byte AND 0x40 \<noteq> 0 then result OR - push_bit (unat shift) 1 else result))
            else sleb128_loop p (Suc n) shift result))"

definition read_sleb128_to_int64 :: "bytes \<Rightarrow> (nat \<times> u64 option) option" where
  "read_sleb128_to_int64 buf = sleb128_loop buf 0 0 0"

fun skip_loop :: "bytes \<Rightarrow> nat \<Rightarrow> nat" where
  "skip_loop [] n = 0"
| "skip_loop (byte # p) n = (if byte AND 0x80 = 0 then Suc n else skip_loop p (Suc n))"

definition skip_leb128 :: "bytes \<Rightarrow> nat" where
  "skip_leb128 buf = skip_loop buf 0"

section \<open>binutils/dwarf.c: decoding with a status\<close>

text \<open>The value, the number of bytes read and the status: bit 0 for a number without an end, bit 1 for an overflow.\<close>

fun read_leb128_loop :: "bytes \<Rightarrow> bool \<Rightarrow> u64 \<Rightarrow> u32 \<Rightarrow> u32 \<Rightarrow> u32 \<Rightarrow> u64 \<times> u32 \<times> u32" where
  "read_leb128_loop [] sign result num_read shift status = (result, num_read, status)"
| "read_leb128_loop (byte # data) sign result num_read shift status =
     (let num_read = num_read + 1;
          (result, lost, msk, shift) =
            (if shift < 64
             then
               (let result = result OR push_bit (unat shift) (ucast (byte AND 0x7f))
                in (result, ucast (ucast byte XOR drop_bit (unat shift) result),
                    ucast (0x7f XOR drop_bit (unat shift) (push_bit (unat shift) (0x7f :: u64))), shift + 7))
             else (result, byte, 0x7f, shift));
          status = (if lost AND msk \<noteq> (if sign \<and> sint result < 0 then msk else 0) then status OR 2 else status)
      in if byte AND 0x80 = 0
         then (if sign \<and> shift < 64 \<and> byte AND 0x40 \<noteq> 0 then result OR - push_bit (unat shift) 1 else result,
               num_read, status AND NOT 1)
         else read_leb128_loop data sign result num_read shift status)"

definition read_leb128 :: "bytes \<Rightarrow> bool \<Rightarrow> u64 \<times> u32 \<times> u32" where
  "read_leb128 data sign = read_leb128_loop data sign 0 0 0 1"

section \<open>The numbers\<close>

text \<open>Seven bits of a byte, the flag that more bytes follow and the sign bit.\<close>

definition low7 :: "u8 \<Rightarrow> nat" where
  "low7 b = unat b mod 128"

definition more :: "u8 \<Rightarrow> bool" where
  "more b \<longleftrightarrow> 128 \<le> unat b"

definition negative :: "u8 \<Rightarrow> bool" where
  "negative b \<longleftrightarrow> 64 \<le> low7 b"

text \<open>The unsigned and the signed number that a list of bytes stands for.\<close>

primrec uleb :: "bytes \<Rightarrow> nat" where
  "uleb [] = 0"
| "uleb (b # bs) = low7 b + 128 * uleb bs"

definition sleb :: "bytes \<Rightarrow> int" where
  "sleb bs = int (uleb bs) - (if bs \<noteq> [] \<and> negative (last bs) then 128 ^ length bs else 0)"

definition leb :: "bool \<Rightarrow> bytes \<Rightarrow> int" where
  "leb sign bs = (if sign then sleb bs else int (uleb bs))"

lemma low7_less: "low7 b < 128"
  by (simp add: low7_def)

lemma uleb_append: "uleb (xs @ ys) = uleb xs + 128 ^ length xs * uleb ys"
  by (induction xs) (simp_all add: algebra_simps)

lemma uleb_less: "uleb bs < 128 ^ length bs"
proof (induction bs)
  case (Cons b bs)
  then have "128 * Suc (uleb bs) \<le> 128 * 128 ^ length bs" by (intro mult_le_mono2) simp
  then show ?case using low7_less [of b] by simp
qed simp

lemma sleb_Cons: "bs \<noteq> [] \<Longrightarrow> sleb (b # bs) = int (low7 b) + 128 * sleb bs"
  by (simp add: sleb_def)

lemma sleb_single: "sleb [b] = (if negative b then int (low7 b) - 128 else int (low7 b))"
  by (simp add: sleb_def)

section \<open>Bytes\<close>

lemma unat_and_7f: "unat (w AND 0x7f :: 'a::len word) = unat w mod 128" if "7 \<le> LENGTH('a)"
proof -
  have e: "(0x7f :: 'a word) = mask 7" by (simp add: mask_eq_exp_minus_1)
  show ?thesis unfolding e take_bit_eq_mask [symmetric] unsigned_take_bit_eq by (simp add: take_bit_eq_mod)
qed

lemma and_power_0:
  fixes w :: "'a::len word"
  assumes "n < LENGTH('a)"
  shows "w AND 2 ^ n = 0 \<longleftrightarrow> \<not> bit w n"
proof
  assume "w AND 2 ^ n = 0"
  then have "\<not> bit (w AND 2 ^ n) n" by simp
  with assms show "\<not> bit w n" by (simp add: bit_simps)
qed (auto intro!: bit_word_eqI simp: bit_simps)

lemma bit_iff_odd_unat: "bit (w :: 'a::len word) n \<longleftrightarrow> odd (unat w div 2 ^ n)"
proof -
  have "bit w n \<longleftrightarrow> bit (unat w) n" by (auto simp: bit_unsigned_iff dest: bit_imp_le_length)
  then show ?thesis by (simp add: bit_iff_odd)
qed

lemma byte_flags: "byte AND 0x80 = 0 \<longleftrightarrow> \<not> more byte" "byte AND 0x40 = 0 \<longleftrightarrow> \<not> negative byte" for byte :: u8
proof -
  have "byte AND 0x80 = 0 \<longleftrightarrow> \<not> bit byte 7" using and_power_0 [of 7 byte] by simp
  also have "odd (n div 128) \<longleftrightarrow> 128 \<le> n" if "n < 256" for n :: nat
  proof -
    have "128 \<le> n \<Longrightarrow> n div 128 = 1" using that by (intro div_nat_eqI) simp_all
    then show ?thesis by (cases "128 \<le> n") simp_all
  qed
  then have "\<not> bit byte 7 \<longleftrightarrow> \<not> more byte" using unat_u8_less [of byte] by (simp add: bit_iff_odd_unat more_def)
  finally show "byte AND 0x80 = 0 \<longleftrightarrow> \<not> more byte" .
  have "byte AND 0x40 = 0 \<longleftrightarrow> \<not> bit byte 6" using and_power_0 [of 6 byte] by simp
  also have "odd (n div 64) \<longleftrightarrow> 64 \<le> n mod 128" for n :: nat
  proof -
    have "n mod 128 = 64 * (n div 64 mod 2) + n mod 64" using mod_mult2_eq [of n 64 2] by simp
    moreover have "n mod 64 < 64" by simp
    ultimately show ?thesis by (cases "even (n div 64)") (simp_all add: even_iff_mod_2_eq_zero odd_iff_mod_2_eq_one)
  qed
  then have "\<not> bit byte 6 \<longleftrightarrow> \<not> negative byte" by (simp add: bit_iff_odd_unat negative_def low7_def)
  finally show "byte AND 0x40 = 0 \<longleftrightarrow> \<not> negative byte" .
qed

lemma seven_bits: "ucast byte AND 0x7f = (of_nat (low7 byte) :: u64)" "ucast (byte AND 0x7f) = (of_nat (low7 byte) :: u64)" for byte :: u8
proof -
  have u: "unat (ucast byte :: u64) = unat byte" by (simp add: unsigned_ucast_eq take_bit_nat_eq_self_iff less_le_trans [OF unat_u8_less])
  show "ucast byte AND 0x7f = (of_nat (low7 byte) :: u64)"
    by (rule word_unat_eq_iff [THEN iffD2]) (simp add: unat_and_7f u low7_def unat_of_nat)
  have "unat (ucast (byte AND 0x7f) :: u64) = low7 byte"
    by (simp add: unsigned_ucast_eq unat_and_7f low7_def take_bit_nat_eq_self_iff)
  then have "of_nat (unat (ucast (byte AND 0x7f) :: u64)) = (of_nat (low7 byte) :: u64)" by (rule arg_cong)
  then show "ucast (byte AND 0x7f) = (of_nat (low7 byte) :: u64)" by simp
qed

section \<open>The decoding step\<close>

lemma or_high:
  assumes "N < 2 ^ k"
  shows "(of_nat N :: 'a::len word) OR push_bit k (of_nat x) = of_nat (N + 2 ^ k * x)"
proof -
  have "(of_nat N :: 'a word) AND push_bit k (of_nat x) = 0"
  proof (rule bit_word_eqI)
    fix i
    have "bit N i \<Longrightarrow> i < k" using assms by (metis bit_take_bit_iff take_bit_nat_eq_self_iff)
    then show "bit (of_nat N AND push_bit k (of_nat x) :: 'a word) i = bit 0 i"
      by (auto simp: bit_simps)
  qed
  then have "(of_nat N :: 'a word) OR push_bit k (of_nat x) = of_nat N + push_bit k (of_nat x)"
    by (simp add: disjunctive_add_eq_or)
  then show ?thesis by (simp add: push_bit_eq_mult)
qed

lemma power_128: "(128 :: 'a::semiring_1) ^ n = 2 ^ (7 * n)"
  by (simp add: power_mult)

lemma high_0: "64 \<le> k \<Longrightarrow> (2 :: u64) ^ k = 0"
  by (simp add: exp_eq_zero_iff)

definition shift_of :: "nat \<Rightarrow> u32" where
  "shift_of n = of_nat (min (7 * n) 70)"

lemma shift_of: "unat (shift_of n) = min (7 * n) 70" "shift_of n < 64 \<longleftrightarrow> n \<le> 9" "n \<le> 9 \<Longrightarrow> shift_of n + 7 = shift_of (Suc n)"
  "\<not> n \<le> 9 \<Longrightarrow> shift_of (Suc n) = shift_of n"
proof -
  show u: "unat (shift_of n) = min (7 * n) 70" by (simp add: shift_of_def unat_of_nat)
  show "shift_of n < 64 \<longleftrightarrow> n \<le> 9" unfolding word_less_nat_alt u by auto
  show "shift_of n + 7 = shift_of (Suc n)" if "n \<le> 9" using that by (simp add: shift_of_def min_def algebra_simps)
  show "shift_of (Suc n) = shift_of n" if "\<not> n \<le> 9" using that by (simp add: shift_of_def min_absorb2 del: of_nat_Suc)
qed

lemma result_step:
  "(of_nat (uleb xs) :: u64) OR push_bit (7 * length xs) (of_nat (low7 b)) = of_nat (uleb (xs @ [b]))"
  using or_high [of "uleb xs" "7 * length xs" "low7 b"] uleb_less [of xs] by (simp add: uleb_append power_128)

lemma take_byte_step:
  "take_byte b (of_nat (uleb xs), shift_of (length xs)) = (of_nat (uleb (xs @ [b])), shift_of (length (xs @ [b])))"
proof (cases "length xs \<le> 9")
  case True
  then show ?thesis by (simp add: take_byte_def shift_of seven_bits result_step min_absorb1)
next
  case False
  have "(of_nat (uleb (xs @ [b])) :: u64) = of_nat (uleb xs) + 2 ^ (7 * length xs) * of_nat (low7 b)"
    by (simp add: uleb_append power_128)
  then have "(of_nat (uleb (xs @ [b])) :: u64) = of_nat (uleb xs)" using False high_0 [of "7 * length xs"] by simp
  then show ?thesis using False by (simp add: take_byte_def shift_of)
qed

end
