(* ===== verification/Leb128_Correct.thy ===== *)
theory Leb128_Correct
  imports Leb128
begin

text \<open>
  What the LEB128 routines promise: every decoder yields the number the bytes stand for, cut to 64 bits, the status of
  readelf's decoder tells whether anything was cut, and the assembler's encoder is undone by all of them.
\<close>

unbundle bit_operations_syntax

section \<open>Sign extension\<close>

text \<open>The three ways the sources write it.\<close>

definition sign_extend :: "bool \<Rightarrow> u32 \<Rightarrow> u8 \<Rightarrow> u64 \<Rightarrow> u64" where
  "sign_extend sign shift byte result =
     (if sign \<and> shift < 64 \<and> negative byte then result OR NOT (mask (unat shift)) else result)"

lemma sign_extend_folds:
  "(if sign \<and> shift < 64 \<and> byte AND 0x40 \<noteq> 0 then result OR - push_bit (unat shift) 1 else result) = sign_extend sign shift byte result"
  "(if shift < 64 \<and> byte AND 0x40 \<noteq> 0 then result OR - push_bit (unat shift) 1 else result) = sign_extend True shift byte result"
  "(if shift < 64 \<and> byte AND 0x40 \<noteq> 0 then result OR push_bit (unat shift) (- 1) else result) = sign_extend True shift byte result"
  by (simp_all add: sign_extend_def byte_flags minus_exp_eq_not_mask)

lemma extended:
  assumes "bs \<noteq> []"
  shows "sign_extend sign (shift_of (length bs)) (last bs) (of_nat (uleb bs)) = of_int (leb sign bs)"
proof -
  consider (ext) "sign" "length bs \<le> 9" "negative (last bs)" | (cut) "sign" "\<not> length bs \<le> 9" "negative (last bs)" | (as_is) "\<not> (sign \<and> negative (last bs))"
    by blast
  then show ?thesis
  proof cases
    case ext
    let ?k = "7 * length bs"
    have ones: "(of_nat (2 ^ 64 - 1) :: u64) = - 1" by simp
    have less: "uleb bs < 2 ^ ?k" using uleb_less [of bs] by (simp only: power_128)
    have "of_nat (uleb bs) OR push_bit ?k (- 1) = (of_nat (uleb bs + 2 ^ ?k * (2 ^ 64 - 1)) :: u64)"
      using or_high [where 'a = 64, OF less, of "2 ^ 64 - 1"] unfolding ones .
    also have "\<dots> = of_nat (uleb bs) + 2 ^ ?k * of_nat (2 ^ 64 - 1)" by (simp only: of_nat_add of_nat_mult of_nat_power of_nat_numeral)
    also have "\<dots> = of_nat (uleb bs) - 2 ^ ?k" unfolding ones by simp
    also have "\<dots> = of_int (leb sign bs)" using ext assms by (simp add: leb_def sleb_def power_128)
    finally show ?thesis using ext by (simp add: sign_extend_def shift_of min_absorb1)
  next
    case cut
    have "(of_int (leb sign bs) :: u64) = of_nat (uleb bs) - 2 ^ (7 * length bs)"
      using cut assms by (simp add: leb_def sleb_def power_128)
    then show ?thesis using cut high_0 [of "7 * length bs"] by (simp add: sign_extend_def shift_of)
  next
    case as_is
    then show ?thesis by (auto simp: sign_extend_def leb_def sleb_def)
  qed
qed

lemma extended_snoc [simp]:
  "sign_extend sign (shift_of (Suc (length xs))) b (of_nat (uleb (xs @ [b]))) = of_int (leb sign (xs @ [b]))"
  using extended [of "xs @ [b]" "sign"] by simp

lemma leb_unsigned [simp]: "of_int (leb False bs) = (of_nat (uleb bs) :: 'a::ring_1)"
  by (simp add: leb_def)

section \<open>The decoders of BFD\<close>

lemma read_leb_loop_reads:
  assumes "\<forall>x \<in> set xs. more x" "\<not> more b" "\<forall>i < Suc (length xs). m (p + i) = (xs @ [b]) ! i"
  shows "read_leb_loop m p (of_nat (uleb ys)) (shift_of (length ys)) n =
    Some (of_nat (uleb (ys @ xs @ [b])), shift_of (length (ys @ xs @ [b])), b, n + of_nat (Suc (length xs)))"
  using assms
proof (induction xs arbitrary: p ys n)
  case Nil
  then show ?case by (subst read_leb_loop.simps) (simp add: take_byte_step byte_flags Let_def)
next
  case (Cons x xs)
  have "m p = x" using Cons.prems(3) [rule_format, of 0] by simp
  moreover have "m (p + 1 + i) = (xs @ [b]) ! i" if "i < Suc (length xs)" for i
    using Cons.prems(3) [rule_format, of "Suc i"] that by simp
  ultimately show ?case
    using Cons.prems(1,2) Cons.IH [of "p + 1" "ys @ [x]" "n + 1"]
    by (subst read_leb_loop.simps) (simp add: take_byte_step byte_flags Let_def algebra_simps)
qed

lemma safe_read_loop_reads:
  assumes "\<forall>x \<in> set xs. more x" "\<not> more b"
  shows "safe_read_loop (xs @ b # rest) (of_nat (uleb ys)) (shift_of (length ys)) c =
    (of_nat (uleb (ys @ xs @ [b])), shift_of (length (ys @ xs @ [b])), b, rest)"
  using assms
proof (induction xs arbitrary: ys c)
  case (Cons x xs)
  then show ?case using Cons.IH [of "ys @ [x]" x] by (simp add: take_byte_step byte_flags Let_def)
qed (simp add: take_byte_step byte_flags Let_def)

lemma start: "uleb [] = 0" "shift_of (length []) = 0"
  by (simp_all add: shift_of_def)

lemma bfd_reads:
  assumes "\<forall>x \<in> set xs. more x" "\<not> more b" "\<forall>i < Suc (length xs). m (p + i) = (xs @ [b]) ! i"
  shows "bfd_read_unsigned_leb128 m p = Some (of_int (leb False (xs @ [b])), of_nat (Suc (length xs)))"
    and "bfd_read_signed_leb128 m p = Some (of_int (leb True (xs @ [b])), of_nat (Suc (length xs)))"
  using read_leb_loop_reads [OF assms, of "[]" 0]
  unfolding bfd_read_unsigned_leb128_def bfd_read_signed_leb128_def sign_extend_folds
  by (simp_all add: start [simplified])

lemma bfd_safe_reads:
  assumes "\<forall>x \<in> set xs. more x" "\<not> more b"
  shows "bfd_safe_read_leb128 (xs @ b # rest) sign = (of_int (leb sign (xs @ [b])), rest)"
  using safe_read_loop_reads [OF assms, of rest "[]" 0]
  unfolding bfd_safe_read_leb128_def sign_extend_folds by (simp add: start [simplified])

section \<open>The decoders of leb128.h\<close>

lemma shift_below:
  "n \<le> 9 \<Longrightarrow> \<not> 64 \<le> shift_of n \<and> unat (shift_of n) = 7 * n \<and> shift_of n + 7 = shift_of (Suc n)"
  using shift_of [of n] by (simp add: not_le)

lemma uleb128_loop_reads:
  assumes "\<forall>x \<in> set xs. more x" "\<not> more b" "length ys + length xs \<le> 9"
  shows "uleb128_loop (xs @ b # rest) n (shift_of (length ys)) (of_nat (uleb ys)) =
      Some (n + Suc (length xs), Some (of_nat (uleb (ys @ xs @ [b]))))"
  using assms
proof (induction xs arbitrary: ys n)
  case (Cons x xs)
  then show ?case
    using Cons.IH [of "ys @ [x]" "Suc n"] shift_below [of "length ys"] by (simp add: seven_bits result_step byte_flags)
qed (simp add: shift_below seven_bits result_step byte_flags)

lemma sleb128_loop_reads:
  assumes "\<forall>x \<in> set xs. more x" "\<not> more b" "length ys + length xs \<le> 9"
  shows "sleb128_loop (xs @ b # rest) n (shift_of (length ys)) (of_nat (uleb ys)) =
      Some (n + Suc (length xs), Some (of_int (leb True (ys @ xs @ [b]))))"
  using assms
proof (induction xs arbitrary: ys n)
  case Nil
  then show ?case
    unfolding append_Nil sleb128_loop.simps sign_extend_folds by (simp add: shift_below seven_bits result_step byte_flags)
next
  case (Cons x xs)
  then show ?case
    using Cons.IH [of "ys @ [x]" "Suc n"] shift_below [of "length ys"] by (simp add: seven_bits result_step byte_flags)
qed

lemma skip_loop_skips:
  "\<forall>x \<in> set xs. more x \<Longrightarrow> \<not> more b \<Longrightarrow> skip_loop (xs @ b # rest) n = n + Suc (length xs)"
  by (induction xs arbitrary: n) (simp_all add: byte_flags)

section \<open>The status of readelf's decoder\<close>

text \<open>The bits of an unfinished number from bit 63 on must be alike, or all 0 but the first where the number is unsigned.\<close>

definition fits :: "bool \<Rightarrow> bytes \<Rightarrow> bool" where
  "fits sign bs \<longleftrightarrow> uleb bs div 2 ^ 63 \<in> (if sign then {0, 2 ^ (7 * length bs - 63) - 1} else {0, 1})"

lemma fits_short: "length bs \<le> 9 \<Longrightarrow> fits sign bs \<and> uleb bs < 2 ^ 63"
proof -
  assume "length bs \<le> 9"
  then have "(2 :: nat) ^ (7 * length bs) \<le> 2 ^ 63" by (intro power_increasing) simp_all
  with uleb_less [of bs] show ?thesis by (simp add: fits_def power_128)
qed

lemma high_part:
  assumes "9 \<le> length xs"
  shows "uleb (xs @ [b]) div 2 ^ 63 = uleb xs div 2 ^ 63 + 2 ^ (7 * length xs - 63) * low7 b"
    and "uleb xs div 2 ^ 63 < 2 ^ (7 * length xs - 63)"
proof -
  have e: "(128 :: nat) ^ length xs = 2 ^ 63 * 2 ^ (7 * length xs - 63)"
  proof -
    have "7 * length xs = 63 + (7 * length xs - 63)" using assms by simp
    then show ?thesis unfolding power_128 by (metis power_add)
  qed
  have "uleb (xs @ [b]) = uleb xs + 2 ^ 63 * (2 ^ (7 * length xs - 63) * low7 b)"
    by (simp add: uleb_append e)
  then show "uleb (xs @ [b]) div 2 ^ 63 = uleb xs div 2 ^ 63 + 2 ^ (7 * length xs - 63) * low7 b"
    by simp
  show "uleb xs div 2 ^ 63 < 2 ^ (7 * length xs - 63)"
    using uleb_less [of xs] unfolding e by (simp add: less_mult_imp_div_less mult.commute)
qed

lemma negative_result: "sint (of_nat (uleb bs) :: u64) < 0 \<longleftrightarrow> odd (uleb bs div 2 ^ 63)"
proof -
  have "sint (w :: u64) < 0 \<longleftrightarrow> bit w 63" for w by (simp add: sint_uint bit_uint_iff)
  then have "sint (of_nat (uleb bs) :: u64) < 0 \<longleftrightarrow> bit (of_nat (uleb bs) :: u64) 63" .
  also have "\<dots> \<longleftrightarrow> bit (uleb bs) 63" unfolding bit_of_nat_iff by simp
  finally show ?thesis unfolding bit_iff_odd .
qed

lemma fits_longer:
  assumes "10 \<le> length xs"
  shows "fits sign (xs @ [b]) \<longleftrightarrow>
    fits sign xs \<and> low7 b = (if sign \<and> odd (uleb xs div 2 ^ 63) then 127 else 0)"
proof -
  define q Q where qQ: "q = uleb xs div 2 ^ 63" "Q = (2 :: nat) ^ (7 * length xs - 63)"
  have hp: "uleb (xs @ [b]) div 2 ^ 63 = q + Q * low7 b" "q < Q"
    using high_part(1) [of xs b] high_part(2) [of xs] assms by (simp_all add: qQ)
  have "(2 :: nat) ^ 7 \<le> Q" unfolding qQ using assms by (intro power_increasing) simp_all
  then have Q: "128 \<le> Q" by simp
  have "even Q" unfolding qQ using assms by simp
  then have odd: "odd (Q - 1)" using Q by simp
  have "7 * length (xs @ [b]) - 63 = 7 + (7 * length xs - 63)" using assms by simp
  then have next_Q: "2 ^ (7 * length (xs @ [b]) - 63) = 128 * Q" unfolding qQ by (simp only: power_add) simp
  show ?thesis
  proof (cases sign)
    case True
    have "q + Q * low7 b = 0 \<longleftrightarrow> q = 0 \<and> low7 b = 0" using Q by simp
    moreover have "q + Q * low7 b = 128 * Q - 1 \<longleftrightarrow> q = Q - 1 \<and> low7 b = 127"
    proof
      assume e: "q + Q * low7 b = 128 * Q - 1"
      have "low7 b = 127"
      proof (rule ccontr)
        assume "low7 b \<noteq> 127"
        with low7_less [of b] have "Q * low7 b \<le> Q * 126" by (intro mult_le_mono2) simp
        with e hp(2) Q show False by linarith
      qed
      with e Q show "q = Q - 1 \<and> low7 b = 127" by simp
    qed (use Q in simp)
    ultimately show ?thesis
      using True odd unfolding fits_def hp(1) next_Q qQ(1) [symmetric] qQ(2) [symmetric] by auto
  next
    case False
    have "q + Q * low7 b \<in> {0, 1} \<longleftrightarrow> q \<in> {0, 1} \<and> low7 b = 0"
      using Q by (cases "low7 b") auto
    then show ?thesis using False unfolding fits_def hp(1) qQ(1) [symmetric] by simp
  qed
qed

lemma fits_tenth:
  assumes "length xs = 9"
  shows "fits sign (xs @ [b]) \<longleftrightarrow> low7 b \<in> (if sign then {0, 127} else {0, 1})" "odd (uleb (xs @ [b]) div 2 ^ 63) \<longleftrightarrow> odd (low7 b)"
proof -
  have "uleb xs div 2 ^ 63 = 0" using fits_short [of xs] assms by simp
  then have "uleb (xs @ [b]) div 2 ^ 63 = low7 b" using high_part(1) [of xs b] assms by simp
  then show "fits sign (xs @ [b]) \<longleftrightarrow> low7 b \<in> (if sign then {0, 127} else {0, 1})" "odd (uleb (xs @ [b]) div 2 ^ 63) \<longleftrightarrow> odd (low7 b)"
    using assms by (auto simp: fits_def)
qed

lemma bit_7e: "bit (0x7e :: u8) i \<longleftrightarrow> 1 \<le> i \<and> i < 7"
proof -
  have e: "(0x7e :: u8) = mask 7 AND NOT (mask 1)" by (simp add: mask_eq_exp_minus_1)
  show ?thesis unfolding e by (auto simp: bit_simps)
qed

lemma unat_masked: "unat (byte AND 0x7f) = low7 byte" "unat (byte AND 0x7e) = 2 * (low7 byte div 2)" for byte :: u8
proof -
  show "unat (byte AND 0x7f) = low7 byte" by (simp add: unat_and_7f low7_def)
  have "drop_bit 1 (byte AND 0x7e) = drop_bit 1 (take_bit 7 byte)"
  proof (rule bit_word_eqI)
    fix n
    show "bit (drop_bit 1 (byte AND 0x7e)) n = bit (drop_bit 1 (take_bit 7 byte)) n"
      unfolding bit_drop_bit_eq o_def bit_and_iff bit_7e bit_take_bit_iff by auto
  qed
  from arg_cong [OF this, of unat] have "unat (byte AND 0x7e) div 2 = low7 byte div 2"
    unfolding unat_drop_bit unsigned_take_bit_eq low7_def by (simp add: take_bit_eq_mod)
  moreover have "\<not> bit (byte AND 0x7e) 0" unfolding bit_and_iff bit_7e by simp
  then have "even (unat (byte AND 0x7e))" unfolding bit_iff_odd_unat by simp
  ultimately show "unat (byte AND 0x7e) = 2 * (low7 byte div 2)" by (metis dvd_mult_div_cancel)
qed

lemma masked: "byte AND 0x7f = 0 \<longleftrightarrow> low7 byte = 0" "byte AND 0x7f = 0x7f \<longleftrightarrow> low7 byte = 127"
  "byte AND 0x7e = 0 \<longleftrightarrow> low7 byte \<in> {0, 1}" "byte AND 0x7e = 0x7e \<longleftrightarrow> low7 byte \<in> {126, 127}" for byte :: u8
proof -
  show "byte AND 0x7f = 0 \<longleftrightarrow> low7 byte = 0" "byte AND 0x7f = 0x7f \<longleftrightarrow> low7 byte = 127"
    unfolding word_unat_eq_iff unat_masked by simp_all
  show "byte AND 0x7e = 0 \<longleftrightarrow> low7 byte \<in> {0, 1}" "byte AND 0x7e = 0x7e \<longleftrightarrow> low7 byte \<in> {126, 127}"
    unfolding word_unat_eq_iff unat_masked by auto
qed

lemma lost_tenth: "(ucast (ucast byte XOR drop_bit 63 (result :: u64)) :: u8) AND 0x7e = byte AND 0x7e" for byte :: u8
proof (rule bit_word_eqI)
  fix n
  show "bit ((ucast (ucast byte XOR drop_bit 63 result) :: u8) AND 0x7e) n = bit (byte AND 0x7e) n"
    unfolding bit_and_iff bit_7e
    by (cases "1 \<le> n \<and> n < 7") (auto simp: bit_simps dest: bit_imp_le_length)
qed

lemma msk_values:
  "n \<le> 8 \<Longrightarrow> ucast (0x7f XOR drop_bit (7 * n) (push_bit (7 * n) (0x7f :: u64))) = (0 :: u8)"
  "ucast (0x7f XOR drop_bit 63 (push_bit 63 (0x7f :: u64))) = (0x7e :: u8)"
proof -
  assume "n \<le> 8"
  have e: "(0x7f :: u64) = mask 7" by (simp add: mask_eq_exp_minus_1)
  have "drop_bit (7 * n) (push_bit (7 * n) (0x7f :: u64)) = 0x7f"
    unfolding e using \<open>n \<le> 8\<close> by (auto intro!: bit_word_eqI simp: bit_simps)
  then show "ucast (0x7f XOR drop_bit (7 * n) (push_bit (7 * n) (0x7f :: u64))) = (0 :: u8)" by simp
qed simp

text \<open>One turn keeps the status.\<close>

lemma turn_high:
  "\<not> shift < 64 \<Longrightarrow> read_leb128_loop (b # data) sign result n shift status =
    (let status = (if b AND 0x7f \<noteq> (if sign \<and> sint result < 0 then 0x7f else 0) then status OR 2 else status)
     in if \<not> more b then (sign_extend sign shift b result, n + 1, status AND NOT 1)
        else read_leb128_loop data sign result (n + 1) shift status)"
  unfolding read_leb128_loop.simps sign_extend_folds by (simp add: byte_flags Let_def split del: if_split)

lemma turn_low:
  assumes "shift < 64" "result' = result OR push_bit (unat shift) (of_nat (low7 b))"
    and "msk = (ucast (0x7f XOR drop_bit (unat shift) (push_bit (unat shift) (0x7f :: u64))) :: u8)"
  shows "read_leb128_loop (b # data) sign result n shift status =
    (let status = (if ucast (ucast b XOR drop_bit (unat shift) result') AND msk \<noteq> (if sign \<and> sint result' < 0 then msk else 0) then status OR 2 else status)
     in if \<not> more b then (sign_extend sign (shift + 7) b result', n + 1, status AND NOT 1)
        else read_leb128_loop data sign result' (n + 1) (shift + 7) status)"
  unfolding assms(2,3)
  unfolding read_leb128_loop.simps Let_def if_P [OF assms(1)] prod.case sign_extend_folds by (simp only: seven_bits byte_flags)

lemma lost_bits:
  assumes "length xs \<le> 9" "msk = ucast (0x7f XOR drop_bit (7 * length xs) (push_bit (7 * length xs) (0x7f :: u64)))"
  shows "(ucast (ucast b XOR drop_bit (7 * length xs) (of_nat (uleb (xs @ [b])) :: u64)) :: u8) AND msk \<noteq>
      (if sign \<and> sint (of_nat (uleb (xs @ [b])) :: u64) < 0 then msk else 0) \<longleftrightarrow> \<not> fits sign (xs @ [b])"
proof (cases "length xs \<le> 8")
  case True
  then show ?thesis using fits_short [of "xs @ [b]"] assms(2) by (simp add: msk_values)
next
  case False
  with assms have 9: "length xs = 9" by simp
  then have msk: "msk = 0x7e" using assms(2) by (simp add: msk_values(2))
  have lost: "(ucast (ucast b XOR drop_bit (7 * length xs) (of_nat (uleb (xs @ [b])) :: u64)) :: u8) AND 0x7e = b AND 0x7e"
    using 9 lost_tenth [of b] by (simp add: msk)
  have "low7 b < 128" by (rule low7_less)
  have o: "sint (of_nat (uleb (xs @ [b])) :: u64) < 0 \<longleftrightarrow> odd (low7 b)"
    unfolding negative_result fits_tenth(2) [OF 9] ..
  show ?thesis
  proof (cases "sign \<and> odd (low7 b)")
    case True
    then show ?thesis unfolding lost o fits_tenth(1) [OF 9] msk using masked(4) [of b] by (auto intro: odd_pos)
  next
    case False
    then show ?thesis unfolding lost o fits_tenth(1) [OF 9] msk using masked(3) [of b] by auto
  qed
qed

lemma read_leb128_turn:
  "read_leb128_loop (b # data) sign (of_nat (uleb xs)) n (shift_of (length xs)) (if fits sign xs then 1 else 3) =
    (if more b
     then read_leb128_loop data sign (of_nat (uleb (xs @ [b]))) (n + 1) (shift_of (length (xs @ [b]))) (if fits sign (xs @ [b]) then 1 else 3)
     else (of_int (leb sign (xs @ [b])), n + 1, if fits sign (xs @ [b]) then 0 else 2))"
proof (cases "length xs \<le> 9")
  case True
  then have s: "shift_of (length xs) < 64" "unat (shift_of (length xs)) = 7 * length xs" "shift_of (length xs) + 7 = shift_of (Suc (length xs))"
    using shift_of by (simp_all add: min_absorb1)
  have f: "(if fits sign xs then 1 else 3) = (1 :: u32)" using True fits_short by simp
  note t = turn_low [OF s(1) refl refl, where result = "of_nat (uleb xs)" and b = b and data = data and sign = "sign" and n = n and status = 1,
    unfolded s(2,3) result_step lost_bits [OF True refl] Let_def]
  show ?thesis unfolding f t by (cases "fits sign (xs @ [b])") simp_all
next
  case False
  then have c: "fits sign (xs @ [b]) \<longleftrightarrow> fits sign xs \<and> \<not> (b AND 0x7f \<noteq> (if sign \<and> sint (of_nat (uleb xs) :: u64) < 0 then 0x7f else 0))"
    using fits_longer [of xs "sign" b] masked(1,2) [of b] by (simp add: negative_result)
  have same: "of_nat (uleb (xs @ [b])) = (of_nat (uleb xs) :: u64)" "shift_of (length (xs @ [b])) = shift_of (length xs)"
    and s: "\<not> shift_of (length xs) < 64"
    using take_byte_step [of b xs] False by (simp_all add: take_byte_def shift_of)
  have e: "sign_extend sign (shift_of (length xs)) b (of_nat (uleb xs)) = of_int (leb sign (xs @ [b]))"
    using extended_snoc [of "sign" xs b] same by simp
  define C where "C \<longleftrightarrow> b AND 0x7f \<noteq> (if sign \<and> sint (of_nat (uleb xs) :: u64) < 0 then 0x7f else 0)"
  show ?thesis
    unfolding turn_high [OF s] e same c C_def [symmetric] by (cases "fits sign xs"; cases C) (simp_all add: Let_def)
qed

lemma read_leb128_loop_reads:
  "read_leb128_loop data sign (of_nat (uleb xs)) n (shift_of (length xs)) (if fits sign xs then 1 else 3) =
    (case dropWhile more data of
       [] \<Rightarrow> (of_nat (uleb (xs @ data)), n + of_nat (length data), if fits sign (xs @ data) then 1 else 3)
     | b # rest \<Rightarrow>
        let bs = xs @ takeWhile more data @ [b]
        in (of_int (leb sign bs), n + of_nat (Suc (length (takeWhile more data))), if fits sign bs then 0 else 2))"
proof (induction data arbitrary: xs n)
  case (Cons b data)
  note IH = Cons.IH [of "xs @ [b]" "n + 1"]
  show ?case
  proof (cases "more b")
    case True
    then show ?thesis
      unfolding read_leb128_turn IH if_P [OF True] by (simp add: add.assoc cong: list.case_cong)
  next
    case False
    then show ?thesis unfolding read_leb128_turn by (simp add: Let_def)
  qed
qed simp

text \<open>The numbers that a 64-bit value can hold.\<close>

definition representable :: "bool \<Rightarrow> int \<Rightarrow> bool" where
  "representable sign i \<longleftrightarrow> (if sign then - (2 ^ 63) \<le> i \<and> i < 2 ^ 63 else 0 \<le> i \<and> i < 2 ^ 64)"

lemma negative_iff: "negative b \<longleftrightarrow> 64 * 128 ^ length xs \<le> uleb (xs @ [b])"
proof -
  have e: "uleb (xs @ [b]) = uleb xs + 128 ^ length xs * low7 b" by (simp add: uleb_append)
  show ?thesis
  proof
    assume "negative b"
    then have "128 ^ length xs * 64 \<le> 128 ^ length xs * low7 b" by (intro mult_le_mono2) (simp add: negative_def)
    then show "64 * 128 ^ length xs \<le> uleb (xs @ [b])" unfolding e by linarith
  next
    assume le: "64 * 128 ^ length xs \<le> uleb (xs @ [b])"
    show "negative b"
    proof (rule ccontr)
      assume "\<not> negative b"
      then have "128 ^ length xs * Suc (low7 b) \<le> 128 ^ length xs * 64" by (intro mult_le_mono2) (simp add: negative_def)
      then show False using le uleb_less [of xs] unfolding e mult_Suc_right by linarith
    qed
  qed
qed

lemma fits_signed:
  assumes "10 \<le> length (xs @ [b])"
  shows "fits True (xs @ [b]) \<longleftrightarrow> - (2 ^ 63) \<le> sleb (xs @ [b]) \<and> sleb (xs @ [b]) < 2 ^ 63"
proof -
  define N k where Nk: "N = uleb (xs @ [b])" "k = 7 * length (xs @ [b]) - 64"
  have k: "6 \<le> k" "7 * length (xs @ [b]) - 63 = Suc k" "(128 :: nat) ^ length (xs @ [b]) = 2 ^ 64 * 2 ^ k"
    "64 * (128 :: nat) ^ length xs = 2 ^ 63 * 2 ^ k"
  proof -
    show "6 \<le> k" "7 * length (xs @ [b]) - 63 = Suc k" using assms by (simp_all add: Nk)
    have "7 * length (xs @ [b]) = 64 + k" using assms by (simp add: Nk)
    then show e: "(128 :: nat) ^ length (xs @ [b]) = 2 ^ 64 * 2 ^ k" unfolding power_128 by (simp only: power_add)
    then show "64 * (128 :: nat) ^ length xs = 2 ^ 63 * 2 ^ k" by simp
  qed
  have less: "N < 2 ^ 64 * 2 ^ k" using uleb_less [of "xs @ [b]"] unfolding k Nk(1) [symmetric] .
  have neg: "negative b \<longleftrightarrow> 2 ^ 63 * 2 ^ k \<le> N" using negative_iff [of b xs] unfolding k Nk(1) [symmetric] .
  have sleb: "sleb (xs @ [b]) = int N - (if negative b then int (2 ^ 64 * 2 ^ k) else 0)"
    unfolding sleb_def Nk(1) [symmetric] k(3) [symmetric] by simp
  have fits: "fits True (xs @ [b]) \<longleftrightarrow> N div 2 ^ 63 = 0 \<or> N div 2 ^ 63 = 2 * 2 ^ k - 1"
    unfolding fits_def k(2) Nk(1) [symmetric] by simp
  have K: "(1 :: nat) \<le> 2 ^ k" by simp
  have zero: "N div 2 ^ 63 = 0 \<longleftrightarrow> N < 2 ^ 63" by (simp add: div_eq_0_iff)
  have ones: "N div 2 ^ 63 = 2 * 2 ^ k - 1 \<longleftrightarrow> 2 ^ 64 * 2 ^ k \<le> N + 2 ^ 63"
  proof
    assume e: "N div 2 ^ 63 = 2 * 2 ^ k - 1"
    have "2 ^ 63 * (N div 2 ^ 63) \<le> N" by simp
    then show "2 ^ 64 * 2 ^ k \<le> N + 2 ^ 63" unfolding e using K by (simp add: diff_mult_distrib2)
  next
    assume le: "2 ^ 64 * 2 ^ k \<le> N + 2 ^ 63"
    show "N div 2 ^ 63 = 2 * 2 ^ k - 1"
    proof (rule div_nat_eqI)
      show "2 ^ 63 * (2 * 2 ^ k - 1) \<le> N" using le by (simp add: diff_mult_distrib2)
      show "N < 2 ^ 63 * Suc (2 * 2 ^ k - 1)" using less K by simp
    qed
  qed
  show ?thesis
  proof (cases "negative b")
    case True
    then have "2 ^ 63 * 2 ^ k \<le> N" using neg by simp
    then have "\<not> N < 2 ^ 63" using K by (metis (no_types) le_trans linorder_not_le mult.right_neutral mult_le_mono2)
    moreover have "int N < int (2 ^ 64 * 2 ^ k)" using less by (simp only: of_nat_less_iff)
    then have "sleb (xs @ [b]) < 0" using True unfolding sleb by simp
    moreover have "2 ^ 64 * 2 ^ k \<le> N + 2 ^ 63 \<longleftrightarrow> int (2 ^ 64 * 2 ^ k) \<le> int (N + 2 ^ 63)" by (simp only: of_nat_le_iff)
    then have "- (2 ^ 63) \<le> sleb (xs @ [b]) \<longleftrightarrow> 2 ^ 64 * 2 ^ k \<le> N + 2 ^ 63" using True unfolding sleb by auto
    ultimately show ?thesis unfolding fits zero ones by simp
  next
    case False
    define A where "A = (2 :: nat) ^ 63 * 2 ^ k"
    have "N < A" using False neg by (simp add: A_def)
    moreover have "2 ^ 63 \<le> A" "2 ^ 64 * 2 ^ k = 2 * A" by (simp_all add: A_def)
    ultimately have "\<not> 2 ^ 64 * 2 ^ k \<le> N + 2 ^ 63" by linarith
    moreover have "sleb (xs @ [b]) = int N" using False by (simp add: sleb)
    ultimately show ?thesis unfolding fits zero ones by simp
  qed
qed

lemma fits_representable: "fits sign (xs @ [b]) \<longleftrightarrow> representable sign (leb sign (xs @ [b]))"
proof (cases "sign")
  case True
  show ?thesis
  proof (cases "10 \<le> length (xs @ [b])")
    case True
    then show ?thesis using fits_signed \<open>sign\<close> by (simp add: representable_def leb_def)
  next
    case False
    let ?N = "uleb (xs @ [b])"
    have s: "fits sign (xs @ [b])" "?N < 2 ^ 63" using False fits_short [of "xs @ [b]"] by simp_all
    have "(128 :: nat) ^ length xs \<le> 128 ^ 8" using False by (intro power_increasing) simp_all
    then have "(128 :: nat) ^ length (xs @ [b]) \<le> 64 * 128 ^ length xs + 2 ^ 63" by simp
    then have "negative b \<Longrightarrow> 128 ^ length (xs @ [b]) \<le> ?N + 2 ^ 63" using negative_iff [of b xs] by linarith
    then have "negative b \<Longrightarrow> int (128 ^ length (xs @ [b])) \<le> int (?N + 2 ^ 63)" by (simp only: of_nat_le_iff)
    then have "negative b \<Longrightarrow> (128 :: int) ^ length (xs @ [b]) \<le> int ?N + 2 ^ 63" by simp
    moreover have "int ?N < int (2 ^ 63)" using s(2) by (simp only: of_nat_less_iff)
    moreover define P where "P = (128 :: int) ^ length (xs @ [b])"
    moreover from this have "0 \<le> P" by simp
    ultimately have "- (2 ^ 63) \<le> sleb (xs @ [b]) \<and> sleb (xs @ [b]) < 2 ^ 63"
      unfolding sleb_def P_def [symmetric] by (cases "negative b") simp_all
    then show ?thesis using s(1) \<open>sign\<close> by (simp add: representable_def leb_def)
  qed
next
  case False
  have "N div 2 ^ 63 \<in> {0, 1} \<longleftrightarrow> N < 2 ^ 64" for N :: nat
    using less_mult_imp_div_less [of N 2 "2 ^ 63"] div_less_iff_less_mult [of "2 ^ 63" N 2] by auto
  then show ?thesis using False by (simp add: fits_def representable_def leb_def)
qed

end
