(* ===== verification/Leb128_Roundtrip.thy ===== *)
theory Leb128_Roundtrip
  imports Leb128_Correct
begin

text \<open>
  The encoders of LEB128 numbers and the round trips through the decoders of \<open>Leb128\<close>.
\<close>

unbundle bit_operations_syntax

section \<open>The bytes written\<close>

lemma unat_out_byte: "unat (ucast v AND 0x7f :: u32) = unat v mod 128" for v :: u64
proof -
  have "unat (ucast v :: u32) = unat v mod 2 ^ 32" by (simp add: unsigned_ucast_eq take_bit_eq_mod)
  moreover have "unat v mod 2 ^ 32 mod 128 = unat v mod 128" by (simp add: mod_mod_cancel)
  ultimately show ?thesis by (simp add: unat_and_7f)
qed

lemma out_byte:
  fixes v :: u64
  shows "low7 (ucast (ucast v AND 0x7f :: u32)) = unat v mod 128" "\<not> more (ucast (ucast v AND 0x7f :: u32))"
    and "low7 (ucast ((ucast v AND 0x7f :: u32) OR 0x80)) = unat v mod 128" "more (ucast ((ucast v AND 0x7f :: u32) OR 0x80))"
proof -
  let ?r = "unat v mod 128"
  have byte: "(ucast v AND 0x7f :: u32) = of_nat ?r"
    by (rule word_unat_eq_iff [THEN iffD2]) (simp add: unat_out_byte unat_of_nat)
  have "unat (ucast (of_nat ?r :: u32) :: u8) = ?r"
    by (simp add: unsigned_ucast_eq unat_of_nat take_bit_nat_eq_self_iff)
  then show "low7 (ucast (ucast v AND 0x7f :: u32)) = ?r" "\<not> more (ucast (ucast v AND 0x7f :: u32))"
    unfolding byte by (simp_all add: low7_def more_def)
  have e: "(of_nat ?r :: u32) OR 0x80 = of_nat (?r + 128)"
    using or_high [where 'a = 32, of ?r 7 1] by simp
  have r: "?r + 128 < 256" using mod_less_divisor [of 128 "unat v"] by simp
  then have "unat (of_nat (?r + 128) :: u32) = ?r + 128" by (simp only: unat_of_nat) simp
  with r have "unat (ucast ((of_nat ?r :: u32) OR 0x80) :: u8) = ?r + 128"
    unfolding e unsigned_ucast_eq by (simp only: take_bit_nat_eq_self_iff) simp
  then show "low7 (ucast ((ucast v AND 0x7f :: u32) OR 0x80)) = ?r" "more (ucast ((ucast v AND 0x7f :: u32) OR 0x80))"
    unfolding byte by (simp_all add: low7_def more_def)
qed

lemma sleb_ends_iff:
  "sleb_ends (shift_right_7 v) (ucast v AND 0x7f) \<longleftrightarrow>
    sint v div 128 = 0 \<and> unat v mod 128 < 64 \<or> sint v div 128 = - 1 \<and> 64 \<le> unat v mod 128"
proof -
  have "shift_right_7 v = 0 \<longleftrightarrow> sint v div 128 = 0" "shift_right_7 v = - 1 \<longleftrightarrow> sint v div 128 = - 1"
    unfolding sint_shift_right_7 [symmetric] by (metis signed_0 signed_word_eqI, metis signed_minus_1 signed_word_eqI)
  moreover have "(ucast v AND 0x7f :: u32) AND 0x40 = 0 \<longleftrightarrow> even (unat v mod 128 div 64)"
    using and_power_0 [of 6 "ucast v AND 0x7f :: u32"] unfolding bit_iff_odd_unat unat_out_byte by simp
  moreover have "even (r div 64) \<longleftrightarrow> r < 64" if "r < 128" for r :: nat
  proof -
    have "64 \<le> r \<Longrightarrow> r div 64 = 1" using that by (intro div_nat_eqI) simp_all
    then show ?thesis by (cases "64 \<le> r") simp_all
  qed
  ultimately show ?thesis by (auto simp: sleb_ends_def not_less)
qed

lemma sint_mod: "sint v mod 128 = int (unat v mod 128)" for v :: u64
proof -
  have "take_bit 7 (signed_take_bit 63 (uint v)) = take_bit 7 (uint v)" by (rule take_bit_signed_take_bit) simp
  then have "sint v mod 128 = uint v mod 128" by (simp add: sint_uint take_bit_eq_mod)
  then show ?thesis by (simp add: zmod_int)
qed

lemma sint_parts: "sint v = 128 * sint (shift_right_7 v) + int (unat v mod 128)" for v :: u64
  unfolding sint_shift_right_7 sint_mod [symmetric] by simp

section \<open>The encoders\<close>

text \<open>A complete encoding: flags on all bytes but the last.\<close>

definition encoding :: "bytes \<Rightarrow> bool" where
  "encoding bs \<longleftrightarrow> bs \<noteq> [] \<and> (\<forall>b \<in> set (butlast bs). more b) \<and> \<not> more (last bs)"

lemma encoding_snoc: "encoding bs \<longleftrightarrow> (\<exists>xs b. bs = xs @ [b] \<and> (\<forall>x \<in> set xs. more x) \<and> \<not> more b)"
  by (cases bs rule: rev_cases) (auto simp: encoding_def)

lemma encoding_simps [simp]: "encoding [b] \<longleftrightarrow> \<not> more b" "bs \<noteq> [] \<Longrightarrow> encoding (b # bs) \<longleftrightarrow> more b \<and> encoding bs"
  by (auto simp: encoding_def)

lemma output_uleb128_encodes:
  "encoding (output_uleb128 v) \<and> uleb (output_uleb128 v) = unat v \<and> length (output_uleb128 v) = sizeof_uleb128 v \<and>
   (length (output_uleb128 v) = Suc (Suc k) \<longrightarrow> 128 ^ Suc k \<le> unat v)"
proof (induction v arbitrary: k rule: output_uleb128.induct)
  case (1 v)
  let ?w = "drop_bit 7 v"
  have w: "unat ?w = unat v div 128" by (simp add: unat_drop_bit)
  show ?case
  proof (cases "?w = 0")
    case True
    then have "unat v div 128 = 0" using w by simp
    then have "unat v mod 128 = unat v" by simp
    with True show ?thesis
      by (subst (1 2 3 4) output_uleb128.simps, subst sizeof_uleb128.simps) (simp add: Let_def out_byte)
  next
    case False
    note IH = "1.IH" [OF refl refl False]
    have step: "output_uleb128 v = ucast ((ucast v AND 0x7f :: u32) OR 0x80) # output_uleb128 ?w" "sizeof_uleb128 v = Suc (sizeof_uleb128 ?w)"
      using False by (subst output_uleb128.simps, simp add: Let_def, subst sizeof_uleb128.simps, simp add: Let_def)
    have ne: "output_uleb128 ?w \<noteq> []" using IH by (auto simp: encoding_def)
    have "128 ^ Suc k \<le> unat v" if len: "length (output_uleb128 v) = Suc (Suc k)" for k
    proof (cases k)
      case 0
      have "0 < unat v div 128" using False w by (metis gr0I unat_eq_zero)
      then show ?thesis using 0 by (simp add: div_greater_zero_iff)
    next
      case (Suc j)
      with len IH [of j] have "128 ^ Suc j \<le> unat v div 128" by (simp add: step(1) w)
      then have "128 ^ Suc j * 128 \<le> unat v" by (simp only: less_eq_div_iff_mult_less_eq)
      then show ?thesis by (simp add: Suc)
    qed
    moreover have "uleb (output_uleb128 v) = unat v" using IH by (simp add: step out_byte w)
    ultimately show ?thesis using IH ne by (simp add: step out_byte)
  qed
qed

lemma output_sleb128_encodes:
  "encoding (output_sleb128 v) \<and> sleb (output_sleb128 v) = sint v \<and> length (output_sleb128 v) = sizeof_sleb128 v \<and>
   (length (output_sleb128 v) = Suc (Suc k) \<longrightarrow> 64 * 128 ^ k \<le> sint v \<or> sint v < - (64 * 128 ^ k))"
proof (induction v arbitrary: k rule: output_sleb128.induct)
  case (1 v)
  let ?w = "shift_right_7 v" and ?r = "unat v mod 128"
  have r: "?r < 128" by simp
  show ?case
  proof (cases "sleb_ends ?w (ucast v AND 0x7f)")
    case True
    then have "sint ?w = 0 \<and> ?r < 64 \<or> sint ?w = - 1 \<and> 64 \<le> ?r" unfolding sleb_ends_iff sint_shift_right_7 .
    then have "sleb [ucast (ucast v AND 0x7f :: u32)] = sint v"
      using sint_parts [of v] by (auto simp: sleb_single out_byte negative_def)
    with True show ?thesis
      by (subst (1 2 3 4) output_sleb128.simps, subst sizeof_sleb128.simps) (simp add: Let_def out_byte)
  next
    case False
    note IH = "1.IH" [OF refl refl refl] False
    have step: "output_sleb128 v = ucast ((ucast v AND 0x7f :: u32) OR 0x80) # output_sleb128 ?w" "sizeof_sleb128 v = Suc (sizeof_sleb128 ?w)"
      using False by (subst output_sleb128.simps, simp add: Let_def, subst sizeof_sleb128.simps, simp add: Let_def)
    have IH: "encoding (output_sleb128 ?w)" "sleb (output_sleb128 ?w) = sint ?w" "length (output_sleb128 ?w) = sizeof_sleb128 ?w"
      "length (output_sleb128 ?w) = Suc (Suc k) \<Longrightarrow> 64 * 128 ^ k \<le> sint ?w \<or> sint ?w < - (64 * 128 ^ k)" for k
      using "1.IH" [OF refl refl refl] False by auto
    have ne: "output_sleb128 ?w \<noteq> []" using IH by (auto simp: encoding_def)
    have "64 * 128 ^ k \<le> sint v \<or> sint v < - (64 * 128 ^ k)" if len: "length (output_sleb128 v) = Suc (Suc k)" for k
    proof (cases k)
      case 0
      have "\<not> (sint ?w = 0 \<and> ?r < 64 \<or> sint ?w = - 1 \<and> 64 \<le> ?r)" using False unfolding sleb_ends_iff sint_shift_right_7 .
      then show ?thesis using sint_parts [of v] r unfolding 0 by auto
    next
      case (Suc j)
      with len IH(4) [of j] have "64 * 128 ^ j \<le> sint ?w \<or> sint ?w < - (64 * 128 ^ j)" by (simp add: step(1))
      then show ?thesis using sint_parts [of v] r unfolding Suc by auto
    qed
    moreover have "sleb (output_sleb128 v) = sint v" using IH sint_parts [of v] ne by (simp add: step sleb_Cons out_byte)
    ultimately show ?thesis using IH ne by (simp add: step out_byte)
  qed
qed

lemma output_leb128_encodes:
  "encoding (output_leb128 v sign) \<and> leb sign (output_leb128 v sign) = (if sign then sint v else uint v) \<and>
   length (output_leb128 v sign) = sizeof_leb128 v sign \<and> length (output_leb128 v sign) \<le> 10"
proof (cases "sign")
  case True
  have "length (output_sleb128 v) \<le> 10"
  proof (rule ccontr)
    assume "\<not> length (output_sleb128 v) \<le> 10"
    then obtain k where k: "length (output_sleb128 v) = Suc (Suc k)" "9 \<le> k"
      using that [of "length (output_sleb128 v) - 2"] by simp
    have "(128 :: int) ^ 9 \<le> 128 ^ k" using k(2) by (intro power_increasing) simp_all
    with k(1) output_sleb128_encodes [of v k] have "2 ^ 63 \<le> sint v \<or> sint v < - (2 ^ 63)" by auto
    then show False using sint_lt [of v] sint_ge [of v] by simp
  qed
  then show ?thesis using True output_sleb128_encodes [of v] by (simp add: output_leb128_def sizeof_leb128_def leb_def)
next
  case False
  have "length (output_uleb128 v) \<le> 10"
  proof (rule ccontr)
    assume "\<not> length (output_uleb128 v) \<le> 10"
    then obtain k where k: "length (output_uleb128 v) = Suc (Suc k)" "9 \<le> k"
      using that [of "length (output_uleb128 v) - 2"] by simp
    have "(128 :: nat) ^ 10 \<le> 128 ^ Suc k" using k(2) by (intro power_increasing) simp_all
    with k(1) output_uleb128_encodes [of v k] have "2 ^ 64 \<le> unat v" by auto
    then show False using unat_less_power [of v] by simp
  qed
  then show ?thesis using False output_uleb128_encodes [of v] by (simp add: output_leb128_def sizeof_leb128_def leb_def)
qed

section \<open>Writing within bounds\<close>

lemma bfd_write_is_output:
  "bfd_write_unsigned_leb128 space v = (if length (output_uleb128 v) \<le> space then Some (output_uleb128 v) else None)"
proof (induction space v rule: bfd_write_unsigned_leb128.induct)
  case (1 space v)
  have c: "ucast (v AND 0x7f) = (ucast (ucast v AND 0x7f :: u32) :: u8)"
    "ucast y OR 0x80 = (ucast (y OR 0x80) :: u8)" for y :: u32
    by (auto intro!: bit_word_eqI simp: bit_simps)
  show ?case
  proof (cases "space = 0")
    case True
    then show ?thesis by (subst bfd_write_unsigned_leb128.simps, subst output_uleb128.simps) (simp add: Let_def)
  next
    case False
    then show ?thesis
      using "1.IH" [OF False refl refl]
      by (subst bfd_write_unsigned_leb128.simps, subst (1 2) output_uleb128.simps) (auto simp: Let_def c)
  qed
qed

section \<open>Too many bytes\<close>

lemma leb_loops_pass:
  "\<forall>x \<in> set xs. more x \<Longrightarrow> length ys + length xs \<le> 10 \<Longrightarrow>
   uleb128_loop (xs @ data) n (shift_of (length ys)) (of_nat (uleb ys)) =
     uleb128_loop data (n + length xs) (shift_of (length (ys @ xs))) (of_nat (uleb (ys @ xs))) \<and>
   sleb128_loop (xs @ data) n (shift_of (length ys)) (of_nat (uleb ys)) =
     sleb128_loop data (n + length xs) (shift_of (length (ys @ xs))) (of_nat (uleb (ys @ xs)))"
proof (induction xs arbitrary: ys n)
  case (Cons x xs)
  then show ?case
    using Cons.IH [of "ys @ [x]" "Suc n"] shift_below [of "length ys"] by (simp add: seven_bits result_step byte_flags)
qed simp

text \<open>
  The functions of \<^verbatim>\<open>leb128.h\<close> shift by 70 bits, which C leaves undefined, on every input whose eleventh byte still
  belongs to the number.
\<close>

lemma leb128_h_undefined:
  "\<forall>b \<in> set (take 10 data). more b \<Longrightarrow> 10 < length data \<Longrightarrow>
   read_uleb128_to_uint64 data = None \<and> read_sleb128_to_int64 data = None"
proof -
  assume more: "\<forall>b \<in> set (take 10 data). more b" and len: "10 < length data"
  have split: "data = take 10 data @ data ! 10 # drop 11 data"
    using len id_take_nth_drop [of 10 data] by simp
  have "\<not> shift_of 10 < 64" by (simp add: shift_of)
  then have "64 \<le> shift_of 10" by simp
  then show ?thesis
    using leb_loops_pass [OF more, of "[]" "data ! 10 # drop 11 data" 0] len
    unfolding read_uleb128_to_uint64_def read_sleb128_to_int64_def
    by (subst (1 2) split) (simp add: start [simplified] min_absorb2)
qed

section \<open>Properties\<close>

text \<open>C28: readelf's decoder yields the number that the bytes stand for, cut to 64 bits, and its status tells
  whether anything was cut off and whether the number had an end.
\<close>

theorem read_leb128_status:
  "read_leb128 data sign =
    (case dropWhile more data of
       [] \<Rightarrow> (of_nat (uleb data), of_nat (length data), if fits sign data then 1 else 3)
     | b # rest \<Rightarrow>
        let bs = takeWhile more data @ [b]
        in (of_int (leb sign bs), of_nat (length bs), if representable sign (leb sign bs) then 0 else 2))"
proof -
  have "fits sign []" by (simp add: fits_def)
  with read_leb128_loop_reads [of data "sign" "[]" 0] show ?thesis
    unfolding read_leb128_def by (simp add: start [simplified] fits_representable Let_def cong: list.case_cong)
qed

text \<open>C27: What the assembler writes for a number takes the room it reserved, and the decoders of bfd/libbfd.c,
  include/leb128.h and binutils/dwarf.c read the number back from it, whatever follows; the encoder of
  bfd/libbfd.c writes the same bytes where they fit.
\<close>

theorem leb128_round_trip:
  "let bs = output_leb128 v sign
   in length bs = sizeof_leb128 v sign \<and>
     read_leb128 (bs @ data) sign = (v, of_nat (length bs), 0) \<and>
     bfd_safe_read_leb128 (bs @ data) sign = (v, data) \<and>
     (if sign then bfd_read_signed_leb128 else bfd_read_unsigned_leb128) (put_bytes m p bs) p = Some (v, of_nat (length bs)) \<and>
     (if sign then read_sleb128_to_int64 else read_uleb128_to_uint64) (bs @ data) = Some (length bs, Some v) \<and>
     skip_leb128 (bs @ data) = length bs \<and>
     bfd_write_unsigned_leb128 space v = (if sizeof_uleb128 v \<le> space then Some (output_uleb128 v) else None)"
proof -
  let ?bs = "output_leb128 v sign"
  have out: "encoding ?bs" "leb sign ?bs = (if sign then sint v else uint v)" "length ?bs = sizeof_leb128 v sign" "length ?bs \<le> 10"
    using output_leb128_encodes by blast+
  then obtain xs b where bs: "?bs = xs @ [b]" "\<forall>x \<in> set xs. more x" "\<not> more b" unfolding encoding_snoc by blast
  have v: "of_int (leb sign ?bs) = v" unfolding out(2) by simp
  have fit: "representable sign (leb sign ?bs)"
    unfolding out(2) representable_def using sint_ge [of v] sint_lt [of v] uint_bounded [of v] by simp
  have split: "takeWhile more (?bs @ data) = xs" "dropWhile more (?bs @ data) = b # data"
    using bs by (simp_all add: takeWhile_append2 dropWhile_append2)
  have "fits sign []" by (simp add: fits_def)
  then have 1: "read_leb128 (?bs @ data) sign = (v, of_nat (length ?bs), 0)"
    using read_leb128_loop_reads [of "?bs @ data" "sign" "[]" 0] fit v bs(1) fits_representable [of "sign" xs b]
    unfolding read_leb128_def split by (simp add: start [simplified] Let_def)
  have at: "\<forall>i < Suc (length xs). put_bytes m p ?bs (p + i) = (xs @ [b]) ! i" using bs(1) by (simp add: put_bytes_in)
  have 2: "(if sign then bfd_read_signed_leb128 else bfd_read_unsigned_leb128) (put_bytes m p ?bs) p = Some (v, of_nat (length ?bs))"
    using bfd_reads [OF bs(2,3) at] v bs(1) by (cases "sign") simp_all
  have 3: "bfd_safe_read_leb128 (?bs @ data) sign = (v, data)"
    using bfd_safe_reads [OF bs(2,3), of data "sign"] v bs(1) by simp
  have "length [] + length xs \<le> 9" using out(4) bs(1) by simp
  note reads = uleb128_loop_reads [OF bs(2,3) this, of data 0] sleb128_loop_reads [OF bs(2,3) this, of data 0]
  have 4: "(if sign then read_sleb128_to_int64 else read_uleb128_to_uint64) (?bs @ data) = Some (length ?bs, Some v)"
    using reads v bs(1)
    by (cases "sign") (simp_all add: read_uleb128_to_uint64_def read_sleb128_to_int64_def start [simplified])
  have 5: "skip_leb128 (?bs @ data) = length ?bs"
    using skip_loop_skips [OF bs(2,3), of data 0] bs(1) by (simp add: skip_leb128_def)
  show ?thesis
    using output_uleb128_encodes [of v] by (simp only: Let_def out(3) [symmetric] 1 2 3 4 5 bfd_write_is_output simp_thms)
qed

end
