(* ===== verification/Partition.thy ===== *)
theory Partition
  imports Prelude "HOL-Library.Multiset"
begin

text \<open>
  Partitions of the integers \<^verbatim>\<open>0 .. n - 1\<close> (\<^verbatim>\<open>src/binutils-2.42/libiberty/partition.c\<close>): every element knows the canonical
  element of its class, the members of a class form a circular list, and the canonical element counts them. A pointer
  into the array of elements is its index.
\<close>

section \<open>partition.h, partition.c\<close>

record elem =
  next_of :: nat
  class_element :: nat
  class_count :: u32

record partition =
  num_elements :: nat
  elements :: "elem list"

definition partition_find :: "partition \<Rightarrow> nat \<Rightarrow> nat" where
  "partition_find part element = class_element (elements part ! element)"

definition partition_new :: "nat \<Rightarrow> partition" where
  "partition_new n =
     \<lparr>num_elements = n, elements = map (\<lambda>e. \<lparr>next_of = e, class_element = e, class_count = 1\<rparr>) [0..<n]\<rparr>"

text \<open>The loop \<^verbatim>\<open>for (p = e2->next; p != e2; p = p->next) p->class_element = class_element\<close>.\<close>

partial_function (option) relabel :: "elem list \<Rightarrow> nat \<Rightarrow> nat \<Rightarrow> nat \<Rightarrow> elem list option" where
  "relabel es e2 c p =
     (if p = e2 then Some es
      else
        (let es = es[p := (es ! p)\<lparr>class_element := c\<rparr>]
         in relabel es e2 c (next_of (es ! p))))"

text \<open>
  The classes of \<open>e1\<close> and \<open>e2\<close> are different and \<open>c\<close> is the canonical element of the class of \<open>e1\<close>: add the counts,
  relabel the class of \<open>e2\<close>, splice the lists. No value is a loop without an end.
\<close>

definition unite :: "partition \<Rightarrow> nat \<Rightarrow> nat \<Rightarrow> nat \<Rightarrow> (nat \<times> partition) option" where
  "unite part e1 e2 c =
     (let es = elements part;
          es = es[c := (es ! c)\<lparr>class_count := class_count (es ! c) + class_count (es ! class_element (es ! e2))\<rparr>];
          es = es[e2 := (es ! e2)\<lparr>class_element := c\<rparr>]
      in case relabel es e2 c (next_of (es ! e2)) of
           None \<Rightarrow> None
         | Some es \<Rightarrow>
             (let old_next = next_of (es ! e1);
                  es = es[e1 := (es ! e1)\<lparr>next_of := next_of (es ! e2)\<rparr>];
                  es = es[e2 := (es ! e2)\<lparr>next_of := old_next\<rparr>]
              in Some (c, part\<lparr>elements := es\<rparr>)))"

text \<open>The canonical element of the union, and the partition.\<close>

definition partition_union :: "partition \<Rightarrow> nat \<Rightarrow> nat \<Rightarrow> (nat \<times> partition) option" where
  "partition_union part elem1 elem2 =
     (let es = elements part;
          c = class_element (es ! elem1)
      in if c = class_element (es ! elem2) then Some (c, part)
         else if class_count (es ! elem1) < class_count (es ! elem2)
         then unite part elem2 elem1 (class_element (es ! elem2))
         else unite part elem1 elem2 c)"

text \<open>
  What \<open>partition_print\<close> writes: characters, and numbers in decimal. \<open>qsort\<close> with \<open>elem_compare\<close> sorts the members of
  a class.
\<close>

datatype token = Char char | Decimal nat

definition elem_compare :: "nat \<Rightarrow> nat \<Rightarrow> int" where
  "elem_compare e1 e2 = (if e1 < e2 then - 1 else if e1 > e2 then 1 else 0)"

lemma elem_compare_order: "elem_compare a b < 0 \<longleftrightarrow> a < b" "elem_compare a b = 0 \<longleftrightarrow> a = b"
  by (simp_all add: elem_compare_def)

text \<open>The members from \<open>c\<close> on along the list, each flagged as done.\<close>

fun collect :: "elem list \<Rightarrow> nat \<Rightarrow> nat \<Rightarrow> bool list \<Rightarrow> nat list \<times> bool list" where
  "collect es 0 c don = ([], don)"
| "collect es (Suc i) c don =
     (let (members, don) = collect es i (next_of (es ! c)) (don[c := True]) in (c # members, don))"

definition print_class :: "nat list \<Rightarrow> token list" where
  "print_class members =
     Char CHR ''('' # concat (map (\<lambda>i. if i = 0 then [Decimal (members ! i)] else [Char CHR '' '', Decimal (members ! i)]) [0..<length members])
     @ [Char CHR '')'']"

definition print_step :: "elem list \<Rightarrow> nat \<Rightarrow> token list \<times> bool list \<Rightarrow> token list \<times> bool list" where
  "print_step es e = (\<lambda>(out, don).
     if don ! e then (out, don)
     else
       (let n = unat (class_count (es ! class_element (es ! e)));
            (members, don) = collect es n e don
        in (out @ print_class (sort members), don)))"

definition partition_print :: "partition \<Rightarrow> token list" where
  "partition_print part =
     fst (fold (print_step (elements part)) [0..<num_elements part] ([Char CHR ''[''], replicate (num_elements part) False))
     @ [Char CHR '']'']"

section \<open>Circular lists\<close>

text \<open>The list leads from \<open>a\<close> over the elements of \<open>xs\<close> to \<open>b\<close>.\<close>

fun path :: "(nat \<Rightarrow> nat) \<Rightarrow> nat \<Rightarrow> nat list \<Rightarrow> nat \<Rightarrow> bool" where
  "path nxt a [] b \<longleftrightarrow> nxt a = b"
| "path nxt a (x # xs) b \<longleftrightarrow> nxt a = x \<and> path nxt x xs b"

definition ring :: "(nat \<Rightarrow> nat) \<Rightarrow> nat \<Rightarrow> nat list \<Rightarrow> bool" where
  "ring nxt e xs \<longleftrightarrow> path nxt e xs e \<and> distinct (e # xs)"

lemma path_append: "path nxt a (xs @ y # ys) b \<longleftrightarrow> path nxt a xs y \<and> path nxt y ys b"
  by (induction xs arbitrary: a) simp_all

lemma path_from: "path nxt a xs b \<Longrightarrow> nxt' c = nxt a \<Longrightarrow> (\<And>x. x \<in> set xs \<Longrightarrow> nxt' x = nxt x) \<Longrightarrow> path nxt' c xs b"
  by (induction xs arbitrary: a c) auto

lemma ring_cong: "(\<And>x. x \<in> insert e (set xs) \<Longrightarrow> nxt' x = nxt x) \<Longrightarrow> ring nxt e xs \<Longrightarrow> ring nxt' e xs"
  unfolding ring_def by (auto intro: path_from)

text \<open>A ring can be entered at any of its elements.\<close>

lemma ring_at:
  assumes "ring nxt e xs" "f \<in> insert e (set xs)"
  shows "\<exists>ys. ring nxt f ys \<and> insert f (set ys) = insert e (set xs) \<and> length ys = length xs"
proof (cases "f = e")
  case False
  with assms(2) obtain us vs where xs: "xs = us @ f # vs" by (auto simp: in_set_conv_decomp)
  with assms(1) have "ring nxt f (vs @ e # us)" by (auto simp: ring_def path_append)
  then show ?thesis by (intro exI [of _ "vs @ e # us"]) (auto simp: xs)
qed (use assms in auto)

text \<open>Exchanging two successors joins two rings.\<close>

lemma ring_splice:
  assumes "ring nxt e1 xs" "ring nxt e2 ys" "insert e1 (set xs) \<inter> insert e2 (set ys) = {}"
  shows "ring (nxt(e1 := nxt e2, e2 := nxt e1)) e1 (ys @ e2 # xs)"
proof -
  let ?nxt = "nxt(e1 := nxt e2, e2 := nxt e1)"
  have "path ?nxt e1 ys e2" "path ?nxt e2 xs e1"
    using assms unfolding ring_def by (auto intro: path_from)
  then show ?thesis using assms unfolding ring_def by (auto simp: path_append)
qed

section \<open>Well-formed partitions\<close>

abbreviation nexts :: "elem list \<Rightarrow> nat \<Rightarrow> nat" where
  "nexts es \<equiv> \<lambda>e. next_of (es ! e)"

definition class_of :: "elem list \<Rightarrow> nat \<Rightarrow> nat set" where
  "class_of es c = {x. x < length es \<and> class_element (es ! x) = c}"

text \<open>
  Canonical elements are members of their own class, the list from any element goes once round its class, and the
  canonical element holds the number of members.
\<close>

definition well_formed :: "partition \<Rightarrow> bool" where
  "well_formed part \<longleftrightarrow>
     (let es = elements part
      in length es = num_elements part \<and> num_elements part < 2 ^ 31 \<and>
        (\<forall>e < length es.
           class_element (es ! e) \<in> class_of es (class_element (es ! e)) \<and>
           (\<exists>xs. ring (nexts es) e xs \<and> insert e (set xs) = class_of es (class_element (es ! e)) \<and>
              class_count (es ! class_element (es ! e)) = of_nat (Suc (length xs)))))"

lemma well_formed_new: "n < 2 ^ 31 \<Longrightarrow> well_formed (partition_new n)"
  by (auto simp: well_formed_def partition_new_def Let_def class_of_def ring_def intro!: exI [of _ "[]"])

lemma relabel_ring:
  assumes "path (nexts es) p xs e2" "distinct (p # xs)" "e2 \<notin> set (p # xs)" "set (p # xs) \<subseteq> {..<length es}"
  shows "\<exists>es'. relabel es e2 c p = Some es' \<and> length es' = length es \<and>
    (\<forall>x < length es. es' ! x = (if x \<in> set (p # xs) then (es ! x)\<lparr>class_element := c\<rparr> else es ! x))"
  using assms
proof (induction xs arbitrary: es p)
  case Nil
  then show ?case by (subst relabel.simps, subst relabel.simps) (auto simp: Let_def)
next
  case (Cons x xs)
  let ?es = "es[p := (es ! p)\<lparr>class_element := c\<rparr>]"
  have same: "nexts ?es = nexts es"
    using Cons.prems(4) by (auto simp: fun_eq_iff nth_list_update)
  have "path (nexts ?es) x xs e2" "distinct (x # xs)" "e2 \<notin> set (x # xs)" "set (x # xs) \<subseteq> {..<length ?es}"
    using Cons.prems unfolding same by auto
  from Cons.IH [OF this] obtain es' where es': "relabel ?es e2 c x = Some es'" "length es' = length ?es"
    "\<forall>y < length ?es. es' ! y = (if y \<in> set (x # xs) then (?es ! y)\<lparr>class_element := c\<rparr> else ?es ! y)" by blast
  have "next_of (?es ! p) = x" using Cons.prems(1) fun_cong [OF same, of p] by simp
  then have "relabel es e2 c p = Some es'" using es'(1) Cons.prems(3) by (subst relabel.simps) (simp add: Let_def)
  moreover have "es' ! y = (if y \<in> set (p # x # xs) then (es ! y)\<lparr>class_element := c\<rparr> else es ! y)" if "y < length es" for y
    using es'(3) that Cons.prems(2) by (cases "y = p") (auto simp: nth_list_update)
  ultimately show ?case using es'(2) by auto
qed

lemma relabel_all:
  assumes "ring (nexts es) e2 ys" "insert e2 (set ys) \<subseteq> {..<length es}"
  shows "\<exists>es'. relabel es e2 c (next_of (es ! e2)) = Some es' \<and> length es' = length es \<and>
    (\<forall>x < length es. es' ! x = (if x \<in> set ys then (es ! x)\<lparr>class_element := c\<rparr> else es ! x))"
proof (cases ys)
  case Nil
  with assms show ?thesis by (subst relabel.simps) (simp add: ring_def)
next
  case (Cons p zs)
  with assms have "path (nexts es) p zs e2" "distinct (p # zs)" "e2 \<notin> set (p # zs)" "set (p # zs) \<subseteq> {..<length es}" "next_of (es ! e2) = p"
    by (auto simp: ring_def)
  with relabel_ring [of es p zs e2 c] show ?thesis by (simp add: Cons)
qed

section \<open>Union\<close>

lemma well_formedD:
  assumes "well_formed part" "e < num_elements part"
  obtains xs where "length (elements part) = num_elements part" "num_elements part < 2 ^ 31"
    "partition_find part e < num_elements part" "partition_find part (partition_find part e) = partition_find part e"
    "ring (nexts (elements part)) e xs" "insert e (set xs) = class_of (elements part) (partition_find part e)"
    "class_count (elements part ! partition_find part e) = of_nat (Suc (length xs))"
  using assms by (auto simp: well_formed_def partition_find_def class_of_def Let_def)

text \<open>The fields of all elements after \<open>unite\<close>.\<close>

lemma unite_fields:
  assumes "well_formed part" "e1 < num_elements part" "e2 < num_elements part" "c1 = partition_find part e1" "c2 = partition_find part e2" "c1 \<noteq> c2"
  shows "\<exists>es'. unite part e1 e2 c1 = Some (c1, part\<lparr>elements := es'\<rparr>) \<and> length es' = num_elements part \<and>
    (\<forall>x < num_elements part.
       next_of (es' ! x) = ((nexts (elements part))(e1 := nexts (elements part) e2, e2 := nexts (elements part) e1)) x \<and>
       class_element (es' ! x) = (if partition_find part x = c2 then c1 else partition_find part x) \<and>
       class_count (es' ! x) =
         (if x = c1 then class_count (elements part ! c1) + class_count (elements part ! c2) else class_count (elements part ! x)))"
proof -
  let ?es = "elements part"
  obtain xs where 1: "length ?es = num_elements part" "c1 < num_elements part" "partition_find part c1 = c1"
    using well_formedD [OF assms(1,2)] assms(4) by metis
  obtain ys where 2: "ring (nexts ?es) e2 ys" "insert e2 (set ys) = class_of ?es c2"
    using well_formedD [OF assms(1,3)] assms(5) by metis
  define es1 where "es1 = ?es[c1 := (?es ! c1)\<lparr>class_count := class_count (?es ! c1) + class_count (?es ! c2)\<rparr>]"
  define es2 where "es2 = es1[e2 := (es1 ! e2)\<lparr>class_element := c1\<rparr>]"
  have len: "length es2 = length ?es" by (simp add: es1_def es2_def)
  have ne: "e1 \<noteq> e2" "c1 \<noteq> e2" using assms(4-6) 1(3) by auto
  have fields2: "next_of (es2 ! x) = next_of (?es ! x)" "class_element (es2 ! x) = (if x = e2 then c1 else partition_find part x)"
    "class_count (es2 ! x) = (if x = c1 then class_count (?es ! c1) + class_count (?es ! c2) else class_count (?es ! x))"
    if "x < num_elements part" for x
    using that 1(1,2) assms(3) ne by (auto simp: es1_def es2_def nth_list_update partition_find_def)
  have "insert e2 (set ys) \<subseteq> {..<length es2}" using 2(2) by (auto simp: class_of_def len)
  moreover have "ring (nexts es2) e2 ys"
    using 2 fields2(1) 1(1) by (auto intro!: ring_cong [OF _ 2(1)] simp: class_of_def)
  ultimately obtain es3 where es3: "relabel es2 e2 c1 (next_of (es2 ! e2)) = Some es3" "length es3 = length es2"
    "\<forall>x < length es2. es3 ! x = (if x \<in> set ys then (es2 ! x)\<lparr>class_element := c1\<rparr> else es2 ! x)"
    using relabel_all [of es2 e2 ys c1] by blast
  define es4 where "es4 = es3[e1 := (es3 ! e1)\<lparr>next_of := next_of (es3 ! e2)\<rparr>]"
  define es5 where "es5 = es4[e2 := (es4 ! e2)\<lparr>next_of := next_of (es3 ! e1)\<rparr>]"
  have c2: "class_element (?es ! e2) = c2" using assms(5) by (simp add: partition_find_def)
  have "unite part e1 e2 c1 = Some (c1, part\<lparr>elements := es5\<rparr>)"
    unfolding unite_def Let_def c2 es1_def [symmetric] es2_def [symmetric] es3(1) option.case es4_def [symmetric] es5_def [symmetric] ..
  moreover have "length es5 = num_elements part" using es3(2) len 1(1) by (simp add: es5_def es4_def)
  moreover have mem: "x = e2 \<or> x \<in> set ys \<longleftrightarrow> partition_find part x = c2" if "x < num_elements part" for x
    using 2(2) that 1(1) by (auto simp: class_of_def partition_find_def set_eq_iff)
  moreover have "next_of (es5 ! x) = ((nexts ?es)(e1 := nexts ?es e2, e2 := nexts ?es e1)) x \<and>
      class_element (es5 ! x) = (if partition_find part x = c2 then c1 else partition_find part x) \<and>
      class_count (es5 ! x) = (if x = c1 then class_count (?es ! c1) + class_count (?es ! c2) else class_count (?es ! x))"
    if x: "x < num_elements part" for x
  proof -
    have at3: "next_of (es3 ! y) = next_of (?es ! y)" "class_element (es3 ! y) = (if partition_find part y = c2 then c1 else partition_find part y)"
      "class_count (es3 ! y) = class_count (es2 ! y)" if "y < num_elements part" for y
      using es3(3) that len 1(1) fields2 [OF that] mem [OF that] by auto
    have "e1 < length es4" "e2 < length es4" "length es3 = num_elements part" using es3(2) len 1(1) assms(2,3) by (simp_all add: es4_def)
    then show ?thesis
      using at3 [OF x] at3(1) [OF assms(2)] at3(1) [OF assms(3)] fields2(3) [OF x] ne(1) assms(2,3) x
      by (auto simp: es5_def es4_def nth_list_update)
  qed
  ultimately show ?thesis by blast
qed

lemma unite_merges:
  assumes "well_formed part" "e1 < num_elements part" "e2 < num_elements part" "c1 = partition_find part e1" "c2 = partition_find part e2" "c1 \<noteq> c2"
  shows "\<exists>part'. unite part e1 e2 c1 = Some (c1, part') \<and> well_formed part' \<and> num_elements part' = num_elements part \<and>
    (\<forall>x < num_elements part. partition_find part' x = (if partition_find part x = c2 then c1 else partition_find part x))"
proof -
  let ?es = "elements part" and ?n = "num_elements part"
  obtain xs where 1: "length ?es = ?n" "?n < 2 ^ 31" "c1 < ?n" "partition_find part c1 = c1"
    "ring (nexts ?es) e1 xs" "insert e1 (set xs) = class_of ?es c1" "class_count (?es ! c1) = of_nat (Suc (length xs))"
    using well_formedD [OF assms(1,2)] unfolding assms(4) by metis
  obtain ys where 2: "ring (nexts ?es) e2 ys" "insert e2 (set ys) = class_of ?es c2" "class_count (?es ! c2) = of_nat (Suc (length ys))"
    using well_formedD [OF assms(1,3)] unfolding assms(5) by metis
  obtain es' where es': "unite part e1 e2 c1 = Some (c1, part\<lparr>elements := es'\<rparr>)" "length es' = ?n"
    and next_eq: "\<And>x. x < ?n \<Longrightarrow> next_of (es' ! x) = ((nexts ?es)(e1 := nexts ?es e2, e2 := nexts ?es e1)) x"
    and class_eq: "\<And>x. x < ?n \<Longrightarrow> class_element (es' ! x) = (if partition_find part x = c2 then c1 else partition_find part x)"
    and count_eq: "\<And>x. x < ?n \<Longrightarrow> class_count (es' ! x) =
      (if x = c1 then class_count (?es ! c1) + class_count (?es ! c2) else class_count (?es ! x))"
    using unite_fields [OF assms] by blast
  have find: "partition_find part x = class_element (?es ! x)" for x by (simp add: partition_find_def)
  have disj: "insert e1 (set xs) \<inter> insert e2 (set ys) = {}"
    unfolding 1(6) 2(2) using assms(6) by (auto simp: class_of_def)
  have c1_class: "class_of es' c1 = insert e1 (set xs) \<union> insert e2 (set ys)"
    unfolding 1(6) 2(2) using class_eq es'(2) 1(1) assms(6) by (auto simp: class_of_def find split: if_splits)
  have below: "insert e1 (set (ys @ e2 # xs)) \<subseteq> {..<?n}"
    using c1_class es'(2) by (auto simp: class_of_def)
  have joined: "ring (nexts es') e1 (ys @ e2 # xs)"
    by (rule ring_cong [OF _ ring_splice [OF 1(5) 2(1) disj]]) (use below next_eq in auto)
  have "class_element (es' ! e) \<in> class_of es' (class_element (es' ! e)) \<and>
      (\<exists>zs. ring (nexts es') e zs \<and> insert e (set zs) = class_of es' (class_element (es' ! e)) \<and>
         class_count (es' ! class_element (es' ! e)) = of_nat (Suc (length zs)))"
    if e: "e < ?n" for e
  proof (cases "partition_find part e = c1 \<or> partition_find part e = c2")
    case True
    then have c: "class_element (es' ! e) = c1" using class_eq [OF e] by auto
    have "e \<in> insert e1 (set (ys @ e2 # xs))" using c1_class c e es'(2) by (auto simp: class_of_def)
    from ring_at [OF joined this] obtain zs where zs: "ring (nexts es') e zs"
      "insert e (set zs) = insert e1 (set (ys @ e2 # xs))" "length zs = length (ys @ e2 # xs)" by blast
    have "insert e (set zs) = class_of es' c1" unfolding zs(2) c1_class by auto
    moreover have "class_count (es' ! c1) = of_nat (Suc (length zs))"
      using count_eq [OF 1(3)] 1(7) 2(3) zs(3) by simp
    moreover have "c1 \<in> class_of es' c1" unfolding c1_class 1(6) using 1 by (simp add: class_of_def find)
    ultimately show ?thesis using zs(1) by (auto simp: c)
  next
    case False
    let ?c = "partition_find part e"
    obtain zs where zs: "?c < ?n" "partition_find part ?c = ?c" "ring (nexts ?es) e zs" "insert e (set zs) = class_of ?es ?c"
      "class_count (?es ! ?c) = of_nat (Suc (length zs))"
      using well_formedD [OF assms(1) e] by metis
    have c: "class_element (es' ! e) = ?c" using class_eq [OF e] False by simp
    have same: "class_of es' ?c = class_of ?es ?c"
      using class_eq False es'(2) 1(1) by (auto simp: class_of_def find split: if_splits)
    have "e1 \<notin> class_of ?es ?c" "e2 \<notin> class_of ?es ?c" using False assms(4,5) by (auto simp: class_of_def find)
    then have "nexts es' x = nexts ?es x" if "x \<in> insert e (set zs)" for x
      using that next_eq [of x] 1(1) unfolding zs(4) by (auto simp: class_of_def)
    then have "ring (nexts es') e zs" using zs(3) by (rule ring_cong)
    moreover have "class_count (es' ! ?c) = of_nat (Suc (length zs))"
      using count_eq [OF zs(1)] zs(2,5) False 1(4) by auto
    moreover have "?c \<in> class_of ?es ?c" using zs(1,2) 1(1) by (simp add: class_of_def find)
    ultimately show ?thesis unfolding c same using zs(4) by blast
  qed
  then have "well_formed (part\<lparr>elements := es'\<rparr>)" using es'(2) 1(2) by (simp add: well_formed_def)
  with es'(1) class_eq show ?thesis by (auto simp: partition_find_def)
qed

section \<open>Printing\<close>

lemma collect_path:
  "path (nexts es) a xs b \<Longrightarrow> collect es (Suc (length xs)) a don = (a # xs, fold (\<lambda>x d. d[x := True]) (a # xs) don)"
  by (induction xs arbitrary: a don) simp_all

lemma fold_flags:
  "length (fold (\<lambda>x d. d[x := True]) xs don) = length don \<and>
   (\<forall>i < length don. fold (\<lambda>x d. d[x := True]) xs don ! i \<longleftrightarrow> i \<in> set xs \<or> don ! i)"
proof (induction xs arbitrary: don)
  case (Cons a xs)
  have "don[a := True] ! i \<longleftrightarrow> i = a \<or> don ! i" if "i < length don" for i
    using that by (cases "i = a") simp_all
  then show ?case using Cons.IH [of "don[a := True]"] by auto
qed simp

text \<open>The first elements of the classes, among those below \<open>n\<close>.\<close>

definition first_members :: "partition \<Rightarrow> nat \<Rightarrow> nat list" where
  "first_members part n = filter (\<lambda>e. \<forall>x < e. partition_find part x \<noteq> partition_find part e) [0..<n]"

definition members :: "partition \<Rightarrow> nat \<Rightarrow> nat list" where
  "members part e = sorted_list_of_set (class_of (elements part) (partition_find part e))"

lemma print_step_class:
  assumes "well_formed part" "e < num_elements part" "length don = num_elements part" "\<not> don ! e"
  shows "\<exists>don'. print_step (elements part) e (out, don) = (out @ print_class (members part e), don') \<and> length don' = num_elements part \<and>
    (\<forall>x < num_elements part. don' ! x \<longleftrightarrow> partition_find part x = partition_find part e \<or> don ! x)"
proof -
  let ?es = "elements part"
  obtain xs where xs: "length ?es = num_elements part" "num_elements part < 2 ^ 31"
    "ring (nexts ?es) e xs" "insert e (set xs) = class_of ?es (partition_find part e)"
    "class_count (?es ! partition_find part e) = of_nat (Suc (length xs))"
    using well_formedD [OF assms(1,2)] by metis
  have "distinct (e # xs)" "path (nexts ?es) e xs e" using xs(3) by (simp_all add: ring_def)
  have "set (e # xs) \<subseteq> {..<num_elements part}" using xs(4,1) by (auto simp: class_of_def)
  then have "card (set (e # xs)) \<le> num_elements part" by (metis card_lessThan card_mono finite_lessThan)
  then have "Suc (length xs) < 2 ^ 32" using distinct_card [OF \<open>distinct (e # xs)\<close>] xs(2) by simp
  then have n: "unat (of_nat (Suc (length xs)) :: u32) = Suc (length xs)" by (simp only: unat_of_nat) simp
  have "mset (e # xs) = mset (members part e)"
    unfolding members_def using \<open>distinct (e # xs)\<close> xs(4)
    by (intro set_eq_iff_mset_eq_distinct [THEN iffD1]) (auto simp: class_of_def)
  then have "sort (e # xs) = members part e"
    by (intro properties_for_sort) (simp_all add: members_def)
  then have "print_step ?es e (out, don) = (out @ print_class (members part e), fold (\<lambda>x d. d[x := True]) (e # xs) don)"
    using assms(4) collect_path [OF \<open>path (nexts ?es) e xs e\<close>, of don] xs(5) n
    by (simp add: print_step_def partition_find_def Let_def del: collect.simps of_nat_Suc)
  moreover have "x \<in> set (e # xs) \<longleftrightarrow> partition_find part x = partition_find part e" if "x < num_elements part" for x
    using xs(4,1) that by (auto simp: class_of_def partition_find_def set_eq_iff)
  ultimately show ?thesis using fold_flags [of "e # xs" don] assms(3) by auto
qed

lemma print_loop:
  assumes "well_formed part" "n \<le> num_elements part"
  shows "\<exists>don. fold (print_step (elements part)) [0..<n] (out, replicate (num_elements part) False) =
      (out @ concat (map (\<lambda>e. print_class (members part e)) (first_members part n)), don) \<and>
    length don = num_elements part \<and> (\<forall>x < num_elements part. don ! x \<longleftrightarrow> (\<exists>y < n. partition_find part x = partition_find part y))"
  using assms(2)
proof (induction n)
  case (Suc n)
  then obtain don where don: "fold (print_step (elements part)) [0..<n] (out, replicate (num_elements part) False) =
      (out @ concat (map (\<lambda>e. print_class (members part e)) (first_members part n)), don)"
    "length don = num_elements part" "\<forall>x < num_elements part. don ! x \<longleftrightarrow> (\<exists>y < n. partition_find part x = partition_find part y)" by auto
  show ?case
  proof (cases "don ! n")
    case True
    then have y: "\<exists>y < n. partition_find part n = partition_find part y" using don(3) Suc.prems by simp
    then have "first_members part (Suc n) = first_members part n" by (auto simp: first_members_def)
    moreover have "print_step (elements part) n (a, don) = (a, don)" for a using True by (simp add: print_step_def)
    ultimately show ?thesis using don y by (auto simp: less_Suc_eq)
  next
    case False
    then have "\<not> (\<exists>y < n. partition_find part n = partition_find part y)" using don(3) Suc.prems by simp
    then have "first_members part (Suc n) = first_members part n @ [n]" by (auto simp: first_members_def)
    moreover obtain don' where "print_step (elements part) n (out @ concat (map (\<lambda>e. print_class (members part e)) (first_members part n)), don) =
        (out @ concat (map (\<lambda>e. print_class (members part e)) (first_members part n)) @ print_class (members part n), don')"
      "length don' = num_elements part" "\<forall>x < num_elements part. don' ! x \<longleftrightarrow> partition_find part x = partition_find part n \<or> don ! x"
      using print_step_class [OF assms(1) _ don(2) False, of "out @ concat (map (\<lambda>e. print_class (members part e)) (first_members part n))"]
        Suc.prems by auto
    ultimately show ?thesis using don by (auto simp: less_Suc_eq)
  qed
qed (simp add: first_members_def)

section \<open>Both orders of the arguments\<close>

lemma partition_union_merged:
  assumes "well_formed part" "elem1 < num_elements part" "elem2 < num_elements part"
  shows "\<exists>c part'. partition_union part elem1 elem2 = Some (c, part') \<and> well_formed part' \<and>
    num_elements part' = num_elements part \<and> c \<in> {partition_find part elem1, partition_find part elem2} \<and>
    (\<forall>x < num_elements part. partition_find part' x =
       (if partition_find part x \<in> {partition_find part elem1, partition_find part elem2} then c else partition_find part x))"
proof -
  let ?c1 = "partition_find part elem1" and ?c2 = "partition_find part elem2"
  consider "?c1 = ?c2" | "?c1 \<noteq> ?c2" "class_count (elements part ! elem1) < class_count (elements part ! elem2)"
    | "?c1 \<noteq> ?c2" "\<not> class_count (elements part ! elem1) < class_count (elements part ! elem2)" by blast
  then show ?thesis
  proof cases
    case 1
    then show ?thesis using assms by (auto simp: partition_union_def Let_def partition_find_def)
  next
    case 2
    then have "partition_union part elem1 elem2 = unite part elem2 elem1 ?c2"
      by (simp add: partition_union_def Let_def partition_find_def)
    with unite_merges [OF assms(1,3,2) refl refl] 2(1) show ?thesis by fastforce
  next
    case 3
    then have "partition_union part elem1 elem2 = unite part elem1 elem2 ?c1"
      by (simp add: partition_union_def Let_def partition_find_def)
    with unite_merges [OF assms refl refl] 3(1) show ?thesis by fastforce
  qed
qed

section \<open>Properties\<close>

text \<open>On a well formed partition \<open>partition_union\<close> returns, leaves a well formed partition, and merges the classes of
  the two elements and no others; the canonical element of one of them stands for both.
\<close>

theorem partition_union_merges:
  assumes "well_formed part" "elem1 < num_elements part" "elem2 < num_elements part"
  shows "\<exists>c part'. partition_union part elem1 elem2 = Some (c, part') \<and> well_formed part' \<and>
    num_elements part' = num_elements part \<and> c \<in> {partition_find part elem1, partition_find part elem2} \<and>
    (\<forall>x < num_elements part. partition_find part' x =
       (if partition_find part x \<in> {partition_find part elem1, partition_find part elem2} then c else partition_find part x))"
  using assms by (rule partition_union_merged)

lemma partition_union_merges_witness:
  "\<exists>c part'. partition_union (partition_new 3) 0 2 = Some (c, part') \<and> well_formed part' \<and> partition_find part' 0 = c \<and>
     partition_find part' 1 = 1 \<and> partition_find part' 2 = c"
proof -
  have "num_elements (partition_new 3) = 3" "e < 3 \<Longrightarrow> partition_find (partition_new 3) e = e" for e
    by (simp_all add: partition_new_def partition_find_def)
  then show ?thesis
    using partition_union_merges [OF well_formed_new, of 3 0 2] by fastforce
qed

text \<open>\<open>partition_print\<close> writes the classes in the order of their least members, the members of each class in ascending
  order.
\<close>

theorem partition_print_classes:
  assumes "well_formed part"
  shows "partition_print part =
    [Char CHR ''[''] @ concat (map (\<lambda>e. print_class (members part e)) (first_members part (num_elements part))) @ [Char CHR '']'']"
  using print_loop [OF assms order.refl, of "[Char CHR ''['']"] by (auto simp: partition_print_def)

lemma partition_print_classes_witness:
  "partition_print (partition_new 2) = [Char CHR ''['', Char CHR ''('', Decimal 0, Char CHR '')'', Char CHR ''('', Decimal 1, Char CHR '')'', Char CHR '']'']"
proof -
  have "class_of (elements (partition_new 2)) e = {e}" if "e < 2" for e
    using that by (auto simp: class_of_def partition_new_def)
  then have "members (partition_new 2) 0 = [0]" "members (partition_new 2) 1 = [1]"
    by (simp_all add: members_def partition_find_def partition_new_def)
  moreover have "first_members (partition_new 2) 2 = [0, 1]"
    by (simp add: first_members_def partition_find_def partition_new_def upt_rec)
  ultimately show ?thesis
    using partition_print_classes [OF well_formed_new, of 2] by (simp add: partition_new_def print_class_def)
qed

lemma rtrancl_link:
  "(x, y) \<in> (insert (a, b) (insert (b, a) S))\<^sup>* \<longleftrightarrow>
    (x, y) \<in> S\<^sup>* \<or> (x, a) \<in> S\<^sup>* \<and> (b, y) \<in> S\<^sup>* \<or> (x, b) \<in> S\<^sup>* \<and> (a, y) \<in> S\<^sup>*"
  (is "_ \<in> ?T\<^sup>* \<longleftrightarrow> ?P x y")
proof
  assume "(x, y) \<in> ?T\<^sup>*"
  then show "?P x y"
  proof (induction rule: rtrancl_induct)
    case (step y z)
    from step.hyps(2) consider "(y, z) \<in> S" | "y = a" "z = b" | "y = b" "z = a" by blast
    then show ?case by cases (use step.IH in \<open>blast intro: rtrancl_into_rtrancl\<close>)+
  qed simp
next
  have sub: "S\<^sup>* \<subseteq> ?T\<^sup>*" by (intro rtrancl_mono) blast
  have "(a, b) \<in> ?T\<^sup>*" "(b, a) \<in> ?T\<^sup>*" by blast+
  moreover assume "?P x y"
  ultimately show "(x, y) \<in> ?T\<^sup>*" using sub by (blast intro: rtrancl_trans)
qed

fun unions :: "(nat \<times> nat) list \<Rightarrow> partition \<Rightarrow> partition option" where
  "unions [] part = Some part"
| "unions ((a, b) # us) part = (case partition_union part a b of None \<Rightarrow> None | Some (_, part) \<Rightarrow> unions us part)"

lemma unions_connect:
  "well_formed part \<Longrightarrow> num_elements part = n \<Longrightarrow> set us \<subseteq> {..<n} \<times> {..<n} \<Longrightarrow>
   \<forall>x < n. \<forall>y < n. partition_find part x = partition_find part y \<longleftrightarrow> (x, y) \<in> S\<^sup>* \<Longrightarrow>
   \<exists>part'. unions us part = Some part' \<and> well_formed part' \<and>
     (\<forall>x < n. \<forall>y < n. partition_find part' x = partition_find part' y \<longleftrightarrow> (x, y) \<in> (set us \<union> (set us)\<inverse> \<union> S)\<^sup>*)"
proof (induction us arbitrary: part S)
  case (Cons u us)
  obtain a b where u: "u = (a, b)" by fastforce
  with Cons.prems have ab: "a < n" "b < n" by auto
  with partition_union_merged [OF Cons.prems(1), of a b] Cons.prems(2) obtain c part1
    where p1: "partition_union part a b = Some (c, part1)" "well_formed part1" "num_elements part1 = n"
      "c \<in> {partition_find part a, partition_find part b}"
      "\<forall>x < n. partition_find part1 x =
        (if partition_find part x \<in> {partition_find part a, partition_find part b} then c else partition_find part x)"
    by auto
  have "\<forall>x < n. \<forall>y < n. partition_find part1 x = partition_find part1 y \<longleftrightarrow> (x, y) \<in> (insert (a, b) (insert (b, a) S))\<^sup>*"
  proof (intro allI impI)
    fix x y assume "x < n" "y < n"
    have "(x, y) \<in> (insert (a, b) (insert (b, a) S))\<^sup>* \<longleftrightarrow> partition_find part x = partition_find part y \<or>
        partition_find part x = partition_find part a \<and> partition_find part b = partition_find part y \<or>
        partition_find part x = partition_find part b \<and> partition_find part a = partition_find part y"
      unfolding rtrancl_link using Cons.prems(4) ab \<open>x < n\<close> \<open>y < n\<close> by auto
    then show "partition_find part1 x = partition_find part1 y \<longleftrightarrow> (x, y) \<in> (insert (a, b) (insert (b, a) S))\<^sup>*"
      using p1(4,5) \<open>x < n\<close> \<open>y < n\<close> by auto
  qed
  moreover have "set us \<subseteq> {..<n} \<times> {..<n}" using Cons.prems(3) by simp
  ultimately obtain part' where "unions us part1 = Some part'" "well_formed part'"
    "\<forall>x < n. \<forall>y < n. partition_find part' x = partition_find part' y \<longleftrightarrow>
      (x, y) \<in> (set us \<union> (set us)\<inverse> \<union> insert (a, b) (insert (b, a) S))\<^sup>*"
    using Cons.IH [OF p1(2,3)] by blast
  moreover have "set us \<union> (set us)\<inverse> \<union> insert (a, b) (insert (b, a) S) = set (u # us) \<union> (set (u # us))\<inverse> \<union> S"
    by (auto simp: u)
  ultimately show ?case by (simp add: u p1(1))
qed simp

text \<open>C29: A partition after any calls of \<open>partition_union\<close> on elements of a new one puts two elements into the same class
  just when the pairs united connect them; no call runs forever.
\<close>

theorem partition_unions_connect:
  assumes "n < 2 ^ 31" "set us \<subseteq> {..<n} \<times> {..<n}"
  shows "\<exists>part. unions us (partition_new n) = Some part \<and> well_formed part \<and>
    (\<forall>x < n. \<forall>y < n. partition_find part x = partition_find part y \<longleftrightarrow> (x, y) \<in> (set us \<union> (set us)\<inverse>)\<^sup>*)"
  using unions_connect [OF well_formed_new [OF assms(1)] _ assms(2), of "{}"]
  by (simp add: partition_new_def partition_find_def)

lemma partition_unions_connect_witness:
  "\<exists>part. unions [(0, 1), (1, 2)] (partition_new 4) = Some part \<and> partition_find part 0 = partition_find part 2"
proof -
  have conn: "(0 :: nat, 2 :: nat) \<in> (set [(0, 1), (1, 2)] \<union> (set [(0, 1), (1, 2)])\<inverse>)\<^sup>*"
    by (rule rtrancl_trans [of _ 1]) auto
  have "(4 :: nat) < 2 ^ 31" "set [(0, 1), (1, 2)] \<subseteq> {..<4 :: nat} \<times> {..<4 :: nat}" by simp_all
  then obtain part where part: "unions [(0, 1), (1, 2)] (partition_new 4) = Some part"
    "\<forall>x < 4. \<forall>y < 4. partition_find part x = partition_find part y \<longleftrightarrow> (x, y) \<in> (set [(0, 1), (1, 2)] \<union> (set [(0, 1), (1, 2)])\<inverse>)\<^sup>*"
    using partition_unions_connect [of 4 "[(0, 1), (1, 2)]"] by blast
  have "(0 :: nat) < 4" "(2 :: nat) < 4" by simp_all
  with part(2) conn have "partition_find part 0 = partition_find part 2" by (simp only:)
  with part(1) show ?thesis by blast
qed

end
