(* ===== verification/Hash_Functions.thy ===== *)
theory Hash_Functions
  imports Prelude
begin

text \<open>
  The hash functions of \<^verbatim>\<open>src/binutils-2.42/libiberty/hashtab.c\<close> that clients of the hash tables
  choose from: the hash of a C string, the hash of a pointer, and \<^verbatim>\<open>iterative_hash\<close> of any bytes,
  with the macro \<^verbatim>\<open>mix\<close> that the last two share. Shown here: \<^verbatim>\<open>mix\<close> can be run backwards, the two
  loops of \<^verbatim>\<open>iterative_hash\<close> (by words when the key is aligned, by bytes otherwise) compute one
  function of the bytes, and the string hash separates strings that differ in a single byte.
\<close>

unbundle bit_operations_syntax

section \<open>hashtab.c: mix, iterative\_hash and hash\_pointer\<close>

definition mix :: "u32 \<Rightarrow> u32 \<Rightarrow> u32 \<Rightarrow> u32 \<times> u32 \<times> u32" where
  "mix a b c =
    (let a = a - b; a = a - c; a = a XOR drop_bit 13 c;
         b = b - c; b = b - a; b = b XOR push_bit 8 a;
         c = c - a; c = c - b; c = c XOR drop_bit 13 (b AND 0xffffffff);
         a = a - b; a = a - c; a = a XOR drop_bit 12 (c AND 0xffffffff);
         b = b - c; b = b - a; b = (b XOR push_bit 16 a) AND 0xffffffff;
         c = c - a; c = c - b; c = (c XOR drop_bit 5 b) AND 0xffffffff;
         a = a - b; a = a - c; a = (a XOR drop_bit 3 c) AND 0xffffffff;
         b = b - c; b = b - a; b = (b XOR push_bit 10 a) AND 0xffffffff;
         c = c - a; c = c - b; c = (c XOR drop_bit 15 b) AND 0xffffffff
     in (a, b, c))"

text \<open>
  The key is \<^verbatim>\<open>length\<close> bytes of the memory \<open>m\<close> from the address \<open>k\<close>; \<open>len\<close> is a
  \<^verbatim>\<open>hashval_t\<close>, the low 32 bits of the length. The aligned loop reads words, the other one
  puts them together from bytes.
\<close>

function hash_aligned :: "mem \<Rightarrow> nat \<Rightarrow> u32 \<Rightarrow> u32 \<Rightarrow> u32 \<Rightarrow> u32 \<Rightarrow> nat \<times> u32 \<times> u32 \<times> u32 \<times> u32" where
  "hash_aligned m k len a b c =
    (if len \<ge> 12 then
       let a = a + get32 m (k + 0);
           b = b + get32 m (k + 4);
           c = c + get32 m (k + 8);
           (a, b, c) = mix a b c
       in hash_aligned m (k + 12) (len - 12) a b c
     else (k, len, a, b, c))"
  by pat_completeness auto
termination
  by (relation "measure (\<lambda>(m, k, len, a, b, c). unat len)")
    (auto simp: word_le_nat_alt unat_sub_if')

function hash_unaligned :: "mem \<Rightarrow> nat \<Rightarrow> u32 \<Rightarrow> u32 \<Rightarrow> u32 \<Rightarrow> u32 \<Rightarrow> nat \<times> u32 \<times> u32 \<times> u32 \<times> u32" where
  "hash_unaligned m k len a b c =
    (if len \<ge> 12 then
       let a = a + (ucast (m k) + push_bit 8 (ucast (m (k + 1))) + push_bit 16 (ucast (m (k + 2)))
                     + push_bit 24 (ucast (m (k + 3))));
           b = b + (ucast (m (k + 4)) + push_bit 8 (ucast (m (k + 5)))
                     + push_bit 16 (ucast (m (k + 6))) + push_bit 24 (ucast (m (k + 7))));
           c = c + (ucast (m (k + 8)) + push_bit 8 (ucast (m (k + 9)))
                     + push_bit 16 (ucast (m (k + 10))) + push_bit 24 (ucast (m (k + 11))));
           (a, b, c) = mix a b c
       in hash_unaligned m (k + 12) (len - 12) a b c
     else (k, len, a, b, c))"
  by pat_completeness auto
termination
  by (relation "measure (\<lambda>(m, k, len, a, b, c). unat len)")
    (auto simp: word_le_nat_alt unat_sub_if')

declare hash_aligned.simps [simp del] hash_unaligned.simps [simp del]

text \<open>The \<^verbatim>\<open>switch\<close> over the last bytes: every case falls through to the next.\<close>

definition hash_rest :: "mem \<Rightarrow> nat \<Rightarrow> u32 \<Rightarrow> u32 \<Rightarrow> u32 \<Rightarrow> u32 \<Rightarrow> u32 \<times> u32 \<times> u32" where
  "hash_rest m k len a b c =
    (let c = (if 11 \<le> len then c + push_bit 24 (ucast (m (k + 10))) else c);
         c = (if 10 \<le> len then c + push_bit 16 (ucast (m (k + 9))) else c);
         c = (if 9 \<le> len then c + push_bit 8 (ucast (m (k + 8))) else c);
         b = (if 8 \<le> len then b + push_bit 24 (ucast (m (k + 7))) else b);
         b = (if 7 \<le> len then b + push_bit 16 (ucast (m (k + 6))) else b);
         b = (if 6 \<le> len then b + push_bit 8 (ucast (m (k + 5))) else b);
         b = (if 5 \<le> len then b + ucast (m (k + 4)) else b);
         a = (if 4 \<le> len then a + push_bit 24 (ucast (m (k + 3))) else a);
         a = (if 3 \<le> len then a + push_bit 16 (ucast (m (k + 2))) else a);
         a = (if 2 \<le> len then a + push_bit 8 (ucast (m (k + 1))) else a);
         a = (if 1 \<le> len then a + ucast (m k) else a)
     in (a, b, c))"

definition iterative_hash :: "mem \<Rightarrow> nat \<Rightarrow> u64 \<Rightarrow> u32 \<Rightarrow> u32" where
  "iterative_hash m k_in length' initval =
    (let len = ucast length' :: u32;
         a = 0x9e3779b9; b = 0x9e3779b9;
         c = initval;
         (k, len, a, b, c) =
           (if k_in AND 3 = 0 then hash_aligned m k_in len a b c
            else hash_unaligned m k_in len a b c);
         c = c + ucast length';
         (a, b, c) = hash_rest m k len a b c;
         (a, b, c) = mix a b c
     in c)"

text \<open>\<^verbatim>\<open>hash_pointer\<close>: \<^verbatim>\<open>intptr_t\<close> is signed, so its high half is shifted in arithmetically.\<close>

definition hash_pointer :: "u64 \<Rightarrow> u32" where
  "hash_pointer p =
    (let v = p;
         a = 0x9e3779b9; b = 0x9e3779b9;
         a = a + ucast (signed_drop_bit (8 * 8 div 2) v);
         b = b + ucast (v AND (push_bit (8 * 8 div 2) 1 - 1));
         c = 0x42135234;
         (a, b, c) = mix a b c
     in c)"

definition eq_pointer :: "u64 \<Rightarrow> u64 \<Rightarrow> bool" where
  "eq_pointer p1 p2 \<longleftrightarrow> p1 = p2"

section \<open>hashtab.c: strings\<close>

fun hash_string_loop :: "bytes \<Rightarrow> u32 \<Rightarrow> u32" where
  "hash_string_loop [] r = r"
| "hash_string_loop (c # str) r = hash_string_loop str (r * 67 + ucast c - 113)"

definition htab_hash_string :: "bytes \<Rightarrow> u32" where
  "htab_hash_string str = hash_string_loop str 0"

definition htab_eq_string :: "bytes \<Rightarrow> bytes \<Rightarrow> bool" where
  "htab_eq_string a b \<longleftrightarrow> a = b"

section \<open>mix backwards\<close>

text \<open>
  Each of the nine lines of \<^verbatim>\<open>mix\<close> changes one variable by the other two. \<open>unmix\<close> undoes the
  lines from the last to the first.
\<close>

definition unmix :: "u32 \<Rightarrow> u32 \<Rightarrow> u32 \<Rightarrow> u32 \<times> u32 \<times> u32" where
  "unmix a b c =
    (let c = (c XOR drop_bit 15 b) + b + a;
         b = (b XOR push_bit 10 a) + a + c;
         a = (a XOR drop_bit 3 c) + c + b;
         c = (c XOR drop_bit 5 b) + b + a;
         b = (b XOR push_bit 16 a) + a + c;
         a = (a XOR drop_bit 12 c) + c + b;
         c = (c XOR drop_bit 13 b) + b + a;
         b = (b XOR push_bit 8 a) + a + c;
         a = (a XOR drop_bit 13 c) + c + b
     in (a, b, c))"

lemma u32_mask: "(x :: u32) AND 0xffffffff = x"
proof -
  have "x AND mask 32 = x"
    unfolding take_bit_eq_mask [symmetric] by (simp add: take_bit_word_eq_self)
  then show ?thesis by (simp add: mask_eq_exp_minus_1)
qed

lemma line_undone: "x' = (x - y - z) XOR w \<Longrightarrow> (x' XOR w) + z + y = (x :: u32)"
  by (simp add: xor.assoc)

lemma line_redone: "x' = (x XOR w) + z + y \<Longrightarrow> (x' - y - z) XOR w = (x :: u32)"
  by (simp add: xor.assoc)

lemma unmix_mix: "case mix a b c of (a', b', c') \<Rightarrow> unmix a' b' c' = (a, b, c)"
proof -
  define a1 where "a1 = (a - b - c) XOR drop_bit 13 c"
  define b1 where "b1 = (b - c - a1) XOR push_bit 8 a1"
  define c1 where "c1 = (c - a1 - b1) XOR drop_bit 13 b1"
  define a2 where "a2 = (a1 - b1 - c1) XOR drop_bit 12 c1"
  define b2 where "b2 = (b1 - c1 - a2) XOR push_bit 16 a2"
  define c2 where "c2 = (c1 - a2 - b2) XOR drop_bit 5 b2"
  define a3 where "a3 = (a2 - b2 - c2) XOR drop_bit 3 c2"
  define b3 where "b3 = (b2 - c2 - a3) XOR push_bit 10 a3"
  define c3 where "c3 = (c2 - a3 - b3) XOR drop_bit 15 b3"
  note defs = a1_def b1_def c1_def a2_def b2_def c2_def a3_def b3_def c3_def
  have "mix a b c = (a3, b3, c3)"
    by (simp only: mix_def Let_def u32_mask defs [symmetric])
  moreover have "unmix a3 b3 c3 = (a, b, c)"
    by (simp only: unmix_def Let_def defs [THEN line_undone])
  ultimately show ?thesis by simp
qed

lemma mix_unmix: "case unmix a b c of (a', b', c') \<Rightarrow> mix a' b' c' = (a, b, c)"
proof -
  define c1 where "c1 = (c XOR drop_bit 15 b) + b + a"
  define b1 where "b1 = (b XOR push_bit 10 a) + a + c1"
  define a1 where "a1 = (a XOR drop_bit 3 c1) + c1 + b1"
  define c2 where "c2 = (c1 XOR drop_bit 5 b1) + b1 + a1"
  define b2 where "b2 = (b1 XOR push_bit 16 a1) + a1 + c2"
  define a2 where "a2 = (a1 XOR drop_bit 12 c2) + c2 + b2"
  define c3 where "c3 = (c2 XOR drop_bit 13 b2) + b2 + a2"
  define b3 where "b3 = (b2 XOR push_bit 8 a2) + a2 + c3"
  define a3 where "a3 = (a2 XOR drop_bit 13 c3) + c3 + b3"
  note defs = c1_def b1_def a1_def c2_def b2_def a2_def c3_def b3_def a3_def
  have "unmix a b c = (a3, b3, c3)"
    by (simp only: unmix_def Let_def defs [symmetric])
  moreover have "mix a3 b3 c3 = (a, b, c)"
    by (simp only: mix_def Let_def u32_mask defs [THEN line_redone])
  ultimately show ?thesis by simp
qed

text \<open>
  The comment says that \<^verbatim>\<open>mix\<close> mixes three values reversibly: it is a bijection on the triples,
  so no two triples collide before the result is cut to \<^verbatim>\<open>c\<close>.
\<close>

lemma mix_reversible: "bij (\<lambda>(a, b, c). mix a b c)"
proof (rule o_bij)
  show "(\<lambda>(a, b, c). unmix a b c) \<circ> (\<lambda>(a, b, c). mix a b c) = id"
  proof
    fix x :: "u32 \<times> u32 \<times> u32"
    obtain a b c where x: "x = (a, b, c)" by (cases x)
    show "((\<lambda>(a, b, c). unmix a b c) \<circ> (\<lambda>(a, b, c). mix a b c)) x = id x"
      using unmix_mix [of a b c] by (simp only: x comp_def id_apply split_def fst_conv snd_conv)
  qed
  show "(\<lambda>(a, b, c). mix a b c) \<circ> (\<lambda>(a, b, c). unmix a b c) = id"
  proof
    fix x :: "u32 \<times> u32 \<times> u32"
    obtain a b c where x: "x = (a, b, c)" by (cases x)
    show "((\<lambda>(a, b, c). mix a b c) \<circ> (\<lambda>(a, b, c). unmix a b c)) x = id x"
      using mix_unmix [of a b c] by (simp only: x comp_def id_apply split_def fst_conv snd_conv)
  qed
qed

section \<open>iterative\_hash as a function of the bytes\<close>

text \<open>
  The reference takes the key as a list: twelve bytes at a time are three little-endian words
  added to the state and mixed; the rest, padded with zeros, is added last, its third word
  shifted up by a byte to leave room for the length.
\<close>

definition word_of :: "bytes \<Rightarrow> u32" where
  "word_of bs = ucast (cstr_at bs 0) + push_bit 8 (ucast (cstr_at bs 1))
     + push_bit 16 (ucast (cstr_at bs 2)) + push_bit 24 (ucast (cstr_at bs 3))"

function hash_key :: "u64 \<Rightarrow> bytes \<Rightarrow> u32 \<times> u32 \<times> u32 \<Rightarrow> u32" where
  "hash_key n bs (a, b, c) =
    (if length bs < 12 then
       (case mix (a + word_of bs) (b + word_of (drop 4 bs))
               (c + ucast n + push_bit 8 (word_of (drop 8 bs))) of (a, b, c) \<Rightarrow> c)
     else hash_key n (drop 12 bs)
       (mix (a + word_of bs) (b + word_of (drop 4 bs)) (c + word_of (drop 8 bs))))"
  by pat_completeness auto
termination by (relation "measure (\<lambda>(n, bs, s). length bs)") auto

declare hash_key.simps [simp del]

lemma get32_sum:
  "get32 m k = ucast (m k) + push_bit 8 (ucast (m (k + 1))) + push_bit 16 (ucast (m (k + 2)))
     + push_bit 24 (ucast (m (k + 3)))"
proof -
  have disj: "ucast (b :: u8) OR push_bit 8 y = ucast b + push_bit 8 (y :: u32)" for b y
    by (subst disjunctive_add) (auto simp: bit_simps dest: bit_imp_le_length)
  have push: "push_bit n (x + y) = push_bit n x + push_bit n (y :: u32)" for n x y
    by (simp add: push_bit_eq_mult algebra_simps)
  have "get32 m k = ucast (m k) OR push_bit 8 (ucast (m (k + 1)) OR push_bit 8 (ucast (m (k + 2))
      OR push_bit 8 (ucast (m (k + 3)))))"
    by (simp add: numeral_eq_Suc)
  then show ?thesis
    unfolding disj by (simp add: push add.assoc)
qed

lemma hash_unaligned_aligned: "hash_unaligned m k len a b c = hash_aligned m k len a b c"
proof (induction m k len a b c rule: hash_aligned.induct)
  case (1 m k len a b c)
  then show ?case
    unfolding hash_aligned.simps [of m k len] hash_unaligned.simps [of m k len]
    by (auto simp: get32_sum Let_def algebra_simps split: prod.splits)
qed

text \<open>How many bytes the loops leave, and where.\<close>

lemma word_of_bytes:
  assumes "i + 4 \<le> n"
  shows "word_of (drop i (get_bytes m k n)) = get32 m (k + i)"
  using assms by (simp add: word_of_def get32_sum cstr_at_def add.assoc)

lemma drop_get_bytes: "drop i (get_bytes m k n) = get_bytes m (k + i) (n - i)"
  by (rule nth_equalityI) (simp_all add: add.assoc)

lemma hash_rest_words:
  assumes "len < 12"
  shows "hash_rest m k len a b c =
    (let bs = get_bytes m k (unat len)
     in (a + word_of bs, b + word_of (drop 4 bs), c + push_bit 8 (word_of (drop 8 bs))))"
proof -
  define n where "n = unat len"
  define byte where "byte i = (if i < n then m (k + i) else 0)" for i
  have "n < 12" using assms by (simp add: n_def word_less_nat_alt)
  then have at: "cstr_at (get_bytes m k n) i = byte i"
    and at4: "cstr_at (get_bytes m (k + 4) (n - 4)) i = byte (i + 4)"
    and at8: "cstr_at (get_bytes m (k + 8) (n - 8)) i = byte (i + 8)"
    and last0: "byte 11 = 0" for i
    by (auto simp: cstr_at_def byte_def algebra_simps)
  have push: "push_bit n (x + y) = push_bit n x + push_bit n (y :: u32)" for n x y
    by (simp add: push_bit_eq_mult algebra_simps)
  have pushed: "(if p then x + push_bit s (ucast y) else x) =
      (x + push_bit s (ucast (if p then y else 0)) :: u32)" for p x y s
    by simp
  have added: "(if p then x + ucast y else x) = (x + ucast (if p then y else 0) :: u32)"
    for p x and y :: u8
    by simp
  have le: "(11 \<le> len) = (10 < n)" "(10 \<le> len) = (9 < n)" "(9 \<le> len) = (8 < n)"
      "(8 \<le> len) = (7 < n)" "(7 \<le> len) = (6 < n)" "(6 \<le> len) = (5 < n)" "(5 \<le> len) = (4 < n)"
      "(4 \<le> len) = (3 < n)" "(3 \<le> len) = (2 < n)" "(2 \<le> len) = (1 < n)" "(1 \<le> len) = (0 < n)"
    unfolding n_def word_le_nat_alt by auto
  have m: "m k = m (k + 0)" by simp
  have rest: "hash_rest m k len a b c =
      (a + push_bit 24 (ucast (byte 3)) + push_bit 16 (ucast (byte 2)) + push_bit 8 (ucast (byte 1))
         + ucast (byte 0),
       b + push_bit 24 (ucast (byte 7)) + push_bit 16 (ucast (byte 6)) + push_bit 8 (ucast (byte 5))
         + ucast (byte 4),
       c + push_bit 24 (ucast (byte 10)) + push_bit 16 (ucast (byte 9)) + push_bit 8 (ucast (byte 8)))"
    unfolding hash_rest_def Let_def pushed added le m byte_def by (rule refl)
  show ?thesis
    unfolding rest Let_def n_def [symmetric] drop_get_bytes word_of_def at at4 at8 push
    by (simp add: last0 add.assoc add.commute add.left_commute)
qed

lemma hash_aligned_key:
  assumes "unat len = length bs" and "get_bytes m k (length bs) = bs"
    and "hash_aligned m k len a b c = (k', len', a', b', c')"
  shows "(case hash_rest m k' len' a' b' (c' + ucast n) of (a, b, c) \<Rightarrow>
      case mix a b c of (a, b, c) \<Rightarrow> c) = hash_key n bs (a, b, c)"
  using assms
proof (induction "length bs" arbitrary: bs k len a b c rule: less_induct)
  case less
  note len = less(2) and key = less(3) and run = less(4)
  have long: "12 \<le> len \<longleftrightarrow> 12 \<le> length bs"
    using len by (simp add: word_le_nat_alt)
  show ?case
  proof (cases "12 \<le> length bs")
    case True
    obtain x y z where mix: "mix (a + get32 m k) (b + get32 m (k + 4)) (c + get32 m (k + 8)) = (x, y, z)"
      using prod_cases3 by blast
    have next_len: "unat (len - 12) = length (drop 12 bs)"
      using len True long by (simp add: unat_sub_if' word_le_nat_alt)
    have next_key: "get_bytes m (k + 12) (length (drop 12 bs)) = drop 12 bs"
      using key drop_get_bytes [of 12 m k "length bs"] by simp
    have go: "hash_aligned m (k + 12) (len - 12) x y z = (k', len', a', b', c')"
      using run True long mix by (subst (asm) hash_aligned.simps) (simp add: Let_def)
    have "word_of bs = get32 m k" "word_of (drop 4 bs) = get32 m (k + 4)"
        "word_of (drop 8 bs) = get32 m (k + 8)"
      using word_of_bytes [of 0 "length bs" m k] word_of_bytes [of 4 "length bs" m k]
        word_of_bytes [of 8 "length bs" m k] True key by simp_all
    then have "hash_key n bs (a, b, c) = hash_key n (drop 12 bs) (x, y, z)"
      using True mix by (subst hash_key.simps) simp
    with less(1) [OF _ next_len next_key go] True show ?thesis by simp
  next
    case False
    then have "(k', len', a', b', c') = (k, len, a, b, c)"
      using run long by (subst (asm) hash_aligned.simps) simp
    moreover have "len < 12" using False long by simp
    ultimately show ?thesis
      using len key False
      by (subst hash_key.simps) (simp add: hash_rest_words Let_def)
  qed
qed

text \<open>
  The hash is a function of the bytes alone: where the key lies, aligned or not, does not matter.
\<close>

lemma iterative_hash_of_bytes:
  assumes "length bs < 2 ^ 32" "get_bytes m k (length bs) = bs"
  shows "iterative_hash m k (of_nat (length bs)) initval =
    hash_key (of_nat (length bs)) bs (0x9e3779b9, 0x9e3779b9, initval)"
proof -
  have len: "unat (ucast (of_nat (length bs) :: u64) :: u32) = length bs"
    using assms(1) by (simp add: unsigned_ucast_eq unat_of_nat take_bit_nat_eq_self)
  obtain k' len' a' b' c' where run:
      "hash_aligned m k (ucast (of_nat (length bs) :: u64)) 0x9e3779b9 0x9e3779b9 initval =
        (k', len', a', b', c')"
    by (metis prod_cases5)
  have "iterative_hash m k (of_nat (length bs)) initval =
      (case hash_rest m k' len' a' b' (c' + ucast (of_nat (length bs) :: u64)) of (a, b, c) \<Rightarrow>
        case mix a b c of (a, b, c) \<Rightarrow> c)"
    unfolding iterative_hash_def Let_def hash_unaligned_aligned if_cancel run by simp
  also have "\<dots> = hash_key (of_nat (length bs)) bs (0x9e3779b9, 0x9e3779b9, initval)"
    by (rule hash_aligned_key [OF len assms(2) run])
  finally show ?thesis .
qed

text \<open>\<^verbatim>\<open>hashval_t len = length\<close> drops the high half: a key of 4 GiB is hashed as if it were empty.\<close>

lemma iterative_hash_truncates:
  "iterative_hash m k (length' + 2 ^ 32) initval = iterative_hash m k length' initval"
proof -
  have "(ucast (length' + 2 ^ 32) :: u32) = ucast length'"
    by (intro word_unat_eq_iff [THEN iffD2])
      (simp add: unsigned_ucast_eq take_bit_eq_mod unat_word_ariths mod_mod_cancel)
  then show ?thesis by (simp only: iterative_hash_def)
qed

section \<open>The string hash\<close>

lemma hash_string_loop_append: "hash_string_loop (s @ t) r = hash_string_loop t (hash_string_loop s r)"
  by (induction s r rule: hash_string_loop.induct) simp_all

lemma hash_string_loop_diff:
  "hash_string_loop s x - hash_string_loop s y = (x - y) * 67 ^ length s"
proof (induction s arbitrary: x y)
  case (Cons c s)
  have "x * 67 + ucast c - 113 - (y * 67 + ucast c - 113) = (x - y) * 67"
    by (simp add: algebra_simps)
  with Cons.IH [of "x * 67 + ucast c - 113" "y * 67 + ucast c - 113"]
  show ?case by (simp only: hash_string_loop.simps list.size power_Suc mult.assoc add_0_right
      add_Suc_right One_nat_def)
qed simp

text \<open>67 is odd, so that multiplying by it loses nothing: its inverse modulo \<open>2 ^ 32\<close>.\<close>

lemma times_67_power: "x * 67 ^ n = (0 :: u32) \<Longrightarrow> x = 0"
proof (induction n)
  case (Suc n)
  have "(67 :: u32) * 0x07a44c6b = 1" by simp
  then have "x * 67 ^ n = x * 67 ^ n * (67 * 0x07a44c6b)" by (simp only: mult_1_right)
  also have "\<dots> = x * 67 ^ Suc n * 0x07a44c6b" by (simp only: power_Suc2 mult.assoc)
  also have "\<dots> = 0" using Suc.prems by simp
  finally show ?case by (rule Suc.IH)
qed simp

lemma htab_hash_string_byte:
  assumes "b \<noteq> c"
  shows "htab_hash_string (s @ b # t) \<noteq> htab_hash_string (s @ c # t)"
proof
  define r where "r = hash_string_loop s 0"
  assume "htab_hash_string (s @ b # t) = htab_hash_string (s @ c # t)"
  then have "(r * 67 + ucast b - 113 - (r * 67 + ucast c - 113)) * 67 ^ length t = 0"
    unfolding hash_string_loop_diff [symmetric]
    by (simp add: htab_hash_string_def hash_string_loop_append r_def)
  from times_67_power [OF this] have "(ucast b :: u32) = ucast c" by simp
  then have "unat (ucast b :: u32) = unat (ucast c :: u32)" by simp
  then have "b = c"
    using unat_u8_less [of b] unat_u8_less [of c]
    by (intro word_unat_eq_iff [THEN iffD2]) (simp add: unsigned_ucast_eq take_bit_eq_mod)
  with assms show False ..
qed

end
