(* ===== verification/Hashtab.thy ===== *)
theory Hashtab
  imports Hash_Functions
begin

text \<open>
  The hash tables of \<^verbatim>\<open>src/binutils-2.42/libiberty/hashtab.c\<close> and
  \<^verbatim>\<open>src/binutils-2.42/include/hashtab.h\<close>: open addressing with double hashing over a prime number
  of slots. A slot holds a pointer; two pointers are reserved for the empty and the deleted slot.
  The functions of the client (hash, equality) are functions; those it calls for their effect
  (allocate, free, clean up) are recorded in the order of the calls, and whether an allocation
  succeeds is an answer to the calls made so far. A result \<open>None\<close> is a call of \<^verbatim>\<open>abort\<close>, an access
  out of bounds or a search that never ends.
\<close>

unbundle bit_operations_syntax

section \<open>hashtab.h\<close>

definition HTAB_EMPTY_ENTRY :: u64 where "HTAB_EMPTY_ENTRY = 0"
definition HTAB_DELETED_ENTRY :: u64 where "HTAB_DELETED_ENTRY = 1"

text \<open>
  The calls of the client's functions: \<^verbatim>\<open>del_f\<close> on an entry; the allocators by their address,
  with the number of elements and the size of one; what is freed is the table itself or the array
  of its entries.
\<close>

datatype freed = Table | Entries

datatype call =
    Del u64
  | Alloc u64 u64 u64
  | Alloc_arg u64 u64 u64 u64
  | Free u64 freed
  | Free_arg u64 u64 freed

text \<open>
  The structure, its fields in the source's order; \<open>del_f\<close> and the allocators are addresses, 0
  for \<^verbatim>\<open>NULL\<close>. The last two fields are not the structure's: \<open>calls\<close> is the history, and
  \<open>answer\<close> tells from the history and the request whether an allocation succeeds.
\<close>

record htab =
  hash_f :: "u64 \<Rightarrow> u32"
  eq_f :: "u64 \<Rightarrow> u64 \<Rightarrow> bool"
  del_f :: u64
  entries :: "u64 list"
  size :: u64
  n_elements :: u64
  n_deleted :: u64
  searches :: u32
  collisions :: u32
  alloc_f :: u64
  free_f :: u64
  alloc_arg :: u64
  alloc_with_arg_f :: u64
  free_with_arg_f :: u64
  size_prime_index :: nat
  calls :: "call list"
  answer :: "call list \<Rightarrow> bool"

datatype insert_option = NO_INSERT | INSERT

definition call_made :: "call \<Rightarrow> htab \<Rightarrow> htab" where
  "call_made c htab = htab\<lparr>calls := calls htab @ [c]\<rparr>"

definition answered :: "htab \<Rightarrow> bool" where
  "answered htab = answer htab (calls htab)"

section \<open>hashtab.c: the table of primes\<close>

record prime_ent =
  prime :: u32
  inv :: u32
  inv_m2 :: u32
  shift :: u32

definition ent :: "u32 \<Rightarrow> u32 \<Rightarrow> u32 \<Rightarrow> u32 \<Rightarrow> prime_ent" where
  "ent p i i2 s = \<lparr>prime = p, inv = i, inv_m2 = i2, shift = s\<rparr>"

definition prime_tab :: "prime_ent list" where
  "prime_tab = [
    ent          7 0x24924925 0x9999999b 2,
    ent         13 0x3b13b13c 0x745d1747 3,
    ent         31 0x08421085 0x1a7b9612 4,
    ent         61 0x0c9714fc 0x15b1e5f8 5,
    ent        127 0x02040811 0x0624dd30 6,
    ent        251 0x05197f7e 0x073260a5 7,
    ent        509 0x01824366 0x02864fc8 8,
    ent       1021 0x00c0906d 0x014191f7 9,
    ent       2039 0x0121456f 0x0161e69e 10,
    ent       4093 0x00300902 0x00501908 11,
    ent       8191 0x00080041 0x00180241 12,
    ent      16381 0x000c0091 0x00140191 13,
    ent      32749 0x002605a5 0x002a06e6 14,
    ent      65521 0x000f00e2 0x00110122 15,
    ent     131071 0x00008001 0x00018003 16,
    ent     262139 0x00014002 0x0001c004 17,
    ent     524287 0x00002001 0x00006001 18,
    ent    1048573 0x00003001 0x00005001 19,
    ent    2097143 0x00004801 0x00005801 20,
    ent    4194301 0x00000c01 0x00001401 21,
    ent    8388593 0x00001e01 0x00002201 22,
    ent   16777213 0x00000301 0x00000501 23,
    ent   33554393 0x00001381 0x00001481 24,
    ent   67108859 0x00000141 0x000001c1 25,
    ent  134217689 0x000004e1 0x00000521 26,
    ent  268435399 0x00000391 0x000003b1 27,
    ent  536870909 0x00000019 0x00000029 28,
    ent 1073741789 0x0000008d 0x00000095 29,
    ent 2147483647 0x00000003 0x00000007 30,
    ent 0xfffffffb 0x00000006 0x00000008 31]"

text \<open>
  The binary search over the table. \<^verbatim>\<open>prime_tab[low]\<close> after the loop is read even when \<^verbatim>\<open>low\<close> is
  the length of the table, which is out of bounds.
\<close>

partial_function (option) higher_prime_loop :: "u64 \<Rightarrow> u32 \<Rightarrow> u32 \<Rightarrow> u32 option" where
  "higher_prime_loop n low high =
    (if low \<noteq> high then
       (let mid = low + drop_bit 1 (high - low)
        in if unat mid < length prime_tab then
             if n > ucast (prime (prime_tab ! unat mid)) then higher_prime_loop n (mid + 1) high
             else higher_prime_loop n low mid
           else None)
     else Some low)"

definition higher_prime_index :: "u64 \<Rightarrow> nat option" where
  "higher_prime_index n =
    (case higher_prime_loop n 0 (of_nat (length prime_tab)) of
       None \<Rightarrow> None
     | Some low \<Rightarrow>
         if unat low < length prime_tab then
           if n > ucast (prime (prime_tab ! unat low)) then None
           else Some (unat low)
         else None)"

text \<open>\<^verbatim>\<open>htab_mod_1\<close> is \<open>x mod y\<close> by a multiplication with the inverse.\<close>

definition htab_mod_1 :: "u32 \<Rightarrow> u32 \<Rightarrow> u32 \<Rightarrow> u32 \<Rightarrow> u32" where
  "htab_mod_1 x y i s =
    (let t1 = ucast (drop_bit 32 ((ucast x :: u64) * ucast i));
         t2 = x - t1;
         t3 = drop_bit 1 t2;
         t4 = t1 + t3;
         q = drop_bit (unat s) t4;
         r = x - q * y
     in r)"

definition htab_mod :: "u32 \<Rightarrow> htab \<Rightarrow> u32" where
  "htab_mod hash htab =
    (let p = prime_tab ! size_prime_index htab
     in htab_mod_1 hash (prime p) (inv p) (shift p))"

definition htab_mod_m2 :: "u32 \<Rightarrow> htab \<Rightarrow> u32" where
  "htab_mod_m2 hash htab =
    (let p = prime_tab ! size_prime_index htab
     in 1 + htab_mod_1 hash (prime p - 2) (inv_m2 p) (shift p))"

definition htab_size :: "htab \<Rightarrow> u64" where
  "htab_size htab = size htab"

definition htab_elements :: "htab \<Rightarrow> u64" where
  "htab_elements htab = n_elements htab - n_deleted htab"

section \<open>hashtab.c: creating a table\<close>

text \<open>
  The allocators work like \<^verbatim>\<open>calloc\<close>: the table comes back cleared, the entries all empty. When
  the second allocation fails the table is freed. The pair of a creation is the history of calls
  and the table, \<open>None\<close> for \<^verbatim>\<open>NULL\<close>; \<open>a\<close> answers the allocations.
\<close>

definition sizeof_htab :: u64 where "sizeof_htab = 112"

definition cleared :: "(call list \<Rightarrow> bool) \<Rightarrow> call list \<Rightarrow> htab" where
  "cleared a cs =
    \<lparr>hash_f = (\<lambda>_. 0), eq_f = (\<lambda>_ _. False), del_f = 0, entries = [], size = 0, n_elements = 0,
     n_deleted = 0, searches = 0, collisions = 0, alloc_f = 0, free_f = 0, alloc_arg = 0,
     alloc_with_arg_f = 0, free_with_arg_f = 0, size_prime_index = 0, calls = cs, answer = a\<rparr>"

definition htab_create_typed_alloc ::
  "(call list \<Rightarrow> bool) \<Rightarrow> u64 \<Rightarrow> (u64 \<Rightarrow> u32) \<Rightarrow> (u64 \<Rightarrow> u64 \<Rightarrow> bool) \<Rightarrow> u64 \<Rightarrow> u64 \<Rightarrow> u64 \<Rightarrow> u64
    \<Rightarrow> (call list \<times> htab option) option" where
  "htab_create_typed_alloc a n hash eq del alloc_tab alloc free =
    (case higher_prime_index n of
       None \<Rightarrow> None
     | Some i \<Rightarrow>
         (let n = ucast (prime (prime_tab ! i));
              cs = [Alloc alloc_tab 1 sizeof_htab]
          in if \<not> a cs then Some (cs, None)
             else
               let cs = cs @ [Alloc alloc n 8]
               in if \<not> a cs then Some (if free \<noteq> 0 then cs @ [Free free Table] else cs, None)
                  else Some (cs, Some ((cleared a cs)
                    \<lparr>entries := replicate (unat n) HTAB_EMPTY_ENTRY, size := n,
                     size_prime_index := i, hash_f := hash, eq_f := eq, del_f := del,
                     alloc_f := alloc, free_f := free\<rparr>))))"

definition htab_create_alloc ::
  "(call list \<Rightarrow> bool) \<Rightarrow> u64 \<Rightarrow> (u64 \<Rightarrow> u32) \<Rightarrow> (u64 \<Rightarrow> u64 \<Rightarrow> bool) \<Rightarrow> u64 \<Rightarrow> u64 \<Rightarrow> u64
    \<Rightarrow> (call list \<times> htab option) option" where
  "htab_create_alloc a n hash eq del alloc free =
     htab_create_typed_alloc a n hash eq del alloc alloc free"

definition htab_create_alloc_ex ::
  "(call list \<Rightarrow> bool) \<Rightarrow> u64 \<Rightarrow> (u64 \<Rightarrow> u32) \<Rightarrow> (u64 \<Rightarrow> u64 \<Rightarrow> bool) \<Rightarrow> u64 \<Rightarrow> u64 \<Rightarrow> u64 \<Rightarrow> u64
    \<Rightarrow> (call list \<times> htab option) option" where
  "htab_create_alloc_ex a n hash eq del arg alloc free =
    (case higher_prime_index n of
       None \<Rightarrow> None
     | Some i \<Rightarrow>
         (let n = ucast (prime (prime_tab ! i));
              cs = [Alloc_arg alloc arg 1 sizeof_htab]
          in if \<not> a cs then Some (cs, None)
             else
               let cs = cs @ [Alloc_arg alloc arg n 8]
               in if \<not> a cs then Some (if free \<noteq> 0 then cs @ [Free_arg free arg Table] else cs, None)
                  else Some (cs, Some ((cleared a cs)
                    \<lparr>entries := replicate (unat n) HTAB_EMPTY_ENTRY, size := n,
                     size_prime_index := i, hash_f := hash, eq_f := eq, del_f := del,
                     alloc_arg := arg, alloc_with_arg_f := alloc, free_with_arg_f := free\<rparr>))))"

definition htab_set_functions_ex ::
  "htab \<Rightarrow> (u64 \<Rightarrow> u32) \<Rightarrow> (u64 \<Rightarrow> u64 \<Rightarrow> bool) \<Rightarrow> u64 \<Rightarrow> u64 \<Rightarrow> u64 \<Rightarrow> u64 \<Rightarrow> htab" where
  "htab_set_functions_ex htab hash eq del arg alloc free =
     htab\<lparr>hash_f := hash, eq_f := eq, del_f := del, alloc_arg := arg,
       alloc_with_arg_f := alloc, free_with_arg_f := free\<rparr>"

definition htab_create ::
  "(call list \<Rightarrow> bool) \<Rightarrow> u64 \<Rightarrow> u64 \<Rightarrow> u64 \<Rightarrow> (u64 \<Rightarrow> u32) \<Rightarrow> (u64 \<Rightarrow> u64 \<Rightarrow> bool) \<Rightarrow> u64
    \<Rightarrow> (call list \<times> htab option) option" where
  "htab_create a xcalloc free n hash eq del = htab_create_alloc a n hash eq del xcalloc free"

definition htab_try_create ::
  "(call list \<Rightarrow> bool) \<Rightarrow> u64 \<Rightarrow> u64 \<Rightarrow> u64 \<Rightarrow> (u64 \<Rightarrow> u32) \<Rightarrow> (u64 \<Rightarrow> u64 \<Rightarrow> bool) \<Rightarrow> u64
    \<Rightarrow> (call list \<times> htab option) option" where
  "htab_try_create a calloc free n hash eq del = htab_create_alloc a n hash eq del calloc free"

section \<open>hashtab.c: deleting and emptying a table\<close>

text \<open>The two allocators and the two deallocators: the plain ones, or those with an argument.\<close>

definition is_live :: "u64 \<Rightarrow> bool" where
  "is_live x \<longleftrightarrow> x \<noteq> HTAB_EMPTY_ENTRY \<and> x \<noteq> HTAB_DELETED_ENTRY"

definition free_call :: "freed \<Rightarrow> htab \<Rightarrow> htab" where
  "free_call what htab =
    (if free_f htab \<noteq> 0 then call_made (Free (free_f htab) what) htab
     else if free_with_arg_f htab \<noteq> 0
     then call_made (Free_arg (free_with_arg_f htab) (alloc_arg htab) what) htab
     else htab)"

definition alloc_call :: "u64 \<Rightarrow> htab \<Rightarrow> htab" where
  "alloc_call n htab =
    (if alloc_with_arg_f htab \<noteq> 0
     then call_made (Alloc_arg (alloc_with_arg_f htab) (alloc_arg htab) n 8) htab
     else call_made (Alloc (alloc_f htab) n 8) htab)"

text \<open>
  The loop \<^verbatim>\<open>for (i = size - 1; i >= 0; i--)\<close> over the entries. \<^verbatim>\<open>i\<close> is an \<^verbatim>\<open>int\<close>: for a size above
  \<open>2 ^ 31\<close> it starts negative and nothing is cleaned up.
\<close>

primrec del_down :: "nat \<Rightarrow> htab \<Rightarrow> htab option" where
  "del_down 0 htab = Some htab"
| "del_down (Suc i) htab =
    (if i < length (entries htab) then
       del_down i (if is_live (entries htab ! i) then call_made (Del (entries htab ! i)) htab else htab)
     else None)"

definition del_all :: "htab \<Rightarrow> htab option" where
  "del_all htab =
    (let i = sint (ucast (htab_size htab - 1) :: u32)
     in if del_f htab \<noteq> 0 \<and> i \<ge> 0 then del_down (nat i + 1) htab else Some htab)"

definition htab_delete :: "htab \<Rightarrow> call list option" where
  "htab_delete htab =
    (case del_all htab of
       None \<Rightarrow> None
     | Some htab \<Rightarrow> Some (calls (free_call Table (free_call Entries htab))))"

text \<open>
  A table of more than 1 MiB is replaced by one of 251 entries. The result of the allocation is
  not checked: when it fails the table has no entries, which is how \<^verbatim>\<open>NULL\<close> is modelled.
\<close>

definition htab_empty :: "htab \<Rightarrow> htab option" where
  "htab_empty htab =
    (let size' = htab_size htab
     in case del_all htab of
       None \<Rightarrow> None
     | Some htab \<Rightarrow>
         if size' > 1024 * 1024 div 8 then
           (case higher_prime_index (1024 div 8) of
              None \<Rightarrow> None
            | Some nindex \<Rightarrow>
                let nsize = ucast (prime (prime_tab ! nindex));
                    htab = free_call Entries htab;
                    ok = answered (alloc_call nsize htab);
                    htab = alloc_call nsize htab
                in Some (htab\<lparr>entries := if ok then replicate (unat nsize) HTAB_EMPTY_ENTRY else [],
                     size := nsize, size_prime_index := nindex, n_deleted := 0, n_elements := 0\<rparr>))
         else if unat size' \<le> length (entries htab) then
           Some (htab\<lparr>entries := replicate (unat size') HTAB_EMPTY_ENTRY @ drop (unat size') (entries htab),
             n_deleted := 0, n_elements := 0\<rparr>)
         else None)"

section \<open>hashtab.c: searching\<close>

text \<open>\<^verbatim>\<open>index += hash2; if (index >= size) index -= size;\<close> in 32 bits.\<close>

definition next_index :: "u32 \<Rightarrow> u32 \<Rightarrow> u64 \<Rightarrow> u32" where
  "next_index index hash2 n =
    (let index = index + hash2
     in if ucast index \<ge> n then ucast (ucast index - n) else index)"

partial_function (option) find_empty_loop :: "htab \<Rightarrow> u32 \<Rightarrow> u32 \<Rightarrow> nat option" where
  "find_empty_loop htab index hash2 =
    (let index = next_index index hash2 (htab_size htab);
         slot = unat index
     in if slot < length (entries htab) then
          if entries htab ! slot = HTAB_EMPTY_ENTRY then Some slot
          else if entries htab ! slot = HTAB_DELETED_ENTRY then None
          else find_empty_loop htab index hash2
        else None)"

definition find_empty_slot_for_expand :: "htab \<Rightarrow> u32 \<Rightarrow> nat option" where
  "find_empty_slot_for_expand htab hash =
    (let index = htab_mod hash htab;
         slot = unat index
     in if slot < length (entries htab) then
          if entries htab ! slot = HTAB_EMPTY_ENTRY then Some slot
          else if entries htab ! slot = HTAB_DELETED_ENTRY then None
          else find_empty_loop htab index (htab_mod_m2 hash htab)
        else None)"

text \<open>Growing, shrinking, or dropping the deleted entries: the live ones go to a new array.\<close>

fun rehash :: "u64 list \<Rightarrow> htab \<Rightarrow> htab option" where
  "rehash [] htab = Some htab"
| "rehash (x # p) htab =
    (if is_live x then
       (case find_empty_slot_for_expand htab (hash_f htab x) of
          None \<Rightarrow> None
        | Some q \<Rightarrow> rehash p (htab\<lparr>entries := (entries htab)[q := x]\<rparr>))
     else rehash p htab)"

definition new_size :: "htab \<Rightarrow> (nat \<times> u64) option" where
  "new_size htab =
    (let osize = htab_size htab; elts = htab_elements htab
     in if elts * 2 > osize \<or> (elts * 8 < osize \<and> osize > 32) then
          (case higher_prime_index (elts * 2) of
             None \<Rightarrow> None
           | Some nindex \<Rightarrow> Some (nindex, ucast (prime (prime_tab ! nindex))))
        else Some (size_prime_index htab, osize))"

definition htab_expand :: "htab \<Rightarrow> (htab \<times> bool) option" where
  "htab_expand htab =
    (let oentries = entries htab;
         osize = htab_size htab
     in case new_size htab of
       None \<Rightarrow> None
     | Some (nindex, nsize) \<Rightarrow>
         let ok = answered (alloc_call nsize htab);
             htab = alloc_call nsize htab
         in if \<not> ok then Some (htab, False)
            else if osize = 0 \<or> length oentries < unat osize then None
            else
              case rehash (take (unat osize) oentries)
                (htab\<lparr>entries := replicate (unat nsize) HTAB_EMPTY_ENTRY, size := nsize,
                  size_prime_index := nindex, n_elements := n_elements htab - n_deleted htab,
                  n_deleted := 0\<rparr>) of
                None \<Rightarrow> None
              | Some htab \<Rightarrow> Some (free_call Entries htab, True))"

partial_function (option) htab_find_loop :: "htab \<Rightarrow> u64 \<Rightarrow> u32 \<Rightarrow> u32 \<Rightarrow> (htab \<times> u64) option" where
  "htab_find_loop htab element index hash2 =
    (let htab = htab\<lparr>collisions := collisions htab + 1\<rparr>;
         index = next_index index hash2 (htab_size htab)
     in if unat index < length (entries htab) then
          let entry = entries htab ! unat index
          in if entry = HTAB_EMPTY_ENTRY \<or> (entry \<noteq> HTAB_DELETED_ENTRY \<and> eq_f htab entry element)
             then Some (htab, entry)
             else htab_find_loop htab element index hash2
        else None)"

definition htab_find_with_hash :: "htab \<Rightarrow> u64 \<Rightarrow> u32 \<Rightarrow> (htab \<times> u64) option" where
  "htab_find_with_hash htab element hash =
    (let htab = htab\<lparr>searches := searches htab + 1\<rparr>;
         index = htab_mod hash htab
     in if unat index < length (entries htab) then
          let entry = entries htab ! unat index
          in if entry = HTAB_EMPTY_ENTRY \<or> (entry \<noteq> HTAB_DELETED_ENTRY \<and> eq_f htab entry element)
             then Some (htab, entry)
             else htab_find_loop htab element index (htab_mod_m2 hash htab)
        else None)"

definition htab_find :: "htab \<Rightarrow> u64 \<Rightarrow> (htab \<times> u64) option" where
  "htab_find htab element = htab_find_with_hash htab element (hash_f htab element)"

text \<open>
  The search of a slot: the slot found, or the slot a new entry goes to (the first deleted slot on
  the way when there is one), or none. \<open>empty_entry\<close> is the code after the label.
\<close>

definition empty_entry :: "htab \<Rightarrow> insert_option \<Rightarrow> nat option \<Rightarrow> nat \<Rightarrow> htab \<times> nat option" where
  "empty_entry htab ins first_deleted_slot index =
    (if ins = NO_INSERT then (htab, None)
     else case first_deleted_slot of
       Some slot \<Rightarrow>
         (htab\<lparr>n_deleted := n_deleted htab - 1,
            entries := (entries htab)[slot := HTAB_EMPTY_ENTRY]\<rparr>, Some slot)
     | None \<Rightarrow> (htab\<lparr>n_elements := n_elements htab + 1\<rparr>, Some index))"

partial_function (option) find_slot_loop ::
  "htab \<Rightarrow> u64 \<Rightarrow> insert_option \<Rightarrow> nat option \<Rightarrow> u32 \<Rightarrow> u32 \<Rightarrow> (htab \<times> nat option) option" where
  "find_slot_loop htab element ins first_deleted_slot index hash2 =
    (let htab = htab\<lparr>collisions := collisions htab + 1\<rparr>;
         index = next_index index hash2 (htab_size htab);
         slot = unat index
     in if slot < length (entries htab) then
          let entry = entries htab ! slot
          in if entry = HTAB_EMPTY_ENTRY then Some (empty_entry htab ins first_deleted_slot slot)
             else if entry = HTAB_DELETED_ENTRY then
               find_slot_loop htab element ins
                 (if first_deleted_slot = None then Some slot else first_deleted_slot) index hash2
             else if eq_f htab entry element then Some (htab, Some slot)
             else find_slot_loop htab element ins first_deleted_slot index hash2
        else None)"

definition find_slot_from :: "htab \<Rightarrow> u64 \<Rightarrow> u32 \<Rightarrow> insert_option \<Rightarrow> (htab \<times> nat option) option" where
  "find_slot_from htab element hash ins =
    (let index = htab_mod hash htab;
         htab = htab\<lparr>searches := searches htab + 1\<rparr>;
         slot = unat index
     in if slot < length (entries htab) then
          let entry = entries htab ! slot
          in if entry = HTAB_EMPTY_ENTRY then Some (empty_entry htab ins None slot)
             else if entry = HTAB_DELETED_ENTRY then
               find_slot_loop htab element ins (Some slot) index (htab_mod_m2 hash htab)
             else if eq_f htab entry element then Some (htab, Some slot)
             else find_slot_loop htab element ins None index (htab_mod_m2 hash htab)
        else None)"

definition htab_find_slot_with_hash ::
  "htab \<Rightarrow> u64 \<Rightarrow> u32 \<Rightarrow> insert_option \<Rightarrow> (htab \<times> nat option) option" where
  "htab_find_slot_with_hash htab element hash ins =
    (if ins = INSERT \<and> htab_size htab * 3 \<le> n_elements htab * 4 then
       (case htab_expand htab of
          None \<Rightarrow> None
        | Some (htab, ok) \<Rightarrow>
            if \<not> ok then Some (htab, None) else find_slot_from htab element hash ins)
     else find_slot_from htab element hash ins)"

definition htab_find_slot :: "htab \<Rightarrow> u64 \<Rightarrow> insert_option \<Rightarrow> (htab \<times> nat option) option" where
  "htab_find_slot htab element ins = htab_find_slot_with_hash htab element (hash_f htab element) ins"

section \<open>hashtab.c: removing and traversing\<close>

text \<open>Clearing a slot that has been found, as \<^verbatim>\<open>htab_remove_elt\<close> and \<^verbatim>\<open>htab_clear_slot\<close> do.\<close>

definition cleared_slot :: "htab \<Rightarrow> nat \<Rightarrow> htab" where
  "cleared_slot htab slot =
    (let htab = (if del_f htab \<noteq> 0 then call_made (Del (entries htab ! slot)) htab else htab)
     in htab\<lparr>entries := (entries htab)[slot := HTAB_DELETED_ENTRY],
          n_deleted := n_deleted htab + 1\<rparr>)"

definition htab_remove_elt_with_hash :: "htab \<Rightarrow> u64 \<Rightarrow> u32 \<Rightarrow> htab option" where
  "htab_remove_elt_with_hash htab element hash =
    (case htab_find_slot_with_hash htab element hash NO_INSERT of
       None \<Rightarrow> None
     | Some (htab, None) \<Rightarrow> Some htab
     | Some (htab, Some slot) \<Rightarrow> Some (cleared_slot htab slot))"

definition htab_remove_elt :: "htab \<Rightarrow> u64 \<Rightarrow> htab option" where
  "htab_remove_elt htab element = htab_remove_elt_with_hash htab element (hash_f htab element)"

text \<open>The slot is a pointer of the client, given by its distance from the first entry.\<close>

definition htab_clear_slot :: "htab \<Rightarrow> int \<Rightarrow> htab option" where
  "htab_clear_slot htab slot =
    (if slot < 0 \<or> slot \<ge> uint (htab_size htab) \<or> nat slot \<ge> length (entries htab)
        \<or> entries htab ! nat slot = HTAB_EMPTY_ENTRY \<or> entries htab ! nat slot = HTAB_DELETED_ENTRY
     then None
     else Some (cleared_slot htab (nat slot)))"

text \<open>
  A callback gets the slot and the auxiliary value; it may change the table (clear the slot) but
  leaves its array where it is. It tells whether to go on.
\<close>

type_synonym 'i trav = "htab \<Rightarrow> nat \<Rightarrow> 'i \<Rightarrow> htab \<times> 'i \<times> bool"

function traverse_loop :: "'i trav \<Rightarrow> nat \<Rightarrow> nat \<Rightarrow> htab \<Rightarrow> 'i \<Rightarrow> (htab \<times> 'i) option" where
  "traverse_loop callback slot limit htab info =
    (if slot < length (entries htab) then
       case (if is_live (entries htab ! slot) then callback htab slot info else (htab, info, True)) of
         (htab, info, go_on) \<Rightarrow>
           if go_on \<and> slot + 1 < limit then traverse_loop callback (slot + 1) limit htab info
           else Some (htab, info)
     else None)"
  by pat_completeness auto
termination by (relation "measure (\<lambda>(callback, slot, limit, htab, info). limit - slot)") auto

declare traverse_loop.simps [simp del]

definition htab_traverse_noresize :: "htab \<Rightarrow> 'i trav \<Rightarrow> 'i \<Rightarrow> (htab \<times> 'i) option" where
  "htab_traverse_noresize htab callback info =
     traverse_loop callback 0 (unat (htab_size htab)) htab info"

definition htab_traverse :: "htab \<Rightarrow> 'i trav \<Rightarrow> 'i \<Rightarrow> (htab \<times> 'i) option" where
  "htab_traverse htab callback info =
    (if htab_elements htab * 8 < htab_size htab \<and> htab_size htab > 32 then
       (case htab_expand htab of
          None \<Rightarrow> None
        | Some (htab, _) \<Rightarrow> htab_traverse_noresize htab callback info)
     else htab_traverse_noresize htab callback info)"

end
