(* ===== verification/Hashtab_Primes.thy ===== *)
theory Hashtab_Primes
  imports Hashtab
begin

text \<open>
  The arithmetic the hash tables rest on: the sizes in the table are primes, checked by a list of
  certificates, and the multiplication by an inverse is the remainder.
\<close>

section \<open>Certified primes\<close>

definition prime_number :: "nat \<Rightarrow> bool" where
  "prime_number p \<longleftrightarrow> 1 < p \<and> (\<forall>d. d dvd p \<longrightarrow> d = 1 \<or> d = p)"

fun power_mod :: "nat \<Rightarrow> nat \<Rightarrow> nat \<Rightarrow> nat \<Rightarrow> nat" where
  "power_mod r a n p =
    (if n = 0 then r else power_mod (if odd n then r * a mod p else r) (a * a mod p) (n div 2) p)"

declare power_mod.simps [simp del]

text \<open>
  A certificate of \<open>p\<close> is an element \<open>a\<close> and the prime factors of \<open>p - 1\<close>: the order of \<open>a\<close>
  modulo \<open>p\<close> divides \<open>p - 1\<close> and none of its quotients by a prime factor.
\<close>

fun certified :: "nat list \<Rightarrow> (nat \<times> nat \<times> nat list) list \<Rightarrow> bool" where
  "certified ps [] \<longleftrightarrow> True"
| "certified ps ((p, a, qs) # cs) \<longleftrightarrow>
     prod_list qs = p - 1 \<and> list_all (\<lambda>q. q \<in> set ps) qs \<and> power_mod 1 a (p - 1) p = 1
     \<and> list_all (\<lambda>q. power_mod 1 a ((p - 1) div q) p \<noteq> 1) (remdups qs) \<and> certified (p # ps) cs"

definition certificates :: "(nat \<times> nat \<times> nat list) list" where
  "certificates = [
    (3, 2, [2]), (5, 2, [2, 2]), (7, 3, [2, 3]), (11, 2, [2, 5]), (13, 2, [2, 2, 3]),
    (17, 3, [2, 2, 2, 2]), (19, 2, [2, 3, 3]), (31, 3, [2, 3, 5]), (53, 2, [2, 2, 13]),
    (61, 2, [2, 2, 3, 5]), (73, 5, [2, 2, 2, 3, 3]), (103, 5, [2, 3, 17]), (127, 3, [2, 3, 3, 7]),
    (251, 6, [2, 5, 5, 5]), (257, 3, [2, 2, 2, 2, 2, 2, 2, 2]), (509, 2, [2, 2, 127]),
    (1019, 2, [2, 509]), (1021, 10, [2, 2, 3, 5, 17]), (2039, 7, [2, 1019]),
    (2473, 5, [2, 2, 2, 3, 103]), (2729, 3, [2, 2, 2, 11, 31]), (4093, 2, [2, 2, 3, 11, 31]),
    (8191, 17, [2, 3, 3, 5, 7, 13]), (16381, 2, [2, 2, 3, 3, 5, 7, 13]),
    (32749, 2, [2, 2, 3, 2729]), (65521, 17, [2, 2, 2, 2, 3, 3, 5, 7, 13]),
    (131071, 3, [2, 3, 5, 17, 257]), (262139, 2, [2, 53, 2473]),
    (524287, 3, [2, 3, 3, 3, 7, 19, 73]), (1048573, 2, [2, 2, 3, 3, 3, 7, 19, 73])]"

lemma certified_append:
  "certified ps (cs @ ds) \<longleftrightarrow> certified ps cs \<and> certified (rev (map fst cs) @ ps) ds"
proof (induction cs arbitrary: ps)
  case (Cons c cs)
  obtain p a qs where "c = (p, a, qs)" by (cases c)
  with Cons show ?case by (simp del: remdups.simps add: conj_assoc)
qed simp

text \<open>The powers are computed digit by digit, the certificates a few at a time.\<close>

lemma power_mod_numeral:
  "power_mod r a 0 p = r"
  "power_mod r a (Suc 0) p = r * a mod p"
  "power_mod r a 1 p = r * a mod p"
  "power_mod r a (numeral (num.Bit0 n)) p = power_mod r (a * a mod p) (numeral n) p"
  "power_mod r a (numeral (num.Bit1 n)) p = power_mod (r * a mod p) (a * a mod p) (numeral n) p"
  by (simp_all add: power_mod.simps numeral_Bit0_div_2 numeral_Bit1_div_2)

lemma certificates_small: "certified [2] (take 26 certificates)"
  unfolding certificates_def by (simp add: power_mod_numeral)

lemma certificates_large: "certified (rev (map fst (take 26 certificates)) @ [2]) (drop 26 certificates)"
  unfolding certificates_def by (simp add: power_mod_numeral)

lemma certificates_certified: "certified [2] certificates"
  using certificates_small certificates_large
    certified_append [of "[2]" "take 26 certificates" "drop 26 certificates"]
  by (simp only: append_take_drop_id simp_thms)

lemma mult_power_mod: "x * (y mod p) ^ k mod p = x * y ^ k mod (p :: nat)"
  by (metis mod_mult_right_eq power_mod)

lemma power_mod_eq: "1 < p \<Longrightarrow> r < p \<Longrightarrow> power_mod r a n p = r * a ^ n mod p"
proof (induction r a n p rule: power_mod.induct)
  case (1 r a n p)
  show ?case
  proof (cases "n = 0")
    case True
    then show ?thesis using 1 by (subst power_mod.simps) simp
  next
    case False
    let ?r = "if odd n then r * a mod p else r"
    have "power_mod r a n p = ?r * (a * a mod p) ^ (n div 2) mod p"
      using 1 False by (subst power_mod.simps) simp
    also have "\<dots> = (if odd n then r * a else r) * (a * a) ^ (n div 2) mod p"
      unfolding mult_power_mod by (simp add: mod_mult_left_eq)
    also have "(if odd n then r * a else r) * (a * a) ^ (n div 2) = r * a ^ n"
    proof (cases "odd n")
      case True
      then obtain k where "n = 2 * k + 1" by (rule oddE)
      then show ?thesis by (simp add: power_mult power2_eq_square power_mult_distrib mult.assoc)
    next
      case even: False
      then obtain k where "n = 2 * k" by auto
      then show ?thesis by (simp add: power_mult power2_eq_square)
    qed
    finally show ?thesis .
  qed
qed

lemma prime_two: "prime_number 2"
proof -
  have "d = 1 \<or> d = 2" if "d dvd (2 :: nat)" for d
    using that dvd_imp_le [OF that] by (cases "d = 0") auto
  then show ?thesis by (simp add: prime_number_def)
qed

lemma prime_coprime: "prime_number p \<Longrightarrow> coprime p b \<or> p dvd b"
  unfolding prime_number_def by (metis coprime_iff_gcd_eq_1 gcd_dvd1 gcd_dvd2)

text \<open>A proper divisor of a product of primes divides the product without one of them.\<close>

lemma proper_divisor:
  assumes "list_all prime_number qs" and "d dvd prod_list qs" and "d \<noteq> prod_list qs"
  shows "\<exists>q \<in> set qs. d dvd prod_list qs div q"
proof -
  obtain e where e: "prod_list qs = d * e" using assms(2) by blast
  have "e \<noteq> 1" using e assms(3) by auto
  have "\<exists>q \<in> set qs. \<not> coprime q e"
  proof (rule ccontr)
    assume "\<not> ?thesis"
    then have "coprime (prod_list qs) e"
      by (induction qs) auto
    then show False using e \<open>e \<noteq> 1\<close> by (simp add: coprime_mult_left_iff)
  qed
  then obtain q where q: "q \<in> set qs" "\<not> coprime q e" by blast
  then have "q dvd e" using assms(1) prime_coprime by (auto simp: list_all_iff)
  then obtain f where "e = q * f" by blast
  moreover have "0 < q" using q assms(1) by (auto simp: list_all_iff prime_number_def)
  ultimately have "prod_list qs div q = d * f" by (simp add: e mult.left_commute)
  with q show ?thesis by (intro bexI [of _ q]) simp_all
qed

text \<open>
  Lucas: when \<open>a\<close> has order \<open>p - 1\<close>, its powers are \<open>p - 1\<close> numbers below \<open>p\<close> prime to \<open>p\<close>, so that
  there are no others.
\<close>

lemma power_cong_sub:
  assumes "coprime a p" and "i \<le> j" and "a ^ i mod p = a ^ j mod (p :: nat)" and "1 < p"
  shows "a ^ (j - i) mod p = 1"
proof -
  have "p dvd a ^ j - a ^ i" using assms(2,3) by (metis mod_eq_dvd_iff_nat nat_le_linear
      dvd_0_right diff_is_0_eq')
  also have "a ^ j - a ^ i = a ^ i * (a ^ (j - i) - 1)"
    using assms(2) by (simp add: diff_mult_distrib2 flip: power_add)
  finally have "p dvd a ^ (j - i) - 1"
    using assms(1) by (simp add: coprime_dvd_mult_right_iff coprime_commute)
  moreover have "a ^ (j - i) \<noteq> 0"
    using assms(1,4) by (cases "a = 0") auto
  ultimately have "a ^ (j - i) mod p = 1 mod p"
    by (subst mod_eq_dvd_iff_nat) auto
  then show ?thesis using assms(4) by simp
qed

lemma lucas:
  assumes "1 < p" and "prod_list qs = p - 1" and "list_all prime_number qs"
    and one: "a ^ (p - 1) mod p = 1" and other: "\<And>q. q \<in> set qs \<Longrightarrow> a ^ ((p - 1) div q) mod p \<noteq> 1"
  shows "prime_number p"
proof -
  define d where "d = (LEAST d. 0 < d \<and> a ^ d mod p = 1)"
  have "0 < p - 1 \<and> a ^ (p - 1) mod p = 1" using assms(1) one by simp
  then have d: "0 < d" "a ^ d mod p = 1" and least: "\<And>e. 0 < e \<Longrightarrow> a ^ e mod p = 1 \<Longrightarrow> d \<le> e"
    unfolding d_def by (metis (mono_tags, lifting) LeastI Least_le)+
  have multiple: "a ^ (d * k) mod p = 1" for k
    using d(2) assms(1) by (metis mod_less one_neq_zero power_mod power_mult power_one)
  have divides: "d dvd e" if "a ^ e mod p = 1" for e
  proof -
    have "a ^ e mod p = a ^ (d * (e div d)) * a ^ (e mod d) mod p"
      by (simp flip: power_add)
    also have "\<dots> = a ^ (e mod d) mod p"
      using multiple [of "e div d"] assms(1) by (metis mod_mult_left_eq mult_1)
    finally have "a ^ (e mod d) mod p = 1" using that by simp
    then have "e mod d = 0" using least [of "e mod d"] d(1) by (meson mod_less_divisor not_le not_gr_zero)
    then show ?thesis by blast
  qed
  have "d = p - 1"
  proof (rule ccontr)
    assume "d \<noteq> p - 1"
    then obtain q where q: "q \<in> set qs" "d dvd (p - 1) div q"
      using proper_divisor [OF assms(3)] divides [OF one] assms(2) by metis
    then have "a ^ ((p - 1) div q) mod p = 1" using multiple by (metis dvdE)
    with other [OF q(1)] show False ..
  qed
  have unit: "coprime a p"
  proof (rule coprimeI)
    fix c assume "c dvd a" "c dvd p"
    have "c dvd a ^ (p - 1)"
      using \<open>c dvd a\<close> assms(1) by (metis dvd_power dvd_trans zero_less_diff)
    then have "c dvd a ^ (p - 1) mod p" using \<open>c dvd p\<close> by (rule dvd_mod)
    then show "is_unit c" unfolding one .
  qed
  have "inj_on (\<lambda>i. a ^ i mod p) {..<d}"
  proof (rule linorder_inj_onI)
    fix i j assume ij: "i < j" "i \<in> {..<d}" "j \<in> {..<d}"
    show "a ^ i mod p \<noteq> a ^ j mod p"
    proof
      assume "a ^ i mod p = a ^ j mod p"
      then have "a ^ (j - i) mod p = 1" using power_cong_sub [OF unit _ _ assms(1)] ij by simp
      with least [of "j - i"] ij show False by simp
    qed
  qed auto
  then have "card ((\<lambda>i. a ^ i mod p) ` {..<d}) = card {1..<p}"
    using \<open>d = p - 1\<close> by (simp add: card_image)
  moreover have coprime: "coprime (a ^ i mod p) p" for i
    using unit assms(1) by (simp add: coprime_mod_left_iff)
  then have "a ^ i mod p \<noteq> 0" for i
    using assms(1) by (metis coprime_0_left_iff nat_dvd_1_iff_1 less_irrefl)
  then have "(\<lambda>i. a ^ i mod p) ` {..<d} \<subseteq> {1..<p}"
    using assms(1) by (intro image_subsetI) (simp add: Suc_le_eq)
  ultimately have all: "(\<lambda>i. a ^ i mod p) ` {..<d} = {1..<p}"
    by (metis card_subset_eq finite_atLeastLessThan)
  have "e = 1 \<or> e = p" if "e dvd p" for e
  proof (rule ccontr)
    assume "\<not> ?thesis"
    moreover have "0 < e" "e \<le> p" using that assms(1) by (auto intro: dvd_imp_le Nat.gr0I)
    ultimately have "e \<in> {1..<p}" "e \<noteq> 1" by auto
    then have "coprime e p" using all coprime by (metis (no_types, lifting) imageE)
    with that \<open>e \<noteq> 1\<close> show False by (metis coprime_absorb_left nat_dvd_1_iff_1)
  qed
  with assms(1) show ?thesis by (simp add: prime_number_def)
qed

lemma prod_list_pos: "list_all prime_number qs \<Longrightarrow> 0 < prod_list qs"
  by (induction qs) (auto simp: prime_number_def)

lemma certified_primes:
  "certified ps cs \<Longrightarrow> list_all prime_number ps \<Longrightarrow> list_all (\<lambda>c. prime_number (fst c)) cs"
proof (induction cs arbitrary: ps)
  case (Cons c cs)
  obtain p a qs where c: "c = (p, a, qs)" by (cases c)
  have primes: "list_all prime_number qs"
    using Cons.prems by (auto simp: c list_all_iff)
  have p: "prod_list qs = p - 1" using Cons.prems(1) by (simp add: c)
  with prod_list_pos [OF primes] have "1 < p" by simp
  then have "prime_number p"
  proof (rule lucas [OF _ p primes])
    show "a ^ (p - 1) mod p = 1"
      using Cons.prems(1) power_mod_eq [OF \<open>1 < p\<close> \<open>1 < p\<close>] by (simp add: c)
    show "a ^ ((p - 1) div q) mod p \<noteq> 1" if "q \<in> set qs" for q
      using Cons.prems(1) that power_mod_eq [OF \<open>1 < p\<close> \<open>1 < p\<close>] by (simp add: c list_all_iff)
  qed
  moreover have "list_all (\<lambda>c. prime_number (fst c)) cs"
    by (rule Cons.IH [of "p # ps"]) (use Cons.prems \<open>prime_number p\<close> in \<open>simp_all add: c\<close>)
  ultimately show ?case by (simp add: c)
qed simp

section \<open>The sizes\<close>

text \<open>
  The sizes whose primality has a certificate here: the first eighteen, up to 1048573 entries
  (8 MiB of pointers). The results on searching are for tables up to that size.
\<close>

definition certified_sizes :: nat where "certified_sizes = 18"

definition size_at :: "nat \<Rightarrow> nat" where
  "size_at i = unat (prime (prime_tab ! i))"

lemma sizes: "map (\<lambda>e. unat (prime e)) prime_tab =
  [7, 13, 31, 61, 127, 251, 509, 1021, 2039, 4093, 8191, 16381, 32749, 65521, 131071, 262139, 524287,
   1048573, 2097143, 4194301, 8388593, 16777213, 33554393, 67108859, 134217689, 268435399, 536870909,
   1073741789, 2147483647, 4294967291]"
  by (simp add: prime_tab_def ent_def)

lemma length_prime_tab: "length prime_tab = 30"
  by (simp add: prime_tab_def)

lemma size_at_list: "i < 30 \<Longrightarrow> size_at i = map (\<lambda>e. unat (prime e)) prime_tab ! i"
  by (simp add: size_at_def length_prime_tab)

lemma size_at_member:
  "i < certified_sizes \<Longrightarrow> size_at i \<in> set (take 18 (map (\<lambda>e. unat (prime e)) prime_tab))"
  by (auto simp: size_at_list certified_sizes_def in_set_conv_nth length_prime_tab intro!: exI [of _ i])

lemma size_prime:
  assumes "i < certified_sizes"
  shows "prime_number (size_at i)"
proof -
  have "list_all (\<lambda>c. prime_number (fst c)) certificates"
    by (rule certified_primes [OF certificates_certified]) (simp add: prime_two)
  then have cert: "list_all prime_number (map fst certificates)"
    by (simp add: list_all_iff)
  have "set (take 18 (map (\<lambda>e. unat (prime e)) prime_tab)) \<subseteq> set (map fst certificates)"
    unfolding sizes certificates_def by simp
  with cert size_at_member [OF assms] show ?thesis unfolding list_all_iff set_map by blast
qed

lemma size_at_bounds: "i < certified_sizes \<Longrightarrow> 7 \<le> size_at i \<and> size_at i \<le> 1048573"
proof -
  have "\<forall>n \<in> set (take 18 (map (\<lambda>e. unat (prime e)) prime_tab)). 7 \<le> n \<and> n \<le> 1048573"
    unfolding sizes by simp
  then show "7 \<le> size_at i \<and> size_at i \<le> 1048573" if "i < certified_sizes"
    using size_at_member [OF that] by blast
qed

section \<open>The search for a size\<close>

lemma size_at_mono: "i < j \<Longrightarrow> j < 30 \<Longrightarrow> size_at i < size_at j"
proof -
  have "sorted_wrt (<) (map (\<lambda>e. unat (prime e)) prime_tab)"
    unfolding sizes by simp
  then show "i < j \<Longrightarrow> j < 30 \<Longrightarrow> size_at i < size_at j"
    by (simp add: size_at_list sorted_wrt_iff_nth_less length_prime_tab)
qed

lemma size_above: "n > ucast (prime (prime_tab ! i)) \<longleftrightarrow> size_at i < unat (n :: u64)"
  using unat_u32_less [of "prime (prime_tab ! i)"]
  by (simp add: size_at_def word_less_nat_alt unsigned_ucast_eq take_bit_nat_eq_self)

lemma higher_prime_loop_finds:
  assumes "low \<le> high" "high \<le> 30"
    and "\<And>i. i < low \<Longrightarrow> size_at i < unat n" and "\<And>i. high \<le> i \<Longrightarrow> i < 30 \<Longrightarrow> unat n \<le> size_at i"
  shows "\<exists>k \<le> 30. higher_prime_loop n (of_nat low) (of_nat high) = Some (of_nat k)
    \<and> (\<forall>i < k. size_at i < unat n) \<and> (\<forall>i. k \<le> i \<longrightarrow> i < 30 \<longrightarrow> unat n \<le> size_at i)"
  using assms
proof (induction "high - low" arbitrary: low high rule: less_induct)
  case less
  have small: "unat (of_nat j :: u32) = j" if "j \<le> 30" for j
    using that by (simp add: unat_of_nat take_bit_nat_eq_self)
  show ?case
  proof (cases "low = high")
    case True
    then show ?thesis
      using less.prems by (intro exI [of _ low]) (subst higher_prime_loop.simps, simp)
  next
    case False
    define mid where "mid = low + (high - low) div 2"
    have mid: "low \<le> mid" "mid < high" using False less.prems by (auto simp: mid_def)
    have words: "(of_nat low :: u32) \<noteq> of_nat high"
      using False less.prems(1,2) small [of low] small [of high] by (metis le_trans)
    have "(of_nat high :: u32) - of_nat low = of_nat (high - low)"
      using less.prems(1) by (simp add: of_nat_diff)
    moreover have "unat (drop_bit 1 (of_nat (high - low) :: u32)) = (high - low) div 2"
      unfolding unat_drop_bit using less.prems(2) small [of "high - low"] by simp
    then have "drop_bit 1 (of_nat (high - low) :: u32) = of_nat ((high - low) div 2)"
      using less.prems(2) small [of "(high - low) div 2"]
      by (intro word_unat_eq_iff [THEN iffD2]) simp
    ultimately have mid_word: "(of_nat low :: u32) + drop_bit 1 (of_nat high - of_nat low) = of_nat mid"
      by (simp add: mid_def)
    have run: "higher_prime_loop n (of_nat low) (of_nat high) =
        (if size_at mid < unat n then higher_prime_loop n (of_nat (mid + 1)) (of_nat high)
         else higher_prime_loop n (of_nat low) (of_nat mid))"
      using words mid less.prems(2)
      by (subst higher_prime_loop.simps, unfold Let_def mid_word)
        (simp add: small size_above length_prime_tab add.commute)
    show ?thesis
    proof (cases "size_at mid < unat n")
      case True
      have below: "size_at i < unat n" if "i < mid + 1" for i
        using True size_at_mono [of i mid] that mid less.prems(2) by (cases "i = mid") auto
      show ?thesis
        unfolding run using True mid less.prems below by (simp only: if_True) (rule less.hyps; simp)
    next
      case over: False
      have above: "unat n \<le> size_at i" if "mid \<le> i" "i < 30" for i
        using over size_at_mono [of mid i] that by (cases "i = mid") auto
      show ?thesis
        unfolding run using over mid less.prems above by (simp only: if_False) (rule less.hyps; simp)
    qed
  qed
qed

lemma higher_prime_index_least:
  "higher_prime_index n = Some i \<longleftrightarrow>
     i < 30 \<and> unat n \<le> size_at i \<and> (\<forall>j < i. size_at j < unat n)"
proof -
  obtain k where k: "k \<le> 30" "higher_prime_loop n 0 30 = Some (of_nat k)"
      "\<forall>i < k. size_at i < unat n" "\<forall>i. k \<le> i \<longrightarrow> i < 30 \<longrightarrow> unat n \<le> size_at i"
    using higher_prime_loop_finds [of 0 30 n] by auto
  have "unat (of_nat k :: u32) = k"
    using k(1) by (simp add: unat_of_nat take_bit_nat_eq_self)
  moreover have "unat n \<le> size_at k" if "k < 30" using that k(4) by blast
  ultimately have "higher_prime_index n = (if k < 30 then Some k else None)"
    using k by (auto simp: higher_prime_index_def size_above length_prime_tab not_less)
  then show ?thesis
    using k by (auto split: if_splits) (metis leD leI not_less_iff_gr_or_eq)+
qed

section \<open>The remainder\<close>

text \<open>
  What an inverse has to satisfy: the multiplier \<open>2 ^ 32 + i\<close> approximates \<open>2 ^ (33 + s) / y\<close> from
  above, closely enough for all 32-bit numbers.
\<close>

definition inverse_ok :: "u32 \<Rightarrow> u32 \<Rightarrow> u32 \<Rightarrow> bool" where
  "inverse_ok y i s \<longleftrightarrow> unat s < 32 \<and> 2 ^ (33 + unat s) \<le> (2 ^ 32 + unat i) * unat y
     \<and> (2 ^ 32 + unat i) * unat y \<le> 2 ^ (33 + unat s) + 2 ^ (unat s + 1)"

lemma prime_tab_inverses:
  "\<forall>e \<in> set prime_tab. inverse_ok (prime e) (inv e) (shift e) \<and> inverse_ok (prime e - 2) (inv_m2 e) (shift e)"
  by (simp add: prime_tab_def ent_def inverse_ok_def)

lemma div_by_inverse:
  fixes x y M K :: nat
  assumes "K \<le> M * y" "M * y \<le> K + E" "x * E < K" "0 < K"
  shows "x * M div K = x div y"
proof -
  have "0 < y" using assms(1,4) by (cases y) auto
  have "x div y * K * y \<le> x * M * y"
    using mult_le_mono [OF div_times_less_eq_dividend [of x y] assms(1)]
    by (simp add: mult.assoc mult.left_commute mult.commute [of y])
  then have "x div y * K \<le> x * M" using \<open>0 < y\<close> by simp
  moreover have "x * M * y < (x div y + 1) * K * y"
  proof -
    have "x * (M * y) \<le> x * (K + E)" using assms(2) by simp
    also have "\<dots> < x * K + K" using assms(3) by (simp add: algebra_simps)
    also have "\<dots> = (x + 1) * K" by simp
    also have "\<dots> \<le> ((x div y + 1) * y) * K"
      using dividend_less_div_times [OF \<open>0 < y\<close>, of x] by (intro mult_le_mono1) simp
    finally show ?thesis by (simp only: mult.assoc mult.left_commute mult.commute)
  qed
  then have "x * M < (x div y + 1) * K"
    by (simp only: mult_less_cancel2)
  ultimately show ?thesis
    using assms(4) by (intro div_nat_eqI) (simp_all add: mult.commute)
qed

lemma htab_mod_1_is_mod:
  assumes "inverse_ok y i s"
  shows "htab_mod_1 x y i s = x mod y"
proof -
  define X I S where "X = unat x" and "I = unat i" and "S = unat s"
  have X: "X < 2 ^ 32" and I: "I < 2 ^ 32" using unat_u32_less [of x] unat_u32_less [of i]
    by (simp_all add: X_def I_def)
  have "X * I < 2 ^ 32 * 2 ^ 32"
    by (rule mult_strict_mono) (use X I in auto)
  then have prod: "unat ((ucast x :: u64) * ucast i) = X * I"
    using X I by (simp add: X_def I_def unat_word_ariths unsigned_ucast_eq take_bit_nat_eq_self)
  define t1 where "t1 = (ucast (drop_bit 32 ((ucast x :: u64) * ucast i)) :: u32)"
  have le: "X * I div 2 ^ 32 \<le> X"
    using I by (metis div_le_mono less_imp_le_nat mult_le_mono2 nonzero_mult_div_cancel_right power_not_zero
        zero_neq_numeral)
  have "unat (drop_bit 32 ((ucast x :: u64) * ucast i)) = X * I div 2 ^ 32"
    by (simp only: unat_drop_bit prod)
  then have "unat t1 = take_bit 32 (X * I div 2 ^ 32)"
    unfolding t1_def unsigned_ucast_eq by simp
  with le have t1: "unat t1 = X * I div 2 ^ 32" "unat t1 \<le> X"
    using X by (simp_all add: take_bit_nat_eq_self)
  have t2: "unat (x - t1) = X - unat t1"
    using t1 by (simp add: unat_sub_if' X_def)
  have t4: "unat (t1 + drop_bit 1 (x - t1)) = (X + unat t1) div 2"
  proof -
    have "unat t1 + (X - unat t1) div 2 = (X + unat t1) div 2" using t1(2) by presburger
    moreover have "(X + unat t1) div 2 < 2 ^ 32" using t1(2) X by simp
    ultimately show ?thesis
      unfolding unat_word_ariths unat_drop_bit t2 by simp
  qed
  have "unat (drop_bit S (t1 + drop_bit 1 (x - t1))) = (X + X * I div 2 ^ 32) div 2 div 2 ^ S"
    unfolding unat_drop_bit [of S] t4 t1(1) ..
  also have "\<dots> = (X * 2 ^ 32 + X * I) div 2 ^ 32 div 2 div 2 ^ S"
    by simp
  also have "\<dots> = X * (2 ^ 32 + I) div 2 ^ (33 + S)"
  proof -
    have "(2 :: nat) ^ (33 + S) = 2 ^ 32 * 2 * 2 ^ S" by (simp add: power_add)
    moreover have "X * (2 ^ 32 + I) = X * 2 ^ 32 + X * I" by (rule distrib_left)
    ultimately show ?thesis by (simp only: div_mult2_eq)
  qed
  also have "\<dots> = X div unat y"
  proof (rule div_by_inverse)
    have "X * 2 ^ (S + 1) < 2 ^ 32 * 2 ^ (S + 1)" using X by simp
    also have "\<dots> = 2 ^ (33 + S)" by (simp add: power_add)
    finally show "X * 2 ^ (S + 1) < 2 ^ (33 + S)" .
  qed (use assms in \<open>simp_all add: inverse_ok_def I_def S_def\<close>)
  finally have "drop_bit S (t1 + drop_bit 1 (x - t1)) = x div y"
    by (intro word_unat_eq_iff [THEN iffD2]) (simp add: unat_div X_def)
  then show ?thesis
    unfolding htab_mod_1_def Let_def t1_def [symmetric] S_def
    by (simp add: minus_div_mult_eq_mod)
qed

end
