(* ===== verification/Hashtab_Probe.thy ===== *)
theory Hashtab_Probe
  imports Hashtab_Primes
begin

text \<open>
  The search: the slots a hash visits, that it visits all of them, and what the search loops
  return, as the first slot on the way where they stop.
\<close>

section \<open>The slots on the way\<close>

definition table_size :: "htab \<Rightarrow> nat" where
  "table_size htab = size_at (size_prime_index htab)"

definition sized :: "htab \<Rightarrow> bool" where
  "sized htab \<longleftrightarrow> size_prime_index htab < certified_sizes \<and> unat (size htab) = table_size htab
     \<and> length (entries htab) = table_size htab"

definition probe :: "htab \<Rightarrow> u32 \<Rightarrow> nat \<Rightarrow> nat" where
  "probe htab hash k =
     (unat hash + k * (1 + unat hash mod (table_size htab - 2))) mod table_size htab"

lemma sizedD:
  assumes "sized htab"
  shows "prime_number (table_size htab)" "7 \<le> table_size htab" "table_size htab \<le> 1048573"
    "unat (size htab) = table_size htab" "length (entries htab) = table_size htab"
    "prime_tab ! size_prime_index htab \<in> set prime_tab"
    "unat (prime (prime_tab ! size_prime_index htab)) = table_size htab"
  using assms size_prime size_at_bounds [of "size_prime_index htab"]
  by (simp_all add: sized_def table_size_def size_at_def length_prime_tab certified_sizes_def)

lemma probe_less: "sized htab \<Longrightarrow> probe htab hash k < length (entries htab)"
  using sizedD(2,5) [of htab] by (simp add: probe_def)

lemma htab_mod_probe:
  assumes "sized htab"
  shows "unat (htab_mod hash htab) = probe htab hash 0"
proof -
  have "inverse_ok (prime p) (inv p) (shift p)" if "p \<in> set prime_tab" for p
    using prime_tab_inverses that by blast
  with sizedD(6,7) [OF assms] show ?thesis
    by (simp add: htab_mod_def probe_def htab_mod_1_is_mod unat_mod)
qed

lemma htab_mod_m2_stride:
  assumes "sized htab"
  shows "unat (htab_mod_m2 hash htab) = 1 + unat hash mod (table_size htab - 2)"
proof -
  define p where "p = prime_tab ! size_prime_index htab"
  have "inverse_ok (prime p - 2) (inv_m2 p) (shift p)"
    using prime_tab_inverses sizedD(6) [OF assms] unfolding p_def by blast
  then have "htab_mod_m2 hash htab = 1 + hash mod (prime p - 2)"
    by (simp add: htab_mod_m2_def Let_def p_def htab_mod_1_is_mod)
  moreover have "unat (prime p - 2) = table_size htab - 2"
    using sizedD(2,7) [OF assms] by (simp add: p_def unat_sub_if')
  moreover have "unat hash mod (table_size htab - 2) < table_size htab - 2"
    using sizedD(2) [OF assms] by simp
  ultimately show ?thesis
    using sizedD(3) [OF assms] by (simp add: unat_word_ariths unat_mod)
qed

lemma next_index_probe:
  assumes "sized htab" "unat index = probe htab hash k"
  shows "unat (next_index index (htab_mod_m2 hash htab) (htab_size htab)) = probe htab hash (Suc k)"
proof -
  define p where "p = table_size htab"
  define s where "s = 1 + unat hash mod (p - 2)"
  note p = sizedD(2,3) [OF assms(1), folded p_def]
  have "unat hash mod (p - 2) < p - 2" using p(1) by (intro mod_less_divisor) simp
  then have s: "unat (htab_mod_m2 hash htab) = s" "s < p"
    using htab_mod_m2_stride [OF assms(1)] by (simp_all add: s_def p_def)
  have index: "unat index < p" using assms p(1) by (simp add: probe_def p_def)
  define i where "i = index + htab_mod_m2 hash htab"
  have i: "unat i = unat index + s"
    using index s p(2) by (simp add: i_def unat_word_ariths)
  have wide: "unat (ucast i :: u64) = unat i"
    using unat_u32_less [of i] by (simp add: unsigned_ucast_eq take_bit_nat_eq_self)
  have "unat (ucast (ucast i - size htab) :: u32) = unat i - p" if "p \<le> unat i"
    using that wide sizedD(4) [OF assms(1)] unat_u32_less [of i]
    by (simp add: unsigned_ucast_eq unat_sub_if' p_def take_bit_nat_eq_self)
  then have "unat (next_index index (htab_mod_m2 hash htab) (htab_size htab)) =
      (if p \<le> unat i then unat i - p else unat i)"
    using wide sizedD(4) [OF assms(1)]
    by (simp add: next_index_def htab_size_def i_def [symmetric] word_le_nat_alt p_def Let_def)
  also have "\<dots> = (unat index + s) mod p"
    using index s(2) unfolding i by (simp add: mod_if)
  also have "\<dots> = probe htab hash (Suc k)"
    using assms(2) unfolding probe_def p_def [symmetric] s_def [symmetric]
    by (simp add: mod_simps ac_simps)
  finally show ?thesis .
qed

text \<open>The step is below the prime size, so that the walk comes to every slot.\<close>

lemma probe_covers:
  assumes "sized htab" "i < length (entries htab)"
  shows "\<exists>k. probe htab hash k = i"
proof -
  define p where "p = table_size htab"
  define s where "s = 1 + unat hash mod (p - 2)"
  note p = sizedD(1,2) [OF assms(1), folded p_def]
  have "unat hash mod (p - 2) < p - 2" using p(2) by (intro mod_less_divisor) simp
  then have s: "0 < s" "s < p" by (simp_all add: s_def)
  then have "coprime p s"
    using prime_coprime [OF p(1), of s] by (auto dest: dvd_imp_le)
  have "inj_on (probe htab hash) {..<p}"
  proof (rule linorder_inj_onI)
    fix j k assume jk: "j < k" "j \<in> {..<p}" "k \<in> {..<p}"
    show "probe htab hash j \<noteq> probe htab hash k"
    proof
      assume "probe htab hash j = probe htab hash k"
      then have "(unat hash + k * s) mod p = (unat hash + j * s) mod p"
        by (simp add: probe_def p_def s_def)
      then have "p dvd (unat hash + k * s) - (unat hash + j * s)"
        using jk(1) by (subst (asm) mod_eq_dvd_iff_nat) simp_all
      also have "(unat hash + k * s) - (unat hash + j * s) = s * (k - j)"
        by (simp add: diff_mult_distrib2 mult.commute)
      finally have "p dvd k - j"
        using \<open>coprime p s\<close> by (simp add: coprime_dvd_mult_right_iff)
      with jk show False by (auto dest: dvd_imp_le)
    qed
  qed auto
  moreover have "probe htab hash ` {..<p} \<subseteq> {..<p}"
    using p(2) by (auto simp: probe_def p_def)
  ultimately have "probe htab hash ` {..<p} = {..<p}"
    by (simp add: endo_inj_surj)
  with assms(2) sizedD(5) [OF assms(1)] show ?thesis
    by (metis imageE lessThan_iff p_def)
qed

section \<open>Where the searches stop\<close>

definition entry :: "htab \<Rightarrow> u32 \<Rightarrow> nat \<Rightarrow> u64" where
  "entry htab hash k = entries htab ! probe htab hash k"

text \<open>A search for \<open>element\<close> stops at an empty slot or at an entry equal to it.\<close>

definition stops :: "htab \<Rightarrow> u64 \<Rightarrow> u64 \<Rightarrow> bool" where
  "stops htab element e \<longleftrightarrow>
     e = HTAB_EMPTY_ENTRY \<or> (e \<noteq> HTAB_DELETED_ENTRY \<and> eq_f htab e element)"

text \<open>The first slot of the way, from the \<open>k\<close>-th on, whose entry satisfies \<open>P\<close> is the \<open>m\<close>-th.\<close>

definition first_at :: "(u64 \<Rightarrow> bool) \<Rightarrow> htab \<Rightarrow> u32 \<Rightarrow> nat \<Rightarrow> nat \<Rightarrow> bool" where
  "first_at P htab hash k m \<longleftrightarrow>
     k \<le> m \<and> P (entry htab hash m) \<and> (\<forall>j. k \<le> j \<longrightarrow> j < m \<longrightarrow> \<not> P (entry htab hash j))"

lemma first_at_exists:
  assumes "sized htab" "x \<in> set (entries htab)" "P x"
  shows "\<exists>m. first_at P htab hash 0 m"
proof -
  obtain i where "i < length (entries htab)" "entries htab ! i = x"
    using assms(2) by (auto simp: in_set_conv_nth)
  with probe_covers [OF assms(1)] obtain k where "P (entry htab hash k)"
    using assms(3) by (metis entry_def)
  then have "P (entry htab hash (LEAST k. P (entry htab hash k)))"
    by (rule LeastI)
  then show ?thesis
    unfolding first_at_def by (auto dest: not_less_Least)
qed

lemma first_at_step:
  "first_at P htab hash k m \<Longrightarrow> k \<noteq> m \<Longrightarrow> \<not> P (entry htab hash k) \<and> first_at P htab hash (Suc k) m"
  by (auto simp: first_at_def)

text \<open>The tables a search goes through differ in the counters only.\<close>

lemma probe_counters [simp]:
  "probe (htab\<lparr>collisions := c\<rparr>) hash k = probe htab hash k"
  "probe (htab\<lparr>searches := c\<rparr>) hash k = probe htab hash k"
  "sized (htab\<lparr>collisions := c\<rparr>) = sized htab" "sized (htab\<lparr>searches := c\<rparr>) = sized htab"
  "entry (htab\<lparr>collisions := c\<rparr>) hash k = entry htab hash k"
  "entry (htab\<lparr>searches := c\<rparr>) hash k = entry htab hash k"
  "stops (htab\<lparr>collisions := c\<rparr>) = stops htab" "stops (htab\<lparr>searches := c\<rparr>) = stops htab"
  "first_at P (htab\<lparr>collisions := c\<rparr>) hash k m = first_at P htab hash k m"
  "first_at P (htab\<lparr>searches := c\<rparr>) hash k m = first_at P htab hash k m"
  "htab_mod_m2 hash (htab\<lparr>collisions := c\<rparr>) = htab_mod_m2 hash htab"
  "htab_mod_m2 hash (htab\<lparr>searches := c\<rparr>) = htab_mod_m2 hash htab"
  "htab_size (htab\<lparr>collisions := c\<rparr>) = htab_size htab"
  by (simp_all add: probe_def sized_def table_size_def entry_def stops_def fun_eq_iff first_at_def
      htab_mod_m2_def htab_size_def)

lemma find_empty_loop_finds:
  assumes "sized htab" "HTAB_DELETED_ENTRY \<notin> set (entries htab)" "unat index = probe htab hash k"
    and "first_at (\<lambda>e. e = HTAB_EMPTY_ENTRY) htab hash (Suc k) m"
  shows "find_empty_loop htab index (htab_mod_m2 hash htab) = Some (probe htab hash m)"
  using assms(3,4)
proof (induction "m - k" arbitrary: k index rule: less_induct)
  case less
  define next' where "next' = next_index index (htab_mod_m2 hash htab) (htab_size htab)"
  have at: "unat next' = probe htab hash (Suc k)"
    unfolding next'_def by (rule next_index_probe [OF assms(1) less.prems(1)])
  have there: "entries htab ! unat next' = entry htab hash (Suc k)" by (simp add: at entry_def)
  have bound: "unat next' < length (entries htab)"
    using probe_less [OF assms(1)] by (simp add: at)
  have "entries htab ! unat next' \<noteq> HTAB_DELETED_ENTRY"
    using assms(2) bound by (metis nth_mem)
  then have step: "find_empty_loop htab index (htab_mod_m2 hash htab) =
      (if entry htab hash (Suc k) = HTAB_EMPTY_ENTRY then Some (unat next')
       else find_empty_loop htab next' (htab_mod_m2 hash htab))"
    by (subst find_empty_loop.simps) (simp add: Let_def bound there flip: next'_def)
  show ?case
  proof (cases "Suc k = m")
    case True
    then show ?thesis using step less.prems(2) at by (simp add: first_at_def)
  next
    case False
    from first_at_step [OF less.prems(2) this]
    have "entry htab hash (Suc k) \<noteq> HTAB_EMPTY_ENTRY"
      and rest: "first_at (\<lambda>e. e = HTAB_EMPTY_ENTRY) htab hash (Suc (Suc k)) m" by auto
    moreover have "m - Suc k < m - k" using less.prems(2) by (auto simp: first_at_def)
    ultimately show ?thesis using step less.hyps [OF _ at rest] by simp
  qed
qed

lemma find_empty_slot_finds:
  assumes "sized htab" "HTAB_DELETED_ENTRY \<notin> set (entries htab)"
    and "first_at (\<lambda>e. e = HTAB_EMPTY_ENTRY) htab hash 0 m"
  shows "find_empty_slot_for_expand htab hash = Some (probe htab hash m)"
proof -
  note at = htab_mod_probe [OF assms(1), of hash]
  have bound: "probe htab hash 0 < length (entries htab)" by (rule probe_less [OF assms(1)])
  have "entries htab ! probe htab hash 0 \<noteq> HTAB_DELETED_ENTRY"
    using assms(2) bound by (metis nth_mem)
  then have start: "find_empty_slot_for_expand htab hash =
      (if entry htab hash 0 = HTAB_EMPTY_ENTRY then Some (probe htab hash 0)
       else find_empty_loop htab (htab_mod hash htab) (htab_mod_m2 hash htab))"
    using bound by (simp add: find_empty_slot_for_expand_def Let_def at entry_def)
  show ?thesis
  proof (cases "m = 0")
    case True
    then show ?thesis using start assms(3) by (simp add: first_at_def)
  next
    case False
    with first_at_step [OF assms(3)] show ?thesis
      using start find_empty_loop_finds [OF assms(1,2) at, of m] by simp
  qed
qed

text \<open>The number of collisions counted is left open; nothing else of the table changes.\<close>

lemma htab_find_loop_finds:
  assumes "sized htab" "unat index = probe htab hash k" "first_at (stops htab element) htab hash (Suc k) m"
  shows "\<exists>c. htab_find_loop htab element index (htab_mod_m2 hash htab) =
    Some (htab\<lparr>collisions := c\<rparr>, entry htab hash m)"
  using assms
proof (induction "m - k" arbitrary: k index htab rule: less_induct)
  case less
  define t where "t = htab\<lparr>collisions := collisions htab + 1\<rparr>"
  define next' where "next' = next_index index (htab_mod_m2 hash htab) (htab_size htab)"
  have at: "unat next' = probe t hash (Suc k)"
    using next_index_probe [OF less.prems(1,2)] by (simp add: t_def next'_def)
  have sized: "sized t" using less.prems(1) by (simp add: t_def)
  have t: "htab_size t = htab_size htab" "eq_f t = eq_f htab" "htab_mod_m2 hash t = htab_mod_m2 hash htab"
    by (simp_all add: t_def)
  have there: "entries t ! unat next' = entry htab hash (Suc k)" by (simp add: at entry_def t_def)
  have bound: "unat next' < length (entries t)"
    using probe_less [OF sized] by (simp add: at)
  have step: "htab_find_loop htab element index (htab_mod_m2 hash htab) =
      (if stops htab element (entry htab hash (Suc k)) then Some (t, entry htab hash (Suc k))
       else htab_find_loop t element next' (htab_mod_m2 hash t))"
    unfolding htab_find_loop.simps [of htab] Let_def t_def [symmetric]
    by (simp add: t next'_def [symmetric] there bound stops_def)
  show ?case
  proof (cases "Suc k = m")
    case True
    then show ?thesis using step less.prems(3) by (auto simp: first_at_def t_def)
  next
    case False
    from first_at_step [OF less.prems(3) this]
    have "\<not> stops htab element (entry htab hash (Suc k))"
      and rest: "first_at (stops t element) t hash (Suc (Suc k)) m" by (auto simp: t_def)
    moreover have "m - Suc k < m - k" using less.prems(3) by (auto simp: first_at_def)
    from less.hyps [OF this sized at rest] obtain c where
      "htab_find_loop t element next' (htab_mod_m2 hash t) = Some (t\<lparr>collisions := c\<rparr>, entry t hash m)" ..
    ultimately show ?thesis using step by (auto simp: t_def)
  qed
qed

text \<open>A table with other counters of the debugging kind.\<close>

definition recounted :: "htab \<Rightarrow> htab \<Rightarrow> bool" where
  "recounted htab htab' \<longleftrightarrow> (\<exists>c d. htab' = htab\<lparr>searches := d, collisions := c\<rparr>)"

lemma recounted_searches: "recounted htab (htab\<lparr>searches := d\<rparr>)"
proof -
  have "htab\<lparr>searches := d\<rparr> = htab\<lparr>searches := d, collisions := collisions htab\<rparr>" by simp
  then show ?thesis unfolding recounted_def by blast
qed

lemma htab_find_with_hash_finds:
  assumes "sized htab" "first_at (stops htab element) htab hash 0 m"
  shows "\<exists>htab'. htab_find_with_hash htab element hash = Some (htab', entry htab hash m)
    \<and> recounted htab htab'"
proof -
  define t where "t = htab\<lparr>searches := searches htab + 1\<rparr>"
  have sized: "sized t" using assms(1) by (simp add: t_def)
  have "htab_mod hash t = htab_mod hash htab" by (simp add: t_def htab_mod_def)
  then have at: "unat (htab_mod hash t) = probe t hash 0"
    using htab_mod_probe [OF assms(1)] by (simp add: t_def)
  have bound: "unat (htab_mod hash t) < length (entries t)"
    using probe_less [OF sized] by (simp add: at)
  have there: "entries t ! unat (htab_mod hash t) = entry htab hash 0"
    by (simp add: at) (simp add: entry_def t_def)
  have start: "htab_find_with_hash htab element hash =
      (if stops t element (entry htab hash 0) then Some (t, entry htab hash 0)
       else htab_find_loop t element (htab_mod hash t) (htab_mod_m2 hash t))"
    unfolding htab_find_with_hash_def Let_def t_def [symmetric]
    using bound by (simp add: there stops_def)
  show ?thesis
  proof (cases "m = 0")
    case True
    then show ?thesis
      using start assms(2) by (auto simp: first_at_def t_def intro!: recounted_searches)
  next
    case False
    with first_at_step [OF assms(2)] have "\<not> stops t element (entry htab hash 0)"
      and rest: "first_at (stops t element) t hash (Suc 0) m" by (auto simp: t_def)
    from htab_find_loop_finds [OF sized at rest] this(1) start show ?thesis
      by (auto simp: t_def recounted_def)
  qed
qed

text \<open>
  The search for a slot remembers the first deleted slot on the way: \<open>reusable\<close> of the slots
  visited before the search stops.
\<close>

definition reusable :: "htab \<Rightarrow> u32 \<Rightarrow> nat \<Rightarrow> nat \<Rightarrow> nat option" where
  "reusable htab hash k m =
     find (\<lambda>i. entries htab ! i = HTAB_DELETED_ENTRY) (map (probe htab hash) [k..<m])"

definition slot_found :: "htab \<Rightarrow> insert_option \<Rightarrow> u32 \<Rightarrow> nat \<Rightarrow> htab \<times> nat option" where
  "slot_found htab ins hash m =
    (if entry htab hash m = HTAB_EMPTY_ENTRY
     then empty_entry htab ins (reusable htab hash 0 m) (probe htab hash m)
     else (htab, Some (probe htab hash m)))"

lemma reusable_counters [simp]:
  "reusable (htab\<lparr>collisions := c\<rparr>) hash k m = reusable htab hash k m"
  "reusable (htab\<lparr>searches := c\<rparr>) hash k m = reusable htab hash k m"
  by (simp_all add: reusable_def cong: map_cong)

lemma reusable_step:
  "k < m \<Longrightarrow> reusable htab hash k m =
     (if entry htab hash k = HTAB_DELETED_ENTRY then Some (probe htab hash k)
      else reusable htab hash (Suc k) m)"
  by (simp add: reusable_def entry_def upt_conv_Cons)

lemma reusable_stop [simp]: "reusable htab hash m m = None"
  by (simp add: reusable_def)

lemma find_slot_loop_finds:
  assumes "sized htab" "unat index = probe htab hash k" "first_at (stops htab element) htab hash (Suc k) m"
  shows "\<exists>c. find_slot_loop htab element ins fd index (htab_mod_m2 hash htab) =
    Some (let htab' = htab\<lparr>collisions := c\<rparr>
      in if entry htab hash m = HTAB_EMPTY_ENTRY
         then empty_entry htab' ins (if fd = None then reusable htab hash (Suc k) m else fd)
                (probe htab hash m)
         else (htab', Some (probe htab hash m)))"
  using assms
proof (induction "m - k" arbitrary: k index htab fd rule: less_induct)
  case less
  define t where "t = htab\<lparr>collisions := collisions htab + 1\<rparr>"
  define next' where "next' = next_index index (htab_mod_m2 hash htab) (htab_size htab)"
  have at: "unat next' = probe htab hash (Suc k)"
    using next_index_probe [OF less.prems(1,2)] by (simp add: next'_def)
  have sized: "sized t" using less.prems(1) by (simp add: t_def)
  have t: "htab_size t = htab_size htab" "eq_f t = eq_f htab" "htab_mod_m2 hash t = htab_mod_m2 hash htab"
      "entries t = entries htab" "probe t hash j = probe htab hash j" "entry t hash j = entry htab hash j"
      "reusable t hash j m = reusable htab hash j m"
    for j by (simp_all add: t_def)
  have there: "entries htab ! unat next' = entry htab hash (Suc k)" by (simp add: at entry_def)
  have bound: "unat next' < length (entries htab)"
    using probe_less [OF less.prems(1)] by (simp add: at)
  define e where "e = entry htab hash (Suc k)"
  define fd' where "fd' = (if e = HTAB_DELETED_ENTRY \<and> fd = None then Some (unat next') else fd)"
  have step: "find_slot_loop htab element ins fd index (htab_mod_m2 hash htab) =
      (if e = HTAB_EMPTY_ENTRY then Some (empty_entry t ins fd (unat next'))
       else if stops htab element e then Some (t, Some (unat next'))
       else find_slot_loop t element ins fd' next' (htab_mod_m2 hash t))"
    unfolding find_slot_loop.simps [of htab] Let_def t_def [symmetric]
    by (simp add: t next'_def [symmetric] there bound stops_def fd'_def e_def)
  show ?case
  proof (cases "Suc k = m")
    case True
    then have "stops htab element e" using less.prems(3) by (simp add: first_at_def e_def)
    then show ?thesis
      using step by (intro exI [of _ "collisions htab + 1"])
        (simp add: True [symmetric] e_def [symmetric] at flip: t_def)
  next
    case False
    from first_at_step [OF less.prems(3) this]
    have stop: "\<not> stops htab element e"
      and rest: "first_at (stops t element) t hash (Suc (Suc k)) m" by (auto simp: t_def e_def)
    have less': "m - Suc k < m - k" and "Suc k < m" using less.prems(3) False by (auto simp: first_at_def)
    have at': "unat next' = probe t hash (Suc k)" by (simp add: at t)
    have fd': "(if fd' = None then reusable htab hash (Suc (Suc k)) m else fd') =
        (if fd = None then reusable htab hash (Suc k) m else fd)"
      using reusable_step [OF \<open>Suc k < m\<close>, of htab hash] by (simp add: fd'_def at e_def)
    from less.hyps [OF less' sized at' rest, of fd'] stop show ?thesis
      unfolding step t fd' by (auto simp: t_def stops_def Let_def)
  qed
qed

lemma find_slot_from_finds:
  assumes "sized htab" "first_at (stops htab element) htab hash 0 m"
  shows "\<exists>htab'. find_slot_from htab element hash ins = Some (slot_found htab' ins hash m)
    \<and> recounted htab htab'"
proof -
  define t where "t = htab\<lparr>searches := searches htab + 1\<rparr>"
  have sized: "sized t" using assms(1) by (simp add: t_def)
  have t: "eq_f t = eq_f htab" "htab_mod_m2 hash t = htab_mod_m2 hash htab"
      "entries t = entries htab" "probe t hash j = probe htab hash j" "entry t hash j = entry htab hash j"
      "reusable t hash j m = reusable htab hash j m"
    for j by (simp_all add: t_def)
  have at: "unat (htab_mod hash htab) = probe htab hash 0"
    using htab_mod_probe [OF assms(1)] by simp
  have bound: "unat (htab_mod hash htab) < length (entries htab)"
    using probe_less [OF assms(1)] by (simp add: at)
  define e where "e = entry htab hash 0"
  have there: "entries htab ! unat (htab_mod hash htab) = e"
    by (simp add: at e_def entry_def)
  define fd where "fd = (if e = HTAB_DELETED_ENTRY then Some (unat (htab_mod hash htab)) else None)"
  have start: "find_slot_from htab element hash ins =
      (if e = HTAB_EMPTY_ENTRY then Some (empty_entry t ins None (unat (htab_mod hash htab)))
       else if stops htab element e then Some (t, Some (unat (htab_mod hash htab)))
       else find_slot_loop t element ins fd (htab_mod hash htab) (htab_mod_m2 hash t))"
    unfolding find_slot_from_def Let_def t_def [symmetric]
    by (simp add: t there bound stops_def fd_def)
  have recounted: "recounted htab (t\<lparr>collisions := c\<rparr>)" "recounted htab t" for c
    using recounted_searches by (auto simp: t_def recounted_def)
  show ?thesis
  proof (cases "m = 0")
    case True
    then have "stops htab element e" using assms(2) by (simp add: first_at_def e_def)
    then show ?thesis
      using start recounted(2)
      by (intro exI [of _ t]) (simp add: True slot_found_def t at e_def [symmetric])
  next
    case False
    with first_at_step [OF assms(2)] have stop: "\<not> stops htab element e"
      and rest: "first_at (stops t element) t hash (Suc 0) m" by (auto simp: t_def e_def)
    have fd: "(if fd = None then reusable htab hash (Suc 0) m else fd) = reusable htab hash 0 m"
      using reusable_step [of 0 m htab hash] False by (simp add: fd_def at e_def)
    have at': "unat (htab_mod hash htab) = probe t hash 0" by (simp add: at t)
    from find_slot_loop_finds [OF sized at' rest, of ins fd] stop show ?thesis
      unfolding start t fd
      by (auto simp: stops_def Let_def slot_found_def t recounted intro!: exI [of _ "t\<lparr>collisions := _\<rparr>"])
  qed
qed

end
