(* ===== verification/Hashtab_Correct.thy ===== *)
theory Hashtab_Correct
  imports Hashtab_Probe
begin

text \<open>
  What a hash table holds. The client's hash and equality keep a contract; under it every entry
  can be found from its hash, and the operations are those of a finite set whose elements the
  equality tells apart.
\<close>

section \<open>The contract of the client\<close>

locale htab_client =
  fixes hash :: "u64 \<Rightarrow> u32" and eq :: "u64 \<Rightarrow> u64 \<Rightarrow> bool"
  assumes eq_refl: "eq x x"
    and eq_sym: "eq x y \<Longrightarrow> eq y x"
    and eq_trans: "eq x y \<Longrightarrow> eq y z \<Longrightarrow> eq x z"
    and eq_hash: "eq x y \<Longrightarrow> hash x = hash y"
begin

lemma eq_class: "eq x y \<Longrightarrow> eq x z \<longleftrightarrow> eq y z"
  by (meson eq_sym eq_trans)

lemma eq_commute: "eq x y \<longleftrightarrow> eq y x"
  by (meson eq_sym)

end

interpretation pointers: htab_client hash_pointer eq_pointer
  by unfold_locales (simp_all add: eq_pointer_def)

text \<open>Pointers to C strings: \<open>str\<close> reads the string at an address.\<close>

interpretation strings: htab_client "\<lambda>p. htab_hash_string (str p)" "\<lambda>p q. htab_eq_string (str p) (str q)"
  for str :: "u64 \<Rightarrow> bytes"
  by unfold_locales (simp_all add: htab_eq_string_def)

section \<open>The entries of a table\<close>

definition contents :: "htab \<Rightarrow> u64 set" where
  "contents htab = {x \<in> set (entries htab). is_live x}"

text \<open>An entry is reachable: the slots before it on the way of its hash are not empty.\<close>

definition reachable :: "htab \<Rightarrow> u64 \<Rightarrow> nat \<Rightarrow> bool" where
  "reachable htab x i \<longleftrightarrow>
     (\<exists>k. probe htab (hash_f htab x) k = i \<and> (\<forall>j < k. entry htab (hash_f htab x) j \<noteq> HTAB_EMPTY_ENTRY))"

definition placed :: "htab \<Rightarrow> bool" where
  "placed htab \<longleftrightarrow> sized htab \<and> htab_client (hash_f htab) (eq_f htab)
     \<and> (\<forall>i < length (entries htab). is_live (entries htab ! i) \<longrightarrow> reachable htab (entries htab ! i) i)
     \<and> (\<forall>i < length (entries htab). \<forall>j < length (entries htab). i \<noteq> j \<longrightarrow> is_live (entries htab ! i)
          \<longrightarrow> is_live (entries htab ! j) \<longrightarrow> \<not> eq_f htab (entries htab ! i) (entries htab ! j))"

definition amount :: "(u64 \<Rightarrow> bool) \<Rightarrow> htab \<Rightarrow> nat" where
  "amount P htab = length (filter P (entries htab))"

text \<open>The invariant of a table: its entries are placed, its counters right, and a slot is empty.\<close>

definition htab_ok :: "htab \<Rightarrow> bool" where
  "htab_ok htab \<longleftrightarrow> placed htab \<and> HTAB_EMPTY_ENTRY \<in> set (entries htab)
     \<and> unat (n_elements htab) = amount (\<lambda>x. x \<noteq> HTAB_EMPTY_ENTRY) htab
     \<and> unat (n_deleted htab) = amount (\<lambda>x. x = HTAB_DELETED_ENTRY) htab"

lemma is_live_simps [simp]:
  "\<not> is_live HTAB_EMPTY_ENTRY" "\<not> is_live HTAB_DELETED_ENTRY"
  "HTAB_EMPTY_ENTRY \<noteq> HTAB_DELETED_ENTRY" "HTAB_DELETED_ENTRY \<noteq> HTAB_EMPTY_ENTRY"
  by (simp_all add: is_live_def HTAB_EMPTY_ENTRY_def HTAB_DELETED_ENTRY_def)

text \<open>Tables with the same functions, size and entries hold the same.\<close>

definition same_slots :: "htab \<Rightarrow> htab \<Rightarrow> bool" where
  "same_slots htab htab' \<longleftrightarrow> hash_f htab' = hash_f htab \<and> eq_f htab' = eq_f htab
     \<and> entries htab' = entries htab \<and> size htab' = size htab
     \<and> size_prime_index htab' = size_prime_index htab"

lemma same_slots_simps:
  assumes "same_slots htab htab'"
  shows "probe htab' = probe htab" "sized htab' = sized htab" "entry htab' = entry htab"
    "contents htab' = contents htab" "reachable htab' = reachable htab" "placed htab' = placed htab"
    "amount P htab' = amount P htab" "stops htab' = stops htab" "reusable htab' = reusable htab"
    "hash_f htab' = hash_f htab" "eq_f htab' = eq_f htab" "entries htab' = entries htab"
proof -
  show probe: "probe htab' = probe htab"
    using assms by (simp add: same_slots_def probe_def table_size_def fun_eq_iff)
  show sized: "sized htab' = sized htab"
    using assms by (simp add: same_slots_def sized_def table_size_def)
  show entry: "entry htab' = entry htab"
    using assms by (simp add: same_slots_def entry_def probe fun_eq_iff)
  show "contents htab' = contents htab"
    using assms by (simp add: same_slots_def contents_def)
  show reachable: "reachable htab' = reachable htab"
    using assms by (simp add: same_slots_def reachable_def probe entry fun_eq_iff)
  show "placed htab' = placed htab"
    using assms by (simp add: same_slots_def placed_def sized reachable)
  show "amount P htab' = amount P htab"
    using assms by (simp add: same_slots_def amount_def)
  show "stops htab' = stops htab"
    using assms by (simp add: same_slots_def stops_def fun_eq_iff)
  show "reusable htab' = reusable htab"
    using assms by (simp add: same_slots_def reusable_def probe fun_eq_iff)
qed (use assms in \<open>simp_all add: same_slots_def\<close>)

lemma amount_update:
  assumes "i < length (entries htab)"
  shows "amount P (htab\<lparr>entries := (entries htab)[i := x]\<rparr>) + (if P (entries htab ! i) then 1 else 0) =
    amount P htab + (if P x then 1 else 0)"
proof -
  have "length (filter P (xs[i := x])) + (if P (xs ! i) then 1 else 0) =
      length (filter P xs) + (if P x then 1 else 0)" if "i < length xs" for xs :: "u64 list"
    using that
  proof (induction xs arbitrary: i)
    case (Cons y xs)
    then show ?case using Cons.IH [of "i - 1"] by (cases i) auto
  qed simp
  with assms show ?thesis by (simp add: amount_def)
qed

section \<open>What a search finds\<close>

definition found :: "(u64 \<Rightarrow> u64 \<Rightarrow> bool) \<Rightarrow> u64 set \<Rightarrow> u64 \<Rightarrow> u64 \<Rightarrow> bool" where
  "found eq A x r \<longleftrightarrow> (r \<in> A \<and> eq r x) \<or> (r = HTAB_EMPTY_ENTRY \<and> (\<forall>y \<in> A. \<not> eq y x))"

lemma search_stops:
  assumes "placed htab" "HTAB_EMPTY_ENTRY \<in> set (entries htab)"
  obtains m where "first_at (stops htab x) htab (hash_f htab x) 0 m"
    and "found (eq_f htab) (contents htab) x (entry htab (hash_f htab x) m)"
proof -
  define h where "h = hash_f htab x"
  have sized: "sized htab" and client: "htab_client (hash_f htab) (eq_f htab)"
    using assms(1) by (simp_all add: placed_def)
  have "stops htab x HTAB_EMPTY_ENTRY" by (simp add: stops_def)
  from first_at_exists [OF sized assms(2), where P = "stops htab x", OF this]
  obtain m where m: "first_at (stops htab x) htab h 0 m" by blast
  have "found (eq_f htab) (contents htab) x (entry htab h m)"
  proof (cases "entry htab h m = HTAB_EMPTY_ENTRY")
    case False
    then have "is_live (entry htab h m)" "eq_f htab (entry htab h m) x"
      using m by (auto simp: first_at_def stops_def is_live_def)
    moreover have "entry htab h m \<in> set (entries htab)"
      using probe_less [OF sized] by (simp add: entry_def)
    ultimately show ?thesis by (simp add: found_def contents_def)
  next
    case True
    have "\<not> eq_f htab y x" if "y \<in> contents htab" for y
    proof
      assume eq: "eq_f htab y x"
      obtain i where i: "i < length (entries htab)" "entries htab ! i = y" "is_live y"
        using \<open>y \<in> contents htab\<close> unfolding contents_def in_set_conv_nth by blast
      then have "reachable htab y i" using assms(1) by (auto simp: placed_def)
      then obtain k where k: "probe htab h k = i" "\<forall>j < k. entry htab h j \<noteq> HTAB_EMPTY_ENTRY"
        using htab_client.eq_hash [OF client eq] by (auto simp: reachable_def h_def)
      then have "stops htab x (entry htab h k)"
        using i eq by (auto simp: stops_def entry_def is_live_def)
      then have "m \<le> k" using m by (auto simp: first_at_def not_less [symmetric])
      then show False
        using k True i by (cases "m = k") (auto simp: entry_def)
    qed
    with True show ?thesis by (simp add: found_def)
  qed
  with m show ?thesis using that by (simp add: h_def)
qed

section \<open>Changing one slot\<close>

lemma entries_update_simps:
  "probe (htab\<lparr>entries := es\<rparr>) = probe htab"
  "hash_f (htab\<lparr>entries := es\<rparr>) = hash_f htab" "eq_f (htab\<lparr>entries := es\<rparr>) = eq_f htab"
  "length es = length (entries htab) \<Longrightarrow> sized (htab\<lparr>entries := es\<rparr>) = sized htab"
  by (simp_all add: probe_def table_size_def sized_def fun_eq_iff)

lemma reachable_mono:
  assumes "reachable htab x i" "sized htab"
    and "\<And>j. j < length (entries htab) \<Longrightarrow> es ! j = HTAB_EMPTY_ENTRY \<Longrightarrow> entries htab ! j = HTAB_EMPTY_ENTRY"
  shows "reachable (htab\<lparr>entries := es\<rparr>) x i"
proof -
  have "es ! probe htab h j \<noteq> HTAB_EMPTY_ENTRY" if "entry htab h j \<noteq> HTAB_EMPTY_ENTRY" for h j
    using that assms(3) [OF probe_less [OF assms(2)]] by (auto simp: entry_def)
  with assms(1) show ?thesis
    unfolding reachable_def entry_def entries_update_simps by auto
qed

text \<open>A slot that is not live takes a new entry, which must be reachable there.\<close>

lemma placed_put:
  assumes "placed htab" "s < length (entries htab)" "\<not> is_live (entries htab ! s)" "is_live x"
    and "\<And>y. y \<in> contents htab \<Longrightarrow> \<not> eq_f htab y x" and "reachable htab x s"
  defines "htab' \<equiv> htab\<lparr>entries := (entries htab)[s := x]\<rparr>"
  shows "placed htab'" and "contents htab' = insert x (contents htab)"
proof -
  define es where "es = (entries htab)[s := x]"
  have len: "length es = length (entries htab)" by (simp add: es_def)
  have sized: "sized htab" and client: "htab_client (hash_f htab) (eq_f htab)"
    using assms(1) by (simp_all add: placed_def)
  have at: "es ! i = (if i = s then x else entries htab ! i)" if "i < length (entries htab)" for i
    using that by (simp add: es_def)
  have mono: "reachable (htab\<lparr>entries := es\<rparr>) y i" if "reachable htab y i" for y i
    by (rule reachable_mono [OF that sized]) (use at assms(4) in \<open>auto split: if_splits\<close>)
  have "reachable (htab\<lparr>entries := es\<rparr>) (es ! i) i" if "i < length (entries htab)" "is_live (es ! i)" for i
    using that at [OF that(1)] mono assms(1,6) by (auto simp: placed_def split: if_splits)
  moreover have other: "\<not> eq_f htab (entries htab ! i) x" "\<not> eq_f htab x (entries htab ! i)"
    if "i < length (entries htab)" "is_live (entries htab ! i)" for i
    using assms(5) [of "entries htab ! i"] that htab_client.eq_commute [OF client]
    by (auto simp: contents_def)
  then have "\<not> eq_f htab (es ! i) (es ! j)"
    if "i < length (entries htab)" "j < length (entries htab)" "i \<noteq> j" "is_live (es ! i)" "is_live (es ! j)" for i j
    using that at [OF that(1)] at [OF that(2)] assms(1) by (auto simp: placed_def split: if_splits)
  ultimately show "placed htab'"
    unfolding htab'_def es_def [symmetric] placed_def
    using sized client by (auto simp: entries_update_simps len)
  have "contents htab' = {es ! i | i. i < length (entries htab) \<and> is_live (es ! i)}"
    by (auto simp: contents_def htab'_def es_def [symmetric] in_set_conv_nth len)
  also have "\<dots> = insert x {entries htab ! i | i. i < length (entries htab) \<and> is_live (entries htab ! i)}"
  proof (intro equalityI subsetI)
    fix y assume "y \<in> {es ! i | i. i < length (entries htab) \<and> is_live (es ! i)}"
    then show "y \<in> insert x {entries htab ! i | i. i < length (entries htab) \<and> is_live (entries htab ! i)}"
      using at by (auto split: if_splits)
  next
    fix y assume "y \<in> insert x {entries htab ! i | i. i < length (entries htab) \<and> is_live (entries htab ! i)}"
    then show "y \<in> {es ! i | i. i < length (entries htab) \<and> is_live (es ! i)}"
    proof (elim insertE CollectE exE conjE)
      assume "y = x" then show ?thesis using at [OF assms(2)] assms(2,4) by force
    next
      fix i assume "y = entries htab ! i" "i < length (entries htab)" "is_live (entries htab ! i)"
      then show ?thesis using at [of i] assms(3) by force
    qed
  qed
  also have "\<dots> = insert x (contents htab)"
    by (auto simp: contents_def in_set_conv_nth)
  finally show "contents htab' = insert x (contents htab)" .
qed

text \<open>A live entry is deleted: its slot keeps the ways of the others open.\<close>

lemma placed_delete:
  assumes "placed htab" "s < length (entries htab)" "is_live (entries htab ! s)"
  defines "htab' \<equiv> htab\<lparr>entries := (entries htab)[s := HTAB_DELETED_ENTRY]\<rparr>"
  shows "placed htab'" and "contents htab' = {y \<in> contents htab. \<not> eq_f htab y (entries htab ! s)}"
proof -
  define es where "es = (entries htab)[s := HTAB_DELETED_ENTRY]"
  have len: "length es = length (entries htab)" by (simp add: es_def)
  have sized: "sized htab" and client: "htab_client (hash_f htab) (eq_f htab)"
    using assms(1) by (simp_all add: placed_def)
  have at: "es ! i = (if i = s then HTAB_DELETED_ENTRY else entries htab ! i)"
    if "i < length (entries htab)" for i
    using that by (simp add: es_def)
  have mono: "reachable (htab\<lparr>entries := es\<rparr>) y i" if "reachable htab y i" for y i
    by (rule reachable_mono [OF that sized]) (use at in \<open>auto split: if_splits\<close>)
  have live: "i \<noteq> s \<and> es ! i = entries htab ! i" if "i < length (entries htab)" "is_live (es ! i)" for i
    using that at [OF that(1)] by (auto split: if_splits)
  have "reachable (htab\<lparr>entries := es\<rparr>) (es ! i) i" if "i < length (entries htab)" "is_live (es ! i)" for i
    using that live [OF that] mono assms(1) by (auto simp: placed_def)
  moreover have "\<not> eq_f htab (es ! i) (es ! j)"
    if "i < length (entries htab)" "j < length (entries htab)" "i \<noteq> j" "is_live (es ! i)" "is_live (es ! j)" for i j
    using that live [OF that(1,4)] live [OF that(2,5)] assms(1) by (auto simp: placed_def)
  ultimately show "placed htab'"
    unfolding htab'_def es_def [symmetric] placed_def
    using sized client by (auto simp: entries_update_simps len)
  have unique: "\<not> eq_f htab (entries htab ! i) (entries htab ! s)"
    if "i < length (entries htab)" "i \<noteq> s" "is_live (entries htab ! i)" for i
    using that assms(1-3) by (auto simp: placed_def)
  have "contents htab' = {es ! i | i. i < length (entries htab) \<and> is_live (es ! i)}"
    by (auto simp: contents_def htab'_def es_def [symmetric] in_set_conv_nth len)
  also have "\<dots> = {entries htab ! i | i. i < length (entries htab) \<and> i \<noteq> s \<and> is_live (entries htab ! i)}"
    using at by (auto split: if_splits) metis+
  also have "\<dots> = {y \<in> contents htab. \<not> eq_f htab y (entries htab ! s)}"
    using unique htab_client.eq_refl [OF client]
    by (auto simp: contents_def in_set_conv_nth)
  finally show "contents htab' = {y \<in> contents htab. \<not> eq_f htab y (entries htab ! s)}" .
qed

section \<open>Finding and removing\<close>

lemma amounts:
  "amount (\<lambda>x. x \<noteq> HTAB_EMPTY_ENTRY) htab = amount is_live htab + amount (\<lambda>x. x = HTAB_DELETED_ENTRY) htab"
  "amount (\<lambda>x. x \<noteq> HTAB_EMPTY_ENTRY) htab + amount (\<lambda>x. x = HTAB_EMPTY_ENTRY) htab = length (entries htab)"
proof -
  have "length (filter (\<lambda>x. x \<noteq> HTAB_EMPTY_ENTRY) xs) =
      length (filter is_live xs) + length (filter (\<lambda>x. x = HTAB_DELETED_ENTRY) xs)" for xs
    by (induction xs) (auto simp: is_live_def)
  then show "amount (\<lambda>x. x \<noteq> HTAB_EMPTY_ENTRY) htab =
      amount is_live htab + amount (\<lambda>x. x = HTAB_DELETED_ENTRY) htab"
    by (simp add: amount_def)
  show "amount (\<lambda>x. x \<noteq> HTAB_EMPTY_ENTRY) htab + amount (\<lambda>x. x = HTAB_EMPTY_ENTRY) htab = length (entries htab)"
    using sum_length_filter_compl [of "\<lambda>x. x \<noteq> HTAB_EMPTY_ENTRY" "entries htab"]
    by (simp add: amount_def)
qed

lemma has_empty: "HTAB_EMPTY_ENTRY \<in> set (entries htab) \<longleftrightarrow>
    amount (\<lambda>x. x \<noteq> HTAB_EMPTY_ENTRY) htab < length (entries htab)"
proof -
  have "HTAB_EMPTY_ENTRY \<in> set (entries htab) \<longleftrightarrow> amount (\<lambda>x. x = HTAB_EMPTY_ENTRY) htab \<noteq> 0"
    by (auto simp: amount_def filter_empty_conv)
  then show ?thesis using amounts(2) [of htab] by linarith
qed

lemma live_distinct:
  assumes "placed htab"
  shows "card (contents htab) = amount is_live htab"
proof -
  have client: "htab_client (hash_f htab) (eq_f htab)" using assms by (simp add: placed_def)
  define I where "I = {i. i < length (entries htab) \<and> is_live (entries htab ! i)}"
  have "inj_on ((!) (entries htab)) I"
    using assms htab_client.eq_refl [OF client] by (auto simp: inj_on_def I_def placed_def) metis
  then have "card ((!) (entries htab) ` I) = card I" by (rule card_image)
  moreover have "(!) (entries htab) ` I = contents htab"
    by (auto simp: I_def contents_def in_set_conv_nth)
  moreover have "card I = amount is_live htab"
    unfolding I_def amount_def by (simp add: length_filter_conv_card)
  ultimately show ?thesis by simp
qed

lemma elements_live:
  assumes "htab_ok htab"
  shows "unat (htab_elements htab) = card (contents htab)"
proof -
  have "unat (htab_elements htab) = unat (n_elements htab) - unat (n_deleted htab)"
    using assms amounts(1) [of htab]
    by (simp add: htab_elements_def htab_ok_def unat_sub_if')
  also have "\<dots> = card (contents htab)"
    using assms amounts(1) [of htab] live_distinct [of htab] by (simp add: htab_ok_def)
  finally show ?thesis .
qed

lemma recounted_slots:
  assumes "recounted htab htab'"
  shows "same_slots htab htab'" "n_elements htab' = n_elements htab" "n_deleted htab' = n_deleted htab"
    "del_f htab' = del_f htab" "calls htab' = calls htab" "answer htab' = answer htab"
    "free_f htab' = free_f htab"
  using assms by (auto simp: recounted_def same_slots_def)

lemma htab_ok_same:
  assumes "same_slots htab htab'" "n_elements htab' = n_elements htab" "n_deleted htab' = n_deleted htab"
  shows "htab_ok htab' = htab_ok htab"
  using assms by (simp add: htab_ok_def same_slots_simps [OF assms(1)])

lemma htab_find_found:
  assumes "htab_ok htab"
  shows "\<exists>htab' r. htab_find htab x = Some (htab', r) \<and> recounted htab htab'
    \<and> found (eq_f htab) (contents htab) x r"
proof -
  have ok: "placed htab" "HTAB_EMPTY_ENTRY \<in> set (entries htab)" "sized htab"
    using assms by (simp_all add: htab_ok_def placed_def)
  obtain m where "first_at (stops htab x) htab (hash_f htab x) 0 m"
    and "found (eq_f htab) (contents htab) x (entry htab (hash_f htab x) m)"
    by (rule search_stops [OF ok(1,2)])
  then show ?thesis
    using htab_find_with_hash_finds [OF ok(3)] unfolding htab_find_def by blast
qed

text \<open>The contents after an operation, for a table whose functions stay the same.\<close>

definition becomes :: "htab \<Rightarrow> u64 set \<Rightarrow> htab \<Rightarrow> bool" where
  "becomes htab A htab' \<longleftrightarrow> htab_ok htab' \<and> contents htab' = A
     \<and> hash_f htab' = hash_f htab \<and> eq_f htab' = eq_f htab \<and> answer htab' = answer htab
     \<and> del_f htab' = del_f htab \<and> free_f htab' = free_f htab"

lemma becomes_recounted:
  "htab_ok htab \<Longrightarrow> recounted htab htab' \<Longrightarrow> becomes htab (contents htab) htab'"
  using recounted_slots [of htab htab'] htab_ok_same [of htab htab'] same_slots_simps [of htab htab']
  by (simp add: becomes_def)

lemma cleared_slot_becomes:
  assumes "htab_ok htab" "s < length (entries htab)" "is_live (entries htab ! s)"
  shows "becomes htab {y \<in> contents htab. \<not> eq_f htab y (entries htab ! s)} (cleared_slot htab s)"
    and "calls (cleared_slot htab s) =
      calls htab @ (if del_f htab \<noteq> 0 then [Del (entries htab ! s)] else [])"
proof -
  define t where "t = htab\<lparr>entries := (entries htab)[s := HTAB_DELETED_ENTRY]\<rparr>"
  have placed: "placed htab" using assms(1) by (simp add: htab_ok_def)
  have same: "same_slots t (cleared_slot htab s)"
    by (simp add: cleared_slot_def same_slots_def t_def call_made_def Let_def)
  have not_empty: "entries htab ! s \<noteq> HTAB_EMPTY_ENTRY" "entries htab ! s \<noteq> HTAB_DELETED_ENTRY"
    using assms(3) by (auto simp: is_live_def)
  have count: "amount (\<lambda>x. x \<noteq> HTAB_EMPTY_ENTRY) t = amount (\<lambda>x. x \<noteq> HTAB_EMPTY_ENTRY) htab"
    "amount (\<lambda>x. x = HTAB_DELETED_ENTRY) t = amount (\<lambda>x. x = HTAB_DELETED_ENTRY) htab + 1"
    using amount_update [OF assms(2), of "\<lambda>x. x \<noteq> HTAB_EMPTY_ENTRY" HTAB_DELETED_ENTRY]
      amount_update [OF assms(2), of "\<lambda>x. x = HTAB_DELETED_ENTRY" HTAB_DELETED_ENTRY] not_empty
    by (simp_all add: t_def)
  have "amount (\<lambda>x. x = HTAB_DELETED_ENTRY) htab < length (entries htab)"
    using amounts(1) [of htab] has_empty [of htab] assms(1) by (simp add: htab_ok_def)
  also have "\<dots> \<le> 1048573" using placed sizedD(3,5) by (simp add: placed_def)
  finally have "unat (n_deleted (cleared_slot htab s)) = amount (\<lambda>x. x = HTAB_DELETED_ENTRY) t"
    using assms(1) count(2) by (simp add: htab_ok_def cleared_slot_def call_made_def unat_word_ariths Let_def)
  moreover have "n_elements (cleared_slot htab s) = n_elements htab"
    by (simp add: cleared_slot_def call_made_def Let_def)
  moreover have "HTAB_EMPTY_ENTRY \<in> set (entries t)"
    using assms(1) count(1) has_empty [of htab] has_empty [of t] by (simp add: htab_ok_def t_def)
  ultimately have "htab_ok (cleared_slot htab s)"
    using placed_delete(1) [OF placed assms(2,3)] assms(1) count(1)
    by (simp add: htab_ok_def same_slots_simps [OF same] t_def)
  then show "becomes htab {y \<in> contents htab. \<not> eq_f htab y (entries htab ! s)} (cleared_slot htab s)"
    using placed_delete(2) [OF placed assms(2,3)]
    by (simp add: becomes_def same_slots_simps [OF same] t_def [symmetric])
      (simp add: cleared_slot_def call_made_def Let_def t_def)
  show "calls (cleared_slot htab s) =
      calls htab @ (if del_f htab \<noteq> 0 then [Del (entries htab ! s)] else [])"
    by (simp add: cleared_slot_def call_made_def Let_def)
qed

lemma htab_remove_elt_removes:
  assumes "htab_ok htab"
  shows "\<exists>htab' r. htab_remove_elt htab x = Some htab' \<and> found (eq_f htab) (contents htab) x r
    \<and> becomes htab {y \<in> contents htab. \<not> eq_f htab y x} htab'
    \<and> calls htab' = calls htab @ (if del_f htab \<noteq> 0 \<and> r \<noteq> HTAB_EMPTY_ENTRY then [Del r] else [])"
proof -
  define h where "h = hash_f htab x"
  have ok: "placed htab" "HTAB_EMPTY_ENTRY \<in> set (entries htab)" "sized htab"
    and client: "htab_client (hash_f htab) (eq_f htab)"
    using assms by (simp_all add: htab_ok_def placed_def)
  obtain m where m: "first_at (stops htab x) htab h 0 m"
    and f: "found (eq_f htab) (contents htab) x (entry htab h m)"
    unfolding h_def by (rule search_stops [OF ok(1,2)])
  obtain t where t: "find_slot_from htab x h NO_INSERT = Some (slot_found t NO_INSERT h m)"
      and recounted: "recounted htab t"
    using find_slot_from_finds [OF ok(3) m] by blast
  note same = recounted_slots [OF recounted] same_slots_simps [OF recounted_slots(1) [OF recounted]]
  have becomes_t: "becomes htab (contents htab) t" by (rule becomes_recounted [OF assms recounted])
  have run: "htab_remove_elt htab x =
      (case slot_found t NO_INSERT h m of (t, None) \<Rightarrow> Some t | (t, Some s) \<Rightarrow> Some (cleared_slot t s))"
    by (simp add: htab_remove_elt_def htab_remove_elt_with_hash_def htab_find_slot_with_hash_def
      h_def [symmetric] t)
  show ?thesis
  proof (cases "entry htab h m = HTAB_EMPTY_ENTRY")
    case True
    then have "\<forall>y \<in> contents htab. \<not> eq_f htab y x" using f by (auto simp: found_def contents_def)
    then have "{y \<in> contents htab. \<not> eq_f htab y x} = contents htab" by blast
    then show ?thesis
      using True f becomes_t same(5)
      by (intro exI [of _ t] exI [of _ HTAB_EMPTY_ENTRY])
        (simp add: run slot_found_def same empty_entry_def)
  next
    case False
    define s where "s = probe htab h m"
    have e: "entry htab h m = entries t ! s" by (simp add: entry_def s_def same)
    have live: "is_live (entries t ! s)" "eq_f htab (entries t ! s) x"
      using f False by (auto simp: found_def contents_def e)
    have bound: "s < length (entries t)"
      using probe_less [OF ok(3)] by (simp add: s_def same)
    have "{y \<in> contents t. \<not> eq_f t y (entries t ! s)} = {y \<in> contents htab. \<not> eq_f htab y x}"
      using htab_client.eq_class [OF client live(2)] htab_client.eq_commute [OF client]
      by (auto simp: same)
    then show ?thesis
      using False f becomes_t cleared_slot_becomes [OF _ bound live(1)] same(4,5)
      by (intro exI [of _ "cleared_slot t s"] exI [of _ "entry htab h m"])
        (auto simp: run slot_found_def same s_def [symmetric] becomes_def e)
  qed
qed

section \<open>Growing\<close>

lemma placed_fresh:
  assumes "i < certified_sizes" "unat n = size_at i" "htab_client (hash_f htab) (eq_f htab)"
  defines "htab' \<equiv> htab\<lparr>entries := replicate (unat n) HTAB_EMPTY_ENTRY, size := n, size_prime_index := i\<rparr>"
  shows "placed htab'" "contents htab' = {}" "amount P htab' = (if P HTAB_EMPTY_ENTRY then unat n else 0)"
  using assms by (auto simp: htab'_def placed_def sized_def table_size_def contents_def amount_def)

lemma placed_update:
  "placed (htab\<lparr>n_elements := a, n_deleted := b\<rparr>) = placed htab"
  "contents (htab\<lparr>n_elements := a, n_deleted := b\<rparr>) = contents htab"
  "amount P (htab\<lparr>n_elements := a, n_deleted := b\<rparr>) = amount P htab"
  by (intro same_slots_simps(4,6,7); simp add: same_slots_def)+

text \<open>The live entries of a list go one by one into a table without deleted slots.\<close>

lemma rehash_places:
  assumes "placed htab" "HTAB_DELETED_ENTRY \<notin> set (entries htab)"
    and "amount is_live htab + length (filter is_live p) < length (entries htab)"
    and "\<And>x y. x \<in> set p \<Longrightarrow> is_live x \<Longrightarrow> y \<in> contents htab \<Longrightarrow> \<not> eq_f htab y x"
    and "\<And>i j. i < j \<Longrightarrow> j < length p \<Longrightarrow> is_live (p ! i) \<Longrightarrow> is_live (p ! j)
      \<Longrightarrow> \<not> eq_f htab (p ! i) (p ! j)"
  shows "\<exists>es. rehash p htab = Some (htab\<lparr>entries := es\<rparr>) \<and> placed (htab\<lparr>entries := es\<rparr>)
    \<and> HTAB_DELETED_ENTRY \<notin> set es \<and> length es = length (entries htab)
    \<and> contents (htab\<lparr>entries := es\<rparr>) = contents htab \<union> {x \<in> set p. is_live x}"
  using assms
proof (induction p arbitrary: htab)
  case Nil
  then show ?case by (intro exI [of _ "entries htab"]) simp
next
  case (Cons x p)
  show ?case
  proof (cases "is_live x")
    case False
    have "\<exists>es. rehash p htab = Some (htab\<lparr>entries := es\<rparr>) \<and> placed (htab\<lparr>entries := es\<rparr>)
        \<and> HTAB_DELETED_ENTRY \<notin> set es \<and> length es = length (entries htab)
        \<and> contents (htab\<lparr>entries := es\<rparr>) = contents htab \<union> {x \<in> set p. is_live x}"
    proof (rule Cons.IH [OF Cons.prems(1,2)])
      show "\<not> eq_f htab (p ! i) (p ! j)"
        if "i < j" "j < length p" "is_live (p ! i)" "is_live (p ! j)" for i j
        using Cons.prems(5) [of "Suc i" "Suc j"] that by simp
    qed (use Cons.prems(3,4) False in auto)
    moreover have "{y \<in> set (x # p). is_live y} = {y \<in> set p. is_live y}" using False by auto
    ultimately show ?thesis using False by simp
  next
    case True
    define h where "h = hash_f htab x"
    have sized: "sized htab" using Cons.prems(1) by (simp add: placed_def)
    have "amount (\<lambda>x. x = HTAB_DELETED_ENTRY) htab = 0"
      using Cons.prems(2) by (auto simp: amount_def filter_empty_conv)
    then have "HTAB_EMPTY_ENTRY \<in> set (entries htab)"
      using Cons.prems(3) True by (simp add: has_empty amounts(1))
    from first_at_exists [OF sized this, where P = "\<lambda>e. e = HTAB_EMPTY_ENTRY"]
    obtain m where m: "first_at (\<lambda>e. e = HTAB_EMPTY_ENTRY) htab h 0 m" by blast
    define s where "s = probe htab h m"
    define t where "t = htab\<lparr>entries := (entries htab)[s := x]\<rparr>"
    have s: "s < length (entries htab)" "entries htab ! s = HTAB_EMPTY_ENTRY"
      using probe_less [OF sized] m by (simp_all add: s_def first_at_def entry_def)
    have reach: "reachable htab x s"
      using m by (auto simp: reachable_def first_at_def s_def h_def)
    have run: "rehash (x # p) htab = rehash p t"
      using find_empty_slot_finds [OF sized Cons.prems(2) m] True
      by (simp add: h_def [symmetric] s_def [symmetric] t_def)
    have t: "placed t" "contents t = insert x (contents htab)" "eq_f t = eq_f htab"
        "length (entries t) = length (entries htab)"
      using placed_put [OF Cons.prems(1) s(1) _ True _ reach] Cons.prems(4) [of x] True s(2)
      by (simp_all add: t_def)
    have "\<exists>es. rehash p t = Some (t\<lparr>entries := es\<rparr>) \<and> placed (t\<lparr>entries := es\<rparr>)
        \<and> HTAB_DELETED_ENTRY \<notin> set es \<and> length es = length (entries t)
        \<and> contents (t\<lparr>entries := es\<rparr>) = contents t \<union> {x \<in> set p. is_live x}"
    proof (rule Cons.IH [OF t(1)])
      show "HTAB_DELETED_ENTRY \<notin> set (entries t)"
        using Cons.prems(2) True set_update_subset_insert [of "entries htab" s x]
        by (auto simp: t_def)
      show "amount is_live t + length (filter is_live p) < length (entries t)"
        using amount_update [OF s(1), of is_live x] Cons.prems(3) True s(2)
        by (simp add: t_def)
      show "\<not> eq_f t y z" if "z \<in> set p" "is_live z" "y \<in> contents t" for y z
      proof -
        obtain j where "j < length p" "p ! j = z" using \<open>z \<in> set p\<close> by (auto simp: in_set_conv_nth)
        then have "\<not> eq_f htab x z" using Cons.prems(5) [of 0 "Suc j"] True that(2) by simp
        then show ?thesis using Cons.prems(4) [of z y] that by (auto simp: t(2,3))
      qed
      show "\<not> eq_f t (p ! i) (p ! j)"
        if "i < j" "j < length p" "is_live (p ! i)" "is_live (p ! j)" for i j
        using Cons.prems(5) [of "Suc i" "Suc j"] that by (simp add: t(3))
    qed
    moreover have "t\<lparr>entries := es\<rparr> = htab\<lparr>entries := es\<rparr>" for es by (simp add: t_def)
    moreover have "{y \<in> set (x # p). is_live y} = insert x {y \<in> set p. is_live y}" using True by auto
    ultimately show ?thesis unfolding run by (simp add: t)
  qed
qed

text \<open>The largest table covered here has \<open>size_at 17\<close> entries; half as many elements fit.\<close>

definition most_elements :: nat where "most_elements = 524286"

lemma higher_prime_index_certified:
  assumes "unat n \<le> 1048573"
  obtains i where "higher_prime_index n = Some i" "i < certified_sizes" "unat n \<le> size_at i"
proof -
  define i where "i = (LEAST i. unat n \<le> size_at i)"
  have last': "unat n \<le> size_at 17" using assms by (simp add: size_at_def prime_tab_def ent_def)
  then have "unat n \<le> size_at i" "i \<le> 17" and "\<forall>j < i. size_at j < unat n"
    unfolding i_def by (auto intro: LeastI Least_le dest: not_less_Least)
  then have "higher_prime_index n = Some i" by (simp add: higher_prime_index_least)
  with that show ?thesis using \<open>i \<le> 17\<close> \<open>unat n \<le> size_at i\<close> by (simp add: certified_sizes_def)
qed

lemma new_size_fits:
  assumes "htab_ok htab" "card (contents htab) \<le> most_elements"
  obtains i n where "new_size htab = Some (i, n)" "i < certified_sizes" "unat n = size_at i"
    "2 * card (contents htab) \<le> unat n"
proof -
  have "sized htab" using assms(1) by (simp add: htab_ok_def placed_def)
  then have now: "size_prime_index htab < certified_sizes" "unat (size htab) = size_at (size_prime_index htab)"
    by (simp_all add: sized_def table_size_def)
  have twice: "unat (htab_elements htab * 2) = 2 * card (contents htab)"
    using elements_live [OF assms(1)] assms(2) by (simp add: unat_word_ariths most_elements_def)
  obtain i where i: "higher_prime_index (htab_elements htab * 2) = Some i" "i < certified_sizes"
      "2 * card (contents htab) \<le> size_at i"
    using higher_prime_index_certified [of "htab_elements htab * 2"] assms(2) twice
    by (auto simp: most_elements_def)
  have wide: "unat (ucast (prime (prime_tab ! i)) :: u64) = size_at i"
    using unat_u32_less [of "prime (prime_tab ! i)"]
    by (simp add: size_at_def unsigned_ucast_eq take_bit_nat_eq_self)
  show ?thesis
  proof (cases "htab_elements htab * 2 > htab_size htab \<or>
      (htab_elements htab * 8 < htab_size htab \<and> htab_size htab > 32)")
    case True
    with i wide that [of i "ucast (prime (prime_tab ! i))"] show ?thesis
      by (simp add: new_size_def Let_def)
  next
    case False
    then have "2 * card (contents htab) \<le> unat (size htab)"
      using twice by (simp add: htab_size_def word_less_nat_alt not_less)
    moreover have "new_size htab = Some (size_prime_index htab, size htab)"
      unfolding new_size_def Let_def using False by (simp only: if_False htab_size_def)
    ultimately show ?thesis
      using now by (intro that [of "size_prime_index htab" "size htab"]) (simp_all only:)
  qed
qed

lemma alloc_call_slots:
  "same_slots htab (alloc_call n htab)" "n_elements (alloc_call n htab) = n_elements htab"
  "n_deleted (alloc_call n htab) = n_deleted htab" "answer (alloc_call n htab) = answer htab"
  "del_f (alloc_call n htab) = del_f htab" "free_f (alloc_call n htab) = free_f htab"
  by (simp_all add: alloc_call_def call_made_def same_slots_def)

lemma free_call_slots:
  "same_slots htab (free_call w htab)" "n_elements (free_call w htab) = n_elements htab"
  "n_deleted (free_call w htab) = n_deleted htab" "answer (free_call w htab) = answer htab"
  "del_f (free_call w htab) = del_f htab" "free_f (free_call w htab) = free_f htab"
  by (simp_all add: free_call_def call_made_def same_slots_def)

text \<open>
  Growing a table: when the memory is there, the same elements are in a table that has no deleted
  slots and is at most half full. Otherwise the table is as it was.
\<close>

lemma htab_expand_becomes:
  assumes "htab_ok htab" "card (contents htab) \<le> most_elements"
  shows "\<exists>htab' ok. htab_expand htab = Some (htab', ok) \<and> becomes htab (contents htab) htab'
    \<and> ((\<forall>cs. answer htab cs) \<longrightarrow> ok)
    \<and> (ok \<longrightarrow> unat (n_elements htab') = card (contents htab)
          \<and> 2 * card (contents htab) \<le> length (entries htab'))"
proof -
  obtain i n where new: "new_size htab = Some (i, n)" "i < certified_sizes" "unat n = size_at i"
      "2 * card (contents htab) \<le> unat n"
    by (rule new_size_fits [OF assms])
  have placed: "placed htab" and sized: "sized htab"
      and client: "htab_client (hash_f htab) (eq_f htab)"
    using assms(1) by (simp_all add: htab_ok_def placed_def)
  define a where "a = alloc_call n htab"
  define fresh where "fresh = a\<lparr>entries := replicate (unat n) HTAB_EMPTY_ENTRY, size := n,
    size_prime_index := i, n_elements := n_elements a - n_deleted a, n_deleted := 0\<rparr>"
  have a: "same_slots htab a" "n_elements a = n_elements htab" "n_deleted a = n_deleted htab"
      "answer a = answer htab" "del_f a = del_f htab" "free_f a = free_f htab"
    by (simp_all add: a_def alloc_call_slots)
  have lens: "length (entries htab) = unat (htab_size htab)" "htab_size htab \<noteq> 0"
    using sizedD(2,4,5) [OF sized] by (auto simp: htab_size_def unat_eq_0 [symmetric])
  have run: "htab_expand htab =
      (if answered a then (case rehash (entries htab) fresh of
          None \<Rightarrow> None | Some t \<Rightarrow> Some (free_call Entries t, True))
       else Some (a, False))"
    using lens by (simp add: htab_expand_def new Let_def a_def [symmetric] fresh_def)
  show ?thesis
  proof (cases "answered a")
    case False
    have "becomes htab (contents htab) a"
      using assms(1) htab_ok_same [OF a(1-3)] same_slots_simps [OF a(1)] a(4-6)
      by (simp add: becomes_def)
    moreover have "\<not> (\<forall>cs. answer htab cs)" using False a(4) by (auto simp: answered_def)
    ultimately show ?thesis
      using False unfolding run by (intro exI [of _ a] exI [of _ False]) simp
  next
    case True
    have fresh: "placed fresh" "contents fresh = {}" "amount is_live fresh = 0"
        "hash_f fresh = hash_f htab" "eq_f fresh = eq_f htab" "length (entries fresh) = unat n"
        "n_elements fresh = htab_elements htab" "n_deleted fresh = 0"
        "answer fresh = answer htab" "del_f fresh = del_f htab" "free_f fresh = free_f htab"
      using placed_fresh [OF new(2,3), of a] client a same_slots_simps [OF a(1)]
      by (simp_all add: fresh_def placed_update htab_elements_def)
    have count: "amount is_live htab = card (contents htab)" by (simp add: live_distinct placed)
    have "7 \<le> unat n" using new(2,3) size_at_bounds by simp
    then have room: "card (contents htab) < unat n" using new(4) by simp
    have "\<exists>es. rehash (entries htab) fresh = Some (fresh\<lparr>entries := es\<rparr>)
        \<and> placed (fresh\<lparr>entries := es\<rparr>) \<and> HTAB_DELETED_ENTRY \<notin> set es
        \<and> length es = length (entries fresh)
        \<and> contents (fresh\<lparr>entries := es\<rparr>) = contents fresh \<union> {x \<in> set (entries htab). is_live x}"
    proof (rule rehash_places [OF fresh(1)])
      show "HTAB_DELETED_ENTRY \<notin> set (entries fresh)" by (simp add: fresh_def)
      show "amount is_live fresh + length (filter is_live (entries htab)) < length (entries fresh)"
        using room count fresh(3,6) by (simp add: amount_def)
      show "\<not> eq_f fresh (entries htab ! i) (entries htab ! j)"
        if "i < j" "j < length (entries htab)" "is_live (entries htab ! i)" "is_live (entries htab ! j)" for i j
        using placed that by (simp add: placed_def fresh)
    qed (simp add: fresh)
    then obtain es where es: "rehash (entries htab) fresh = Some (fresh\<lparr>entries := es\<rparr>)"
        "placed (fresh\<lparr>entries := es\<rparr>)" "HTAB_DELETED_ENTRY \<notin> set es" "length es = unat n"
        "contents (fresh\<lparr>entries := es\<rparr>) = contents htab"
      unfolding fresh(2,6) contents_def [of htab] by auto
    define t where "t = fresh\<lparr>entries := es\<rparr>"
    have "amount (\<lambda>x. x = HTAB_DELETED_ENTRY) t = 0"
      using es(3) by (auto simp: amount_def t_def filter_empty_conv)
    moreover have "amount is_live t = card (contents htab)"
      using live_distinct [of t] es(2,5) by (simp add: t_def)
    ultimately have t: "htab_ok t"
      using es(2,4) elements_live [OF assms(1)] room
      by (simp add: htab_ok_def has_empty amounts(1)) (simp add: t_def fresh)
    have same: "same_slots t (free_call Entries t)" by (rule free_call_slots)
    have "becomes htab (contents htab) (free_call Entries t)"
      using t htab_ok_same [OF same] same_slots_simps [OF same] es(5)
      by (simp add: becomes_def free_call_slots) (simp add: t_def fresh)
    moreover have "unat (n_elements (free_call Entries t)) = card (contents htab)"
      using elements_live [OF assms(1)] by (simp add: free_call_slots t_def fresh)
    moreover have "length (entries (free_call Entries t)) = unat n"
      using same_slots_simps(12) [OF same] es(4) by (simp add: t_def)
    ultimately show ?thesis
      using True new(4) es(1) unfolding run
      by (intro exI [of _ "free_call Entries t"] exI [of _ True]) (simp add: t_def)
  qed
qed

section \<open>Inserting\<close>

text \<open>
  What a client does to insert, as the comment on \<^verbatim>\<open>htab_find_slot\<close> tells: it asks for a slot and
  stores the entry there when the slot is empty. The flag tells whether there was a slot.
\<close>

definition htab_insert :: "htab \<Rightarrow> u64 \<Rightarrow> (htab \<times> bool) option" where
  "htab_insert htab x =
    (case htab_find_slot htab x INSERT of
       None \<Rightarrow> None
     | Some (htab, None) \<Rightarrow> Some (htab, False)
     | Some (htab, Some slot) \<Rightarrow>
         Some (if entries htab ! slot = HTAB_EMPTY_ENTRY
               then htab\<lparr>entries := (entries htab)[slot := x]\<rparr> else htab, True))"

definition with_entry :: "(u64 \<Rightarrow> u64 \<Rightarrow> bool) \<Rightarrow> u64 set \<Rightarrow> u64 \<Rightarrow> u64 set" where
  "with_entry eq A x = (if \<exists>y \<in> A. eq y x then A else insert x A)"

definition stored :: "htab \<Rightarrow> nat \<Rightarrow> u64 \<Rightarrow> htab" where
  "stored htab s x = (if entries htab ! s = HTAB_EMPTY_ENTRY
     then htab\<lparr>entries := (entries htab)[s := x]\<rparr> else htab)"

lemma store_becomes:
  assumes "htab_ok htab" "is_live x" "\<forall>y \<in> contents htab. \<not> eq_f htab y x"
    and "s < length (entries htab)" "reachable htab x s"
    and "entries htab ! s = HTAB_EMPTY_ENTRY \<and> a = n_elements htab + 1 \<and> b = n_deleted htab
        \<and> unat (n_elements htab) + 1 < length (entries htab)
      \<or> entries htab ! s = HTAB_DELETED_ENTRY \<and> a = n_elements htab \<and> b = n_deleted htab - 1"
  shows "becomes htab (insert x (contents htab))
    (htab\<lparr>n_elements := a, n_deleted := b, entries := (entries htab)[s := x]\<rparr>)"
proof -
  define t where "t = htab\<lparr>entries := (entries htab)[s := x]\<rparr>"
  define t' where "t' = htab\<lparr>n_elements := a, n_deleted := b, entries := (entries htab)[s := x]\<rparr>"
  have same: "same_slots t t'" by (simp add: same_slots_def t_def t'_def)
  have placed: "placed htab" "sized htab" using assms(1) by (simp_all add: htab_ok_def placed_def)
  have not_live: "\<not> is_live (entries htab ! s)" using assms(6) by auto
  have t: "placed t" "contents t = insert x (contents htab)" "length (entries t) = length (entries htab)"
    using placed_put [OF placed(1) assms(4) not_live assms(2) _ assms(5)] assms(3) by (simp_all add: t_def)
  have x: "x \<noteq> HTAB_EMPTY_ENTRY" "x \<noteq> HTAB_DELETED_ENTRY" using assms(2) by (auto simp: is_live_def)
  note counts = amount_update [OF assms(4), of "\<lambda>x. x \<noteq> HTAB_EMPTY_ENTRY" x]
    amount_update [OF assms(4), of "\<lambda>x. x = HTAB_DELETED_ENTRY" x]
  have small: "length (entries htab) < 2 ^ 63" using sizedD(3,5) [OF placed(2)] by simp
  have "unat a = amount (\<lambda>x. x \<noteq> HTAB_EMPTY_ENTRY) t \<and> unat b = amount (\<lambda>x. x = HTAB_DELETED_ENTRY) t
      \<and> unat a < length (entries htab)"
    using assms(6)
  proof
    assume "entries htab ! s = HTAB_EMPTY_ENTRY \<and> a = n_elements htab + 1 \<and> b = n_deleted htab
        \<and> unat (n_elements htab) + 1 < length (entries htab)"
    moreover from this have "unat a = unat (n_elements htab) + 1"
      using small by (simp add: unat_word_ariths)
    ultimately show ?thesis using counts x assms(1) by (simp add: htab_ok_def t_def)
  next
    assume *: "entries htab ! s = HTAB_DELETED_ENTRY \<and> a = n_elements htab \<and> b = n_deleted htab - 1"
    have "unat (n_deleted htab) \<noteq> 0"
      using counts * x assms(1) by (simp add: htab_ok_def)
    with * have "unat b = unat (n_deleted htab) - 1"
      by (simp add: unat_sub_if' unat_eq_0 word_le_nat_alt) (metis Suc_leI neq0_conv unat_eq_0)
    then show ?thesis
      using counts * x assms(1) has_empty [of htab] by (simp add: htab_ok_def t_def)
  qed
  then have "htab_ok t'"
    using t by (simp add: htab_ok_def has_empty same_slots_simps [OF same]) (simp add: t'_def)
  then show ?thesis
    using t(2) unfolding t'_def [symmetric]
    by (simp add: becomes_def same_slots_simps [OF same]) (simp add: t_def t'_def)
qed

text \<open>Placing an entry once the table has room for one more.\<close>

lemma find_slot_from_inserts:
  assumes "htab_ok htab" "is_live x" "unat (n_elements htab) + 1 < length (entries htab)"
  shows "\<exists>t s. find_slot_from htab x (hash_f htab x) INSERT = Some (t, Some s)
    \<and> becomes htab (with_entry (eq_f htab) (contents htab) x) (stored t s x)"
proof -
  define h where "h = hash_f htab x"
  have ok: "placed htab" "HTAB_EMPTY_ENTRY \<in> set (entries htab)" "sized htab"
    using assms(1) by (simp_all add: htab_ok_def placed_def)
  obtain m where m: "first_at (stops htab x) htab h 0 m"
    and f: "found (eq_f htab) (contents htab) x (entry htab h m)"
    unfolding h_def by (rule search_stops [OF ok(1,2)])
  obtain t where t: "find_slot_from htab x h INSERT = Some (slot_found t INSERT h m)"
      and recounted: "recounted htab t"
    using find_slot_from_finds [OF ok(3) m] by blast
  note same = recounted_slots [OF recounted] same_slots_simps [OF recounted_slots(1) [OF recounted]]
  have becomes_t: "becomes htab (contents htab) t" by (rule becomes_recounted [OF assms(1) recounted])
  have ok_t: "htab_ok t" using becomes_t by (simp add: becomes_def)
  show ?thesis
  proof (cases "entry htab h m = HTAB_EMPTY_ENTRY")
    case False
    then have "with_entry (eq_f htab) (contents htab) x = contents htab"
      using f by (auto simp: found_def with_entry_def)
    moreover have "entries t ! probe t h m \<noteq> HTAB_EMPTY_ENTRY"
      using False by (simp add: entry_def same)
    ultimately show ?thesis
      using t False becomes_t unfolding h_def [symmetric]
      by (intro exI [of _ t] exI [of _ "probe t h m"]) (simp add: slot_found_def same stored_def)
  next
    case True
    then have absent: "\<forall>y \<in> contents t. \<not> eq_f t y x"
      using f by (auto simp: found_def contents_def same)
    then have set: "with_entry (eq_f htab) (contents htab) x = insert x (contents t)"
      by (auto simp: with_entry_def same)
    have way: "reachable t x (probe t h k)" if "k \<le> m" for k
      using m that unfolding reachable_def same h_def
      by (intro exI [of _ k]) (auto simp: first_at_def stops_def)
    have becomes_trans: "becomes htab A u" if "becomes t A u" for A u
      using that by (simp add: becomes_def same)
    define r where "r = (case reusable t h 0 m of Some i \<Rightarrow> i | None \<Rightarrow> probe t h m)"
    define a where "a = (case reusable t h 0 m of Some i \<Rightarrow> n_elements t | None \<Rightarrow> n_elements t + 1)"
    define b where "b = (case reusable t h 0 m of Some i \<Rightarrow> n_deleted t - 1 | None \<Rightarrow> n_deleted t)"
    have slot: "(\<exists>k \<le> m. r = probe t h k) \<and>
        (entries t ! r = HTAB_EMPTY_ENTRY \<and> a = n_elements t + 1 \<and> b = n_deleted t
          \<and> unat (n_elements t) + 1 < length (entries t)
        \<or> entries t ! r = HTAB_DELETED_ENTRY \<and> a = n_elements t \<and> b = n_deleted t - 1)"
    proof (cases "reusable t h 0 m")
      case None
      then show ?thesis
        using True assms(3) by (auto simp: r_def a_def b_def entry_def same)
    next
      case (Some i)
      then have "i \<in> set (map (probe t h) [0..<m])" "entries t ! i = HTAB_DELETED_ENTRY"
        by (auto simp: reusable_def find_Some_iff in_set_conv_nth)
      then obtain k where "k < m" "i = probe t h k" by auto
      then have "\<exists>k \<le> m. i = probe t h k" by (intro exI [of _ k]) simp
      with \<open>entries t ! i = HTAB_DELETED_ENTRY\<close> Some show ?thesis
        by (simp add: r_def a_def b_def)
    qed
    then have r: "r < length (entries t)" "reachable t x r"
      using probe_less [of t] ok(3) way by (auto simp: same)
    obtain u where u: "slot_found t INSERT h m = (u, Some r)"
        "stored u r x = t\<lparr>n_elements := a, n_deleted := b, entries := (entries t)[r := x]\<rparr>"
    proof (cases "reusable t h 0 m")
      case None
      then show ?thesis
        using True slot that [of "t\<lparr>n_elements := n_elements t + 1\<rparr>"]
        by (simp add: slot_found_def same empty_entry_def stored_def r_def a_def b_def entry_def)
    next
      case (Some i)
      then show ?thesis
        using True r(1) that [of "t\<lparr>n_deleted := n_deleted t - 1, entries := (entries t)[i := HTAB_EMPTY_ENTRY]\<rparr>"]
        by (simp add: slot_found_def same empty_entry_def stored_def r_def a_def b_def)
    qed
    have "becomes t (insert x (contents t)) (stored u r x)"
      unfolding u(2) using slot by (intro store_becomes ok_t assms(2) absent r) blast
    then show ?thesis
      using t u(1) becomes_trans set unfolding h_def [symmetric] by auto
  qed
qed

text \<open>
  Inserting always comes to an end. When the memory is there the entry is in the table, unless one
  equal to it was; when growing fails the table is as it was.
\<close>

lemma htab_insert_becomes:
  assumes "htab_ok htab" "is_live x" "card (contents htab) \<le> most_elements"
  shows "\<exists>htab' ok. htab_insert htab x = Some (htab', ok)
    \<and> becomes htab (if ok then with_entry (eq_f htab) (contents htab) x else contents htab) htab'
    \<and> ((\<forall>cs. answer htab cs) \<longrightarrow> ok)"
proof -
  have sized: "sized htab" using assms(1) by (simp add: htab_ok_def placed_def)
  note size = sizedD(2-5) [OF sized]
  have placing: "htab_insert htab x = Some (stored t s x, True)"
    if "htab_find_slot htab x INSERT = Some (t, Some s)" for t s
    using that by (simp add: htab_insert_def stored_def)
  show ?thesis
  proof (cases "htab_size htab * 3 \<le> n_elements htab * 4")
    case False
    have "unat (n_elements htab) < length (entries htab)"
      using assms(1) has_empty [of htab] by (simp add: htab_ok_def)
    with False have "4 * unat (n_elements htab) < 3 * length (entries htab)"
      using size by (simp add: htab_size_def word_le_nat_alt unat_word_ariths)
    then have "unat (n_elements htab) + 1 < length (entries htab)" using size by simp
    from find_slot_from_inserts [OF assms(1,2) this] obtain t s where
      "find_slot_from htab x (hash_f htab x) INSERT = Some (t, Some s)"
      and "becomes htab (with_entry (eq_f htab) (contents htab) x) (stored t s x)" by blast
    then show ?thesis
      using False placing [of t s]
      by (intro exI [of _ "stored t s x"] exI [of _ True])
        (simp add: htab_find_slot_def htab_find_slot_with_hash_def)
  next
    case True
    obtain u ok where u: "htab_expand htab = Some (u, ok)" "becomes htab (contents htab) u"
        "(\<forall>cs. answer htab cs) \<longrightarrow> ok"
        "ok \<longrightarrow> unat (n_elements u) = card (contents htab) \<and> 2 * card (contents htab) \<le> length (entries u)"
      using htab_expand_becomes [OF assms(1,3)] by blast
    show ?thesis
    proof (cases ok)
      case False
      then show ?thesis
        using True u by (intro exI [of _ u] exI [of _ False])
          (simp add: htab_insert_def htab_find_slot_def htab_find_slot_with_hash_def)
    next
      case ok: True
      have u': "htab_ok u" "contents u = contents htab" "hash_f u = hash_f htab" "eq_f u = eq_f htab"
          "answer u = answer htab" "del_f u = del_f htab" "free_f u = free_f htab"
        using u(2) by (simp_all add: becomes_def)
      then have "7 \<le> length (entries u)" using sizedD(2,5) [of u] by (simp add: htab_ok_def placed_def)
      then have "unat (n_elements u) + 1 < length (entries u)" using u(4) ok by simp
      from find_slot_from_inserts [OF u'(1) assms(2) this] obtain t s where
        "find_slot_from u x (hash_f htab x) INSERT = Some (t, Some s)"
        and t: "becomes u (with_entry (eq_f htab) (contents htab) x) (stored t s x)"
        unfolding u' by blast
      then have "htab_find_slot htab x INSERT = Some (t, Some s)"
        using True u(1) ok by (simp add: htab_find_slot_def htab_find_slot_with_hash_def)
      from placing [OF this] t ok show ?thesis
        by (intro exI [of _ "stored t s x"] exI [of _ True]) (simp add: becomes_def u')
    qed
  qed
qed

end
