(* ===== verification/Hashtab_Session.thy ===== *)
theory Hashtab_Session
  imports Hashtab_Correct
begin

text \<open>
  Hash tables over a life: a session of operations on a table answers as the same operations on a
  finite set; a table starts empty; traversing it meets every entry once, and deleting or emptying
  it cleans up every entry once.
\<close>

section \<open>Sessions\<close>

datatype op = Insert u64 | Remove u64 | Find u64

text \<open>An operation and its answer: whether there was memory, or the entry found.\<close>

datatype reply = Inserted bool | Removed | Entry u64

definition perform :: "htab \<Rightarrow> op \<Rightarrow> (htab \<times> reply) option" where
  "perform htab op =
    (case op of
       Insert x \<Rightarrow> map_option (\<lambda>(htab, ok). (htab, Inserted ok)) (htab_insert htab x)
     | Remove x \<Rightarrow> map_option (\<lambda>htab. (htab, Removed)) (htab_remove_elt htab x)
     | Find x \<Rightarrow> map_option (\<lambda>(htab, r). (htab, Entry r)) (htab_find htab x))"

fun session :: "htab \<Rightarrow> op list \<Rightarrow> (htab \<times> reply list) option" where
  "session htab [] = Some (htab, [])"
| "session htab (op # ops) =
    (case perform htab op of
       None \<Rightarrow> None
     | Some (htab, r) \<Rightarrow>
         (case session htab ops of None \<Rightarrow> None | Some (htab, rs) \<Rightarrow> Some (htab, r # rs)))"

text \<open>The abstract table is a set; the equality is the client's.\<close>

fun set_step :: "(u64 \<Rightarrow> u64 \<Rightarrow> bool) \<Rightarrow> u64 set \<Rightarrow> op \<Rightarrow> reply \<Rightarrow> u64 set \<Rightarrow> bool" where
  "set_step eq A (Insert x) (Inserted ok) B \<longleftrightarrow> B = (if ok then with_entry eq A x else A)"
| "set_step eq A (Remove x) Removed B \<longleftrightarrow> B = {y \<in> A. \<not> eq y x}"
| "set_step eq A (Find x) (Entry r) B \<longleftrightarrow> B = A \<and> found eq A x r"
| "set_step eq A _ _ B \<longleftrightarrow> False"

fun set_session :: "(u64 \<Rightarrow> u64 \<Rightarrow> bool) \<Rightarrow> u64 set \<Rightarrow> op list \<Rightarrow> reply list \<Rightarrow> u64 set \<Rightarrow> bool" where
  "set_session eq A [] [] B \<longleftrightarrow> B = A"
| "set_session eq A (op # ops) (r # rs) B \<longleftrightarrow>
     (\<exists>C. set_step eq A op r C \<and> set_session eq C ops rs B)"
| "set_session eq A _ _ B \<longleftrightarrow> False"

fun op_live :: "op \<Rightarrow> bool" where
  "op_live (Insert x) = is_live x"
| "op_live _ = True"

lemma contents_finite [simp]: "finite (contents htab)"
  by (simp add: contents_def)

lemma with_entry_card: "finite A \<Longrightarrow> card (with_entry eq A x) \<le> Suc (card A)"
  by (simp add: with_entry_def card_insert_le_m1 card_insert_if)

lemma perform_steps:
  assumes "htab_ok htab" "op_live op" "card (contents htab) \<le> most_elements"
  shows "\<exists>htab' r A. perform htab op = Some (htab', r) \<and> set_step (eq_f htab) (contents htab) op r A
    \<and> becomes htab A htab' \<and> card A \<le> Suc (card (contents htab))
    \<and> ((\<forall>cs. answer htab cs) \<longrightarrow> r \<noteq> Inserted False)"
proof (cases op)
  case (Insert x)
  then have live: "is_live x" using assms(2) by simp
  obtain t ok where t: "htab_insert htab x = Some (t, ok)"
      "becomes htab (if ok then with_entry (eq_f htab) (contents htab) x else contents htab) t"
      "(\<forall>cs. answer htab cs) \<longrightarrow> ok"
    using htab_insert_becomes [OF assms(1) live assms(3)] by blast
  then show ?thesis
    using with_entry_card [of "contents htab" "eq_f htab" x]
    by (intro exI [of _ t] exI [of _ "Inserted ok"]) (auto simp: perform_def Insert)
next
  case (Remove x)
  obtain t where t: "htab_remove_elt htab x = Some t" "becomes htab {y \<in> contents htab. \<not> eq_f htab y x} t"
    using htab_remove_elt_removes [OF assms(1)] by blast
  have "card {y \<in> contents htab. \<not> eq_f htab y x} \<le> card (contents htab)"
    by (rule card_mono) auto
  with t show ?thesis
    by (intro exI [of _ t] exI [of _ Removed]) (simp add: perform_def Remove)
next
  case (Find x)
  obtain t r where t: "htab_find htab x = Some (t, r)" "recounted htab t"
      "found (eq_f htab) (contents htab) x r"
    using htab_find_found [OF assms(1)] by blast
  with becomes_recounted [OF assms(1) t(2)] show ?thesis
    by (intro exI [of _ t] exI [of _ "Entry r"]) (simp add: perform_def Find)
qed

text \<open>C31: A session of insertions, removals and searches on a well-formed table comes to an end at every
  step and answers as the same session on the finite set of its entries; the table stays well
  formed, and with enough memory no insertion is refused. The entries alive and the operations of the
  session together are at most 524286, so that the table keeps to the sizes up to 1048573 slots.
\<close>

theorem htab_session_is_set:
  assumes "htab_ok htab" "list_all op_live ops" "card (contents htab) + length ops \<le> most_elements"
  shows "\<exists>htab' rs. session htab ops = Some (htab', rs) \<and> htab_ok htab'
    \<and> set_session (eq_f htab) (contents htab) ops rs (contents htab')
    \<and> ((\<forall>cs. answer htab cs) \<longrightarrow> Inserted False \<notin> set rs)"
  using assms
proof (induction ops arbitrary: htab)
  case Nil
  then show ?case by simp
next
  case (Cons op ops)
  obtain t r A where t: "perform htab op = Some (t, r)" "set_step (eq_f htab) (contents htab) op r A"
      "becomes htab A t" "card A \<le> Suc (card (contents htab))"
      "(\<forall>cs. answer htab cs) \<longrightarrow> r \<noteq> Inserted False"
    using perform_steps [of htab op] Cons.prems by auto
  have t': "htab_ok t" "contents t = A" "eq_f t = eq_f htab" "answer t = answer htab"
    using t(3) by (simp_all add: becomes_def)
  obtain t2 rs where "session t ops = Some (t2, rs)" "htab_ok t2"
      "set_session (eq_f htab) A ops rs (contents t2)"
      "(\<forall>cs. answer htab cs) \<longrightarrow> Inserted False \<notin> set rs"
    using Cons.IH [of t] Cons.prems(2,3) t(4) t' by auto
  with t show ?case by (intro exI [of _ t2] exI [of _ "r # rs"]) auto
qed

section \<open>New tables\<close>

text \<open>Creating a table: it is empty and well formed, or there was no memory and nothing is left.\<close>

lemma htab_create_alloc_ok:
  assumes "htab_client hash eq" "unat n \<le> 1048573"
  shows "\<exists>cs r. htab_create_alloc a n hash eq del alloc free = Some (cs, r)
    \<and> ((\<forall>cs. a cs) \<longrightarrow> r \<noteq> None)
    \<and> (\<forall>htab. r = Some htab \<longrightarrow> htab_ok htab \<and> contents htab = {} \<and> hash_f htab = hash
          \<and> eq_f htab = eq \<and> answer htab = a \<and> n \<le> htab_size htab \<and> del_f htab = del
          \<and> free_f htab = free)"
proof -
  obtain i where i: "higher_prime_index n = Some i" "i < certified_sizes" "unat n \<le> size_at i"
    by (rule higher_prime_index_certified [OF assms(2)])
  define m :: u64 where "m = ucast (prime (prime_tab ! i))"
  have m: "unat m = size_at i"
    using unat_u32_less [of "prime (prime_tab ! i)"]
    by (simp add: m_def size_at_def unsigned_ucast_eq take_bit_nat_eq_self)
  define b where "b cs = (cleared a cs)\<lparr>hash_f := hash, eq_f := eq, del_f := del, alloc_f := alloc, free_f := free\<rparr>" for cs
  have table: "(cleared a cs)\<lparr>entries := replicate (unat m) HTAB_EMPTY_ENTRY, size := m,
      size_prime_index := i, hash_f := hash, eq_f := eq, del_f := del, alloc_f := alloc, free_f := free\<rparr>
    = b cs\<lparr>entries := replicate (unat m) HTAB_EMPTY_ENTRY, size := m, size_prime_index := i\<rparr>" for cs
    by (simp add: b_def)
  have b: "hash_f (b cs) = hash" "eq_f (b cs) = eq" "answer (b cs) = a" "n_elements (b cs) = 0"
    "n_deleted (b cs) = 0" "del_f (b cs) = del" "free_f (b cs) = free" for cs by (simp_all add: b_def cleared_def)
  have "7 \<le> unat m" using size_at_bounds [OF i(2)] m by simp
  then have "htab_ok (b cs\<lparr>entries := replicate (unat m) HTAB_EMPTY_ENTRY, size := m, size_prime_index := i\<rparr>)" for cs
    using placed_fresh [OF i(2) m, of "b cs"] assms(1) by (simp add: htab_ok_def b)
  moreover have "contents (b cs\<lparr>entries := replicate (unat m) HTAB_EMPTY_ENTRY, size := m, size_prime_index := i\<rparr>) = {}" for cs
    using placed_fresh [OF i(2) m, of "b cs"] assms(1) by (simp add: b)
  moreover have "n \<le> m" using i(3) m by (simp add: word_le_nat_alt)
  ultimately show ?thesis
    using i(1) unfolding htab_create_alloc_def htab_create_typed_alloc_def
    by (auto simp: Let_def m_def [symmetric] table b htab_size_def)
qed

section \<open>Cleaning up\<close>

lemma del_down_deletes:
  "n \<le> length (entries htab) \<Longrightarrow> del_down n htab =
     Some (htab\<lparr>calls := calls htab @ map Del (filter is_live (rev (take n (entries htab))))\<rparr>)"
proof (induction n arbitrary: htab)
  case (Suc n)
  have "take (Suc n) (entries htab) = take n (entries htab) @ [entries htab ! n]"
    using Suc.prems by (simp add: take_Suc_conv_app_nth)
  then show ?case using Suc by (simp add: call_made_def)
qed simp

lemma del_all_deletes:
  assumes "sized htab"
  shows "del_all htab = Some (if del_f htab \<noteq> 0
    then htab\<lparr>calls := calls htab @ map Del (filter is_live (rev (entries htab)))\<rparr> else htab)"
proof -
  note size = sizedD(2-5) [OF assms]
  have u: "unat (size htab - 1) = unat (size htab) - 1"
    using size by (simp add: unat_sub_if' word_le_nat_alt)
  then have "unat (ucast (size htab - 1) :: u32) = unat (size htab) - 1"
    using size by (simp add: unsigned_ucast_eq take_bit_nat_eq_self)
  then have "uint (ucast (size htab - 1) :: u32) = int (unat (size htab) - 1)"
    by (simp only: uint_nat)
  then have "sint (ucast (size htab - 1) :: u32) = int (unat (size htab) - 1)"
    using size by (simp add: sint_uint signed_take_bit_int_eq_self)
  then have "del_all htab = (if del_f htab \<noteq> 0 then del_down (length (entries htab)) htab else Some htab)"
  proof -
    have "nat (int (unat (size htab) - 1)) + 1 = length (entries htab)"
      using size by simp
    then show ?thesis
      unfolding del_all_def htab_size_def Let_def \<open>sint _ = _\<close> by simp
  qed
  then show ?thesis by (simp add: del_down_deletes)
qed

lemma htab_delete_cleans:
  assumes "htab_ok htab" "calls htab = cs"
  shows "\<exists>ds fs. htab_delete htab = Some (cs @ map Del ds @ fs)
    \<and> (if del_f htab \<noteq> 0 then distinct ds \<and> set ds = contents htab else ds = [])
    \<and> fs = (if free_f htab \<noteq> 0 then [Free (free_f htab) Entries, Free (free_f htab) Table]
            else if free_with_arg_f htab \<noteq> 0
            then [Free_arg (free_with_arg_f htab) (alloc_arg htab) Entries,
                  Free_arg (free_with_arg_f htab) (alloc_arg htab) Table]
            else [])"
proof -
  have placed: "placed htab" and sized: "sized htab" using assms(1) by (simp_all add: htab_ok_def placed_def)
  define ds where "ds = (if del_f htab \<noteq> 0 then filter is_live (rev (entries htab)) else [])"
  have set: "set (filter is_live (entries htab)) = contents htab" by (auto simp: contents_def)
  then have "distinct (filter is_live (entries htab))"
    using live_distinct [OF placed] by (intro card_distinct) (simp add: amount_def)
  then have "if del_f htab \<noteq> 0 then distinct ds \<and> set ds = contents htab else ds = []"
    using set by (simp add: ds_def rev_filter [symmetric])
  moreover have "del_all htab = Some (htab\<lparr>calls := cs @ map Del ds\<rparr>)"
    using del_all_deletes [OF sized] assms(2) by (auto simp: ds_def)
  ultimately show ?thesis
    unfolding htab_delete_def
    by (intro exI [of _ ds]) (auto simp: free_call_def call_made_def)
qed

lemma htab_empty_empties:
  assumes "htab_ok htab" "\<forall>cs. answer htab cs"
  shows "\<exists>htab'. htab_empty htab = Some htab' \<and> becomes htab {} htab'
    \<and> filter (\<lambda>c. \<exists>x. c = Del x) (drop (length (calls htab)) (calls htab')) =
        (if del_f htab \<noteq> 0 then map Del (filter is_live (rev (entries htab))) else [])"
proof -
  have placed: "placed htab" and sized: "sized htab" and client: "htab_client (hash_f htab) (eq_f htab)"
    using assms(1) by (simp_all add: htab_ok_def placed_def)
  note size = sizedD(2-5) [OF sized]
  define ds where "ds = (if del_f htab \<noteq> 0 then map Del (filter is_live (rev (entries htab))) else [])"
  define t where "t = htab\<lparr>calls := calls htab @ ds\<rparr>"
  have all: "del_all htab = Some t"
    using del_all_deletes [OF sized] by (auto simp: ds_def t_def)
  have dels: "filter (\<lambda>c. \<exists>x. c = Del x) ds = ds" by (auto simp: ds_def filter_id_conv)
  show ?thesis
  proof (cases "htab_size htab > 1024 * 1024 div 8")
    case False
    define u where "u = t\<lparr>entries := replicate (unat (size htab)) HTAB_EMPTY_ENTRY, size := size htab,
      size_prime_index := size_prime_index htab\<rparr>"
    have "htab_empty htab = Some (t\<lparr>entries := replicate (unat (size htab)) HTAB_EMPTY_ENTRY,
        n_deleted := 0, n_elements := 0\<rparr>)"
      using False size by (simp add: htab_empty_def all htab_size_def t_def Let_def)
    also have "t\<lparr>entries := replicate (unat (size htab)) HTAB_EMPTY_ENTRY,
        n_deleted := 0, n_elements := 0\<rparr> = u\<lparr>n_elements := 0, n_deleted := 0\<rparr>"
      by (simp add: u_def t_def)
    finally have run: "htab_empty htab = Some (u\<lparr>n_elements := 0, n_deleted := 0\<rparr>)" .
    have "placed u" "contents u = {}" "amount P u = (if P HTAB_EMPTY_ENTRY then unat (size htab) else 0)" for P
      unfolding u_def
      by (rule placed_fresh; use sized client in \<open>simp add: sized_def table_size_def t_def\<close>)+
    then have "becomes htab {} (u\<lparr>n_elements := 0, n_deleted := 0\<rparr>)"
      using size by (simp add: becomes_def htab_ok_def placed_update)
        (simp add: u_def t_def)
    moreover have "calls (u\<lparr>n_elements := 0, n_deleted := 0\<rparr>) = calls htab @ ds"
      by (simp add: u_def t_def)
    ultimately show ?thesis using dels by (simp add: run ds_def)
  next
    case True
    obtain i where i: "higher_prime_index (1024 div 8) = Some i" "i < certified_sizes"
      using higher_prime_index_certified [of "1024 div 8"] by auto
    define n :: u64 where "n = ucast (prime (prime_tab ! i))"
    have n: "unat n = size_at i"
      using unat_u32_less [of "prime (prime_tab ! i)"]
      by (simp add: n_def size_at_def unsigned_ucast_eq take_bit_nat_eq_self)
    define v where "v = alloc_call n (free_call Entries t)"
    have v: "hash_f v = hash_f htab" "eq_f v = eq_f htab" "answer v = answer htab" "del_f v = del_f htab"
      "free_f v = free_f htab"
      by (simp_all add: v_def alloc_call_def free_call_def call_made_def t_def)
    define u where "u = v\<lparr>entries := replicate (unat n) HTAB_EMPTY_ENTRY, size := n, size_prime_index := i\<rparr>"
    have "answered v" using assms(2) by (simp add: answered_def v)
    then have run: "htab_empty htab = Some (u\<lparr>n_elements := 0, n_deleted := 0\<rparr>)"
      using True i by (simp add: htab_empty_def all Let_def n_def [symmetric] v_def [symmetric] u_def)
    have "placed u" "contents u = {}" "amount P u = (if P HTAB_EMPTY_ENTRY then unat n else 0)" for P
      unfolding u_def by (rule placed_fresh; use i n client in \<open>simp add: v\<close>)+
    moreover have "7 \<le> unat n" using n size_at_bounds [OF i(2)] by simp
    ultimately have "becomes htab {} (u\<lparr>n_elements := 0, n_deleted := 0\<rparr>)"
      by (simp add: becomes_def htab_ok_def placed_update) (simp add: u_def v)
    moreover have "\<exists>fs. calls (u\<lparr>n_elements := 0, n_deleted := 0\<rparr>) = calls htab @ ds @ fs
        \<and> filter (\<lambda>c. \<exists>x. c = Del x) fs = []"
      by (auto simp: u_def v_def alloc_call_def free_call_def call_made_def t_def)
    ultimately show ?thesis using dels by (auto simp: run ds_def)
  qed
qed

section \<open>Traversing\<close>

text \<open>
  A callback that leaves the entries alone, here one that works on the auxiliary value with the
  entry, is called for every entry in the order of the slots until it asks to stop.
\<close>

fun visit_all :: "(u64 \<Rightarrow> 'i \<Rightarrow> 'i \<times> bool) \<Rightarrow> u64 list \<Rightarrow> 'i \<Rightarrow> 'i" where
  "visit_all f [] info = info"
| "visit_all f (x # xs) info = (case f x info of (info, True) \<Rightarrow> visit_all f xs info | (info, False) \<Rightarrow> info)"

definition reads :: "(u64 \<Rightarrow> 'i \<Rightarrow> 'i \<times> bool) \<Rightarrow> 'i trav" where
  "reads f = (\<lambda>htab slot info. (htab, f (entries htab ! slot) info))"

lemma traverse_loop_visits:
  assumes "i < length (entries htab)" "limit = length (entries htab)"
  shows "traverse_loop (reads f) i limit htab info =
    Some (htab, visit_all f (filter is_live (drop i (entries htab))) info)"
  using assms
proof (induction "limit - i" arbitrary: i info rule: less_induct)
  case less
  define x where "x = entries htab ! i"
  have drop: "drop i (entries htab) = x # drop (Suc i) (entries htab)"
    using less.prems by (simp add: x_def Cons_nth_drop_Suc)
  have last': "drop (Suc i) (entries htab) = []" if "\<not> Suc i < limit" using that less.prems by simp
  have "traverse_loop (reads f) (Suc i) limit htab info' =
      Some (htab, visit_all f (filter is_live (drop (Suc i) (entries htab))) info')" if "Suc i < limit" for info'
    using less.hyps [of "Suc i" info'] less.prems that by simp
  then show ?case
    using less.prems last'
    by (subst traverse_loop.simps)
      (auto simp: drop reads_def x_def [symmetric] split: prod.splits bool.splits)
qed

lemma htab_traverse_visits:
  assumes "htab_ok htab" "card (contents htab) \<le> most_elements" "\<forall>cs. answer htab cs"
  shows "\<exists>htab' xs. htab_traverse htab (reads f) info = Some (htab', visit_all f xs info)
    \<and> becomes htab (contents htab) htab' \<and> distinct xs \<and> set xs = contents htab"
proof -
  have noresize: "\<exists>xs. htab_traverse_noresize t (reads f) info = Some (t, visit_all f xs info)
      \<and> distinct xs \<and> set xs = contents t" if "htab_ok t" for t
  proof -
    have placed: "placed t" and sized: "sized t" using that by (simp_all add: htab_ok_def placed_def)
    have "set (filter is_live (entries t)) = contents t" by (auto simp: contents_def)
    moreover from this have "distinct (filter is_live (entries t))"
      using live_distinct [OF placed] by (intro card_distinct) (simp add: amount_def)
    ultimately show ?thesis
      using sizedD(2,4,5) [OF sized]
      by (auto simp: htab_traverse_noresize_def traverse_loop_visits htab_size_def)
  qed
  show ?thesis
  proof (cases "htab_elements htab * 8 < htab_size htab \<and> htab_size htab > 32")
    case True
    obtain t ok where t: "htab_expand htab = Some (t, ok)" "becomes htab (contents htab) t"
      using htab_expand_becomes [OF assms(1,2)] by blast
    with noresize [of t] show ?thesis
      using True by (auto simp: htab_traverse_def becomes_def)
  next
    case False
    have "becomes htab (contents htab) htab" using assms(1) by (simp add: becomes_def)
    with noresize [OF assms(1)] show ?thesis
      unfolding htab_traverse_def if_not_P [OF False] by blast
  qed
qed

section \<open>Beyond the table of primes\<close>

text \<open>
  With the last size, 4294967291, the sum of index and step does not fit 32 bits: the walk is not
  the one modulo the size.
\<close>

lemma next_index_wraps:
  "next_index 0xfffffff0 0xfffffff0 0xfffffffb = 0xffffffe0"
  "(0xfffffff0 + 0xfffffff0) mod 0xfffffffb = (0xffffffe5 :: nat)"
  by (simp_all add: next_index_def Let_def)

text \<open>For a larger request the loop ends behind the table, whose entry is read before aborting.\<close>

lemma higher_prime_index_none:
  assumes "unat n > 0xfffffffb"
  shows "higher_prime_index n = None"
proof -
  have small: "size_at i \<le> 0xfffffffb" if "i < 30" for i
  proof -
    have "\<forall>n \<in> set (map (\<lambda>e. unat (prime e)) prime_tab). n \<le> 0xfffffffb"
      unfolding sizes by simp
    with that show ?thesis
      by (simp add: size_at_list length_prime_tab)
  qed
  show ?thesis
  proof (cases "higher_prime_index n")
    case (Some i)
    then have "i < 30" "unat n \<le> size_at i" using higher_prime_index_least [of n i] by blast+
    with small [of i] assms show ?thesis by simp
  qed
qed

text \<open>\<^verbatim>\<open>int i = size - 1\<close> is negative for that size: no entry is cleaned up.\<close>

lemma del_all_skips: "size htab = 0xfffffffb \<Longrightarrow> del_all htab = Some htab"
  by (simp add: del_all_def htab_size_def Let_def)

text \<open>Emptying a large table without memory leaves a table without entries, which any search reads.\<close>

lemma htab_empty_unchecked:
  assumes "htab_ok htab" "htab_size htab > 131072" "\<forall>cs. \<not> answer htab cs"
  shows "\<exists>htab'. htab_empty htab = Some htab' \<and> entries htab' = [] \<and> htab_find htab' x = None"
proof -
  have sized: "sized htab" using assms(1) by (simp add: htab_ok_def placed_def)
  obtain t where t: "del_all htab = Some t" "answer t = answer htab"
    using del_all_deletes [OF sized] by auto
  obtain i where i: "higher_prime_index (1024 div 8) = Some i"
    using higher_prime_index_certified [of "1024 div 8"] by auto
  have "\<not> answered (alloc_call n (free_call Entries t))" for n
    using assms(3) t(2) by (simp add: answered_def alloc_call_slots free_call_slots)
  then obtain u where "htab_empty htab = Some u" "entries u = []"
    using assms(2) t(1) i by (simp add: htab_empty_def Let_def)
  then show ?thesis
    by (intro exI [of _ u]) (simp add: htab_find_def htab_find_with_hash_def Let_def)
qed

section \<open>The properties\<close>

text \<open>C32: For every size of the table of primes the two multiplications by an inverse give the remainder of
  the hash by the size and by the size less 2.
\<close>

theorem htab_remainders:
  assumes "i < length prime_tab"
  shows "htab_mod_1 x (prime (prime_tab ! i)) (inv (prime_tab ! i)) (shift (prime_tab ! i))
      = x mod prime (prime_tab ! i)
    \<and> htab_mod_1 x (prime (prime_tab ! i) - 2) (inv_m2 (prime_tab ! i)) (shift (prime_tab ! i))
      = x mod (prime (prime_tab ! i) - 2)"
proof -
  have "prime_tab ! i \<in> set prime_tab" using assms by (rule nth_mem)
  with prime_tab_inverses have ok: "inverse_ok (prime (prime_tab ! i)) (inv (prime_tab ! i)) (shift (prime_tab ! i))"
    "inverse_ok (prime (prime_tab ! i) - 2) (inv_m2 (prime_tab ! i)) (shift (prime_tab ! i))" by blast+
  show ?thesis using htab_mod_1_is_mod [OF ok(1)] htab_mod_1_is_mod [OF ok(2)] by simp
qed

theorem htab_remainders_witness: "htab_mod_1 0xffffffff 8191 0x80041 12 = 0xffffffff mod 8191"
  using htab_remainders [of 10 "0xffffffff"] by (simp add: prime_tab_def ent_def)

text \<open>C33: Deleting a well-formed table calls the client's cleanup function once for every entry, and then
  frees the array and the table. A well-formed table has at most 1048573 slots.
\<close>

theorem htab_delete_cleans_once:
  assumes "htab_ok htab" "del_f htab \<noteq> 0" "free_f htab \<noteq> 0"
  shows "\<exists>ds. htab_delete htab =
      Some (calls htab @ map Del ds @ [Free (free_f htab) Entries, Free (free_f htab) Table])
    \<and> distinct ds \<and> set ds = contents htab"
  using htab_delete_cleans [OF assms(1) refl] assms(2,3) by auto

text \<open>A table of pointers for the instances.\<close>

definition demo_table :: htab where
  "demo_table = the (snd (the (htab_create_alloc (\<lambda>_. True) 5 hash_pointer eq_pointer 16 17 18)))"

lemma demo_table:
  "htab_ok demo_table" "contents demo_table = {}" "eq_f demo_table = eq_pointer"
  "answer demo_table = (\<lambda>_. True)" "del_f demo_table = 16" "free_f demo_table = 18"
proof -
  obtain cs r where "htab_create_alloc (\<lambda>_. True) 5 hash_pointer eq_pointer 16 17 18 = Some (cs, r)"
      "r \<noteq> None" "\<forall>htab. r = Some htab \<longrightarrow> htab_ok htab \<and> contents htab = {} \<and> hash_f htab = hash_pointer
          \<and> eq_f htab = eq_pointer \<and> answer htab = (\<lambda>_. True) \<and> 5 \<le> htab_size htab
          \<and> del_f htab = 16 \<and> free_f htab = 18"
    using htab_create_alloc_ok [OF pointers.htab_client_axioms, of 5 "\<lambda>_. True" 16 17 18] by auto
  then show "htab_ok demo_table" "contents demo_table = {}" "eq_f demo_table = eq_pointer"
    "answer demo_table = (\<lambda>_. True)" "del_f demo_table = 16" "free_f demo_table = 18"
    by (auto simp: demo_table_def)
qed

lemma set_session_length: "set_session eq A ops rs B \<Longrightarrow> length rs = length ops"
  by (induction eq A ops rs B rule: set_session.induct) auto

theorem htab_session_is_set_witness:
  "\<exists>t. session demo_table [Insert 8, Find 8, Remove 8, Find 8] =
      Some (t, [Inserted True, Entry 8, Removed, Entry 0]) \<and> contents t = {}"
proof -
  obtain t rs where t: "session demo_table [Insert 8, Find 8, Remove 8, Find 8] = Some (t, rs)"
      "set_session eq_pointer {} [Insert 8, Find 8, Remove 8, Find 8] rs (contents t)"
      "Inserted False \<notin> set rs"
    using htab_session_is_set [OF demo_table(1), of "[Insert 8, Find 8, Remove 8, Find 8]"]
    by (auto simp: demo_table is_live_def HTAB_EMPTY_ENTRY_def HTAB_DELETED_ENTRY_def most_elements_def)
  obtain r1 r2 r3 r4 where rs: "rs = [r1, r2, r3, r4]"
    using set_session_length [OF t(2)] by (auto simp: length_Suc_conv numeral_eq_Suc)
  have "r1 = Inserted True \<and> r2 = Entry 8 \<and> r3 = Removed \<and> r4 = Entry 0 \<and> contents t = {}"
    using t(2,3) unfolding rs
    by (cases r1; cases r2; cases r3; cases r4)
      (auto simp: with_entry_def eq_pointer_def found_def HTAB_EMPTY_ENTRY_def split: if_splits)
  with t(1) rs show ?thesis by auto
qed

theorem htab_delete_cleans_once_witness:
  "\<exists>t ok cs. htab_insert demo_table 8 = Some (t, ok) \<and>
    htab_delete t = Some (cs @ [Del 8, Free 18 Entries, Free 18 Table])"
proof -
  obtain t where t: "htab_insert demo_table 8 = Some (t, True)"
      "becomes demo_table (with_entry eq_pointer {} 8) t"
    using htab_insert_becomes [OF demo_table(1), of 8]
    by (auto simp: demo_table is_live_def HTAB_EMPTY_ENTRY_def HTAB_DELETED_ENTRY_def most_elements_def)
  then have t': "htab_ok t" "contents t = {8}" "del_f t = 16" "free_f t = 18"
    by (simp_all add: becomes_def with_entry_def demo_table)
  obtain ds where ds: "htab_delete t = Some (calls t @ map Del ds @ [Free 18 Entries, Free 18 Table])"
      "distinct ds" "set ds = {8}"
    using htab_delete_cleans_once [OF t'(1)] by (auto simp: t')
  then have "ds = [8]" by (cases ds; cases "tl ds") (auto simp: insert_eq_iff)
  with t(1) ds(1) show ?thesis by auto
qed

end
