(* ===== verification/Argv.thy ===== *)
theory Argv
  imports Ctype
begin

text \<open>
  Argument vectors, \<^verbatim>\<open>src/binutils-2.42/libiberty/argv.c\<close>: splitting a string into arguments, writing
  arguments so that they can be split again, and the response files \<^verbatim>\<open>@file\<close> of the command lines
  of the tools. A vector is the list of its strings, a string the list of its bytes before the NUL.
\<close>

unbundle bit_operations_syntax

section \<open>argv.c: dupargv, countargv\<close>

text \<open>\<open>None\<close> is the \<^verbatim>\<open>NULL\<close> vector; \<^verbatim>\<open>xmalloc\<close> does not fail.\<close>

definition dupargv :: "bytes list option \<Rightarrow> bytes list option" where
  "dupargv argv = (case argv of None \<Rightarrow> None | Some argv \<Rightarrow> Some (map (\<lambda>s. s) argv))"

text \<open>\<^verbatim>\<open>freeargv\<close> frees the strings and then the vector: what it frees, a string by its index.\<close>

datatype freed_part = String_at nat | Vector

definition freeargv :: "bytes list option \<Rightarrow> freed_part list" where
  "freeargv vector =
    (case vector of None \<Rightarrow> [] | Some argv \<Rightarrow> map String_at [0..<length argv] @ [Vector])"

definition countargv :: "bytes list option \<Rightarrow> nat" where
  "countargv argv = (case argv of None \<Rightarrow> 0 | Some argv \<Rightarrow> length argv)"

section \<open>argv.c: buildargv\<close>

definition ISSPACE :: "u8 \<Rightarrow> bool" where
  "ISSPACE c = sch_test (ucast c) sch_isspace"

definition BACKSLASH :: u8 where "BACKSLASH = 0x5C"
definition SQUOTE :: u8 where "SQUOTE = 0x27"
definition DQUOTE :: u8 where "DQUOTE = 0x22"
definition NEWLINE :: u8 where "NEWLINE = 0x0A"

fun consume_whitespace :: "bytes \<Rightarrow> bytes" where
  "consume_whitespace [] = []"
| "consume_whitespace (c # input) = (if ISSPACE c then consume_whitespace input else c # input)"

fun only_whitespace :: "bytes \<Rightarrow> bool" where
  "only_whitespace [] = True"
| "only_whitespace (c # input) = (if ISSPACE c then only_whitespace input else False)"

record quotes =
  squote :: bool
  dquote :: bool
  bsquote :: bool

text \<open>Scanning one argument: what is left of the input, the quotes still open, the argument.\<close>

fun scan_arg :: "bytes \<Rightarrow> quotes \<Rightarrow> bytes \<Rightarrow> bytes \<times> quotes \<times> bytes" where
  "scan_arg [] q arg = ([], q, arg)"
| "scan_arg (c # input) q arg =
    (if ISSPACE c \<and> \<not> squote q \<and> \<not> dquote q \<and> \<not> bsquote q then (c # input, q, arg)
     else if bsquote q then scan_arg input (q\<lparr>bsquote := False\<rparr>) (arg @ [c])
     else if c = BACKSLASH then scan_arg input (q\<lparr>bsquote := True\<rparr>) arg
     else if squote q then
       if c = SQUOTE then scan_arg input (q\<lparr>squote := False\<rparr>) arg
       else scan_arg input q (arg @ [c])
     else if dquote q then
       if c = DQUOTE then scan_arg input (q\<lparr>dquote := False\<rparr>) arg
       else scan_arg input q (arg @ [c])
     else
       if c = SQUOTE then scan_arg input (q\<lparr>squote := True\<rparr>) arg
       else if c = DQUOTE then scan_arg input (q\<lparr>dquote := True\<rparr>) arg
       else scan_arg input q (arg @ [c]))"

lemma scan_arg_shorter:
  "length (fst (scan_arg input q arg)) + length (snd (snd (scan_arg input q arg))) \<le> length input + length arg"
proof (induction input arbitrary: q arg)
  case (Cons c input)
  have skip: "length (fst (scan_arg input q arg)) + length (snd (snd (scan_arg input q arg)))
      \<le> Suc (length input + length arg)" for q
    using Cons.IH [of q arg] by simp
  have keep: "length (fst (scan_arg input q (arg @ [d]))) + length (snd (snd (scan_arg input q (arg @ [d]))))
      \<le> Suc (length input + length arg)" for q d
    using Cons.IH [of q "arg @ [d]"] by simp
  show ?case by (simp add: skip keep)
qed simp

lemma scan_arg_rest: "length (fst (scan_arg input q arg)) \<le> length input"
proof (induction input arbitrary: q arg)
  case (Cons c input)
  have "length (fst (scan_arg input q arg)) \<le> Suc (length input)" for q arg
    using Cons.IH [of q arg] by simp
  then show ?case by simp
qed simp

lemma consume_shorter: "length (consume_whitespace input) \<le> length input"
  by (induction input) auto

lemma scan_consumed:
  assumes "consume_whitespace input \<noteq> []"
  shows "length (fst (scan_arg (consume_whitespace input) q [])) < length (consume_whitespace input)"
proof -
  obtain c cs where c: "consume_whitespace input = c # cs" using assms by (cases "consume_whitespace input") auto
  then have "\<not> ISSPACE c" by (induction input) (auto split: if_splits)
  have "length (fst (scan_arg cs q' arg')) < Suc (length cs)" for q' arg'
    using scan_arg_rest [of cs q' arg'] by simp
  with \<open>\<not> ISSPACE c\<close> show ?thesis by (simp add: c)
qed

text \<open>
  The loop over the arguments. \<open>maxargc\<close> is the length of the array: it starts with 8 and doubles;
  writing behind it would be \<open>None\<close>. The quotes are not reset between arguments.
\<close>

definition INITIAL_MAXARGC :: nat where "INITIAL_MAXARGC = 8"

definition grown :: "nat \<Rightarrow> nat \<Rightarrow> nat" where
  "grown argc maxargc =
    (if maxargc = 0 \<or> argc \<ge> maxargc - 1 then (if maxargc = 0 then INITIAL_MAXARGC else maxargc * 2)
     else maxargc)"

function buildargv_loop :: "bytes \<Rightarrow> quotes \<Rightarrow> bytes list \<Rightarrow> nat \<Rightarrow> bytes list option" where
  "buildargv_loop input q argv maxargc =
    (let input = consume_whitespace input;
         maxargc = grown (length argv) maxargc
     in if length argv + 1 \<ge> maxargc then None
        else
          let (input, q, arg) = scan_arg input q [];
              argv = argv @ [arg];
              input = consume_whitespace input
          in if input \<noteq> [] then buildargv_loop input q argv maxargc else Some argv)"
  by pat_completeness auto
termination
proof (relation "measure (\<lambda>(input, q, argv, maxargc). length input)", goal_cases)
  case (2 input q argv maxargc i m p rest p' q' arg argv' i')
  then have rest: "rest = fst (scan_arg (consume_whitespace input) q [])" and i': "i' = consume_whitespace rest"
    by (auto simp: fst_conv dest: sym)
  have "consume_whitespace input \<noteq> []"
    using 2 rest i' by auto
  from scan_consumed [OF this, of q] consume_shorter [of input] consume_shorter [of rest]
  show ?case by (simp add: rest [symmetric] i')
qed simp

declare buildargv_loop.simps [simp del]

definition buildargv :: "bytes option \<Rightarrow> bytes list option option" where
  "buildargv input =
    (case input of
       None \<Rightarrow> Some None
     | Some input \<Rightarrow>
         map_option Some (buildargv_loop input \<lparr>squote = False, dquote = False, bsquote = False\<rparr> [] 0))"

section \<open>argv.c: writeargv\<close>

text \<open>A stream: what has been written, and how many bytes it still takes before an error.\<close>

record stream =
  written :: bytes
  room :: nat

definition fputc :: "u8 \<Rightarrow> stream \<Rightarrow> stream option" where
  "fputc c f =
    (if room f = 0 then None else Some (f\<lparr>written := written f @ [c], room := room f - 1\<rparr>))"

text \<open>The bytes of an argument. \<open>None\<close> is the early return after an error.\<close>

fun write_arg :: "bytes \<Rightarrow> stream \<Rightarrow> stream option" where
  "write_arg [] f = Some f"
| "write_arg (c # arg) f =
    (case (if ISSPACE c \<or> c = BACKSLASH \<or> c = SQUOTE \<or> c = DQUOTE then fputc BACKSLASH f else Some f) of
       None \<Rightarrow> None
     | Some f \<Rightarrow> (case fputc c f of None \<Rightarrow> None | Some f \<Rightarrow> write_arg arg f))"

fun writeargv_loop :: "bytes list \<Rightarrow> stream \<Rightarrow> stream option" where
  "writeargv_loop [] f = Some f"
| "writeargv_loop (arg # argv) f =
    (case write_arg arg f of
       None \<Rightarrow> None
     | Some f \<Rightarrow>
         (case (if arg = [] then (case fputc DQUOTE f of None \<Rightarrow> None | Some f \<Rightarrow> fputc DQUOTE f)
                else Some f) of
            None \<Rightarrow> None
          | Some f \<Rightarrow>
              (case fputc NEWLINE f of None \<Rightarrow> None | Some f \<Rightarrow> writeargv_loop argv f)))"

text \<open>The result: the return code, and the stream when all was written.\<close>

definition writeargv :: "bytes list \<Rightarrow> stream option \<Rightarrow> int \<times> stream option" where
  "writeargv argv f =
    (case f of
       None \<Rightarrow> (1, None)
     | Some f \<Rightarrow> (case writeargv_loop argv f of None \<Rightarrow> (1, None) | Some f \<Rightarrow> (0, Some f)))"

section \<open>argv.c: expandargv\<close>

text \<open>
  What the system says of a file name: there is no such path, it is a directory, it cannot be
  opened, it cannot be read, or its contents.
\<close>

datatype at_file = Absent | Directory | Unopenable | Unreadable | Contents bytes

type_synonym files = "bytes \<Rightarrow> at_file"

datatype expanded = Args "bytes list" | Too_many bytes | Is_directory bytes | Overrun

definition AT :: u8 where "AT = 0x40"

definition cstring :: "bytes \<Rightarrow> bytes" where
  "cstring bs = takeWhile (\<lambda>b. b \<noteq> 0) bs"

text \<open>The arguments of a response file; none when it holds white space only.\<close>

definition file_args :: "bytes \<Rightarrow> bytes list option" where
  "file_args bs =
    (let buffer = cstring bs
     in if only_whitespace buffer then Some []
        else case buildargv (Some buffer) of Some (Some argv) \<Rightarrow> Some argv | _ \<Rightarrow> None)"

text \<open>
  The loop \<^verbatim>\<open>while (++i < *argcp)\<close>. The program exits when too many arguments with a leading \<^verbatim>\<open>@\<close>
  have been met or one names a directory; both messages name \<^verbatim>\<open>argv[0]\<close>.
\<close>

function expandargv_loop :: "files \<Rightarrow> nat \<Rightarrow> nat \<Rightarrow> bytes list \<Rightarrow> expanded" where
  "expandargv_loop fs i limit argv =
    (let i = i + 1
     in if i < length argv then
          let filename = argv ! i
          in if filename = [] \<or> hd filename \<noteq> AT then expandargv_loop fs i limit argv
             else if limit - 1 = 0 then Too_many (argv ! 0)
             else
               let limit = limit - 1
               in case fs (tl filename) of
                    Absent \<Rightarrow> expandargv_loop fs i limit argv
                  | Directory \<Rightarrow> Is_directory (argv ! 0)
                  | Unopenable \<Rightarrow> expandargv_loop fs i limit argv
                  | Unreadable \<Rightarrow> expandargv_loop fs i limit argv
                  | Contents bs \<Rightarrow>
                      (case file_args bs of
                         None \<Rightarrow> Overrun
                       | Some file_argv \<Rightarrow>
                           expandargv_loop fs (i - 1) limit (take i argv @ file_argv @ drop (i + 1) argv))
        else Args argv)"
  by pat_completeness auto
termination
  by (relation "measures [\<lambda>(fs, i, limit, argv). limit, \<lambda>(fs, i, limit, argv). length argv - i]") auto

declare expandargv_loop.simps [simp del]

definition expandargv :: "files \<Rightarrow> bytes list \<Rightarrow> expanded" where
  "expandargv fs argv = expandargv_loop fs 0 2000 argv"

section \<open>Splitting what has been written\<close>

lemma ISSPACE_iff: "ISSPACE c \<longleftrightarrow> unat c = 32 \<or> 9 \<le> unat c \<and> unat c \<le> 13"
proof -
  have "low_byte (ucast c) = unat c"
  proof -
    have "(ucast c :: u32) AND 0xff = take_bit 8 (ucast c)"
      by (simp add: take_bit_eq_mask mask_eq_exp_minus_1)
    then show ?thesis
      using unat_u8_less [of c] unfolding low_byte_def
      by (simp add: unsigned_take_bit_eq unsigned_ucast_eq take_bit_nat_eq_self)
  qed
  then show ?thesis using single_categories(7) [of "ucast c"] by (simp add: ISSPACE_def)
qed

lemma special_chars [simp]:
  "\<not> ISSPACE BACKSLASH" "\<not> ISSPACE SQUOTE" "\<not> ISSPACE DQUOTE" "ISSPACE NEWLINE" "\<not> ISSPACE AT"
  "BACKSLASH \<noteq> SQUOTE" "BACKSLASH \<noteq> DQUOTE" "SQUOTE \<noteq> DQUOTE" "SQUOTE \<noteq> BACKSLASH"
  "DQUOTE \<noteq> BACKSLASH" "DQUOTE \<noteq> SQUOTE"
  by (simp_all add: ISSPACE_iff BACKSLASH_def SQUOTE_def DQUOTE_def NEWLINE_def AT_def)

text \<open>What is written for an argument.\<close>

definition escaped :: "u8 \<Rightarrow> bytes" where
  "escaped c = (if ISSPACE c \<or> c = BACKSLASH \<or> c = SQUOTE \<or> c = DQUOTE then [BACKSLASH, c] else [c])"

definition quoted :: "bytes \<Rightarrow> bytes" where
  "quoted arg = (if arg = [] then [DQUOTE, DQUOTE] else concat (map escaped arg)) @ [NEWLINE]"

definition written_argv :: "bytes list \<Rightarrow> bytes" where
  "written_argv argv = concat (map quoted argv)"

definition puts :: "bytes \<Rightarrow> stream \<Rightarrow> stream option" where
  "puts bs f = (if length bs \<le> room f
     then Some (f\<lparr>written := written f @ bs, room := room f - length bs\<rparr>) else None)"

lemma puts_Nil [simp]: "puts [] f = Some f"
  by (simp add: puts_def)

lemma fputc_puts: "fputc c f = puts [c] f"
  by (simp add: fputc_def puts_def Suc_le_eq)

lemma puts_append: "(case puts as f of None \<Rightarrow> None | Some f \<Rightarrow> puts bs f) = puts (as @ bs) f"
  by (auto simp: puts_def)

lemma write_arg_puts: "write_arg arg f = puts (concat (map escaped arg)) f"
proof (induction arg arbitrary: f)
  case (Cons c arg)
  show ?case
    unfolding write_arg.simps fputc_puts Cons.IH puts_append
    by (simp add: escaped_def [of c] puts_append)
qed simp

lemma writeargv_loop_puts: "writeargv_loop argv f = puts (written_argv argv) f"
proof (induction argv arbitrary: f)
  case (Cons arg argv)
  have quotes: "(case puts [DQUOTE] f of None \<Rightarrow> None | Some f \<Rightarrow> puts [DQUOTE] f) = puts [DQUOTE, DQUOTE] f" for f
    by (simp add: puts_append)
  show ?case
  proof (cases "arg = []")
    case True
    then show ?thesis
      unfolding writeargv_loop.simps fputc_puts Cons.IH quotes puts_append
      by (simp add: puts_append quoted_def written_argv_def)
  next
    case False
    then show ?thesis
      unfolding writeargv_loop.simps fputc_puts Cons.IH write_arg_puts puts_append if_not_P [OF False] option.case
      by (simp add: puts_append quoted_def written_argv_def)
  qed
qed (simp add: written_argv_def)

text \<open>Scanning what was written gives the argument back and stops at the newline.\<close>

definition no_quotes :: quotes where
  "no_quotes = \<lparr>squote = False, dquote = False, bsquote = False\<rparr>"

lemma scan_escaped:
  "scan_arg (concat (map escaped arg) @ NEWLINE # rest) no_quotes acc = (NEWLINE # rest, no_quotes, acc @ arg)"
proof (induction arg arbitrary: acc)
  case (Cons c arg)
  have "scan_arg (escaped c @ input) no_quotes acc = scan_arg input no_quotes (acc @ [c])" for input
    by (simp add: escaped_def no_quotes_def)
  with Cons.IH [of "acc @ [c]"] show ?case by simp
qed (simp add: no_quotes_def)

lemma scan_quoted: "scan_arg (quoted arg @ rest) no_quotes [] = (NEWLINE # rest, no_quotes, arg)"
  using scan_escaped [of arg rest "[]"] by (simp add: quoted_def no_quotes_def)

lemma quoted_start: "consume_whitespace (quoted arg @ rest) = quoted arg @ rest"
  by (cases arg) (simp_all add: quoted_def escaped_def)

lemma written_start: "consume_whitespace (written_argv argv) = written_argv argv"
  by (cases argv) (simp_all add: written_argv_def quoted_start)

lemma written_Nil [simp]: "written_argv argv = [] \<longleftrightarrow> argv = []"
  by (cases argv) (simp_all add: written_argv_def quoted_def)

lemma buildargv_loop_written:
  assumes "argv \<noteq> []" "maxargc = 0 \<and> acc = [] \<or> 8 \<le> maxargc \<and> length acc \<le> maxargc - 1"
  shows "buildargv_loop (written_argv argv) no_quotes acc maxargc = Some (acc @ argv)"
  using assms
proof (induction argv arbitrary: acc maxargc)
  case (Cons arg argv)
  define m where "m = grown (length acc) maxargc"
  have m: "8 \<le> m" "length acc + 1 < m"
    using Cons.prems(2) by (auto simp: m_def grown_def INITIAL_MAXARGC_def)
  have start: "consume_whitespace (written_argv (arg # argv)) = quoted arg @ written_argv argv"
    using written_start [of "arg # argv"] by (simp add: written_argv_def)
  have rest: "consume_whitespace (NEWLINE # written_argv argv) = written_argv argv"
    by (simp add: written_start)
  have step: "buildargv_loop (written_argv (arg # argv)) no_quotes acc maxargc =
      (if argv \<noteq> [] then buildargv_loop (written_argv argv) no_quotes (acc @ [arg]) m
       else Some (acc @ [arg]))"
    using m(2) by (subst buildargv_loop.simps)
      (simp add: Let_def start scan_quoted rest m_def [symmetric] written_start [of argv] written_start [of "[]"])
  show ?case
  proof (cases "argv = []")
    case True
    with step show ?thesis by simp
  next
    case False
    have "buildargv_loop (written_argv argv) no_quotes (acc @ [arg]) m = Some ((acc @ [arg]) @ argv)"
      by (rule Cons.IH [OF False]) (use m in simp)
    then show ?thesis using False by (simp add: step)
  qed
qed simp

lemma buildargv_written: "argv \<noteq> [] \<Longrightarrow> buildargv (Some (written_argv argv)) = Some (Some argv)"
  using buildargv_loop_written [of argv 0 "[]"]
  by (simp add: buildargv_def no_quotes_def)

text \<open>
  Splitting never writes behind the array: its length stays above the number of arguments and the
  terminating \<^verbatim>\<open>NULL\<close>.
\<close>

lemma buildargv_loop_bounds:
  "maxargc = 0 \<and> argv = [] \<or> 8 \<le> maxargc \<Longrightarrow> length argv \<le> maxargc - 1 \<Longrightarrow>
    \<exists>argv'. buildargv_loop input q argv maxargc = Some argv'"
proof (induction input q argv maxargc rule: buildargv_loop.induct)
  case (1 input q argv maxargc)
  define m where "m = grown (length argv) maxargc"
  have m: "8 \<le> m" "length argv + 1 < m"
    using 1(2,3) by (auto simp: m_def grown_def INITIAL_MAXARGC_def)
  obtain rest q' arg where scan: "scan_arg (consume_whitespace input) q [] = (rest, q', arg)"
    using prod_cases3 by blast
  show ?case
  proof (cases "consume_whitespace rest = []")
    case True
    then show ?thesis
      using m(2) by (subst buildargv_loop.simps) (simp add: Let_def scan m_def [symmetric])
  next
    case False
    have "\<exists>argv'. buildargv_loop (consume_whitespace rest) q' (argv @ [arg]) m = Some argv'"
      by (rule 1(1) [OF refl m_def _ scan [symmetric] refl refl refl refl False]) (use m in simp_all)
    then show ?thesis
      using False m(2) by (subst buildargv_loop.simps) (simp add: Let_def scan m_def [symmetric])
  qed
qed

lemma buildargv_returns: "\<exists>argv. buildargv (Some input) = Some (Some argv)"
  using buildargv_loop_bounds [of 0 "[]" input] by (auto simp: buildargv_def)

section \<open>What expandargv computes\<close>

text \<open>
  The expansion of a list of arguments, with the number of arguments met that start with \<^verbatim>\<open>@\<close>: an
  argument that is not the name of a response file stays, the others are replaced by what is in
  the file, expanded in turn.
\<close>

definition at_arg :: "bytes \<Rightarrow> bool" where
  "at_arg a \<longleftrightarrow> a \<noteq> [] \<and> hd a = AT"

definition stays :: "files \<Rightarrow> bytes \<Rightarrow> bool" where
  "stays fs a \<longleftrightarrow> at_arg a \<longrightarrow> fs (tl a) \<in> {Absent, Unopenable, Unreadable}"

inductive expands :: "files \<Rightarrow> bytes list \<Rightarrow> nat \<Rightarrow> bytes list \<Rightarrow> bool" for fs where
  nothing: "expands fs [] 0 []"
| plain: "stays fs a \<Longrightarrow> expands fs as n out \<Longrightarrow>
    expands fs (a # as) (n + (if at_arg a then 1 else 0)) (a # out)"
| response: "at_arg a \<Longrightarrow> fs (tl a) = Contents bs \<Longrightarrow> file_args bs = Some new \<Longrightarrow>
    expands fs (new @ as) n out \<Longrightarrow> expands fs (a # as) (Suc n) out"

lemma file_args_returns: "\<exists>new. file_args bs = Some new"
  using buildargv_returns [of "cstring bs"] by (auto simp: file_args_def Let_def)

lemma expandargv_loop_step:
  assumes "argv = front @ a # as" "i + 1 = length front"
  shows "expandargv_loop fs i limit argv =
    (if \<not> at_arg a then expandargv_loop fs (i + 1) limit argv
     else if limit \<le> 1 then Too_many (argv ! 0)
     else case fs (tl a) of
         Directory \<Rightarrow> Is_directory (argv ! 0)
       | Contents bs \<Rightarrow> (case file_args bs of None \<Rightarrow> Overrun
           | Some new \<Rightarrow> expandargv_loop fs i (limit - 1) (front @ new @ as))
       | _ \<Rightarrow> expandargv_loop fs (i + 1) (limit - 1) argv)"
proof -
  have "argv ! (i + 1) = a" "i + 1 < length argv" "take (i + 1) argv = front" "drop (i + 1 + 1) argv = as"
    using assms by (simp_all add: nth_append)
  then show ?thesis
    by (subst expandargv_loop.simps)
      (auto simp: Let_def at_arg_def split: at_file.split option.split)
qed

lemma expandargv_loop_end: "length argv \<le> i + 1 \<Longrightarrow> expandargv_loop fs i limit argv = Args argv"
  by (subst expandargv_loop.simps) simp

lemma expands_runs:
  assumes "expands fs as n out" "n < limit" "i + 1 = length front"
  shows "expandargv_loop fs i limit (front @ as) = Args (front @ out)"
  using assms
proof (induction arbitrary: front i limit rule: expands.induct)
  case nothing
  then show ?case by (simp add: expandargv_loop_end)
next
  case (plain a as n out)
  have "expandargv_loop fs (i + 1) l ((front @ [a]) @ as) = Args ((front @ [a]) @ out)"
    if "n < l" for l
    by (rule plain.IH [OF that]) (use plain.prems in simp)
  then show ?case
    using plain.prems plain.hyps(1) expandargv_loop_step [OF refl plain.prems(2), where a = a and as = as and fs = fs and limit = limit]
    by (auto simp: stays_def split: if_splits)
next
  case (response a bs new as n out)
  then show ?case
    using expandargv_loop_step [OF refl response.prems(2), where a = a and as = as and fs = fs and limit = limit] response.IH [of "limit - 1" i front]
    by simp
qed

lemma runs_expands:
  assumes "expandargv_loop fs i limit (front @ as) = Args argv'" "i + 1 = length front" "0 < limit"
  shows "\<exists>n out. argv' = front @ out \<and> expands fs as n out \<and> n < limit"
  using assms
proof (induction limit arbitrary: i front as rule: less_induct)
  case (less limit)
  note smaller = less.IH
  show ?case
    using less.prems
  proof (induction as arbitrary: i front)
    case Nil
    then show ?case by (intro exI [of _ 0] exI [of _ "[]"]) (simp add: expandargv_loop_end expands.nothing)
  next
    case (Cons a as)
    note run = expandargv_loop_step [OF refl Cons.prems(2), where a = a and as = as and fs = fs and limit = limit]
    have front: "i + 1 + 1 = length (front @ [a])" using Cons.prems(2) by simp
    show ?case
    proof (cases "at_arg a")
      case False
      then have "expandargv_loop fs (i + 1) limit ((front @ [a]) @ as) = Args argv'"
        using Cons.prems(1) run by simp
      from Cons.IH [OF this front Cons.prems(3)] obtain n out where
        "argv' = (front @ [a]) @ out" "expands fs as n out" "n < limit" by blast
      moreover from this(2) have "expands fs (a # as) (n + 0) (a # out)"
        using expands.plain [of fs a as n out] False by (simp add: stays_def)
      ultimately show ?thesis by auto
    next
      case True
      with Cons.prems(1) run have limit: "1 < limit" by (auto split: if_splits)
      then have less: "limit - 1 < limit" "0 < limit - 1" by auto
      show ?thesis
      proof (cases "\<exists>bs. fs (tl a) = Contents bs")
        case True
        then obtain bs where bs: "fs (tl a) = Contents bs" by blast
        obtain new where new: "file_args bs = Some new" using file_args_returns by blast
        have "expandargv_loop fs i (limit - 1) (front @ new @ as) = Args argv'"
          using Cons.prems(1) run \<open>at_arg a\<close> limit bs new by simp
        from smaller [OF less(1) this Cons.prems(2) less(2)] obtain n out where
          n: "argv' = front @ out" "expands fs (new @ as) n out" "n < limit - 1" by blast
        from expands.response [OF \<open>at_arg a\<close> bs new n(2)] n show ?thesis by auto
      next
        case False
        have stays: "stays fs a" and "expandargv_loop fs (i + 1) (limit - 1) ((front @ [a]) @ as) = Args argv'"
          using Cons.prems(1) run \<open>at_arg a\<close> limit False by (auto simp: stays_def split: at_file.splits)
        from smaller [OF less(1) this(2) front less(2)] obtain n out where
          n: "argv' = (front @ [a]) @ out" "expands fs as n out" "n < limit - 1" by blast
        from expands.plain [OF stays n(2)] \<open>at_arg a\<close> n show ?thesis by auto
      qed
    qed
  qed
qed

section \<open>The properties\<close>

text \<open>
  Writing arguments fails exactly when the stream has no room for them, and otherwise appends what
  is split into the same arguments again, whatever bytes they hold.
\<close>

theorem argv_round_trip:
  assumes "argv \<noteq> []"
  shows "(length (written_argv argv) \<le> room f \<longrightarrow>
      (\<exists>f'. writeargv argv (Some f) = (0, Some f') \<and> written f' = written f @ written_argv argv))
    \<and> (room f < length (written_argv argv) \<longrightarrow> writeargv argv (Some f) = (1, None))
    \<and> buildargv (Some (written_argv argv)) = Some (Some argv)"
  using buildargv_written [OF assms] by (auto simp: writeargv_def writeargv_loop_puts puts_def)

text \<open>C34: Expanding a command line always comes to an end, and it gives exactly the expansion of its
  arguments when that meets fewer than 2000 arguments with a leading @ and no directory.
\<close>

theorem expandargv_expands:
  "expandargv fs (prog # args) = Args argv' \<longleftrightarrow>
    (\<exists>n out. n < 2000 \<and> expands fs args n out \<and> argv' = prog # out)"
proof
  assume "expandargv fs (prog # args) = Args argv'"
  then have "expandargv_loop fs 0 2000 ([prog] @ args) = Args argv'" by (simp add: expandargv_def)
  from runs_expands [OF this] show "\<exists>n out. n < 2000 \<and> expands fs args n out \<and> argv' = prog # out"
    by auto
next
  assume "\<exists>n out. n < 2000 \<and> expands fs args n out \<and> argv' = prog # out"
  then obtain n out where "n < 2000" "expands fs args n out" "argv' = prog # out" by blast
  from expands_runs [OF this(2,1), of 0 "[prog]"] this(3) show "expandargv fs (prog # args) = Args argv'"
    by (simp add: expandargv_def)
qed

lemma cstring_written:
  assumes "\<forall>a \<in> set argv. 0 \<notin> set a"
  shows "cstring (written_argv argv) = written_argv argv"
proof -
  have "0 \<notin> set (quoted a)" if "0 \<notin> set a" for a
    using that by (auto simp: quoted_def escaped_def BACKSLASH_def DQUOTE_def NEWLINE_def split: if_splits)
  with assms have "0 \<notin> set (written_argv argv)" by (auto simp: written_argv_def)
  then show ?thesis by (auto simp: cstring_def takeWhile_eq_all_conv)
qed

lemma only_whitespace_iff: "only_whitespace input \<longleftrightarrow> consume_whitespace input = []"
  by (induction input) auto

lemma file_args_written:
  assumes "\<forall>a \<in> set argv. 0 \<notin> set a"
  shows "file_args (written_argv argv) = Some argv"
proof (cases "argv = []")
  case True
  then show ?thesis by (simp add: file_args_def cstring_def written_argv_def)
next
  case False
  then show ?thesis
    by (simp add: file_args_def cstring_written [OF assms] only_whitespace_iff written_start
      buildargv_written Let_def)
qed

lemma expands_plain_args: "\<forall>a \<in> set as. \<not> at_arg a \<Longrightarrow> expands fs as 0 as"
proof (induction as)
  case (Cons a as)
  then have "expands fs (a # as) (0 + (if at_arg a then 1 else 0)) (a # as)"
    by (intro expands.plain) (simp_all add: stays_def)
  with Cons.prems show ?case by simp
qed (simp add: expands.nothing)

text \<open>C35: A response file that writeargv has written stands for the arguments: the command line @file
  expands to them, when no argument holds a NUL or starts with @.
\<close>

theorem response_file_round_trip:
  assumes "writeargv argv (Some f) = (0, Some f')" "written f = []" "fs name = Contents (written f')"
    and "\<forall>a \<in> set argv. 0 \<notin> set a \<and> \<not> at_arg a"
  shows "expandargv fs [prog, AT # name] = Args (prog # argv)"
proof -
  have "written f' = written_argv argv"
    using assms(1,2) by (auto simp: writeargv_def writeargv_loop_puts puts_def split: if_splits)
  moreover have "file_args (written_argv argv) = Some argv"
    by (rule file_args_written) (use assms(4) in blast)
  moreover have "expands fs (argv @ []) 0 argv"
    using expands_plain_args [of argv fs] assms(4) by simp
  ultimately have "expands fs [AT # name] 1 argv"
    using expands.response [of "AT # name" fs _ argv "[]" 0 argv] assms(3) by (simp add: at_arg_def)
  from expands_runs [OF this, of 2000 0 "[prog]"] show ?thesis by (simp add: expandargv_def)
qed

theorem argv_round_trip_witness:
  "buildargv (Some (written_argv [of_string ''a b'', [], of_string ''it's'']))
    = Some (Some [of_string ''a b'', [], of_string ''it's''])"
  using argv_round_trip [of "[of_string ''a b'', [], of_string ''it's'']" undefined] by simp

theorem response_file_round_trip_witness:
  "\<exists>f'. writeargv [of_string ''-o'', of_string ''a b''] (Some \<lparr>written = [], room = 4096\<rparr>) = (0, Some f') \<and>
     expandargv (\<lambda>_. Contents (written f')) [of_string ''ld'', AT # of_string ''args''] =
       Args [of_string ''ld'', of_string ''-o'', of_string ''a b'']"
proof -
  have "length (written_argv [of_string ''-o'', of_string ''a b'']) \<le> 4096"
    by (simp add: written_argv_def quoted_def escaped_def of_string_def)
  then obtain f' where f: "writeargv [of_string ''-o'', of_string ''a b''] (Some \<lparr>written = [], room = 4096\<rparr>) = (0, Some f')"
    by (auto simp: writeargv_def writeargv_loop_puts puts_def)
  have "expandargv (\<lambda>_. Contents (written f')) [of_string ''ld'', AT # of_string ''args''] =
       Args [of_string ''ld'', of_string ''-o'', of_string ''a b'']"
    by (rule response_file_round_trip [OF f]) (simp_all add: of_string_def at_arg_def AT_def)
  with f show ?thesis by blast
qed

text \<open>
  Two thousand arguments that start with @ stop the program even when none of them names a file.
\<close>

lemma expandargv_counts_names:
  assumes "\<forall>a \<in> set args. at_arg a" "length args \<ge> 2000" "\<forall>name. fs name = Absent"
  shows "expandargv fs (prog # args) \<noteq> Args argv'"
proof
  have count: "n = length as" if "expands fs as n out" "\<forall>a \<in> set as. at_arg a" for as n out
    using that by (induction rule: expands.induct) (simp_all add: assms(3))
  assume "expandargv fs (prog # args) = Args argv'"
  then have "expandargv_loop fs 0 2000 ([prog] @ args) = Args argv'" by (simp add: expandargv_def)
  from runs_expands [OF this] obtain n out where "expands fs args n out" "n < 2000" by auto
  with count assms(1,2) show False by fastforce
qed

end
