(* ===== verification/Test_Fsso.thy ===== *)
theory Test_Fsso
  imports Fsso_Correct
begin

text \<open>
  The host test of the file system, \<^verbatim>\<open>src/tools/test_fsso.c\<close>: it loads the image, mounts it with the
  kernel's own \<^verbatim>\<open>fsso.c\<close> (which it includes) and prints \<^verbatim>\<open>hello.txt\<close>. The block reader it links
  against, a stub over the loaded image, is not in the repository: it is the parameter \<open>io\<close>.
\<close>

unbundle bit_operations_syntax

section \<open>main\<close>

text \<open>What is printed, one constructor per \<^verbatim>\<open>printf\<close> with the values shown.\<close>

datatype line =
    No_image
  | Loaded nat
  | Block_11 bytes
  | Not_mounted
  | Mounted
  | Total_blocks u32
  | Total_inodes u32
  | Free_blocks u32
  | Version u32
  | Root_inode u8 u32
  | First_entry u32 bytes
  | No_hello
  | Found_hello u32
  | Unreadable
  | File_contents bytes

text \<open>
  How \<^verbatim>\<open>main\<close> ends: with an exit code, by reading behind the loaded image, or by writing the
  terminating NUL at an index outside \<^verbatim>\<open>file_buffer\<close>.
\<close>

datatype ending = Exit int | Read_outside | Write_outside int

text \<open>The local variables before they are set: any values.\<close>

record test_locals =
  l_fs :: FSSO_Filesystem
  l_root_inode :: FSSO_Inode
  l_inode_num :: u32
  l_file_buffer :: bytes

definition block_11 :: nat where "block_11 = 11 * FSSO_BLOCK_SIZE"

text \<open>Printing with \<^verbatim>\<open>%s\<close>: the bytes before the first NUL.\<close>

definition shown :: "bytes \<Rightarrow> bytes" where
  "shown bs = takeWhile (\<lambda>b. b \<noteq> 0) bs"

text \<open>After mounting: the directory, the file, its contents.\<close>

definition test_hello :: "'s disk_io \<Rightarrow> test_locals \<Rightarrow> FSSO_Filesystem \<Rightarrow> 's \<Rightarrow> line list \<times> ending" where
  "test_hello io l fs s =
    (let (rc, inode_num, s) = fsso_find_in_dir io fs 0 (of_string ''hello.txt'') (l_inode_num l) s in
     if rc \<noteq> 0 then ([No_hello], Exit 1)
     else
       (let (bytes, file_buffer, s) = fsso_read_file io fs inode_num (l_file_buffer l) 1024 s in
        if bytes < 0 then ([Found_hello inode_num, Unreadable], Exit 1)
        else if bytes \<ge> 1024 then ([Found_hello inode_num], Write_outside bytes)
        else
          ([Found_hello inode_num, File_contents (shown (file_buffer[nat bytes := 0]))], Exit 0)))"

definition test_main :: "bytes option \<Rightarrow> 's disk_io \<Rightarrow> test_locals \<Rightarrow> 's \<Rightarrow> line list \<times> ending" where
  "test_main img io l s =
    (case img of
       None \<Rightarrow> ([No_image], Exit 1)
     | Some disk_img \<Rightarrow>
         if length disk_img < block_11 + 32 then ([Loaded (length disk_img)], Read_outside)
         else
           (let out = [Loaded (length disk_img), Block_11 (take 32 (drop block_11 disk_img))];
                (rc, fs, s) = fsso_mount io (l_fs l) s
            in if rc \<noteq> 0 then (out @ [Not_mounted], Exit 1)
               else
                 (let sb = superblock fs;
                      out = out @ [Mounted, Total_blocks (sb_total_blocks sb),
                        Total_inodes (sb_total_inodes sb), Free_blocks (sb_free_blocks sb),
                        Version (sb_version sb)];
                      (rc, root_inode, s) = fsso_read_inode io fs 0 (l_root_inode l) s;
                      out = out @ [Root_inode (i_type root_inode) (i_direct root_inode ! 0)]
                  in if length disk_img < block_11 + sizeof_DirEntry then (out, Read_outside)
                     else
                       (let e = get_direntry ((!) disk_img) block_11;
                            (rest, ending) = test_hello io l fs s
                        in (out @ [First_entry (de_inode e) (shown (de_name e))] @ rest, ending)))))"

section \<open>On the image of mkfsso\<close>

lemma test_hello_overruns:
  assumes disk: "fsso_disk rd content 8192 ok stk" and "ok s" "content s = img2"
    and fs: "superblock fs = superblock (mounted img2)" and buf: "length (l_file_buffer l) = 1024"
  shows "test_hello \<lparr>io_read = rd, io_stack = stk\<rparr> l fs s = ([Found_hello 1], Write_outside 1024)"
proof -
  note same_def = fsso_disk.same_disk_def [OF disk]
  obtain rc i s1 where f: "fsso_find_in_dir \<lparr>io_read = rd, io_stack = stk\<rparr> fs 0 (of_string ''hello.txt'')
      (l_inode_num l) s = (rc, i, s1)" by (metis prod_cases3)
  obtain n out s2 where r: "fsso_read_file \<lparr>io_read = rd, io_stack = stk\<rparr> fs i (l_file_buffer l) 1024 s1
      = (n, out, s2)" by (metis prod_cases3)
  have same: "find_result img2 fs = find_result img2 (mounted img2)"
    "read_result img2 fs = read_result img2 (mounted img2)"
    by (intro ext, simp add: find_result_def read_result_def fs)+
  note onm = image_inode_on_disk [OF image_ok_img2]
  have look: "root_lookup img2 (of_string ''hello.txt'') = Some 1"
    by (simp add: img2_lookup is_cstr_hello)
  from fsso_disk.find_in_dir_disk [OF disk assms(2) _ is_cstr_hello(1) _ f] onm(1) assms(3)
  have f': "(rc, i) = find_result img2 fs 0 (of_string ''hello.txt'') (l_inode_num l)" "ok s1" "content s1 = img2"
    by (simp_all add: same_def is_cstr_hello)
  then have i: "rc = 0" "i = 1"
    by (simp_all add: same find_result_root [OF image_ok_img2] look)
  have "inode_on_disk 8192 img2 1" using onm(2) [OF look] by simp
  with fsso_disk.read_file_disk [OF disk f'(2) _ _ r] f'(3) buf i(2)
  have "(n, out) = read_result img2 fs 1 (l_file_buffer l) 1024" by simp
  then have "n = fst (read_result img2 (mounted img2) 1 (l_file_buffer l) 1024)"
    by (metis same(2) fst_conv)
  then have "n = 1024" by (simp add: img2_read)
  then show ?thesis
    using f r i by (simp add: test_hello_def)
qed

lemma mkfsso_main_writes:
  assumes "mkfsso_main h argc = Some (0, Some d)"
  shows "d = img2"
proof -
  have "2 \<le> argc \<and> h_fopen h \<and> h_calloc h \<and> h_fwrite h = 4096"
    using assms unfolding mkfsso_main_def
    by (auto simp: TOTAL_BLOCKS_def split: if_splits option.splits prod.splits)
  then show ?thesis using mkfsso_main_image assms by simp
qed

text \<open>C24: On an image that main of mkfsso (with line 174 repaired) has written, the test finds hello.txt as inode 1, reads a whole
  block of 1024 bytes and puts the terminating NUL behind its buffer of 1024 bytes.
\<close>

lemma test_fsso_overruns:
  assumes img: "mkfsso_main h argc = Some (0, Some d)" and bs: "bs = get_bytes d 0 (4096 * 1024)"
    and disk: "fsso_disk rd content 8192 ok stk" and s: "ok s" "content s = d"
    and buf: "length (l_file_buffer l) = 1024"
  shows "\<exists>out. test_main (Some bs) \<lparr>io_read = rd, io_stack = stk\<rparr> l s =
    (out @ [Found_hello 1], Write_outside 1024)"
proof -
  note same_def = fsso_disk.same_disk_def [OF disk]
  have d: "d = img2" by (rule mkfsso_main_writes [OF img])
  obtain rc fs s0 where m: "fsso_mount \<lparr>io_read = rd, io_stack = stk\<rparr> (l_fs l) s = (rc, fs, s0)"
    by (metis prod_cases3)
  have "get64 img2 0 = FSSO_MAGIC" using image_ok_img2 unfolding image_ok_def by blast
  with fsso_disk.mount_disk [OF disk s(1) _ m] s(2) d
  have m': "rc = 0" "ok s0" "content s0 = img2" and fs: "superblock fs = superblock (mounted img2)"
    by (simp_all add: mounted_def same_def del: get_le.simps)
  obtain rc' inode s1 where r: "fsso_read_inode \<lparr>io_read = rd, io_stack = stk\<rparr> fs 0 (l_root_inode l) s0
      = (rc', inode, s1)" by (metis prod_cases3)
  have "sb_total_inodes (superblock (mounted img2)) = 512"
    by (rule mounted_inodes [OF image_ok_img2])
  then have "ok s1" "content s1 = img2"
    using fsso_disk.read_inode_disk(3) [OF disk m'(2) _ _ r] m'(3) fs by (simp_all add: same_def)
  from test_hello_overruns [OF disk this fs buf]
  have hello: "test_hello \<lparr>io_read = rd, io_stack = stk\<rparr> l fs s1 = ([Found_hello 1], Write_outside 1024)" .
  have len: "length bs = 4194304" by (simp add: bs)
  have big: "\<not> length bs < block_11 + 32" "\<not> length bs < block_11 + sizeof_DirEntry"
    unfolding len by (simp_all add: block_11_def FSSO_BLOCK_SIZE_def)
  show ?thesis
    unfolding test_main_def option.case if_not_P [OF big(1)] if_not_P [OF big(2)]
    by (simp add: Let_def m m'(1) r hello)
qed

text \<open>A stub as the comment in the test describes it: the disk is the loaded memory.\<close>

definition stub_read :: "mem bdev" where
  "stub_read lba count buf disk = (0, get_bytes disk (unat lba * 512) (unat count * 512), disk)"

lemma stub_disk: "fsso_disk stub_read id n (\<lambda>_. True) (\<lambda>_. replicate 1024 x)"
  by unfold_locales (auto simp: stub_read_def)

lemma test_fsso_overruns_witness:
  "\<exists>out. test_main (Some (get_bytes img2 0 4194304)) \<lparr>io_read = stub_read, io_stack = \<lambda>_. replicate 1024 0\<rparr>
     \<lparr>l_fs = mounted (\<lambda>_. 0), l_root_inode = get_inode (\<lambda>_. 0) 0, l_inode_num = 7,
      l_file_buffer = replicate 1024 0\<rparr> img2 = (out @ [Found_hello 1], Write_outside 1024)"
proof -
  have img: "mkfsso_main \<lparr>h_fopen = True, h_calloc = True, h_fwrite = 4096\<rparr> 2 = Some (0, Some img2)"
    by (simp add: mkfsso_main_image)
  show ?thesis
    by (rule test_fsso_overruns [OF img _ stub_disk]) simp_all
qed

end
