(* ===== verification/Spec2Isabelle.thy ===== *)
theory Spec2Isabelle
  imports Kernel Bootloader_Correct Sha1 Md5 Splay_Session Crc32 Adler32 Ctype Sort_Pointers Bfd_Bytes Leb128_Roundtrip Partition Hashtab_Session Argv Test_Fsso
begin

text \<open>
  A verification development of SimplrOS: a small x86-64 operating system (\<^verbatim>\<open>src/kernel\<close>), the
  tool that builds its disk image (\<^verbatim>\<open>src/tools/mkfsso.c\<close>), its UEFI boot loader (\<^verbatim>\<open>src/bootloader\<close> and the
  EDK2 copy \<^verbatim>\<open>src/SimplrOsPkg\<close>), and parts of the toolchain the repository carries (\<^verbatim>\<open>src/binutils-2.42\<close>).

  \<^bold>\<open>The system.\<close> The boot loader reads \<^verbatim>\<open>kernel.elf\<close>, places its segments and jumps to \<open>kernel_main\<close>, which clears the
  screen, starts the AHCI driver, mounts the file system and enters the shell. The shell reads keys, prints on the
  screen and reads files through \<^verbatim>\<open>fsso.c\<close>, which reads blocks through \<^verbatim>\<open>ahci.c\<close>. The disk comes from \<^verbatim>\<open>mkfsso.c\<close>.

  \<^item> \<open>Prelude\<close>: machine integers, byte memories, C strings and their lemmas (\<open>mem_simps\<close>, \<open>word_bounds\<close>).
  \<^item> \<open>Heap\<close> (\<^verbatim>\<open>memory.c\<close>): \<open>kmalloc\<close> over its offset; blocks of any sequence of calls are disjoint; where the sum wraps.
  \<^item> \<open>Hardware\<close>, \<open>Pci\<close> (\<^verbatim>\<open>pci.c\<close>), \<open>Ahci\<close>, \<open>Ahci_Port\<close>, \<open>Ahci_Start\<close>, \<open>Drivers\<close> (\<^verbatim>\<open>ahci.c\<close>, \<^verbatim>\<open>ahci.h\<close>, \<^verbatim>\<open>ahci_structs.h\<close>): port and
    memory accesses are parameters over a world \<open>'w\<close>; the laws of the devices are the locales \<open>pci_config\<close>, \<open>ahci_probe\<close>,
    \<open>ahci_port\<close> and \<open>ahci_device\<close>. Commands built in memory decode to the transfer asked for; the scan, the choice of
    the port, and how \<open>port_rebase\<close> stops and starts it.
  \<^item> \<open>Block_Device\<close>, \<open>Platform\<close>: the locale \<open>block_dev\<close> between file system and driver, given by \<open>ahci_device\<close>
    (\<open>sublocale\<close>). A controller may write what it likes to the received-FIS area and to the byte count of the command
    header (\<open>posted\<close>). \<open>Platform\<close> is a model machine, which posts both, on which every law holds, so that no contract
    is empty; it is not QEMU and not a machine of the repository.
  \<^item> \<open>Fsso_Layout\<close> (\<^verbatim>\<open>fsso.h\<close>), \<open>Fsso\<close> (\<^verbatim>\<open>fsso.c\<close>), \<open>Fsso_Spec\<close>, \<open>Fsso_Correct\<close>: the functions, what they mean over the bytes of
    a disk, and that they compute it over the driver.
  \<^item> \<open>Mkfsso\<close> (\<^verbatim>\<open>mkfsso.c\<close>), \<open>Bitmap\<close>, \<open>Image_Writes\<close>, \<open>Image\<close>, \<open>Image_Add\<close>, \<open>Image_Main\<close>, \<open>Image_Spec\<close>, \<open>Image_Format\<close>: the
    builder, the well-formedness of images, files added read back by the kernel's functions, others kept. \<open>Image_Spec\<close> has the
    outcomes of \<open>fsso_add_file\<close> as the relation \<open>adds_file\<close>, written by reading the image before and after. All of this is for
    images where no inode is free or the first free one is below 107 (\<open>next_inode_fits\<close>): from 107 on the packed inode table
    runs into the root directory. \<open>mkfsso_main\<close> is \<open>main\<close> with the closing parenthesis that line 174 lacks; as it stands the
    file does not compile, and the program \<^verbatim>\<open>src/tools/mkfsso\<close> beside it has no \<^verbatim>\<open>hello.py\<close>.
  \<^item> \<open>Test_Fsso\<close> (\<^verbatim>\<open>test_fsso.c\<close>): the host test over the kernel's functions; on the builder's image it overruns its buffer.
  \<^item> \<open>Console\<close>, \<open>Keyboard\<close>, \<open>Screen\<close> (\<^verbatim>\<open>kernel.c\<close>, \<^verbatim>\<open>font.h\<close>): scancodes, the font, drawing with 32-bit indices.
  \<^item> \<open>Shell\<close> (\<^verbatim>\<open>shell.c\<close>), \<open>Shell_Text\<close>, \<open>Shell_Session\<close>, \<open>Shell_Machine\<close>: all of the shell; its endless loop is the
    inductive relation \<open>shell_run\<close>, one step per turn; a turn answers the line typed.
  \<^item> \<open>Kernel\<close> (\<^verbatim>\<open>kernel.c\<close>): \<open>kernel_main\<close>, and a session from power-on to the answer of every line, on every machine
    that keeps the locale \<open>machine\<close>, which puts the contracts of the devices together.
  \<^item> \<open>Bootloader\<close>, \<open>Bootloader_Correct\<close> (\<^verbatim>\<open>bootloader.c\<close>, \<^verbatim>\<open>Bootloader.c\<close>): \<open>efi_main\<close> over a firmware parameter, whose
    laws are the locale \<open>uefi_services\<close>: it may write the buffer of the memory map and everything outside the loader's memory.

  \<^bold>\<open>The toolchain.\<close> The library code below is used by the assembler, the linkers and the object file tools.

  \<^item> \<open>Hash_Stream\<close>, \<open>Sha1\<close>, \<open>Md5\<close> (\<^verbatim>\<open>libiberty/sha1.c\<close>, \<^verbatim>\<open>md5.c\<close>): the compression functions are those of FIPS 180 and RFC
    1321; the locale \<open>digest\<close> shows once that the buffering of a message in pieces does not matter.
  \<^item> \<open>Splay_Tree\<close>, \<open>Splay_Order\<close>, \<open>Splay_Session\<close> (\<^verbatim>\<open>libiberty/splay-tree.c\<close>): any calls answer as on a sorted list, under
    the laws \<open>comparator\<close>; allocations and drops balance.
  \<^item> \<open>Crc32\<close>, \<open>Adler32\<close> (\<^verbatim>\<open>libiberty/crc32.c\<close>, \<^verbatim>\<open>zlib/adler32.c\<close>): the checksums against their definitions.
  \<^item> \<open>Ctype\<close> (\<^verbatim>\<open>safe-ctype.c\<close>, \<^verbatim>\<open>hex.c\<close> and headers): the tables and the macros on them.
  \<^item> \<open>Sort_Pointers\<close>, \<open>Partition\<close> (\<^verbatim>\<open>libiberty/sort.c\<close>, \<^verbatim>\<open>partition.c\<close>): the radix sort; unions of circular lists and the
    equivalence they compute.
  \<^item> \<open>Hash_Functions\<close>, \<open>Hashtab\<close> (\<^verbatim>\<open>libiberty/hashtab.c\<close>, \<^verbatim>\<open>include/hashtab.h\<close>): the hash functions and the tables. \<open>Hashtab_Primes\<close>
    certifies the sizes as primes and the division by inverses; \<open>Hashtab_Probe\<close> shows that a search visits every slot;
    \<open>Hashtab_Correct\<close> and \<open>Hashtab_Session\<close> refine the operations to a finite set under the client's laws \<open>htab_client\<close>.
  \<^item> \<open>Argv\<close> (\<^verbatim>\<open>libiberty/argv.c\<close>): what is written with quotes is split into the same arguments; response files over a
    parameter for the file system, against the recursive expansion \<open>expands\<close>.
  \<^item> \<open>Bfd_Bytes\<close> (\<^verbatim>\<open>bfd/libbfd.c\<close>): integers of every size in both byte orders.
  \<^item> \<open>Leb128\<close>, \<open>Leb128_Correct\<close>, \<open>Leb128_Roundtrip\<close> (\<^verbatim>\<open>gas/read.c\<close>, \<^verbatim>\<open>bfd/libbfd.c\<close>, \<^verbatim>\<open>include/leb128.h\<close>, \<^verbatim>\<open>binutils/dwarf.c\<close>):
    what the assembler encodes is what the decoders of these files read, and the status of readelf's decoder is exact. The
    other decoders of the tree (\<^verbatim>\<open>wasm_read_leb128\<close> in \<^verbatim>\<open>bfd\<close> and \<^verbatim>\<open>opcodes\<close>, \<^verbatim>\<open>elf-eh-frame.c\<close>, \<^verbatim>\<open>gold\<close>, \<^verbatim>\<open>gprofng\<close>, the IA-64
    unwinder) are not modelled.

  \<^bold>\<open>Conventions.\<close> A C integer is a word of its width wherever it can wrap; indices that cannot are natural numbers. A loop that
  may not end is a \<open>partial_function (option)\<close>, and that it returns is proved where it does (\<open>port_wait\<close> in \<open>port_rebase\<close>, the keyboard, the
  relabelling of a partition, the LEB128 readers without a bound, the searches of hash tables up to 1048573 slots); there
  is no fuel, except the count of a million polls that \<open>ahci_read\<close> has itself. Uninitialised stack arrays and what lies behind a table are parameters, over which the
  properties hold for all values. Undefined behaviour that matters is the value \<open>None\<close>: an array overrun in \<open>fsso_add_file\<close>,
  a shift by 64 and more in \<^verbatim>\<open>leb128.h\<close>.

  \<^bold>\<open>The program is its source.\<close> The code of the kernel and the loader is not in the memory of the model, so a theorem takes
  for granted that nothing overwrites it. For the kernel linked with \<^verbatim>\<open>linker.ld\<close> this is not so: the driver's areas lie in
  its image (\<open>ahci_areas_in_kernel_image\<close> below). What is said of the driver and of all above it holds for a kernel that
  lies elsewhere.

  \<^bold>\<open>Not modelled.\<close> The formatting of \<open>printf\<close> and \<open>Print\<close>, the block reader that \<^verbatim>\<open>test_fsso.c\<close> links against (it is not in the
  repository), build files. Of the toolchain: the collision ratio of hash tables in floating point, SHA-1 by CPU
  instructions, big-endian hosts, bignums in LEB128, and everything not listed above: the back ends of BFD and the opcode tables for some hundred targets are generated or unrelated to this
  system, and the programs are unmodified third-party code that drives them.
\<close>

section \<open>Where the kernel lives and where the driver writes\<close>

text \<open>The load address of the linker script; the kernel's \<open>.bss\<close> holds the heap array of HEAP_SIZE bytes.\<close>

definition KERNEL_BASE :: nat where
  "KERNEL_BASE = 0x100000"

text \<open>The command list, FIS area and command table of every port lie inside the memory image of the
  kernel itself, which starts at the same address 0x100000 and is at least as long as its heap
  array: port_rebase and ahci_read write over the kernel's own code and data.\<close>

theorem ahci_areas_in_kernel_image:
  assumes "port < 32" "i < 3" "KERNEL_BASE + unat HEAP_SIZE \<le> image_end"
  shows "KERNEL_BASE \<le> fst (port_areas port ! i) \<and> snd (port_areas port ! i) \<le> image_end"
proof -
  have "i = 0 \<or> i = 1 \<or> i = 2" using assms(2) by auto
  then show ?thesis using assms(1,3)
    by (auto simp: port_areas_def unat_regions sizeof_HBA_CMD_TBL_def KERNEL_BASE_def HEAP_SIZE_def)
qed

theorem ahci_areas_in_kernel_image_witness:
  "fst (port_areas 0 ! 0) = 0x100000 \<and> KERNEL_BASE \<le> fst (port_areas 0 ! 0) \<and> snd (port_areas 0 ! 0) \<le> 0x1100000"
  using ahci_areas_in_kernel_image [of 0 0 "0x1100000"] unat_regions(1) [of 0]
  by (simp add: KERNEL_BASE_def HEAP_SIZE_def port_areas_def)

end
